(* ===== verification/Prelude.thy ===== *)
theory Prelude
  imports Main "HOL-Library.Word"
begin

unbundle bit_operations_syntax

text \<open>
  The shared base of the development: the machine types of \<^verbatim>\<open>types.h\<close>, the outcome type and
  the state-and-error monad in which the kernel's stateful code is written, its loops, a
  weakest-precondition operator for total correctness, and the generic facts on lists, options
  and words that several components use.

  A kernel routine of type \<open>('s, 'a) kernel\<close> maps the kernel state to an outcome:
  \<^item> \<open>Ret a s\<close>: it returned \<open>a\<close> in state \<open>s\<close>;
  \<^item> \<open>Panic msg\<close>: it called \<^verbatim>\<open>panic(msg)\<close>, which never returns (\<^verbatim>\<open>console.c\<close>);
  \<^item> \<open>Fault\<close>: it accessed memory outside the object it was given, which C leaves undefined;
  \<^item> \<open>Stuck s\<close>: it spins in state \<open>s\<close>, on a lock that another processor holds or past the
    bound of a loop that may run forever;
  \<^item> \<open>Wait s k\<close>: it gave up the processor in \<^verbatim>\<open>swtch\<close>, leaving the state \<open>s\<close> to the others; when
    the scheduler switches back to it in a state \<open>t\<close>, it goes on as \<open>k t\<close>.
\<close>

section \<open>Machine types\<close>

type_synonym byte = "8 word"
type_synonym u16 = "16 word"
type_synonym u32 = "32 word"

section \<open>Outcomes and the kernel monad\<close>

datatype ('s, 'a) kres =
    Ret 'a 's
  | Panic string
  | Fault
  | Stuck 's
  | Wait 's "'s \<Rightarrow> ('s, 'a) kres"

type_synonym ('s, 'a) kernel = "'s \<Rightarrow> ('s, 'a) kres"

definition kret :: "'a \<Rightarrow> ('s, 'a) kernel" where
  "kret a = (\<lambda>s. Ret a s)"

text \<open>What follows a routine runs on its results, also on those it has after it was resumed.\<close>

primrec kcont :: "('s, 'a) kres \<Rightarrow> ('a \<Rightarrow> ('s, 'b) kernel) \<Rightarrow> ('s, 'b) kres" where
  "kcont (Ret a s) f = f a s"
| "kcont (Panic e) f = Panic e"
| "kcont Fault f = Fault"
| "kcont (Stuck s) f = Stuck s"
| "kcont (Wait s k) f = Wait s (\<lambda>t. kcont (k t) f)"

definition kbind :: "('s, 'a) kernel \<Rightarrow> ('a \<Rightarrow> ('s, 'b) kernel) \<Rightarrow> ('s, 'b) kernel" where
  "kbind m f = (\<lambda>s. kcont (m s) f)"

definition kthen :: "('s, 'a) kernel \<Rightarrow> ('s, 'b) kernel \<Rightarrow> ('s, 'b) kernel" where
  "kthen m n = kbind m (\<lambda>_. n)"

definition kpanic :: "string \<Rightarrow> ('s, 'a) kernel" where
  "kpanic e = (\<lambda>s. Panic e)"

definition kfault :: "('s, 'a) kernel" where
  "kfault = (\<lambda>s. Fault)"

definition kstuck :: "('s, 'a) kernel" where
  "kstuck = (\<lambda>s. Stuck s)"

text \<open>Hand the processor over, and go on in whatever state it comes back.\<close>

definition kyield :: "('s, unit) kernel" where
  "kyield = (\<lambda>s. Wait s (\<lambda>t. Ret () t))"

definition kget :: "('s \<Rightarrow> 'a) \<Rightarrow> ('s, 'a) kernel" where
  "kget f = (\<lambda>s. Ret (f s) s)"

definition kmod :: "('s \<Rightarrow> 's) \<Rightarrow> ('s, unit) kernel" where
  "kmod f = (\<lambda>s. Ret () (f s))"

text \<open>A pure computation that may leave its array bounds, used in the kernel.\<close>

definition kopt :: "'a option \<Rightarrow> ('s, 'a) kernel" where
  "kopt r = (case r of None \<Rightarrow> kfault | Some a \<Rightarrow> kret a)"

definition kwhen :: "bool \<Rightarrow> ('s, unit) kernel \<Rightarrow> ('s, unit) kernel" where
  "kwhen b m = (if b then m else kret ())"

text \<open>A \<^verbatim>\<open>for\<close> loop over the indices it visits, and one that stops with a result.\<close>

primrec kfor :: "'i list \<Rightarrow> ('i \<Rightarrow> ('s, unit) kernel) \<Rightarrow> ('s, unit) kernel" where
  "kfor [] body = kret ()"
| "kfor (i # is) body = kthen (body i) (kfor is body)"

primrec kfind :: "'i list \<Rightarrow> ('i \<Rightarrow> ('s, 'a option) kernel) \<Rightarrow> ('s, 'a option) kernel" where
  "kfind [] body = kret None"
| "kfind (i # is) body =
     kbind (body i) (\<lambda>r. case r of Some a \<Rightarrow> kret (Some a) | None \<Rightarrow> kfind is body)"

named_theorems kernel_simps "equations that run the kernel monad on a state"

lemma kernel_run [kernel_simps]:
  "kret a s = Ret a s"
  "kpanic e s = Panic e"
  "kfault s = Fault"
  "kstuck s = Stuck s"
  "kyield s = Wait s (\<lambda>t. Ret () t)"
  "kget f s = Ret (f s) s"
  "kmod g s = Ret () (g s)"
  by (simp_all add: kret_def kpanic_def kfault_def kstuck_def kyield_def kget_def kmod_def)

declare kcont.simps [kernel_simps]

lemma kbind_run [kernel_simps]: "kbind m f s = kcont (m s) f"
  by (simp add: kbind_def)

lemma kthen_run [kernel_simps]: "kthen m n s = kcont (m s) (\<lambda>_. n)"
  by (simp add: kthen_def kbind_def)

lemma kopt_run [kernel_simps]:
  "kopt None s = Fault" "kopt (Some a) s = Ret a s"
  by (simp_all add: kopt_def kernel_run)

lemma kwhen_run [kernel_simps]:
  "kwhen b m s = (if b then m s else Ret () s)"
  by (simp add: kwhen_def kernel_run)

text \<open>The results a routine may end with, whatever state it is resumed in.\<close>

primrec kleaf :: "('s, 'a) kres \<Rightarrow> 'a \<Rightarrow> 's \<Rightarrow> bool" where
  "kleaf (Ret a s) b t \<longleftrightarrow> a = b \<and> s = t"
| "kleaf (Panic e) b t \<longleftrightarrow> False"
| "kleaf Fault b t \<longleftrightarrow> False"
| "kleaf (Stuck s) b t \<longleftrightarrow> False"
| "kleaf (Wait s k) b t \<longleftrightarrow> (\<exists>u. kleaf (k u) b t)"

lemma kcont_cong: "(\<And>a t. kleaf r a t \<Longrightarrow> f a t = g a t) \<Longrightarrow> kcont r f = kcont r g"
  by (induction r) (auto intro!: ext)

lemma kcont_assoc: "kcont (kcont r f) g = kcont r (\<lambda>a. kbind (f a) g)"
  by (induction r) (auto simp: kbind_def)

lemma kbind_assoc: "kbind (kbind m f) g = kbind m (\<lambda>a. kbind (f a) g)"
  by (rule ext) (simp add: kbind_run kcont_assoc)

lemma kbind_cong [fundef_cong]:
  "m = m' \<Longrightarrow> s = s' \<Longrightarrow> (\<And>a t. kleaf (m' s') a t \<Longrightarrow> f a t = f' a t) \<Longrightarrow>
     kbind m f s = kbind m' f' s'"
  by (auto simp: kbind_def intro: kcont_cong)

lemma kthen_cong [fundef_cong]:
  "m = m' \<Longrightarrow> s = s' \<Longrightarrow> (\<And>a t. kleaf (m' s') a t \<Longrightarrow> n t = n' t) \<Longrightarrow>
     kthen m n s = kthen m' n' s'"
  by (auto simp: kthen_def kbind_def intro: kcont_cong)

lemma kcont_split:
  "P (kcont r f) \<longleftrightarrow> (\<forall>a s. r = Ret a s \<longrightarrow> P (f a s)) \<and> (\<forall>e. r = Panic e \<longrightarrow> P (Panic e))
     \<and> (r = Fault \<longrightarrow> P Fault) \<and> (\<forall>s. r = Stuck s \<longrightarrow> P (Stuck s))
     \<and> (\<forall>s k. r = Wait s k \<longrightarrow> P (Wait s (\<lambda>t. kcont (k t) f)))"
  by (cases r) auto

lemma kcont_eq_Ret: "kcont r f = Ret b t \<longleftrightarrow> (\<exists>a s. r = Ret a s \<and> f a s = Ret b t)"
  by (cases r) auto

lemma kcont_eq_Wait: "kcont r f = Wait t k \<longleftrightarrow>
     (\<exists>a s. r = Ret a s \<and> f a s = Wait t k) \<or> (\<exists>k'. r = Wait t k' \<and> k = (\<lambda>u. kcont (k' u) f))"
  by (cases r) auto

lemma kcont_ret: "kcont r Ret = r"
  by (induction r) auto

lemma kfor_append: "kfor (xs @ ys) body = kthen (kfor xs body) (kfor ys body)"
proof (induction xs)
  case Nil
  show ?case by (simp add: kthen_def kbind_def kret_def)
next
  case (Cons x xs)
  then show ?case by (simp add: kthen_def kbind_assoc)
qed

section \<open>Total correctness\<close>

text \<open>\<open>wp m Q s\<close>: from \<open>s\<close> the routine returns without giving up the processor, and its result
  satisfies \<open>Q\<close>.\<close>

definition wp :: "('s, 'a) kernel \<Rightarrow> ('a \<Rightarrow> 's \<Rightarrow> bool) \<Rightarrow> 's \<Rightarrow> bool" where
  "wp m Q s \<longleftrightarrow> (\<exists>a s'. m s = Ret a s' \<and> Q a s')"

named_theorems wp_simps "how weakest preconditions distribute over the monad"

lemma wp_basic [wp_simps]:
  "wp (kret a) Q s = Q a s"
  "wp (kget f) Q s = Q (f s) s"
  "wp (kmod g) Q' s = Q' () (g s)"
  "wp (kpanic e) Q s = False"
  "wp kfault Q s = False"
  "wp kstuck Q s = False"
  "wp kyield Q' s = False"
  by (simp_all add: wp_def kernel_simps)

lemma wp_kbind [wp_simps]: "wp (kbind m f) Q = wp m (\<lambda>a. wp (f a) Q)"
  by (rule ext) (auto simp: wp_def kbind_run kcont_eq_Ret)

lemma wp_kthen [wp_simps]: "wp (kthen m n) Q = wp m (\<lambda>_. wp n Q)"
  by (simp add: kthen_def wp_kbind)

lemma wp_kwhen [wp_simps]: "wp (kwhen b m) Q s = (if b then wp m Q s else Q () s)"
  by (simp add: kwhen_def wp_simps)

lemma wp_kopt [wp_simps]: "wp (kopt (Some a)) Q s = Q a s" "wp (kopt None) Q s = False"
  by (simp_all add: wp_def kernel_simps)

lemma wp_if [wp_simps]: "wp (if b then m else n) Q s = (if b then wp m Q s else wp n Q s)"
  by simp

lemma wp_mono: "wp m Q s \<Longrightarrow> (\<And>a t. Q a t \<Longrightarrow> R a t) \<Longrightarrow> wp m R s"
  by (auto simp: wp_def)

lemma wp_intro: "m s = Ret a t \<Longrightarrow> Q a t \<Longrightarrow> wp m Q s"
  by (auto simp: wp_def)

lemma wp_elim: "wp m Q s \<Longrightarrow> (\<And>a t. m s = Ret a t \<Longrightarrow> Q a t \<Longrightarrow> P) \<Longrightarrow> P"
  by (auto simp: wp_def)

text \<open>The loop rule: an invariant indexed by the part of the index list still to visit.\<close>

lemma wp_kfor:
  assumes "I is s"
    and "\<And>i js t. I (i # js) t \<Longrightarrow> wp (body i) (\<lambda>_. I js) t"
  shows "wp (kfor is body) (\<lambda>_. I []) s"
  using assms(1)
proof (induction "is" arbitrary: s)
  case Nil
  then show ?case by (simp add: wp_simps)
next
  case (Cons i js)
  from assms(2)[OF Cons.prems] Cons.IH show ?case
    by (auto simp: wp_simps intro: wp_mono)
qed

section \<open>Frames\<close>

text \<open>
  \<open>kframe R m\<close>: the routine never gives up the processor, and when it returns its final state is
  related to the one it began in. For a reflexive and transitive \<open>R\<close> (a \<open>frame\<close>) the rules below
  follow the syntax of a routine, so that which part of the state it leaves alone is found by
  repeated introduction.
\<close>

definition kframe :: "('s \<Rightarrow> 's \<Rightarrow> bool) \<Rightarrow> ('s, 'a) kernel \<Rightarrow> bool" where
  "kframe R m \<longleftrightarrow> (\<forall>s. (\<forall>a t. m s = Ret a t \<longrightarrow> R s t) \<and> (\<forall>t k. m s \<noteq> Wait t k))"

locale frame =
  fixes R :: "'s \<Rightarrow> 's \<Rightarrow> bool"
  assumes frame_refl: "R s s"
    and frame_trans: "R s t \<Longrightarrow> R t u \<Longrightarrow> R s u"
begin

lemma fr_basic:
  "kframe R (kret a)" "kframe R (kpanic e)" "kframe R kfault" "kframe R kstuck" "kframe R (kget f)"
  by (simp_all add: kframe_def kernel_simps frame_refl)

lemma fr_mod: "(\<And>s. R s (g s)) \<Longrightarrow> kframe R (kmod g)"
  by (simp add: kframe_def kernel_simps)

lemma fr_bind: "kframe R m \<Longrightarrow> (\<And>a. kframe R (f a)) \<Longrightarrow> kframe R (kbind m f)"
  unfolding kframe_def kbind_run
  by (auto simp: kcont_eq_Ret kcont_eq_Wait) (meson frame_trans)

lemma fr_then: "kframe R m \<Longrightarrow> kframe R n \<Longrightarrow> kframe R (kthen m n)"
  unfolding kthen_def by (rule fr_bind)

lemma fr_when: "(b \<Longrightarrow> kframe R m) \<Longrightarrow> kframe R (kwhen b m)"
  by (cases b) (simp_all add: kframe_def kernel_simps frame_refl)

lemma fr_opt: "kframe R (kopt r)"
  by (cases r) (simp_all add: kframe_def kernel_simps frame_refl)

lemma fr_if: "(b \<Longrightarrow> kframe R m) \<Longrightarrow> (\<not> b \<Longrightarrow> kframe R n) \<Longrightarrow> kframe R (if b then m else n)"
  by simp

lemma fr_let: "kframe R (f x) \<Longrightarrow> kframe R (let y = x in f y)"
  by simp

lemma fr_prod: "(\<And>a b. x = (a, b) \<Longrightarrow> kframe R (f a b)) \<Longrightarrow> kframe R (case x of (a, b) \<Rightarrow> f a b)"
  by (cases x) simp

lemma fr_option:
  "(x = None \<Longrightarrow> kframe R m) \<Longrightarrow> (\<And>a. x = Some a \<Longrightarrow> kframe R (f a)) \<Longrightarrow>
     kframe R (case x of None \<Rightarrow> m | Some a \<Rightarrow> f a)"
  by (cases x) simp_all

lemma fr_for: "(\<And>i. i \<in> set is \<Longrightarrow> kframe R (body i)) \<Longrightarrow> kframe R (kfor is body)"
  by (induction "is") (auto intro: fr_basic fr_then)

lemma fr_find: "(\<And>i. i \<in> set is \<Longrightarrow> kframe R (body i)) \<Longrightarrow> kframe R (kfind is body)"
  by (induction "is") (auto intro!: fr_basic fr_bind fr_option)

lemmas fr_intros = fr_basic fr_bind fr_then fr_when fr_opt fr_if fr_let fr_prod fr_option fr_for fr_find

end

lemma kframe_mono: "kframe R m \<Longrightarrow> (\<And>s t. R s t \<Longrightarrow> R' s t) \<Longrightarrow> kframe R' m"
  by (auto simp: kframe_def)

lemma kframeD: "kframe R m \<Longrightarrow> m s = Ret a t \<Longrightarrow> R s t"
  by (simp add: kframe_def)

section \<open>Rely and guarantee\<close>

text \<open>
  \<open>rg R G m Q s\<close>: started in \<open>s\<close>, each time the routine hands the processor over the state
  satisfies the guarantee \<open>G\<close>, and if it is resumed only in states that satisfy the rely \<open>R\<close>, the
  result it returns satisfies \<open>Q\<close>. Panics, faults and endless loops are not excluded.
\<close>

primrec rg_res :: "('s \<Rightarrow> bool) \<Rightarrow> ('s \<Rightarrow> bool) \<Rightarrow> ('a \<Rightarrow> 's \<Rightarrow> bool) \<Rightarrow> ('s, 'a) kres \<Rightarrow> bool" where
  "rg_res R G Q (Ret a s) \<longleftrightarrow> Q a s"
| "rg_res R G Q (Panic e) \<longleftrightarrow> True"
| "rg_res R G Q Fault \<longleftrightarrow> True"
| "rg_res R G Q (Stuck s) \<longleftrightarrow> True"
| "rg_res R G Q (Wait s k) \<longleftrightarrow> G s \<and> (\<forall>t. R t \<longrightarrow> rg_res R G Q (k t))"

definition rg :: "('s \<Rightarrow> bool) \<Rightarrow> ('s \<Rightarrow> bool) \<Rightarrow> ('s, 'a) kernel \<Rightarrow> ('a \<Rightarrow> 's \<Rightarrow> bool) \<Rightarrow> 's \<Rightarrow> bool" where
  "rg R G m Q s \<longleftrightarrow> rg_res R G Q (m s)"

named_theorems rg_simps "how rely-guarantee assertions distribute over the monad"

lemma rg_res_kcont: "rg_res R G Q (kcont r f) = rg_res R G (\<lambda>a s. rg_res R G Q (f a s)) r"
  by (induction r) auto

lemma rg_res_mono: "rg_res R G Q r \<Longrightarrow> (\<And>a t. Q a t \<Longrightarrow> Q' a t) \<Longrightarrow> rg_res R G Q' r"
  by (induction r) auto

lemma rg_basic [rg_simps]:
  "rg R G (kret a) Q = Q a"
  "rg R G (kget f) Q s = Q (f s) s"
  "rg R G (kmod g) Q' s = Q' () (g s)"
  "rg R G (kpanic e) Q s"
  "rg R G kfault Q s"
  "rg R G kstuck Q s"
  "rg R G kyield Q' s = (G s \<and> (\<forall>t. R t \<longrightarrow> Q' () t))"
  by (simp_all add: rg_def kernel_simps fun_eq_iff)

lemma rg_bind [rg_simps]: "rg R G (kbind m f) Q = rg R G m (\<lambda>a. rg R G (f a) Q)"
  by (rule ext) (simp add: rg_def [abs_def] kbind_run rg_res_kcont)

lemma rg_then [rg_simps]: "rg R G (kthen m n) Q = rg R G m (\<lambda>_. rg R G n Q)"
  by (simp add: kthen_def rg_bind)

lemma rg_when [rg_simps]: "rg R G (kwhen b m) Q s = (if b then rg R G m Q s else Q () s)"
  by (simp add: kwhen_def rg_simps)

lemma rg_if:
  "(b \<Longrightarrow> rg R G m Q s) \<Longrightarrow> (\<not> b \<Longrightarrow> rg R G n Q s) \<Longrightarrow> rg R G (if b then m else n) Q s"
  by simp

lemma rg_opt [rg_simps]: "rg R G (kopt r) Q s = (\<forall>a. r = Some a \<longrightarrow> Q a s)"
  by (cases r) (simp_all add: kopt_def rg_simps)

lemma rg_mono: "rg R G m Q s \<Longrightarrow> (\<And>a t. Q a t \<Longrightarrow> Q' a t) \<Longrightarrow> rg R G m Q' s"
  unfolding rg_def by (rule rg_res_mono)

lemma rg_frame: "kframe F m \<Longrightarrow> (\<And>a t. F s t \<Longrightarrow> Q a t) \<Longrightarrow> rg R G m Q s"
  unfolding rg_def kframe_def by (cases "m s") auto

lemma kframe_rg:
  assumes "\<And>s. rg (\<lambda>_. True) (\<lambda>_. False) m (\<lambda>_ t. F s t) s"
  shows "kframe F m"
  unfolding kframe_def
proof (intro allI conjI impI notI)
  fix s a t assume "m s = Ret a t" with assms [of s] show "F s t" by (simp add: rg_def)
next
  fix s t k assume "m s = Wait t k" with assms [of s] show False by (simp add: rg_def)
qed

lemma rg_for:
  assumes "I s" and "\<And>i t. i \<in> set is \<Longrightarrow> I t \<Longrightarrow> rg R G (body i) (\<lambda>_. I) t"
  shows "rg R G (kfor is body) (\<lambda>_. I) s"
  using assms
proof (induction "is" arbitrary: s)
  case (Cons i js)
  have "rg R G (body i) (\<lambda>_. I) s" using Cons.prems by simp
  then show ?case
    using Cons.IH Cons.prems(2) by (auto simp: rg_simps elim!: rg_mono)
qed (simp add: rg_simps)

section \<open>Lists\<close>

text \<open>Overwriting a slice of an array, as a \<^verbatim>\<open>memmove\<close> into it does.\<close>

definition overlay :: "nat \<Rightarrow> 'a list \<Rightarrow> 'a list \<Rightarrow> 'a list" where
  "overlay off xs ys = take off ys @ xs @ drop (off + length xs) ys"

lemma length_overlay [simp]: "off + length xs \<le> length ys \<Longrightarrow> length (overlay off xs ys) = length ys"
  by (simp add: overlay_def)

lemma nth_overlay:
  "off + length xs \<le> length ys \<Longrightarrow> i < length ys \<Longrightarrow>
     overlay off xs ys ! i = (if off \<le> i \<and> i < off + length xs then xs ! (i - off) else ys ! i)"
  by (auto simp: overlay_def nth_append min_def)

lemma overlay_read_same:
  "off + length xs \<le> length ys \<Longrightarrow> take (length xs) (drop off (overlay off xs ys)) = xs"
  by (simp add: overlay_def)

lemma overlay_read_before:
  "off + length xs \<le> length ys \<Longrightarrow> i + n \<le> off \<Longrightarrow>
     take n (drop i (overlay off xs ys)) = take n (drop i ys)"
  by (rule nth_equalityI) (auto simp: nth_overlay)

lemma overlay_read_after:
  "off + length xs \<le> length ys \<Longrightarrow> off + length xs \<le> i \<Longrightarrow>
     take n (drop i (overlay off xs ys)) = take n (drop i ys)"
  by (rule nth_equalityI) (auto simp: nth_overlay)

lemma find_index_first:
  assumes "i < n" and "P i" and "\<forall>j < i. \<not> P j"
  shows "find P [0..<n] = Some i"
  using assms by (auto simp: find_Some_iff intro!: exI [of _ i])

end
