(* ===== verification/Locks.thy ===== *)
theory Locks
  imports Prelude
begin

text \<open>
  Spin locks and interrupt nesting (\<^verbatim>\<open>spinlock.c\<close>, \<^verbatim>\<open>spinlock.h\<close>). The lock words of all
  locks, the per-processor nesting counters and the interrupt flag of the processor that runs
  are one record \<open>lockst\<close>, the field \<open>lk\<close> of every kernel state of the development: the other
  components extend the record \<open>kbase\<close>. The call stack that \<^verbatim>\<open>getcallerpcs\<close> saves in a lock for
  debugging is not kept.

  The lemmas show that a critical section that runs on a free lock gives back exactly the lock
  state it found (\<open>lk_rel_acq\<close>), that acquiring a lock twice panics, and that two processors
  never both hold a lock.
\<close>

section \<open>State\<close>

datatype lockid =
    L_ptable | L_kmem | L_bcache | L_icache | L_ftable | L_log | L_ide | L_cons | L_ticks
  | L_pipe nat | L_buf nat | L_inode nat

record spinlock =
  locked :: bool
  lk_cpu :: "nat option"

record cpu =
  ncli :: int
  intena :: bool

record lockst =
  spin :: "lockid \<Rightarrow> spinlock"
  cpus :: "nat \<Rightarrow> cpu"
  me :: nat
  eflags_IF :: bool

record kbase =
  lk :: lockst

section \<open>Operations\<close>

definition initlock :: "lockid \<Rightarrow> ('z kbase_scheme, unit) kernel" where
  "initlock l = kmod (\<lambda>s. s\<lparr>lk := (lk s)\<lparr>spin := (spin (lk s))(l := \<lparr>locked = False, lk_cpu = None\<rparr>)\<rparr>\<rparr>)"

definition mycpu :: "lockst \<Rightarrow> cpu" where
  "mycpu x = cpus x (me x)"

definition set_mycpu :: "cpu \<Rightarrow> lockst \<Rightarrow> lockst" where
  "set_mycpu c x = x\<lparr>cpus := (cpus x)(me x := c)\<rparr>"

text \<open>\<^verbatim>\<open>cli\<close> clears the interrupt flag; \<^verbatim>\<open>intena\<close> records it at the outermost level.\<close>

definition pushcli :: "('z kbase_scheme, unit) kernel" where
  "pushcli = kmod (\<lambda>s. let x = lk s; eflags = eflags_IF x; c = mycpu x;
      c1 = (if ncli c = 0 then c\<lparr>intena := eflags\<rparr> else c)
    in s\<lparr>lk := set_mycpu (c1\<lparr>ncli := ncli c1 + 1\<rparr>) (x\<lparr>eflags_IF := False\<rparr>)\<rparr>)"

definition popcli :: "('z kbase_scheme, unit) kernel" where
  "popcli = (\<lambda>s. let x = lk s; c = mycpu x in
     if eflags_IF x then Panic ''popcli - interruptible''
     else if ncli c - 1 < 0 then Panic ''popcli''
     else Ret () (s\<lparr>lk := (set_mycpu (c\<lparr>ncli := ncli c - 1\<rparr>) x)
                     \<lparr>eflags_IF := (ncli c - 1 = 0 \<and> intena c)\<rparr>\<rparr>))"

definition holding :: "lockid \<Rightarrow> ('z kbase_scheme, bool) kernel" where
  "holding l =
     kthen pushcli
    (kbind (kget (\<lambda>s. locked (spin (lk s) l) \<and> lk_cpu (spin (lk s) l) = Some (me (lk s)))) (\<lambda>r.
     kthen popcli
    (kret r)))"

text \<open>The \<^verbatim>\<open>xchg\<close> loop ends at once on a free lock and spins while the lock is taken.\<close>

definition acquire :: "lockid \<Rightarrow> ('z kbase_scheme, unit) kernel" where
  "acquire l =
     kthen pushcli
    (kbind (holding l) (\<lambda>h.
     if h then kpanic ''acquire''
     else kbind (kget (\<lambda>s. locked (spin (lk s) l))) (\<lambda>taken.
     if taken then kstuck
     else kmod (\<lambda>s. s\<lparr>lk := (lk s)\<lparr>spin := (spin (lk s))
                  (l := \<lparr>locked = True, lk_cpu = Some (me (lk s))\<rparr>)\<rparr>\<rparr>))))"

definition release :: "lockid \<Rightarrow> ('z kbase_scheme, unit) kernel" where
  "release l =
     kbind (holding l) (\<lambda>h.
     if \<not> h then kpanic ''release''
     else kthen (kmod (\<lambda>s. s\<lparr>lk := (lk s)\<lparr>spin := (spin (lk s))
                   (l := \<lparr>locked = False, lk_cpu = None\<rparr>)\<rparr>\<rparr>))
          popcli)"

section \<open>Lock states\<close>

definition lock_free :: "lockid \<Rightarrow> lockst \<Rightarrow> bool" where
  "lock_free l x \<longleftrightarrow> spin x l = \<lparr>locked = False, lk_cpu = None\<rparr>"

definition lock_held :: "lockid \<Rightarrow> lockst \<Rightarrow> bool" where
  "lock_held l x \<longleftrightarrow> spin x l = \<lparr>locked = True, lk_cpu = Some (me x)\<rparr>"

text \<open>
  Between two kernel routines the nesting counter is not negative, interrupts are off inside a
  \<^verbatim>\<open>pushcli\<close> and \<open>intena\<close> agrees with the flag outside of it.
\<close>

definition lk_ok :: "lockst \<Rightarrow> bool" where
  "lk_ok x \<longleftrightarrow> 0 \<le> ncli (mycpu x) \<and> (0 < ncli (mycpu x) \<longrightarrow> \<not> eflags_IF x)
     \<and> (ncli (mycpu x) = 0 \<longrightarrow> intena (mycpu x) = eflags_IF x)"

text \<open>What a successful \<^verbatim>\<open>acquire\<close> and \<^verbatim>\<open>release\<close> do to the lock state.\<close>

definition lk_acq :: "lockid \<Rightarrow> lockst \<Rightarrow> lockst" where
  "lk_acq l x = (set_mycpu ((mycpu x)\<lparr>ncli := ncli (mycpu x) + 1\<rparr>) x)
     \<lparr>eflags_IF := False, spin := (spin x)(l := \<lparr>locked = True, lk_cpu = Some (me x)\<rparr>)\<rparr>"

definition lk_rel :: "lockid \<Rightarrow> lockst \<Rightarrow> lockst" where
  "lk_rel l x = (set_mycpu ((mycpu x)\<lparr>ncli := ncli (mycpu x) - 1\<rparr>) x)
     \<lparr>eflags_IF := (ncli (mycpu x) - 1 = 0 \<and> intena (mycpu x)),
      spin := (spin x)(l := \<lparr>locked = False, lk_cpu = None\<rparr>)\<rparr>"

lemma mycpu_set_mycpu [simp]: "mycpu (set_mycpu c x) = c"
  by (simp add: mycpu_def set_mycpu_def)

lemma set_mycpu_sel [simp]:
  "spin (set_mycpu c x) = spin x" "me (set_mycpu c x) = me x"
  "eflags_IF (set_mycpu c x) = eflags_IF x"
  by (simp_all add: set_mycpu_def)

lemma mycpu_upd [simp]:
  "mycpu (x\<lparr>eflags_IF := b\<rparr>) = mycpu x" "mycpu (x\<lparr>spin := f\<rparr>) = mycpu x"
  by (simp_all add: mycpu_def)

lemma set_mycpu_twice [simp]: "set_mycpu c (set_mycpu d x) = set_mycpu c x"
  by (simp add: set_mycpu_def)

lemma set_mycpu_upd [simp]:
  "set_mycpu c (x\<lparr>eflags_IF := b\<rparr>) = (set_mycpu c x)\<lparr>eflags_IF := b\<rparr>"
  "set_mycpu c (x\<lparr>spin := f\<rparr>) = (set_mycpu c x)\<lparr>spin := f\<rparr>"
  by (simp_all add: set_mycpu_def)

lemma holding_run:
  assumes "lk_ok (lk s)"
  shows "holding l s = Ret (locked (spin (lk s) l) \<and> lk_cpu (spin (lk s) l) = Some (me (lk s))) s"
  using assms
  by (auto simp: holding_def pushcli_def popcli_def kernel_simps Let_def lk_ok_def set_mycpu_def
      mycpu_def intro!: kbase.equality lockst.equality)

lemma acquire_run:
  assumes "lk_ok (lk s)" and "lock_free l (lk s)"
  shows "acquire l s = Ret () (s\<lparr>lk := lk_acq l (lk s)\<rparr>)"
proof -
  let ?x = "lk s"
  let ?y = "(set_mycpu ((mycpu ?x)\<lparr>ncli := ncli (mycpu ?x) + 1\<rparr>) ?x)\<lparr>eflags_IF := False\<rparr>"
  from assms(1) have "(mycpu ?x)\<lparr>intena := eflags_IF ?x\<rparr> = mycpu ?x" if "ncli (mycpu ?x) = 0"
    using that by (simp add: lk_ok_def)
  then have push: "pushcli s = Ret () (s\<lparr>lk := ?y\<rparr>)"
    by (simp add: pushcli_def kernel_simps Let_def)
  from assms(1) have "lk_ok ?y" by (auto simp: lk_ok_def)
  then have h: "holding l (s\<lparr>lk := ?y\<rparr>) = Ret False (s\<lparr>lk := ?y\<rparr>)"
    using assms(2) by (simp add: holding_run lock_free_def)
  show ?thesis
    using assms(2) by (simp add: acquire_def kernel_simps push h lock_free_def lk_acq_def)
qed

lemma release_run:
  assumes "lk_ok (lk s)" and "lock_held l (lk s)" and "0 < ncli (mycpu (lk s))"
  shows "release l s = Ret () (s\<lparr>lk := lk_rel l (lk s)\<rparr>)"
  using assms
  by (simp add: release_def kernel_simps holding_run lock_held_def popcli_def Let_def lk_rel_def
      lk_ok_def)

text \<open>
  At the entry of an interrupt handler the flag is off while \<^verbatim>\<open>intena\<close> still has the value of an earlier \<^verbatim>\<open>pushcli\<close>.
  The first \<^verbatim>\<open>acquire\<close> records the flag again, so \<^verbatim>\<open>intena\<close> plays no role outside of a \<^verbatim>\<open>pushcli\<close>.
\<close>

definition lk_sync :: "lockst \<Rightarrow> lockst" where
  "lk_sync x = (if ncli (mycpu x) = 0 then set_mycpu ((mycpu x)\<lparr>intena := eflags_IF x\<rparr>) x else x)"

lemma acquire_sync: "acquire l (s\<lparr>lk := lk_sync (lk s)\<rparr>) = acquire l s"
  by (simp add: acquire_def kernel_simps pushcli_def lk_sync_def Let_def)

lemma lk_sync_ok:
  assumes "ncli (mycpu x) = 0" and "\<not> eflags_IF x"
  shows "lk_ok (lk_sync x)" "lock_free l (lk_sync x) = lock_free l x" "me (lk_sync x) = me x"
  using assms by (simp_all add: lk_sync_def lk_ok_def lock_free_def)

text \<open>Acquiring a lock this processor holds already panics.\<close>

lemma acquire_twice:
  assumes "lk_ok (lk s)" and "lock_held l (lk s)"
  shows "acquire l s = Panic ''acquire''"
proof -
  let ?x = "lk s"
  obtain c where push: "pushcli s = Ret () (s\<lparr>lk := (set_mycpu c ?x)\<lparr>eflags_IF := False\<rparr>\<rparr>)"
    and c: "0 < ncli c"
    using assms(1) by (auto simp: pushcli_def kernel_simps Let_def lk_ok_def)
  have "lk_ok ((set_mycpu c ?x)\<lparr>eflags_IF := False\<rparr>)"
    using c by (auto simp: lk_ok_def)
  then show ?thesis
    using assms(2) by (simp add: acquire_def kernel_simps push holding_run lock_held_def)
qed

section \<open>Critical sections\<close>

named_theorems lock_simps "how the lock state evolves through critical sections"

lemma lk_rel_acq [lock_simps]:
  assumes "lk_ok x" and "lock_free l x"
  shows "lk_rel l (lk_acq l x) = x"
  using assms
  by (auto simp: lk_rel_def lk_acq_def lock_free_def lk_ok_def set_mycpu_def mycpu_def
      fun_eq_iff intro!: lockst.equality)

lemma lk_ok_acq [lock_simps]: "lk_ok x \<Longrightarrow> lk_ok (lk_acq l x)"
  by (simp add: lk_ok_def lk_acq_def)

lemma ncli_acq [lock_simps]: "ncli (mycpu (lk_acq l x)) = ncli (mycpu x) + 1"
  by (simp add: lk_acq_def)

lemma lk_acq_sel [lock_simps]:
  "me (lk_acq l x) = me x" "intena (mycpu (lk_acq l x)) = intena (mycpu x)"
  by (simp_all add: lk_acq_def)

lemma lock_held_acq [lock_simps]: "lock_held l (lk_acq l x)"
  by (simp add: lock_held_def lk_acq_def)

lemma lock_free_acq [lock_simps]: "l \<noteq> l' \<Longrightarrow> lock_free l (lk_acq l' x) = lock_free l x"
  by (simp add: lock_free_def lk_acq_def)

lemma lk_ok_ncli [lock_simps]: "lk_ok x \<Longrightarrow> 0 \<le> ncli (mycpu x)"
  by (simp add: lk_ok_def)

text \<open>A quiet lock state: every lock is free.\<close>

definition quiet :: "lockst \<Rightarrow> bool" where
  "quiet x \<longleftrightarrow> lk_ok x \<and> (\<forall>l. lock_free l x)"

lemma quietD [lock_simps]: "quiet x \<Longrightarrow> lk_ok x" "quiet x \<Longrightarrow> lock_free l x"
  by (simp_all add: quiet_def)

lemma acquire_quiet:
  "quiet (lk s) \<Longrightarrow> acquire l s = Ret () (s\<lparr>lk := lk_acq l (lk s)\<rparr>)"
  by (simp add: acquire_run lock_simps)

lemma release_acq:
  "lk_ok x \<Longrightarrow> lock_free l x \<Longrightarrow> lk s = lk_acq l x \<Longrightarrow> release l s = Ret () (s\<lparr>lk := x\<rparr>)"
  by (subst release_run) (simp_all add: lock_simps)

lemma release_quiet:
  "quiet x \<Longrightarrow> release l (s\<lparr>lk := lk_acq l x\<rparr>) = Ret () (s\<lparr>lk := x\<rparr>)"
  by (subst release_acq [of x]) (simp_all add: lock_simps)

lemma wp_acquire:
  "lk_ok (lk s) \<Longrightarrow> lock_free l (lk s) \<Longrightarrow> Q () (s\<lparr>lk := lk_acq l (lk s)\<rparr>) \<Longrightarrow> wp (acquire l) Q s"
  by (rule wp_intro [OF acquire_run])

lemma wp_release:
  "lk s = lk_acq l x \<Longrightarrow> lk_ok x \<Longrightarrow> lock_free l x \<Longrightarrow> Q () (s\<lparr>lk := x\<rparr>) \<Longrightarrow> wp (release l) Q s"
  by (rule wp_intro [OF release_acq])

section \<open>What the lock routines leave alone\<close>

definition lk_only :: "'z kbase_scheme \<Rightarrow> 'z kbase_scheme \<Rightarrow> bool" where
  "lk_only s t \<longleftrightarrow> (\<exists>x. me x = me (lk s) \<and> t = s\<lparr>lk := x\<rparr>)"

interpretation lkf: frame lk_only
proof
  show "lk_only s s" for s :: "'a kbase_scheme" unfolding lk_only_def by (intro exI [of _ "lk s"]) simp
  show "lk_only s u" if "lk_only s t" "lk_only t u" for s t u :: "'a kbase_scheme"
    using that by (auto simp: lk_only_def)
qed

lemma lk_onlyI: "me x = me (lk s) \<Longrightarrow> lk_only s (s\<lparr>lk := x\<rparr>)"
  by (auto simp: lk_only_def)

lemma lkf_pushcli: "kframe lk_only pushcli"
  by (auto simp: pushcli_def Let_def intro!: lkf.fr_mod lk_onlyI)

lemma lkf_popcli: "kframe lk_only popcli"
  by (auto simp: popcli_def Let_def kframe_def intro!: lk_onlyI)

lemma lkf_holding: "kframe lk_only (holding l)"
  unfolding holding_def by (intro lkf.fr_intros lkf_pushcli lkf_popcli)

lemma lkf_acquire: "kframe lk_only (acquire l)"
  unfolding acquire_def
  by (intro lkf.fr_intros lkf_pushcli lkf_holding lkf.fr_mod lk_onlyI) simp

lemma lkf_release: "kframe lk_only (release l)"
  unfolding release_def
  by (intro lkf.fr_intros lkf_popcli lkf_holding lkf.fr_mod lk_onlyI) simp

lemmas lkf_ops = lkf_pushcli lkf_popcli lkf_holding lkf_acquire lkf_release

section \<open>Several processors\<close>

text \<open>
  The lock words and counters shared by all processors, the interrupt flag of each, and, for the
  proof, which processor has acquired which lock and not released it. Each step is a whole
  \<^verbatim>\<open>acquire\<close> or \<^verbatim>\<open>release\<close> of one processor: the \<^verbatim>\<open>xchg\<close> that takes a lock is one atomic
  instruction, and the steps before and after it touch the processor's own record only.
\<close>

record mpstate =
  mlk :: lockst
  flags :: "nat \<Rightarrow> bool"
  held :: "(nat \<times> lockid) set"

definition on_cpu :: "nat \<Rightarrow> mpstate \<Rightarrow> kbase" where
  "on_cpu c x = \<lparr>lk = (mlk x)\<lparr>me := c, eflags_IF := flags x c\<rparr>\<rparr>"

definition off_cpu :: "nat \<Rightarrow> kbase \<Rightarrow> (nat \<times> lockid) set \<Rightarrow> mpstate \<Rightarrow> mpstate" where
  "off_cpu c t h x = \<lparr>mlk = lk t, flags = (flags x)(c := eflags_IF (lk t)), held = h\<rparr>"

inductive mp_reach :: "mpstate \<Rightarrow> bool" where
  mp_boot: "(\<And>l. lock_free l (mlk x)) \<Longrightarrow> held x = {} \<Longrightarrow> mp_reach x"
| mp_acquire: "mp_reach x \<Longrightarrow> acquire l (on_cpu c x) = Ret () t \<Longrightarrow>
     mp_reach (off_cpu c t (insert (c, l) (held x)) x)"
| mp_release: "mp_reach x \<Longrightarrow> release l (on_cpu c x) = Ret () t \<Longrightarrow>
     mp_reach (off_cpu c t (held x - {(c, l)}) x)"

lemma acquire_effect:
  assumes "acquire l s = Ret () t"
  shows "\<not> locked (spin (lk s) l)"
    and "spin (lk t) = (spin (lk s))(l := \<lparr>locked = True, lk_cpu = Some (me (lk s))\<rparr>)"
  using assms
  by (auto simp: acquire_def holding_def pushcli_def popcli_def kernel_simps Let_def
      split: if_splits)

lemma release_effect:
  assumes "release l s = Ret () t"
  shows "locked (spin (lk s) l)" and "lk_cpu (spin (lk s) l) = Some (me (lk s))"
    and "spin (lk t) = (spin (lk s))(l := \<lparr>locked = False, lk_cpu = None\<rparr>)"
  using assms
  by (auto simp: release_def holding_def pushcli_def popcli_def kernel_simps Let_def
      split: if_splits)

lemma held_iff:
  "mp_reach x \<Longrightarrow> (c, l) \<in> held x \<longleftrightarrow> locked (spin (mlk x) l) \<and> lk_cpu (spin (mlk x) l) = Some c"
proof (induction arbitrary: c l rule: mp_reach.induct)
  case (mp_boot x)
  then show ?case by (simp add: lock_free_def)
next
  case (mp_acquire x l' c' t)
  then show ?case
    using acquire_effect [OF mp_acquire.hyps(2)] by (auto simp: off_cpu_def on_cpu_def)
next
  case (mp_release x l' c' t)
  then show ?case
    using release_effect [OF mp_release.hyps(2)] by (auto simp: off_cpu_def on_cpu_def)
qed

text \<open>
  C37. However the processors interleave their calls of \<^verbatim>\<open>acquire\<close> and \<^verbatim>\<open>release\<close>, no two of
  them hold the same lock at once.
\<close>

theorem mutual_exclusion:
  assumes "mp_reach x" and "(c, l) \<in> held x" and "(c', l) \<in> held x"
  shows "c = c'"
  using held_iff [OF assms(1)] assms(2,3) by auto

theorem mutual_exclusion_witness:
  "\<exists>x. mp_reach x \<and> (3, L_kmem) \<in> held x \<and> (\<forall>c. (c, L_kmem) \<in> held x \<longrightarrow> c = 3)"
proof -
  define x where "x = \<lparr>mlk = \<lparr>spin = (\<lambda>_. \<lparr>locked = False, lk_cpu = None\<rparr>),
     cpus = (\<lambda>_. \<lparr>ncli = 0, intena = False\<rparr>), me = 0, eflags_IF = False\<rparr>,
     flags = (\<lambda>_. False), held = {}\<rparr>"
  have x: "mp_reach x" by (rule mp_boot) (simp_all add: x_def lock_free_def)
  obtain t where t: "acquire L_kmem (on_cpu 3 x) = Ret () t"
    by (simp add: acquire_def holding_def pushcli_def popcli_def kernel_simps Let_def x_def
        on_cpu_def mycpu_def set_mycpu_def)
  let ?y = "off_cpu 3 t (insert (3, L_kmem) (held x)) x"
  have y: "mp_reach ?y" using x t by (rule mp_acquire)
  have h: "(3, L_kmem) \<in> held ?y" by (simp add: off_cpu_def)
  have "c = 3" if "(c, L_kmem) \<in> held ?y" for c
    by (rule mutual_exclusion [OF y that h])
  with y h show ?thesis by blast
qed

text \<open>
  C38. Acquiring a free lock, running code that leaves the lock state alone, and releasing the
  lock gives back the lock words, the nesting counters and the interrupt flag exactly as they
  were; acquiring it a second time instead panics.
\<close>

theorem critical_section:
  fixes s :: "'z kbase_scheme"
  assumes "lk_ok (lk s)" and "lock_free l (lk s)" and "\<And>t. lk (f t) = lk t"
  shows "wp (kthen (acquire l) (kthen (kmod f) (release l))) (\<lambda>_ t. lk t = lk s) s
    \<and> kthen (acquire l) (kthen (kmod f) (acquire l)) s = Panic ''acquire''"
  using assms
  by (simp add: wp_def kernel_simps acquire_run release_run acquire_twice lock_simps)

theorem critical_section_witness:
  "wp (kthen (acquire L_kmem) (kthen (kmod id) (release L_kmem))) (\<lambda>_ t. eflags_IF (lk t))
     \<lparr>lk = \<lparr>spin = (\<lambda>_. \<lparr>locked = False, lk_cpu = None\<rparr>), cpus = (\<lambda>_. \<lparr>ncli = 0, intena = True\<rparr>),
        me = 0, eflags_IF = True\<rparr>\<rparr>"
  using critical_section [of "\<lparr>lk = \<lparr>spin = (\<lambda>_. \<lparr>locked = False, lk_cpu = None\<rparr>),
      cpus = (\<lambda>_. \<lparr>ncli = 0, intena = True\<rparr>), me = 0, eflags_IF = True\<rparr>\<rparr>" L_kmem id]
  by (simp add: lk_ok_def lock_free_def mycpu_def wp_def) (metis lockst.select_convs(4))

end
