(* ===== verification/Memory.thy ===== *)
theory Memory
  imports Prelude
begin

text \<open>
  Byte-addressed memory and the memory routines of \<^verbatim>\<open>string.c\<close>. An address is a 32-bit word,
  so pointer arithmetic wraps as it does on the machine. \<^verbatim>\<open>memset\<close>, \<^verbatim>\<open>memcmp\<close> and \<^verbatim>\<open>memmove\<close>
  are the source's loops; \<open>fill\<close> and \<open>copy\<close> say what a whole fill or copy does, and the lemmas
  show that the loops compute them: the word-wise fast path of \<^verbatim>\<open>memset\<close> stores the same bytes
  as the byte-wise one, and \<^verbatim>\<open>memmove\<close> is right for overlapping ranges in both directions.
\<close>

section \<open>Memory\<close>

type_synonym memory = "u32 \<Rightarrow> byte"

definition load32 :: "memory \<Rightarrow> u32 \<Rightarrow> u32" where
  "load32 m a = ucast (m a) OR push_bit 8 (ucast (m (a + 1)))
     OR push_bit 16 (ucast (m (a + 2))) OR push_bit 24 (ucast (m (a + 3)))"

definition store32 :: "u32 \<Rightarrow> u32 \<Rightarrow> memory \<Rightarrow> memory" where
  "store32 a v m = m(a := ucast v, a + 1 := ucast (drop_bit 8 v),
     a + 2 := ucast (drop_bit 16 v), a + 3 := ucast (drop_bit 24 v))"

text \<open>Setting the \<open>n\<close> bytes from \<open>a\<close> on, as \<^verbatim>\<open>memset\<close> does.\<close>

definition fill :: "u32 \<Rightarrow> byte \<Rightarrow> nat \<Rightarrow> memory \<Rightarrow> memory" where
  "fill a c n m = (\<lambda>x. if unat (x - a) < n then c else m x)"

text \<open>The bytes of a range copied to another, all read before any is written.\<close>

definition copy :: "u32 \<Rightarrow> u32 \<Rightarrow> nat \<Rightarrow> memory \<Rightarrow> memory" where
  "copy dst src n m = (\<lambda>x. if unat (x - dst) < n then m (src + (x - dst)) else m x)"

section \<open>The routines\<close>

text \<open>The string instructions \<^verbatim>\<open>stosb\<close> and \<^verbatim>\<open>stosl\<close> of \<^verbatim>\<open>x86.h\<close>, one store after the other.\<close>

primrec stosb :: "u32 \<Rightarrow> byte \<Rightarrow> nat \<Rightarrow> memory \<Rightarrow> memory" where
  "stosb a c 0 m = m"
| "stosb a c (Suc n) m = stosb (a + 1) c n (m(a := c))"

primrec stosl :: "u32 \<Rightarrow> u32 \<Rightarrow> nat \<Rightarrow> memory \<Rightarrow> memory" where
  "stosl a v 0 m = m"
| "stosl a v (Suc n) m = stosl (a + 4) v n (store32 a v m)"

definition memset :: "u32 \<Rightarrow> u32 \<Rightarrow> nat \<Rightarrow> memory \<Rightarrow> memory" where
  "memset dst c n m =
     (if dst mod 4 = 0 \<and> n mod 4 = 0 then
        (let c = c AND 0xFF in
         stosl dst (push_bit 24 c OR push_bit 16 c OR push_bit 8 c OR c) (n div 4) m)
      else stosb dst (ucast c) n m)"

primrec memcmp :: "u32 \<Rightarrow> u32 \<Rightarrow> nat \<Rightarrow> memory \<Rightarrow> int" where
  "memcmp s1 s2 0 m = 0"
| "memcmp s1 s2 (Suc n) m =
     (if m s1 \<noteq> m s2 then uint (m s1) - uint (m s2) else memcmp (s1 + 1) (s2 + 1) n m)"

text \<open>The two loops of \<^verbatim>\<open>memmove\<close>: down from the end, and up from the start.\<close>

primrec move_down :: "u32 \<Rightarrow> u32 \<Rightarrow> nat \<Rightarrow> memory \<Rightarrow> memory" where
  "move_down d s 0 m = m"
| "move_down d s (Suc n) m = move_down (d - 1) (s - 1) n (m(d - 1 := m (s - 1)))"

primrec move_up :: "u32 \<Rightarrow> u32 \<Rightarrow> nat \<Rightarrow> memory \<Rightarrow> memory" where
  "move_up d s 0 m = m"
| "move_up d s (Suc n) m = move_up (d + 1) (s + 1) n (m(d := m s))"

definition memmove :: "u32 \<Rightarrow> u32 \<Rightarrow> nat \<Rightarrow> memory \<Rightarrow> memory" where
  "memmove dst src n m =
     (if src < dst \<and> src + of_nat n > dst
      then move_down (dst + of_nat n) (src + of_nat n) n m
      else move_up dst src n m)"

section \<open>Words in memory\<close>

lemma load32_store32_same: "load32 (store32 a v m) a = v"
proof -
  have ne: "a + 1 \<noteq> a" "a + 2 \<noteq> a" "a + 3 \<noteq> a" "a + 2 \<noteq> a + 1" "a + 3 \<noteq> a + 1" "a + 3 \<noteq> a + 2"
    by simp_all
  show ?thesis
  proof (rule bit_word_eqI)
    fix n :: nat assume "n < LENGTH(32)"
    then consider "n < 8" | "8 \<le> n" "n < 16" | "16 \<le> n" "n < 24" | "24 \<le> n" "n < 32"
      by force
    then show "bit (load32 (store32 a v m) a) n = bit v n"
      by cases (auto simp: load32_def store32_def ne ne [symmetric] bit_simps)
  qed
qed

lemma load32_cong:
  assumes "\<And>i. i < 4 \<Longrightarrow> m (a + i) = m' (a + i)"
  shows "load32 m a = load32 m' a"
proof -
  have "m a = m' a" using assms [of 0] by simp
  then show ?thesis using assms by (simp add: load32_def)
qed

lemma store32_outside: "4 \<le> unat (x - a) \<Longrightarrow> store32 a v m x = m x"
  by (auto simp: store32_def)

section \<open>Filling\<close>

lemma unat_pred: "d \<noteq> 0 \<Longrightarrow> unat (d - 1) = unat d - 1" for d :: u32
  by (simp add: unat_sub_if' unat_gt_0 Suc_le_eq)

lemma unat_minus_of_nat: "k \<le> unat d \<Longrightarrow> unat (d - of_nat k) = unat d - k" for d :: u32
  using unsigned_less [of d, where ?'a = nat] by (simp add: unat_sub_if' unat_of_nat)

lemma unat_of_nat_minus: "unat e < n \<Longrightarrow> n < 2 ^ 32 \<Longrightarrow> unat (of_nat n - e) = n - unat e" for e :: u32
  by (simp add: unat_sub_if' unat_of_nat)

lemma stosb_fill: "stosb a c n m = fill a c n m"
proof (induction n arbitrary: a m)
  case 0
  then show ?case by (simp add: fill_def)
next
  case (Suc n)
  show ?case
  proof
    fix x
    have "unat (x - (a + 1)) = unat (x - a) - 1 \<and> 0 < unat (x - a)" if "x \<noteq> a"
      using that unat_pred [of "x - a"] by (simp add: diff_diff_eq unat_gt_0)
    then show "stosb a c (Suc n) m x = fill a c (Suc n) m x"
      using Suc by (cases "x = a") (auto simp: fill_def)
  qed
qed

lemma fill_append:
  assumes "k < 2 ^ 32"
  shows "fill (a + of_nat k) c n (fill a c k m) = fill a c (k + n) m"
proof
  fix x
  have "unat (x - (a + of_nat k)) = unat (x - a) - k" if "k \<le> unat (x - a)"
    using unat_minus_of_nat [OF that] by (simp add: diff_diff_eq)
  then show "fill (a + of_nat k) c n (fill a c k m) x = fill a c (k + n) m x"
    by (cases "k \<le> unat (x - a)") (auto simp: fill_def)
qed

lemma fill_4: "fill a c 4 m = m(a := c, a + 1 := c, a + 2 := c, a + 3 := c)"
proof
  fix x
  have "unat (x - a) < 4 \<longleftrightarrow> x - a = 0 \<or> x - a = 1 \<or> x - a = 2 \<or> x - a = 3"
    by (auto simp: word_unat_eq_iff)
  moreover have "x - a = k \<longleftrightarrow> x = a + k" for k by (auto simp: algebra_simps)
  ultimately show "fill a c 4 m x = (m(a := c, a + 1 := c, a + 2 := c, a + 3 := c)) x"
    by (auto simp: fill_def)
qed

lemma store32_bytes:
  assumes "v = push_bit 24 (ucast c) OR push_bit 16 (ucast c) OR push_bit 8 (ucast c) OR ucast c"
  shows "store32 a v m = fill a c 4 m"
proof -
  have high: "\<not> bit c n" if "8 \<le> n" for n
    using that by (simp add: impossible_bit)
  have "ucast v = c" "ucast (drop_bit 8 v) = c" "ucast (drop_bit 16 v) = c" "ucast (drop_bit 24 v) = c"
    by (rule bit_word_eqI; auto simp: assms bit_simps high)+
  then show ?thesis by (simp add: store32_def fill_4)
qed

lemma stosl_fill:
  assumes "v = push_bit 24 (ucast c) OR push_bit 16 (ucast c) OR push_bit 8 (ucast c) OR ucast c"
  shows "stosl a v n m = fill a c (4 * n) m"
proof (induction n arbitrary: a m)
  case 0
  then show ?case by (simp add: fill_def)
next
  case (Suc n)
  have "stosl a v (Suc n) m = fill (a + of_nat 4) c (4 * n) (fill a c 4 m)"
    using Suc store32_bytes [OF assms] by simp
  then show ?case using fill_append [of 4 a c "4 * n" m] by simp
qed

lemma memset_fill: "memset dst c n m = fill dst (ucast c) n m"
proof (cases "dst mod 4 = 0 \<and> n mod 4 = 0")
  case True
  have "c AND 0xFF = ucast (ucast c :: byte)"
  proof -
    have "c AND mask 8 = ucast (ucast c :: byte)" by (rule bit_word_eqI) (auto simp: bit_simps)
    then show ?thesis by (simp add: mask_eq_exp_minus_1)
  qed
  moreover have "4 * (n div 4) = n" using True by auto
  ultimately show ?thesis
    unfolding memset_def if_P [OF True] by (simp add: stosl_fill Let_def)
next
  case False
  then show ?thesis unfolding memset_def if_not_P [OF False] by (simp add: stosb_fill)
qed

section \<open>Comparing and moving\<close>

lemma memcmp_eq: "memcmp a b n m = 0 \<longleftrightarrow> (\<forall>i < n. m (a + of_nat i) = m (b + of_nat i))"
proof (induction n arbitrary: a b)
  case 0
  then show ?case by simp
next
  case (Suc n)
  have "(\<forall>i < Suc n. P i) \<longleftrightarrow> P 0 \<and> (\<forall>i < n. P (Suc i))" for P
    by (auto simp: less_Suc_eq_0_disj)
  moreover have "m a \<noteq> m b \<Longrightarrow> uint (m a) - uint (m b) \<noteq> 0"
    by (simp add: word_uint_eq_iff)
  ultimately show ?case using Suc by (simp add: algebra_simps)
qed

lemma move_up_copy: "n \<le> unat (d - s) \<Longrightarrow> move_up d s n m = copy d s n m"
proof (induction n arbitrary: d s m)
  case 0
  then show ?case by (simp add: copy_def)
next
  case (Suc n)
  let ?m = "m(d := m s)"
  have "n \<le> unat (d + 1 - (s + 1))" using Suc.prems by simp
  then have IH: "move_up d s (Suc n) m = copy (d + 1) (s + 1) n ?m"
    unfolding move_up.simps by (rule Suc.IH)
  show ?case
  proof
    fix x
    let ?e = "x - d"
    have x: "x - (d + 1) = ?e - 1" and s: "s + 1 + (?e - 1) = s + ?e" by simp_all
    have big: "n < unat (d - s)" "unat (d - s) < 2 ^ 32"
      using Suc.prems unsigned_less [of "d - s", where ?'a = nat] by simp_all
    show "move_up d s (Suc n) m x = copy d s (Suc n) m x"
    proof (cases "?e = 0")
      case True
      have "unat (- 1 :: u32) = 2 ^ 32 - 1" by (simp add: unsigned_minus_1_eq_mask mask_eq_exp_minus_1)
      then show ?thesis using True big unfolding IH by (simp add: copy_def)
    next
      case False
      have "s + ?e \<noteq> d" if "unat ?e < Suc n"
      proof
        assume "s + ?e = d"
        then have "?e = d - s" by (simp add: algebra_simps)
        then show False using that big by simp
      qed
      moreover have "0 < unat ?e" using False by (simp add: unat_gt_0)
      ultimately show ?thesis
        using False unat_pred [OF False] unfolding IH by (auto simp: copy_def x s)
    qed
  qed
qed

lemma move_down_copy:
  "n \<le> unat (s - d) \<Longrightarrow> move_down d s n m = copy (d - of_nat n) (s - of_nat n) n m"
proof (induction n arbitrary: d s m)
  case 0
  then show ?case by (simp add: copy_def)
next
  case (Suc n)
  let ?m = "m(d - 1 := m (s - 1))" and ?D = "d - of_nat (Suc n)" and ?S = "s - of_nat (Suc n)"
  have DS: "d - 1 - of_nat n = ?D" "s - 1 - of_nat n = ?S" by simp_all
  have "n \<le> unat (s - 1 - (d - 1))" using Suc.prems by simp
  then have IH: "move_down d s (Suc n) m = copy ?D ?S n ?m"
    using Suc.IH [of "s - 1" "d - 1" ?m] unfolding DS move_down.simps by blast
  have big: "n < unat (s - d)" "unat (s - d) < 2 ^ 32"
    using Suc.prems unsigned_less [of "s - d", where ?'a = nat] by simp_all
  show ?case
  proof
    fix x
    let ?e = "x - ?D"
    consider "unat ?e < n" | "unat ?e = n" | "n < unat ?e" by linarith
    then show "move_down d s (Suc n) m x = copy ?D ?S (Suc n) m x"
    proof cases
      case 1
      have "?S + ?e \<noteq> d - 1"
      proof
        assume "?S + ?e = d - 1"
        then have "s - d = of_nat n - ?e" by (simp add: algebra_simps)
        moreover have "unat (of_nat n - ?e) = n - unat ?e"
          using 1 big by (intro unat_of_nat_minus) simp_all
        ultimately have "unat (s - d) = n - unat ?e" by (simp only:)
        then show False using big by linarith
      qed
      then show ?thesis using 1 unfolding IH by (simp add: copy_def)
    next
      case 2
      then have "?e = of_nat n" by (metis of_nat_unat ucast_id)
      then have "x = d - 1" and "?S + ?e = s - 1" by (simp_all add: algebra_simps)
      then show ?thesis using 2 unfolding IH by (simp add: copy_def)
    next
      case 3
      have "?e \<noteq> of_nat n"
      proof
        assume eq: "?e = of_nat n"
        have "unat ?e = n" unfolding eq using big by (simp add: unat_of_nat)
        then show False using 3 by linarith
      qed
      then have "x \<noteq> d - 1" by (auto simp: algebra_simps)
      then show ?thesis using 3 unfolding IH by (simp add: copy_def)
    qed
  qed
qed

lemma move_up_id: "move_up d d n m = m"
  by (induction n arbitrary: d) simp_all

lemma memmove_copy:
  assumes "unat src + n < 2 ^ 32" and "unat dst + n < 2 ^ 32"
  shows "memmove dst src n m = copy dst src n m"
proof -
  have n: "unat (of_nat n :: u32) = n" using assms(1) by (simp add: unat_of_nat)
  then have sn: "unat (src + of_nat n) = unat src + n" using assms(1) by (simp add: unat_plus_if')
  consider "src < dst" "src + of_nat n > dst" | "src = dst" | "src < dst" "\<not> src + of_nat n > dst"
    | "dst < src" by fastforce
  then show ?thesis
  proof cases
    case 1
    then have "n \<le> unat (src - dst)" using assms by (simp add: unat_sub_if' word_less_nat_alt)
    then have "n \<le> unat (src + of_nat n - (dst + of_nat n))" by simp
    then show ?thesis using 1 move_down_copy [of n] by (simp add: memmove_def)
  next
    case 2
    then show ?thesis by (auto simp: memmove_def move_up_id copy_def)
  next
    case 3
    then have "n \<le> unat (dst - src)" using sn by (simp add: unat_sub_if' word_less_nat_alt)
    then show ?thesis using 3 by (simp add: memmove_def move_up_copy)
  next
    case 4
    then have "n \<le> unat (dst - src)" using assms by (simp add: unat_sub_if' word_less_nat_alt)
    then show ?thesis using 4 by (auto simp: memmove_def move_up_copy)
  qed
qed

end
