(* ===== verification/Kalloc.thy ===== *)
theory Kalloc
  imports Locks Memory
begin

text \<open>
  Physical memory and the page allocator (\<^verbatim>\<open>kalloc.c\<close>, with the address layout of
  \<^verbatim>\<open>memlayout.h\<close> and the page macros of \<^verbatim>\<open>mmu.h\<close>). Memory is a map from kernel virtual
  addresses to bytes; the free list runs through the free pages themselves, the first word of a
  free page holding the address of the next one (\<^verbatim>\<open>struct run\<close>). \<open>kend\<close> is the linker symbol
  \<^verbatim>\<open>end\<close>, the first address after the kernel image.

  The lemmas show that the pages on the list form a well-formed, duplicate-free stack that
  \<^verbatim>\<open>kfree\<close> pushes and \<^verbatim>\<open>kalloc\<close> pops, and that \<^verbatim>\<open>freerange\<close> terminates.
\<close>

section \<open>Addresses\<close>

definition PGSIZE :: u32 where "PGSIZE = 4096"
definition KERNBASE :: u32 where "KERNBASE = 0x80000000"
definition PHYSTOP :: u32 where "PHYSTOP = 0xE000000"

definition V2P :: "u32 \<Rightarrow> u32" where "V2P a = a - KERNBASE"
definition P2V :: "u32 \<Rightarrow> u32" where "P2V a = a + KERNBASE"

definition PGROUNDUP :: "u32 \<Rightarrow> u32" where
  "PGROUNDUP sz = (sz + PGSIZE - 1) AND NOT (PGSIZE - 1)"

definition PGROUNDDOWN :: "u32 \<Rightarrow> u32" where
  "PGROUNDDOWN a = a AND NOT (PGSIZE - 1)"

section \<open>State\<close>

record kmem_st = kbase +
  mem :: memory
  freelist :: u32
  use_lock :: bool
  kend :: u32

section \<open>The allocator\<close>

text \<open>Free the page at \<open>v\<close>: fill it with junk and push it on the list.\<close>

definition kfree :: "u32 \<Rightarrow> ('z kmem_st_scheme, unit) kernel" where
  "kfree v =
     kbind (kget kend) (\<lambda>e.
     if v mod PGSIZE \<noteq> 0 \<or> v < e \<or> V2P v \<ge> PHYSTOP then kpanic ''kfree''
     else
       kthen (kmod (\<lambda>s. s\<lparr>mem := memset v 1 (unat PGSIZE) (mem s)\<rparr>))
      (kbind (kget use_lock) (\<lambda>ul.
       kthen (kwhen ul (acquire L_kmem))
      (kthen (kmod (\<lambda>s. s\<lparr>mem := store32 v (freelist s) (mem s)\<rparr>))
      (kthen (kmod (\<lambda>s. s\<lparr>freelist := v\<rparr>))
      (kbind (kget use_lock) (\<lambda>ul'.
       kwhen ul' (release L_kmem))))))))"

text \<open>Allocate a page: pop the list; 0 when it is empty.\<close>

definition kalloc :: "('z kmem_st_scheme, u32) kernel" where
  "kalloc =
     kbind (kget use_lock) (\<lambda>ul.
     kthen (kwhen ul (acquire L_kmem))
    (kbind (kget freelist) (\<lambda>r.
     kthen (kwhen (r \<noteq> 0) (kmod (\<lambda>s. s\<lparr>freelist := load32 (mem s) r\<rparr>)))
    (kbind (kget use_lock) (\<lambda>ul'.
     kthen (kwhen ul' (release L_kmem))
    (kret r))))))"

definition pg_aligned :: "u32 \<Rightarrow> bool" where
  "pg_aligned v \<longleftrightarrow> v mod PGSIZE = 0"

definition page_ok :: "u32 \<Rightarrow> u32 \<Rightarrow> bool" where
  "page_ok e v \<longleftrightarrow> pg_aligned v \<and> e \<le> v \<and> V2P v < PHYSTOP"

lemma page_ok_kernel: "page_ok e v \<Longrightarrow> KERNBASE \<le> v \<and> v < KERNBASE + PHYSTOP"
  by (simp add: page_ok_def V2P_def KERNBASE_def PHYSTOP_def word_less_nat_alt word_le_nat_alt
      unat_sub_if' split: if_splits) linarith

lemma page_ok_nonnull: "page_ok e v \<Longrightarrow> v \<noteq> 0"
  by (auto simp: page_ok_def V2P_def KERNBASE_def PHYSTOP_def)

lemma kfree_bad:
  assumes "\<not> page_ok (kend s) v"
  shows "kfree v s = Panic ''kfree''"
proof -
  have bad: "v mod PGSIZE \<noteq> 0 \<or> v < kend s \<or> V2P v \<ge> PHYSTOP"
    using assms unfolding page_ok_def pg_aligned_def by (metis not_less)
  show ?thesis by (simp only: kfree_def kernel_simps if_P [OF bad])
qed

text \<open>The loop of \<^verbatim>\<open>freerange\<close> ends: an address beyond physical memory makes \<^verbatim>\<open>kfree\<close> panic.\<close>

function freerange_loop :: "u32 \<Rightarrow> u32 \<Rightarrow> 'z kmem_st_scheme \<Rightarrow> ('z kmem_st_scheme, unit) kres" where
  "freerange_loop p vend s =
     (if p + PGSIZE \<le> vend
      then kthen (kfree p) (\<lambda>t. freerange_loop (p + PGSIZE) vend t) s
      else Ret () s)"
  by pat_completeness auto
termination
proof (relation "measure (\<lambda>(p, _, _). 2 ^ 32 - unat p)", simp, clarsimp)
  fix p vend :: u32 and s t :: "'a kmem_st_scheme"
  assume "kleaf (kfree p s) () t"
  then have "page_ok (kend s) p" using kfree_bad [of s p] by fastforce
  then have "p < KERNBASE + PHYSTOP" using page_ok_kernel by blast
  then have "unat p < unat (p + PGSIZE)"
    by (simp add: KERNBASE_def PHYSTOP_def PGSIZE_def word_less_nat_alt unat_plus_if')
  then show "4294967296 - unat (p + PGSIZE) < 4294967296 - unat p"
    using unsigned_less [of p, where ?'a = nat] by simp
qed

declare freerange_loop.simps [simp del]

definition freerange :: "u32 \<Rightarrow> u32 \<Rightarrow> ('z kmem_st_scheme, unit) kernel" where
  "freerange vstart vend = freerange_loop (PGROUNDUP vstart) vend"

definition kinit1 :: "u32 \<Rightarrow> u32 \<Rightarrow> ('z kmem_st_scheme, unit) kernel" where
  "kinit1 vstart vend =
     kthen (initlock L_kmem)
    (kthen (kmod (\<lambda>s. s\<lparr>use_lock := False\<rparr>))
    (freerange vstart vend))"

definition kinit2 :: "u32 \<Rightarrow> u32 \<Rightarrow> ('z kmem_st_scheme, unit) kernel" where
  "kinit2 vstart vend =
     kthen (freerange vstart vend)
    (kmod (\<lambda>s. s\<lparr>use_lock := True\<rparr>))"

section \<open>Pages\<close>

text \<open>Two different page-aligned addresses are at least a page apart.\<close>

lemma page_apart:
  assumes "pg_aligned r" and "pg_aligned v" and "r \<noteq> v" and "i < PGSIZE"
  shows "unat PGSIZE \<le> unat (r + i - v)"
proof -
  have r: "unat r mod 4096 = 0" and v: "unat v mod 4096 = 0"
    using assms(1,2) by (simp_all add: pg_aligned_def PGSIZE_def word_eq_iff_unsigned [where 'a = nat] unat_mod)
  have i: "unat i < 4096" using assms(4) by (simp add: PGSIZE_def word_less_nat_alt)
  have "unat (r - v) mod 4096 = 0" using r v by (auto simp: unat_sub_if')
  then obtain k where k: "unat (r - v) = 4096 * k" by auto
  have "k \<noteq> 0" using assms(3) k by (metis mult_0_right right_minus_eq unat_eq_zero)
  moreover have "4096 * k < 2 ^ 32"
    using k unsigned_less [of "r - v", where ?'a = nat] by simp
  ultimately have lo: "4096 \<le> unat (r - v)" and hi: "unat (r - v) + unat i < 2 ^ 32"
    using k i by auto
  have "unat (r - v + i) = unat (r - v) + unat i" using hi by (simp add: unat_plus_if')
  moreover have eq: "r + i - v = r - v + i" by simp
  ultimately show ?thesis using lo unfolding eq PGSIZE_def by simp
qed

lemma load32_fill_other:
  assumes "pg_aligned r" and "pg_aligned v" and "r \<noteq> v"
  shows "load32 (fill v c (unat PGSIZE) m) r = load32 m r"
proof (rule load32_cong)
  fix i :: u32 assume "i < 4"
  then have "i < PGSIZE" by (simp add: PGSIZE_def word_less_nat_alt)
  then have "unat PGSIZE \<le> unat (r + i - v)" using page_apart [OF assms] by simp
  then show "fill v c (unat PGSIZE) m (r + i) = m (r + i)" by (simp add: fill_def)
qed

lemma load32_store32_other:
  assumes "pg_aligned r" and "pg_aligned v" and "r \<noteq> v"
  shows "load32 (store32 v w m) r = load32 m r"
proof (rule load32_cong)
  fix i :: u32 assume "i < 4"
  then have "i < PGSIZE" by (simp add: PGSIZE_def word_less_nat_alt)
  then have "unat PGSIZE \<le> unat (r + i - v)" using page_apart [OF assms] by simp
  then show "store32 v w m (r + i) = m (r + i)"
    by (intro store32_outside) (simp add: PGSIZE_def)
qed

section \<open>The free list\<close>

text \<open>\<open>runs m r ps\<close>: following the links from \<open>r\<close> visits exactly the pages \<open>ps\<close>.\<close>

primrec runs :: "memory \<Rightarrow> u32 \<Rightarrow> u32 list \<Rightarrow> bool" where
  "runs m r [] \<longleftrightarrow> r = 0"
| "runs m r (p # ps) \<longleftrightarrow> r = p \<and> p \<noteq> 0 \<and> runs m (load32 m p) ps"

definition kmem_inv :: "'z kmem_st_scheme \<Rightarrow> u32 list \<Rightarrow> bool" where
  "kmem_inv s ps \<longleftrightarrow> runs (mem s) (freelist s) ps \<and> distinct ps \<and> (\<forall>p \<in> set ps. page_ok (kend s) p)"

lemma runs_cong: "(\<And>p. p \<in> set ps \<Longrightarrow> load32 m' p = load32 m p) \<Longrightarrow> runs m' r ps = runs m r ps"
  by (induction ps arbitrary: r) auto

lemma runs_unique: "runs m r ps \<Longrightarrow> runs m r qs \<Longrightarrow> ps = qs"
proof (induction ps arbitrary: r qs)
  case Nil
  then show ?case by (cases qs) auto
next
  case (Cons p ps)
  then show ?case by (cases qs) auto
qed

definition mem_frame :: "u32 \<Rightarrow> memory \<Rightarrow> memory \<Rightarrow> bool" where
  "mem_frame v m m' \<longleftrightarrow> (\<forall>x. unat PGSIZE \<le> unat (x - v) \<longrightarrow> m' x = m x)"

lemma kfree_run:
  assumes "page_ok (kend s) v" and "use_lock s \<Longrightarrow> quiet (lk s)"
  shows "kfree v s = Ret () (s\<lparr>mem := store32 v (freelist s) (fill v 1 (unat PGSIZE) (mem s)),
           freelist := v\<rparr>)"
proof -
  have good: "\<not> (v mod PGSIZE \<noteq> 0 \<or> v < kend s \<or> V2P v \<ge> PHYSTOP)"
    using assms(1) unfolding page_ok_def pg_aligned_def by (metis not_less)
  show ?thesis
    by (simp only: kfree_def kernel_simps if_not_P [OF good])
       (use assms(2) in \<open>auto simp: kernel_simps acquire_run release_run lock_simps memset_fill\<close>)
qed

lemma kalloc_run:
  assumes "use_lock s \<Longrightarrow> quiet (lk s)"
  shows "kalloc s = Ret (freelist s)
    (if freelist s = 0 then s else s\<lparr>freelist := load32 (mem s) (freelist s)\<rparr>)"
  using assms by (auto simp: kalloc_def kernel_simps acquire_run release_run lock_simps)

section \<open>What the allocator leaves alone\<close>

definition kmem_only :: "'z kmem_st_scheme \<Rightarrow> 'z kmem_st_scheme \<Rightarrow> bool" where
  "kmem_only s t \<longleftrightarrow> (\<exists>x m f. me x = me (lk s) \<and> t = s\<lparr>lk := x, mem := m, freelist := f\<rparr>)"

lemma kmem_only_refl: "kmem_only s s"
  unfolding kmem_only_def by (intro exI [of _ "lk s"] exI [of _ "mem s"] exI [of _ "freelist s"]) simp

lemma kmem_onlyI:
  "kmem_only s (s\<lparr>mem := m\<rparr>)" "kmem_only s (s\<lparr>freelist := f\<rparr>)"
  unfolding kmem_only_def
  by (rule exI [of _ "lk s"], rule exI [of _ m], rule exI [of _ "freelist s"], simp)
     (rule exI [of _ "lk s"], rule exI [of _ "mem s"], rule exI [of _ f], simp)

lemma lk_only_kmem: "lk_only s t \<Longrightarrow> kmem_only s t" for s t :: "'z kmem_st_scheme"
  unfolding kmem_only_def lk_only_def
  by (elim exE conjE, rule_tac x = x in exI, rule exI [of _ "mem s"], rule exI [of _ "freelist s"]) simp

interpretation kmf: frame kmem_only
proof
  show "kmem_only s s" for s :: "'a kmem_st_scheme" by (rule kmem_only_refl)
  show "kmem_only s u" if "kmem_only s t" "kmem_only t u" for s t u :: "'a kmem_st_scheme"
    using that by (fastforce simp: kmem_only_def)
qed

lemma kmf_locks: "kframe kmem_only (acquire l)" "kframe kmem_only (release l)"
  by (rule kframe_mono [OF lkf_acquire lk_only_kmem], assumption)
     (rule kframe_mono [OF lkf_release lk_only_kmem], assumption)

lemma kmf_kfree: "kframe kmem_only (kfree v)"
  unfolding kfree_def by (intro kmf.fr_intros kmf.fr_mod kmf_locks kmem_onlyI)

lemma kmf_kalloc: "kframe kmem_only kalloc"
  unfolding kalloc_def by (intro kmf.fr_intros kmf.fr_mod kmf_locks kmem_onlyI)

section \<open>The allocator as a stack of pages\<close>

text \<open>
  What the clients of an allocator rely on: the free blocks are a stack, freeing pushes a valid
  block that is not on it, allocating pops, and an empty stack gives the null block.
\<close>

locale lifo_pool =
  fixes alloc :: "('s, 'p) kernel"
    and free :: "'p \<Rightarrow> ('s, unit) kernel"
    and pool :: "'s \<Rightarrow> 'p list \<Rightarrow> bool"
    and valid :: "'s \<Rightarrow> 'p \<Rightarrow> bool"
    and null :: 'p
  assumes free_push: "pool s ps \<Longrightarrow> valid s p \<Longrightarrow> p \<notin> set ps \<Longrightarrow>
      wp (free p) (\<lambda>_ t. pool t (p # ps) \<and> valid t = valid s) s"
    and alloc_pop: "pool s (p # ps) \<Longrightarrow> wp alloc (\<lambda>r t. r = p \<and> pool t ps \<and> valid t = valid s) s"
    and alloc_empty: "pool s [] \<Longrightarrow> alloc s = Ret null s"
begin

lemma free_then_alloc:
  assumes "pool s ps" and "valid s p" and "p \<notin> set ps"
  shows "wp (kthen (free p) alloc) (\<lambda>r t. r = p \<and> pool t ps) s"
proof -
  from free_push [OF assms] show ?thesis
    unfolding wp_simps by (rule wp_mono) (auto dest: alloc_pop elim: wp_mono)
qed

lemma frees_push:
  assumes "pool s ps" and "\<forall>p \<in> set qs. valid s p" and "distinct qs" and "set qs \<inter> set ps = {}"
  shows "wp (kfor qs free) (\<lambda>_ t. pool t (rev qs @ ps) \<and> valid t = valid s) s"
  using assms
proof (induction qs arbitrary: s ps)
  case Nil
  then show ?case by (simp add: wp_simps)
next
  case (Cons q qs)
  then have "wp (free q) (\<lambda>_ t. pool t (q # ps) \<and> valid t = valid s) s"
    by (intro free_push) auto
  then show ?case
    unfolding kfor.simps wp_simps
  proof (rule wp_mono)
    fix a t assume t: "pool t (q # ps) \<and> valid t = valid s"
    with Cons.prems show "wp (kfor qs free) (\<lambda>_ t. pool t (rev (q # qs) @ ps) \<and> valid t = valid s) t"
      using Cons.IH [of t "q # ps"] by (auto elim: wp_mono)
  qed
qed

end

definition kpool :: "'z kmem_st_scheme \<Rightarrow> u32 list \<Rightarrow> bool" where
  "kpool s ps \<longleftrightarrow> kmem_inv s ps \<and> (use_lock s \<longrightarrow> quiet (lk s))"

lemma kfree_inv:
  assumes "kmem_inv s ps" and "page_ok (kend s) v" and "v \<notin> set ps"
  shows "kmem_inv (s\<lparr>mem := store32 v (freelist s) (fill v 1 (unat PGSIZE) (mem s)), freelist := v\<rparr>)
           (v # ps)"
proof -
  let ?m = "store32 v (freelist s) (fill v 1 (unat PGSIZE) (mem s))"
  have "load32 ?m p = load32 (mem s) p" if "p \<in> set ps" for p
  proof -
    have "p \<noteq> v" and "pg_aligned p" and "pg_aligned v"
      using assms that by (auto simp: kmem_inv_def page_ok_def)
    then show ?thesis by (simp add: load32_store32_other load32_fill_other)
  qed
  then have "runs ?m (freelist s) ps"
    using assms(1) by (simp add: kmem_inv_def cong: runs_cong)
  then show ?thesis
    using assms page_ok_nonnull by (auto simp: kmem_inv_def load32_store32_same)
qed

interpretation kpages: lifo_pool kalloc kfree kpool "\<lambda>s. page_ok (kend s)" 0
proof
  fix s :: "'a kmem_st_scheme" and ps and p :: u32
  assume "kpool s ps" and "page_ok (kend s) p" and "p \<notin> set ps"
  then show "wp (kfree p) (\<lambda>_ t. kpool t (p # ps) \<and> page_ok (kend t) = page_ok (kend s)) s"
    by (intro wp_intro [OF kfree_run]) (auto simp: kpool_def dest: kfree_inv)
next
  fix s :: "'a kmem_st_scheme" and ps and p :: u32
  assume "kpool s (p # ps)"
  then show "wp kalloc (\<lambda>r t. r = p \<and> kpool t ps \<and> page_ok (kend t) = page_ok (kend s)) s"
    by (intro wp_intro [OF kalloc_run]) (auto simp: kpool_def kmem_inv_def)
next
  fix s :: "'a kmem_st_scheme"
  assume "kpool s []"
  then show "kalloc s = Ret 0 s"
    by (auto simp: kalloc_run kpool_def kmem_inv_def)
qed

text \<open>The loop of \<^verbatim>\<open>freerange\<close> frees the pages of the range one after the other.\<close>

lemma freerange_loop_kfor:
  fixes s :: "'z kmem_st_scheme"
  assumes "\<forall>k < n. page_ok (kend s) (p + of_nat k * PGSIZE)"
    and "\<forall>k < n. p + of_nat k * PGSIZE + PGSIZE \<le> vend"
    and "\<not> p + of_nat n * PGSIZE + PGSIZE \<le> vend"
  shows "freerange_loop p vend s = kfor (map (\<lambda>k. p + of_nat k * PGSIZE) [0..<n]) kfree s"
  using assms
proof (induction n arbitrary: p s)
  case 0
  then show ?case by (subst freerange_loop.simps) (simp add: kernel_simps)
next
  case (Suc n)
  have le: "p + PGSIZE \<le> vend" using Suc.prems(2) by (force dest: spec [of _ 0])
  have step: "p + of_nat (Suc k) * PGSIZE = p + PGSIZE + of_nat k * PGSIZE" for k
    by (simp add: algebra_simps)
  have "[0..<Suc n] = 0 # map Suc [0..<n]"
    by (simp add: map_Suc_upt upt_conv_Cons del: upt_Suc)
  then have split: "map (\<lambda>k. p + of_nat k * PGSIZE) [0..<Suc n]
      = p # map (\<lambda>k. p + PGSIZE + of_nat k * PGSIZE) [0..<n]"
    by (simp only: list.map map_map o_def step) simp
  have IH: "freerange_loop (p + PGSIZE) vend t
      = kfor (map (\<lambda>k. p + PGSIZE + of_nat k * PGSIZE) [0..<n]) kfree t" if "kend t = kend s" for t :: "'z kmem_st_scheme"
  proof (rule Suc.IH)
    show "\<forall>k<n. page_ok (kend t) (p + PGSIZE + of_nat k * PGSIZE)"
      using Suc.prems(1) that by (metis Suc_less_eq step)
    show "\<forall>k<n. p + PGSIZE + of_nat k * PGSIZE + PGSIZE \<le> vend"
      using Suc.prems(2) by (metis Suc_less_eq step)
    show "\<not> p + PGSIZE + of_nat n * PGSIZE + PGSIZE \<le> vend"
      using Suc.prems(3) by (metis step)
  qed
  have keep: "kend t = kend s" if "kleaf (kfree p s) a t" for a and t :: "'z kmem_st_scheme"
    using that by (auto simp: kfree_def kernel_simps acquire_def release_def holding_def pushcli_def popcli_def Let_def split: if_splits)
  show ?case
    unfolding split using le IH keep
    by (subst freerange_loop.simps) (auto simp: kernel_simps intro: kcont_cong)
qed

text \<open>The pages of a range that lies in physical memory do not wrap around.\<close>

lemma page_unat:
  assumes "\<forall>k < n. page_ok e (p + of_nat k * PGSIZE)" and "k < n"
  shows "unat (p + of_nat k * PGSIZE) = unat p + 4096 * k"
  using assms(2)
proof (induction k)
  case (Suc k)
  have "p + of_nat k * PGSIZE < KERNBASE + PHYSTOP"
    using assms(1) Suc.prems page_ok_kernel by (meson Suc_lessD)
  then have "unat (p + of_nat k * PGSIZE + PGSIZE) = unat (p + of_nat k * PGSIZE) + 4096"
    by (simp add: PGSIZE_def KERNBASE_def PHYSTOP_def word_less_nat_alt unat_plus_if')
  moreover have "p + of_nat (Suc k) * PGSIZE = p + of_nat k * PGSIZE + PGSIZE"
    by (simp add: algebra_simps)
  ultimately show ?case using Suc by (metis Suc_lessD add.assoc mult_Suc_right add.commute)
qed simp

lemma pages_distinct:
  assumes "\<forall>k < n. page_ok e (p + of_nat k * PGSIZE)"
  shows "distinct (map (\<lambda>k. p + of_nat k * PGSIZE) [0..<n])"
  using page_unat [OF assms] by (auto simp: distinct_map inj_on_def) (metis add_left_cancel mult_left_cancel zero_neq_numeral)

text \<open>Page boundaries as numbers.\<close>

lemma unat_PGSIZE: "unat PGSIZE = 4096"
  by (simp add: PGSIZE_def)

lemma unat_pgrounddown: "unat (PGROUNDDOWN x) = 4096 * (unat x div 4096)"
proof -
  have m: "PGSIZE - 1 = mask 12" by (simp add: PGSIZE_def mask_eq_exp_minus_1)
  have e: "x AND NOT (mask 12) = push_bit 12 (drop_bit 12 x)"
    by (rule bit_word_eqI) (auto simp: bit_simps)
  have "unat x < 2 ^ 32" using unsigned_less [of x, where ?'a = nat] by simp
  then have "4096 * (unat x div 4096) < 2 ^ 32" by (rule le_less_trans [rotated]) simp
  then show ?thesis
    by (simp add: PGROUNDDOWN_def m e unsigned_push_bit_eq unsigned_drop_bit_eq push_bit_eq_mult drop_bit_eq_div
        take_bit_nat_eq_self mult.commute unat_word_ariths unat_div)
qed

lemma unat_pgroundup:
  assumes "unat x + 4095 < 2 ^ 32"
  shows "unat (PGROUNDUP x) = 4096 * ((unat x + 4095) div 4096)"
proof -
  have "PGROUNDUP x = PGROUNDDOWN (x + 4095)" by (simp add: PGROUNDUP_def PGROUNDDOWN_def PGSIZE_def add.commute)
  moreover have "unat (x + 4095) = unat x + 4095" using assms by (simp add: unat_plus_if')
  ultimately show ?thesis using unat_pgrounddown [of "x + 4095"] by simp
qed

lemma pg_aligned_unat: "pg_aligned a \<longleftrightarrow> 4096 dvd unat a"
  by (simp add: pg_aligned_def PGSIZE_def word_eq_iff_unsigned [where 'a = nat] unat_mod dvd_eq_mod_eq_0)

lemma page_ok_unat:
  assumes "KERNBASE \<le> e"
  shows "page_ok e a \<longleftrightarrow> 4096 dvd unat a \<and> unat e \<le> unat a \<and> unat a < unat (P2V PHYSTOP)"
proof -
  have k: "unat KERNBASE \<le> unat e" using assms by (simp add: word_le_nat_alt)
  have "V2P a < PHYSTOP \<longleftrightarrow> unat a < unat (P2V PHYSTOP)" if "unat e \<le> unat a"
    using k that by (simp add: V2P_def P2V_def KERNBASE_def PHYSTOP_def word_less_nat_alt unat_sub_if') linarith
  then show ?thesis by (auto simp: page_ok_def pg_aligned_unat word_le_nat_alt)
qed

text \<open>The page boundaries of a range, in order.\<close>

definition range_pages :: "u32 \<Rightarrow> u32 \<Rightarrow> u32 list" where
  "range_pages vstart vend =
     map (\<lambda>k. of_nat (4096 * k)) [(unat vstart + 4095) div 4096..<unat vend div 4096]"

lemma range_pages_set:
  "set (range_pages vstart vend) = {a. pg_aligned a \<and> vstart \<le> a \<and> unat a + 4096 \<le> unat vend}"
proof (intro set_eqI iffI)
  have v: "unat vend < 2 ^ 32" using unsigned_less [of vend, where ?'a = nat] by simp
  fix a
  {
    assume "a \<in> set (range_pages vstart vend)"
    then obtain k where k: "a = of_nat (4096 * k)" "(unat vstart + 4095) div 4096 \<le> k" "k < unat vend div 4096"
      by (auto simp: range_pages_def)
    have le: "4096 * k + 4096 \<le> unat vend" "unat vstart \<le> 4096 * k" using k(2,3) by linarith+
    then have "unat a = 4096 * k" using v k(1) by (simp add: unat_of_nat del: of_nat_mult)
    then show "a \<in> {a. pg_aligned a \<and> vstart \<le> a \<and> unat a + 4096 \<le> unat vend}"
      using le by (simp add: pg_aligned_unat word_le_nat_alt)
  }
  assume "a \<in> {a. pg_aligned a \<and> vstart \<le> a \<and> unat a + 4096 \<le> unat vend}"
  then have "4096 dvd unat a" "unat vstart \<le> unat a" "unat a + 4096 \<le> unat vend"
    by (simp_all add: pg_aligned_unat word_le_nat_alt)
  then obtain k where k: "unat a = 4096 * k" "unat vstart \<le> 4096 * k" "4096 * k + 4096 \<le> unat vend" by (auto elim: dvdE)
  have "a = of_nat (unat a)" by simp
  then have "a = of_nat (4096 * k)" unfolding k(1) .
  moreover have "(unat vstart + 4095) div 4096 \<le> k" "k < unat vend div 4096" using k(2,3) by linarith+
  ultimately show "a \<in> set (range_pages vstart vend)" by (auto simp: range_pages_def)
qed

lemma range_pages_sorted: "sorted_wrt (<) (range_pages vstart vend)"
proof -
  have v: "unat vend < 2 ^ 32" using unsigned_less [of vend, where ?'a = nat] by simp
  have "(of_nat (4096 * i) :: u32) < of_nat (4096 * j)" if "i < j" "j < unat vend div 4096" for i j
  proof -
    have "4096 * j < 2 ^ 32" "4096 * i < 2 ^ 32" using that v by linarith+
    then show ?thesis using that(1) by (simp add: word_less_nat_alt unat_of_nat del: of_nat_mult)
  qed
  then show ?thesis unfolding range_pages_def sorted_wrt_map
    by (rule sorted_wrt_mono_rel [rotated, OF sorted_wrt_upt]) (auto simp del: of_nat_mult)
qed

lemma freerange_run:
  fixes s :: "'z kmem_st_scheme"
  assumes "KERNBASE \<le> kend s" and "kend s \<le> vstart" and "vstart \<le> vend" and "vend \<le> P2V PHYSTOP"
  shows "freerange vstart vend s = kfor (range_pages vstart vend) kfree s"
proof -
  let ?A = "(unat vstart + 4095) div 4096" and ?B = "unat vend div 4096" and ?p = "PGROUNDUP vstart"
  have b: "unat vstart \<le> unat vend" "unat vend \<le> 2382364672"
    using assms(3,4) by (simp_all add: word_le_nat_alt P2V_def KERNBASE_def PHYSTOP_def)
  then have p: "unat ?p = 4096 * ?A" by (intro unat_pgroundup) simp
  have ab: "4096 * ?A \<le> unat vstart + 4095" "4096 * ?B \<le> unat vend" by simp_all
  have top: "4096 * (?A + k) < 2382372863" if "k \<le> ?B - ?A" for k
  proof -
    have "?A + k \<le> max ?A ?B" using that by simp
    then show ?thesis using ab b by (cases "?A \<le> ?B") (auto simp: max_def)
  qed
  have u: "unat (?p + of_nat k * PGSIZE) = 4096 * (?A + k)" if "k \<le> ?B - ?A" for k
  proof -
    have "4096 * (?A + k) < 2 ^ 32" using top [OF that] by simp
    moreover have "?p + of_nat k * PGSIZE = of_nat (4096 * (?A + k))"
    proof -
      have "?p = of_nat (unat ?p)" by simp
      then have "?p = of_nat (4096 * ?A)" unfolding p .
      then show ?thesis by (simp add: PGSIZE_def algebra_simps)
    qed
    ultimately show ?thesis by (simp add: unat_of_nat del: of_nat_mult of_nat_add)
  qed
  have "unat (?p + of_nat k * PGSIZE + PGSIZE) = 4096 * (?A + k) + 4096" if "k \<le> ?B - ?A" for k
    using u [OF that] top [OF that] by (subst unat_plus_if') (simp add: unat_PGSIZE)
  then have le: "?p + of_nat k * PGSIZE + PGSIZE \<le> vend \<longleftrightarrow> 4096 * (?A + k) + 4096 \<le> unat vend" if "k \<le> ?B - ?A" for k
    using that by (simp add: word_le_nat_alt)
  have pages: "range_pages vstart vend = map (\<lambda>k. ?p + of_nat k * PGSIZE) [0..<?B - ?A]"
  proof (rule nth_equalityI)
    fix i assume "i < length (range_pages vstart vend)"
    then have i: "i < ?B - ?A" by (simp add: range_pages_def)
    then have "of_nat (unat (?p + of_nat i * PGSIZE)) = (of_nat (4096 * (?A + i)) :: u32)" using u [of i] by simp
    then show "range_pages vstart vend ! i = map (\<lambda>k. ?p + of_nat k * PGSIZE) [0..<?B - ?A] ! i"
      using i by (simp add: range_pages_def)
  qed (simp add: range_pages_def)
  show ?thesis
    unfolding freerange_def pages
  proof (rule freerange_loop_kfor)
    show "\<forall>k < ?B - ?A. page_ok (kend s) (?p + of_nat k * PGSIZE)"
    proof (intro allI impI)
      fix k assume k: "k < ?B - ?A"
      have "unat (kend s) \<le> unat vstart" using assms(2) by (simp add: word_le_nat_alt)
      moreover have "unat vstart \<le> 4096 * ?A" by linarith
      moreover have "4096 * (?A + k) < 4096 * ?B" using k by simp
      ultimately show "page_ok (kend s) (?p + of_nat k * PGSIZE)"
        using u [of k] k ab b assms(4) by (simp add: page_ok_unat [OF assms(1)] word_le_nat_alt)
    qed
    show "\<forall>k < ?B - ?A. ?p + of_nat k * PGSIZE + PGSIZE \<le> vend" using le by auto
    show "\<not> ?p + of_nat (?B - ?A) * PGSIZE + PGSIZE \<le> vend" using le [of "?B - ?A"] by simp
  qed
qed

section \<open>Properties\<close>

text \<open>A small boot state: nothing on the list, the lock not yet in use.\<close>

definition boot_lk :: lockst where
  "boot_lk = \<lparr>spin = (\<lambda>_. \<lparr>locked = False, lk_cpu = None\<rparr>), cpus = (\<lambda>_. \<lparr>ncli = 0, intena = True\<rparr>),
     me = 0, eflags_IF = True\<rparr>"

definition boot_kmem :: kmem_st where
  "boot_kmem = \<lparr>lk = boot_lk, mem = (\<lambda>_. 0), freelist = 0, use_lock = True, kend = 0x80100000\<rparr>"

lemma boot_quiet: "quiet boot_lk"
  by (simp add: quiet_def lk_ok_def lock_free_def boot_lk_def mycpu_def)

lemma boot_kpool: "kpool boot_kmem []"
  by (simp add: kpool_def kmem_inv_def boot_kmem_def boot_quiet)

text \<open>
  C23. Freeing a page that lies in the allocator's range and is not on the
  free list and then allocating returns that same page and leaves the free list as it was: no
  page is lost or handed out twice, with the lock taken and released on the way.
\<close>

theorem kfree_kalloc_roundtrip:
  fixes s :: "'z kmem_st_scheme"
  assumes "kpool s ps" and "page_ok (kend s) p" and "p \<notin> set ps"
  shows "wp (kthen (kfree p) kalloc) (\<lambda>r t. r = p \<and> kpool t ps) s"
  by (rule kpages.free_then_alloc) (use assms in auto)

theorem kfree_kalloc_roundtrip_witness:
  "wp (kthen (kfree 0x80200000) kalloc) (\<lambda>r t. r = 0x80200000 \<and> kpool t []) boot_kmem"
  by (rule kfree_kalloc_roundtrip [OF boot_kpool])
     (simp_all add: page_ok_def pg_aligned_def boot_kmem_def V2P_def PGSIZE_def KERNBASE_def PHYSTOP_def)

text \<open>
  C35. \<^verbatim>\<open>freerange(vstart, vend)\<close>, on a range of the physical memory behind the kernel image, which need
  not begin or end at a page boundary, puts exactly the pages that lie within the range on the free list, the one with the
  greatest address first, in front of the pages that were there.
\<close>

theorem freerange_builds_list:
  fixes s :: "'z kmem_st_scheme"
  assumes "kpool s ps" and "KERNBASE \<le> kend s" and "kend s \<le> vstart" and "vstart \<le> vend" and "vend \<le> P2V PHYSTOP"
    and "\<forall>a \<in> set ps. a < vstart \<or> vend \<le> a"
  shows "\<exists>qs. sorted_wrt (<) qs \<and> set qs = {a. pg_aligned a \<and> vstart \<le> a \<and> unat a + 4096 \<le> unat vend}
    \<and> wp (freerange vstart vend) (\<lambda>_ t. kpool t (rev qs @ ps)) s"
proof (intro exI conjI)
  let ?qs = "range_pages vstart vend"
  show s: "set ?qs = {a. pg_aligned a \<and> vstart \<le> a \<and> unat a + 4096 \<le> unat vend}" by (rule range_pages_set)
  show o: "sorted_wrt (<) ?qs" by (rule range_pages_sorted)
  have ok: "\<forall>a \<in> set ?qs. page_ok (kend s) a"
    using assms(3,5) by (auto simp: s page_ok_unat [OF assms(2)] pg_aligned_unat word_le_nat_alt)
  have "set ?qs \<inter> set ps = {}" using assms(6) by (fastforce simp: s word_le_nat_alt word_less_nat_alt)
  then have "wp (kfor ?qs kfree) (\<lambda>_ t. kpool t (rev ?qs @ ps) \<and> page_ok (kend t) = page_ok (kend s)) s"
    using ok o by (intro kpages.frees_push [OF assms(1)]) (auto simp: strict_sorted_iff)
  then show "wp (freerange vstart vend) (\<lambda>_ t. kpool t (rev ?qs @ ps)) s"
    using freerange_run [OF assms(2-5)] by (auto simp: wp_def)
qed

theorem freerange_builds_list_witness:
  "wp (freerange 0x80200123 0x80203456) (\<lambda>_ t. kpool t [0x80202000, 0x80201000]) boot_kmem"
proof -
  obtain qs where q: "sorted_wrt (<) qs" "set qs = {a. pg_aligned a \<and> 0x80200123 \<le> a \<and> unat a + 4096 \<le> unat (0x80203456 :: u32)}"
      "wp (freerange 0x80200123 0x80203456) (\<lambda>_ t. kpool t (rev qs @ [])) boot_kmem"
    using freerange_builds_list [OF boot_kpool, of "0x80200123" "0x80203456"]
    by (auto simp: boot_kmem_def KERNBASE_def P2V_def PHYSTOP_def)
  have "set qs = set (range_pages 0x80200123 0x80203456)" using q(2) by (simp add: range_pages_set)
  then have "qs = range_pages 0x80200123 0x80203456"
    by (rule sorted_distinct_set_unique [rotated 4]) (use q(1) range_pages_sorted in \<open>auto simp: strict_sorted_iff\<close>)
  then have "qs = [0x80201000, 0x80202000]" by (simp add: range_pages_def upt_rec)
  then show ?thesis using q(3) by simp
qed

end
