(* ===== verification/Vm.thy ===== *)
theory Vm
  imports Kalloc
begin

text \<open>
  Two-level page tables (\<^verbatim>\<open>vm.c\<close>, with the macros of \<^verbatim>\<open>mmu.h\<close> and \<^verbatim>\<open>memlayout.h\<close>). Page
  directories and page tables are arrays of 32-bit entries in the byte memory of \<^verbatim>\<open>Memory\<close>, at
  the kernel addresses that \<^verbatim>\<open>kalloc\<close> hands out, so every routine reads and writes the words
  the source reads and writes. \<open>kdata\<close> is the linker symbol \<^verbatim>\<open>data\<close>.

  A loop whose index may wrap around the address space takes fuel: \<open>va_fuel\<close>, one unit per page
  of the address space. A loop that has not ended by then never ends, and its outcome is
  \<open>Stuck\<close>.
\<close>

section \<open>Constants and address macros\<close>

definition EXTMEM :: u32 where "EXTMEM = 0x100000"
definition DEVSPACE :: u32 where "DEVSPACE = 0xFE000000"
definition KERNLINK :: u32 where "KERNLINK = KERNBASE + EXTMEM"
definition NPDENTRIES :: nat where "NPDENTRIES = 1024"

definition PTE_P :: u32 where "PTE_P = 1"
definition PTE_W :: u32 where "PTE_W = 2"
definition PTE_U :: u32 where "PTE_U = 4"

definition PDX :: "u32 \<Rightarrow> u32" where "PDX va = drop_bit 22 va AND 0x3FF"
definition PTX :: "u32 \<Rightarrow> u32" where "PTX va = drop_bit 12 va AND 0x3FF"
definition PGADDR :: "u32 \<Rightarrow> u32 \<Rightarrow> u32 \<Rightarrow> u32" where
  "PGADDR d t off = push_bit 22 d OR push_bit 12 t OR off"

definition PTE_ADDR :: "u32 \<Rightarrow> u32" where "PTE_ADDR pte = pte AND NOT 0xFFF"
definition PTE_FLAGS :: "u32 \<Rightarrow> u32" where "PTE_FLAGS pte = pte AND 0xFFF"

definition va_fuel :: nat where "va_fuel = 2 ^ 20"

record vm_st = kmem_st +
  kdata :: u32
  kpgdir :: u32
  cr3 :: u32

section \<open>Walking and mapping\<close>

definition load_entry :: "u32 \<Rightarrow> ('z vm_st_scheme, u32) kernel" where
  "load_entry a = kget (\<lambda>s. load32 (mem s) a)"

definition store_entry :: "u32 \<Rightarrow> u32 \<Rightarrow> ('z vm_st_scheme, unit) kernel" where
  "store_entry a v = kmod (\<lambda>s. s\<lparr>mem := store32 a v (mem s)\<rparr>)"

definition clear_page :: "u32 \<Rightarrow> ('z vm_st_scheme, unit) kernel" where
  "clear_page a = kmod (\<lambda>s. s\<lparr>mem := memset a 0 (unat PGSIZE) (mem s)\<rparr>)"

text \<open>\<^verbatim>\<open>memmove(dst, src, n)\<close> from bytes that lie outside the modelled memory.\<close>

definition put_bytes :: "u32 \<Rightarrow> byte list \<Rightarrow> ('z vm_st_scheme, unit) kernel" where
  "put_bytes dst bs = kmod (\<lambda>s. s\<lparr>mem := (\<lambda>x.
     if unat (x - dst) < length bs then bs ! unat (x - dst) else mem s x)\<rparr>)"

text \<open>The address of the entry for \<open>va\<close>; 0 if there is none and none could be made.\<close>

definition walkpgdir :: "u32 \<Rightarrow> u32 \<Rightarrow> bool \<Rightarrow> ('z vm_st_scheme, u32) kernel" where
  "walkpgdir pgdir va alloc =
    (let pde = pgdir + 4 * PDX va in
     kbind (load_entry pde) (\<lambda>e.
     if e AND PTE_P \<noteq> 0 then kret (P2V (PTE_ADDR e) + 4 * PTX va)
     else if \<not> alloc then kret 0
     else kbind kalloc (\<lambda>pgtab.
       if pgtab = 0 then kret 0
       else
         kthen (clear_page pgtab)
        (kthen (store_entry pde (V2P pgtab OR PTE_P OR PTE_W OR PTE_U))
        (kret (pgtab + 4 * PTX va))))))"

function mappages_loop :: "u32 \<Rightarrow> u32 \<Rightarrow> u32 \<Rightarrow> u32 \<Rightarrow> u32 \<Rightarrow> ('z vm_st_scheme, int) kernel" where
  "mappages_loop pgdir a lst pa perm =
     kbind (walkpgdir pgdir a True) (\<lambda>pte.
     if pte = 0 then kret (-1)
     else kbind (load_entry pte) (\<lambda>e.
     if e AND PTE_P \<noteq> 0 then kpanic ''remap''
     else
       kthen (store_entry pte (pa OR perm OR PTE_P))
      (if a = lst then kret 0
       else if lst - a < PGSIZE then kstuck
       else mappages_loop pgdir (a + PGSIZE) lst (pa + PGSIZE) perm)))"
  by pat_completeness auto
termination
proof (relation "measure (\<lambda>(_, a, lst, _, _). unat (lst - a))", simp, clarsimp)
  fix a lst :: u32
  assume "\<not> lst - a < PGSIZE"
  then have "4096 \<le> unat (lst - a)" by (simp add: PGSIZE_def word_less_nat_alt)
  then have "unat (lst - a - PGSIZE) < unat (lst - a)"
    by (simp add: PGSIZE_def unat_sub_if')
  then show "unat (lst - (a + PGSIZE)) < unat (lst - a)" by (simp add: diff_diff_eq)
qed

declare mappages_loop.simps [simp del]

text \<open>
  \<^verbatim>\<open>mappages\<close> rounds both \<open>a\<close> and \<open>lst\<close>, the source's \<^verbatim>\<open>last\<close>, down to a page, so the loop meets \<open>lst\<close>:
  the branch \<open>lst - a < PGSIZE\<close>, an index about to step over it, is never taken.
\<close>

definition mappages :: "u32 \<Rightarrow> u32 \<Rightarrow> u32 \<Rightarrow> u32 \<Rightarrow> u32 \<Rightarrow> ('z vm_st_scheme, int) kernel" where
  "mappages pgdir va sz pa perm =
     mappages_loop pgdir (PGROUNDDOWN va) (PGROUNDDOWN (va + sz - 1)) pa perm"

section \<open>Growing and shrinking user memory\<close>

text \<open>Deallocate user pages to bring the size from \<open>oldsz\<close> to \<open>newsz\<close>.\<close>

primrec deallocuvm_loop :: "nat \<Rightarrow> u32 \<Rightarrow> u32 \<Rightarrow> u32 \<Rightarrow> ('z vm_st_scheme, unit) kernel" where
  "deallocuvm_loop 0 pgdir a oldsz = kstuck"
| "deallocuvm_loop (Suc n) pgdir a oldsz =
     (if a < oldsz then
        kbind (walkpgdir pgdir a False) (\<lambda>pte.
        if pte = 0 then
          deallocuvm_loop n pgdir (PGADDR (PDX a + 1) 0 0 - PGSIZE + PGSIZE) oldsz
        else kbind (load_entry pte) (\<lambda>e.
          if e AND PTE_P \<noteq> 0 then
            (let pa = PTE_ADDR e in
             if pa = 0 then kpanic ''kfree''
             else
               kthen (kfree (P2V pa))
              (kthen (store_entry pte 0)
              (deallocuvm_loop n pgdir (a + PGSIZE) oldsz)))
          else deallocuvm_loop n pgdir (a + PGSIZE) oldsz))
      else kret ())"

definition deallocuvm :: "u32 \<Rightarrow> u32 \<Rightarrow> u32 \<Rightarrow> ('z vm_st_scheme, u32) kernel" where
  "deallocuvm pgdir oldsz newsz =
     (if newsz \<ge> oldsz then kret oldsz
      else
        kthen (deallocuvm_loop va_fuel pgdir (PGROUNDUP newsz) oldsz)
       (kret newsz))"

text \<open>Allocate page tables and memory to grow from \<open>oldsz\<close> to \<open>newsz\<close>; 0 on error.\<close>

primrec allocuvm_loop :: "nat \<Rightarrow> u32 \<Rightarrow> u32 \<Rightarrow> u32 \<Rightarrow> u32 \<Rightarrow> ('z vm_st_scheme, u32) kernel" where
  "allocuvm_loop 0 pgdir a oldsz newsz = kstuck"
| "allocuvm_loop (Suc n) pgdir a oldsz newsz =
     (if a < newsz then
        kbind kalloc (\<lambda>m.
        if m = 0 then
          kthen (deallocuvm pgdir newsz oldsz)
         (kret 0)
        else
          kthen (clear_page m)
         (kbind (mappages pgdir a PGSIZE (V2P m) (PTE_W OR PTE_U)) (\<lambda>r.
          if r < 0 then
            kthen (deallocuvm pgdir newsz oldsz)
           (kthen (kfree m)
           (kret 0))
          else allocuvm_loop n pgdir (a + PGSIZE) oldsz newsz)))
      else kret newsz)"

definition allocuvm :: "u32 \<Rightarrow> u32 \<Rightarrow> u32 \<Rightarrow> ('z vm_st_scheme, u32) kernel" where
  "allocuvm pgdir oldsz newsz =
     (if newsz \<ge> KERNBASE then kret 0
      else if newsz < oldsz then kret oldsz
      else allocuvm_loop va_fuel pgdir (PGROUNDUP oldsz) oldsz newsz)"

section \<open>Whole address spaces\<close>

definition freevm :: "u32 \<Rightarrow> ('z vm_st_scheme, unit) kernel" where
  "freevm pgdir =
     (if pgdir = 0 then kpanic ''freevm: no pgdir''
      else
        kthen (deallocuvm pgdir KERNBASE 0)
       (kthen (kfor [0..<NPDENTRIES] (\<lambda>i.
          kbind (load_entry (pgdir + 4 * of_nat i)) (\<lambda>e.
          kwhen (e AND PTE_P \<noteq> 0) (kfree (P2V (PTE_ADDR e))))))
       (kfree pgdir)))"

text \<open>The kernel's mappings, present in every page table: virtual start, physical range, flags.\<close>

definition kmap :: "u32 \<Rightarrow> (u32 \<times> u32 \<times> u32 \<times> u32) list" where
  "kmap dat =
     [(KERNBASE, 0, EXTMEM, PTE_W),
      (KERNLINK, V2P KERNLINK, V2P dat, 0),
      (dat, V2P dat, PHYSTOP, PTE_W),
      (DEVSPACE, DEVSPACE, 0, PTE_W)]"

primrec setupkvm_loop :: "(u32 \<times> u32 \<times> u32 \<times> u32) list \<Rightarrow> u32 \<Rightarrow> ('z vm_st_scheme, u32) kernel" where
  "setupkvm_loop [] pgdir = kret pgdir"
| "setupkvm_loop (k # ks) pgdir =
     (case k of (virt, phys_start, phys_end, perm) \<Rightarrow>
        kbind (mappages pgdir virt (phys_end - phys_start) phys_start perm) (\<lambda>r.
        if r < 0 then
          kthen (freevm pgdir)
         (kret 0)
        else setupkvm_loop ks pgdir))"

definition setupkvm :: "('z vm_st_scheme, u32) kernel" where
  "setupkvm =
     kbind kalloc (\<lambda>pgdir.
     if pgdir = 0 then kret 0
     else
       kthen (clear_page pgdir)
      (if P2V PHYSTOP > DEVSPACE then kpanic ''PHYSTOP too high''
       else kbind (kget kdata) (\<lambda>dat. setupkvm_loop (kmap dat) pgdir)))"

definition switchkvm :: "('z vm_st_scheme, unit) kernel" where
  "switchkvm = kmod (\<lambda>s. s\<lparr>cr3 := V2P (kpgdir s)\<rparr>)"

definition kvmalloc :: "('z vm_st_scheme, unit) kernel" where
  "kvmalloc =
     kbind setupkvm (\<lambda>d.
     kthen (kmod (\<lambda>s. s\<lparr>kpgdir := d\<rparr>))
    switchkvm)"

text \<open>Load \<^verbatim>\<open>initcode\<close>, the bytes \<open>init\<close>, at address 0 of \<open>pgdir\<close>.\<close>

definition inituvm :: "u32 \<Rightarrow> byte list \<Rightarrow> ('z vm_st_scheme, unit) kernel" where
  "inituvm pgdir init =
     (if length init \<ge> unat PGSIZE then kpanic ''inituvm: more than a page''
      else kbind kalloc (\<lambda>m.
        kthen (clear_page m)
       (kthen (mappages pgdir 0 PGSIZE (V2P m) (PTE_W OR PTE_U))
       (put_bytes m init))))"

definition clearpteu :: "u32 \<Rightarrow> u32 \<Rightarrow> ('z vm_st_scheme, unit) kernel" where
  "clearpteu pgdir uva =
     kbind (walkpgdir pgdir uva False) (\<lambda>pte.
     if pte = 0 then kpanic ''clearpteu''
     else kbind (load_entry pte) (\<lambda>e. store_entry pte (e AND NOT PTE_U)))"

text \<open>A copy of the parent's page table for a child; 0 on failure.\<close>

primrec copyuvm_loop :: "nat \<Rightarrow> u32 \<Rightarrow> u32 \<Rightarrow> u32 \<Rightarrow> u32 \<Rightarrow> ('z vm_st_scheme, u32) kernel" where
  "copyuvm_loop 0 pgdir d i sz = kstuck"
| "copyuvm_loop (Suc n) pgdir d i sz =
     (if i < sz then
        kbind (walkpgdir pgdir i False) (\<lambda>pte.
        if pte = 0 then kpanic ''copyuvm: pte should exist''
        else kbind (load_entry pte) (\<lambda>e.
        if e AND PTE_P = 0 then kpanic ''copyuvm: page not present''
        else
          (let pa = PTE_ADDR e; flags = PTE_FLAGS e in
           kbind kalloc (\<lambda>m.
           if m = 0 then kthen (freevm d) (kret 0)
           else
             kthen (kmod (\<lambda>s. s\<lparr>mem := memmove m (P2V pa) (unat PGSIZE) (mem s)\<rparr>))
            (kbind (mappages d i PGSIZE (V2P m) flags) (\<lambda>r.
             if r < 0 then
               kthen (kfree m)
              (kthen (freevm d)
              (kret 0))
             else copyuvm_loop n pgdir d (i + PGSIZE) sz))))))
      else kret d)"

definition copyuvm :: "u32 \<Rightarrow> u32 \<Rightarrow> ('z vm_st_scheme, u32) kernel" where
  "copyuvm pgdir sz =
     kbind setupkvm (\<lambda>d.
     if d = 0 then kret 0
     else copyuvm_loop va_fuel pgdir d 0 sz)"

text \<open>
  The kernel address of a user page; 0 if it is not present or not accessible to user code. The
  entry address is used without a test: where no page table exists the code reads through the
  null pointer, the outcome \<open>Fault\<close>.
\<close>

definition uva2ka :: "u32 \<Rightarrow> u32 \<Rightarrow> ('z vm_st_scheme, u32) kernel" where
  "uva2ka pgdir uva =
     kbind (walkpgdir pgdir uva False) (\<lambda>pte.
     if pte = 0 then kfault
     else kbind (load_entry pte) (\<lambda>e.
       if e AND PTE_P = 0 then kret 0
       else if e AND PTE_U = 0 then kret 0
       else kret (P2V (PTE_ADDR e))))"

function copyout :: "u32 \<Rightarrow> u32 \<Rightarrow> byte list \<Rightarrow> ('z vm_st_scheme, int) kernel" where
  "copyout pgdir va buf =
     (if buf = [] then kret 0
      else
        (let va0 = PGROUNDDOWN va in
         kbind (uva2ka pgdir va0) (\<lambda>pa0.
         if pa0 = 0 then kret (-1)
         else
           (let n = min (unat (PGSIZE - (va - va0))) (length buf) in
            kthen (put_bytes (pa0 + (va - va0)) (take n buf))
           (if n = 0 then kstuck
            else copyout pgdir (va0 + PGSIZE) (drop n buf))))))"
  by pat_completeness auto
termination
  by (relation "measure (\<lambda>(_, _, buf). length buf)") auto

declare copyout.simps [simp del]

section \<open>What the page-table routines leave alone\<close>

lemma kmf_ld: "kframe kmem_only (load_entry a)"
  unfolding load_entry_def by (intro kmf.fr_intros)

lemma kmf_st: "kframe kmem_only (store_entry a v)"
  unfolding store_entry_def by (intro kmf.fr_mod kmem_onlyI)

lemma kmf_clear: "kframe kmem_only (clear_page a)"
  unfolding clear_page_def by (intro kmf.fr_mod kmem_onlyI)

lemma kmf_memmove: "kframe kmem_only (kmod (\<lambda>s. s\<lparr>mem := memmove d v n (mem s)\<rparr>))"
  by (intro kmf.fr_mod kmem_onlyI)

lemmas kmf_basic = kmf_kfree kmf_kalloc kmf_ld kmf_st kmf_clear kmf_memmove

lemma kmf_walkpgdir: "kframe kmem_only (walkpgdir d va b)"
  unfolding walkpgdir_def by (intro kmf.fr_intros kmf_basic)

lemma kmf_mappages: "kframe kmem_only (mappages d va sz pa perm)"
proof -
  have "kframe kmem_only (mappages_loop d a e pa perm)" for a e pa
  proof (induction d a e pa perm rule: mappages_loop.induct)
    case (1 d a e pa perm)
    show ?case
      by (subst mappages_loop.simps) (intro kmf.fr_intros kmf_basic kmf_walkpgdir 1; assumption)
  qed
  then show ?thesis by (simp add: mappages_def)
qed

lemma kmf_put_bytes: "kframe kmem_only (put_bytes d bs)"
  unfolding put_bytes_def by (intro kmf.fr_mod kmem_onlyI)

lemma kmf_deallocuvm: "kframe kmem_only (deallocuvm d oldsz newsz)"
proof -
  have "kframe kmem_only (deallocuvm_loop n d a oldsz)" for n a
    by (induction n arbitrary: a) (simp_all only: deallocuvm_loop.simps, intro kmf.fr_intros,
        intro kmf.fr_intros kmf_basic kmf_walkpgdir)
  then show ?thesis unfolding deallocuvm_def by (intro kmf.fr_intros)
qed

lemmas kmf_maps = kmf_basic kmf_walkpgdir kmf_mappages kmf_deallocuvm kmf_put_bytes

lemma kmf_allocuvm: "kframe kmem_only (allocuvm d oldsz newsz)"
proof -
  have "kframe kmem_only (allocuvm_loop n d a oldsz newsz)" for n a
    by (induction n arbitrary: a) (simp_all only: allocuvm_loop.simps, intro kmf.fr_intros,
        intro kmf.fr_intros kmf_maps)
  then show ?thesis unfolding allocuvm_def by (intro kmf.fr_intros)
qed

lemma kmf_freevm: "kframe kmem_only (freevm d)"
  unfolding freevm_def by (intro kmf.fr_intros kmf_maps)

lemma kmf_setupkvm: "kframe kmem_only setupkvm"
proof -
  have "kframe kmem_only (setupkvm_loop ks d)" for ks d
    by (induction ks) (simp_all only: setupkvm_loop.simps, intro kmf.fr_intros,
        intro kmf.fr_intros kmf_maps kmf_freevm)
  then show ?thesis unfolding setupkvm_def by (intro kmf.fr_intros kmf_maps)
qed

lemma kmf_copyuvm: "kframe kmem_only (copyuvm d sz)"
proof -
  have "kframe kmem_only (copyuvm_loop n d d' i sz)" for n d' i
    by (induction n arbitrary: i) (simp_all only: copyuvm_loop.simps, intro kmf.fr_intros,
        intro kmf.fr_intros kmf_maps kmf_freevm)
  then show ?thesis unfolding copyuvm_def by (intro kmf.fr_intros kmf_setupkvm)
qed

lemma kmf_inituvm: "kframe kmem_only (inituvm d bs)"
  unfolding inituvm_def by (intro kmf.fr_intros kmf_maps)

lemma kmf_clearpteu: "kframe kmem_only (clearpteu d a)"
  unfolding clearpteu_def by (intro kmf.fr_intros kmf_maps)

lemma kmf_copyout: "kframe kmem_only (copyout d va bs)"
proof (induction d va bs rule: copyout.induct)
  case (1 d va bs)
  have uva: "kframe kmem_only (uva2ka d va)" for va
    unfolding uva2ka_def by (intro kmf.fr_intros kmf_maps)
  show ?case
    by (subst copyout.simps) (intro kmf.fr_intros kmf_maps uva 1 refl; assumption)
qed

lemmas kmf_vm = kmf_maps kmf_allocuvm kmf_freevm kmf_setupkvm kmf_copyuvm kmf_inituvm kmf_clearpteu
  kmf_copyout

end
