(* ===== verification/CString.thy ===== *)
theory CString
  imports Prelude
begin

text \<open>
  C strings (the string half of \<^verbatim>\<open>string.c\<close>, and \<^verbatim>\<open>ulib.c\<close>). A \<^verbatim>\<open>char *\<close> is the list of the bytes
  from the pointer to the end of its array; a routine that reads or writes past the end is
  \<open>None\<close>. A routine that writes returns the array as it is afterwards.

  The lemmas relate each routine to the string its arguments hold, \<open>cstr\<close>: the bytes before the
  first NUL.
\<close>

section \<open>Routines of the kernel\<close>

definition str :: "string \<Rightarrow> byte list" where
  "str s = map of_char s"

fun strlen :: "byte list \<Rightarrow> nat option" where
  "strlen [] = None"
| "strlen (c # s) = (if c = 0 then Some 0 else map_option Suc (strlen s))"

fun strncmp :: "byte list \<Rightarrow> byte list \<Rightarrow> nat \<Rightarrow> int option" where
  "strncmp p q 0 = Some 0"
| "strncmp (a # p) (b # q) (Suc n) =
     (if a \<noteq> 0 \<and> a = b then strncmp p q n else Some (uint a - uint b))"
| "strncmp p q (Suc n) = None"

fun zero_fill :: "byte list \<Rightarrow> nat \<Rightarrow> byte list option" where
  "zero_fill s 0 = Some s"
| "zero_fill [] (Suc n) = None"
| "zero_fill (x # s) (Suc n) = map_option ((#) 0) (zero_fill s n)"

fun strncpy :: "byte list \<Rightarrow> byte list \<Rightarrow> nat \<Rightarrow> byte list option" where
  "strncpy s t 0 = Some s"
| "strncpy (x # s) (c # t) (Suc n) =
     map_option ((#) c) (if c \<noteq> 0 then strncpy s t n else zero_fill s n)"
| "strncpy s t (Suc n) = None"

text \<open>After a copied NUL the byte behind it is cleared as well, as in the source.\<close>

fun safestrcpy_loop :: "byte list \<Rightarrow> byte list \<Rightarrow> nat \<Rightarrow> byte list option" where
  "safestrcpy_loop (x # s) t (Suc 0) = Some (0 # s)"
| "safestrcpy_loop (x # s) (c # t) (Suc (Suc n)) =
     (if c \<noteq> 0 then map_option ((#) c) (safestrcpy_loop s t (Suc n))
      else (case s of [] \<Rightarrow> None | _ # s' \<Rightarrow> Some (0 # 0 # s')))"
| "safestrcpy_loop s t n = None"

definition safestrcpy :: "byte list \<Rightarrow> byte list \<Rightarrow> int \<Rightarrow> byte list option" where
  "safestrcpy s t n = (if n \<le> 0 then Some s else safestrcpy_loop s t (nat n))"

definition equals :: "byte list \<Rightarrow> byte list \<Rightarrow> bool option" where
  "equals s1 s2 =
     Option.bind (strlen s1) (\<lambda>n1. Option.bind (strlen s2) (\<lambda>n2.
     if n1 = n2 then map_option (\<lambda>r. r = 0) (strncmp s1 s2 n1) else Some False))"

section \<open>Routines of the user library\<close>

fun strcpy :: "byte list \<Rightarrow> byte list \<Rightarrow> byte list option" where
  "strcpy (x # s) (c # t) = map_option ((#) c) (if c \<noteq> 0 then strcpy s t else Some s)"
| "strcpy s t = None"

fun strcmp :: "byte list \<Rightarrow> byte list \<Rightarrow> int option" where
  "strcmp (a # p) (b # q) = (if a \<noteq> 0 \<and> a = b then strcmp p q else Some (uint a - uint b))"
| "strcmp p q = None"

text \<open>The offset of the first \<open>c\<close> before the terminator; \<open>Some None\<close> for the null pointer.\<close>

fun strchr :: "byte list \<Rightarrow> byte \<Rightarrow> nat option option" where
  "strchr [] c = None"
| "strchr (x # s) c =
     (if x = 0 then Some None
      else if x = c then Some (Some 0)
      else map_option (map_option Suc) (strchr s c))"

fun atoi_loop :: "byte list \<Rightarrow> int \<Rightarrow> int option" where
  "atoi_loop [] n = None"
| "atoi_loop (c # s) n =
     (if 48 \<le> uint c \<and> uint c \<le> 57 then atoi_loop s (n * 10 + uint c - 48) else Some n)"

definition atoi :: "byte list \<Rightarrow> int option" where
  "atoi s = atoi_loop s 0"

section \<open>What they compute\<close>

definition cstr :: "byte list \<Rightarrow> byte list" where
  "cstr s = takeWhile (\<lambda>c. c \<noteq> 0) s"

definition terminated :: "byte list \<Rightarrow> bool" where
  "terminated s \<longleftrightarrow> 0 \<in> set s"

lemma cstr_Cons [simp]: "cstr [] = []" "cstr (c # s) = (if c = 0 then [] else c # cstr s)"
  by (simp_all add: cstr_def)

lemma terminated_Cons [simp]: "\<not> terminated []" "terminated (c # s) \<longleftrightarrow> c = 0 \<or> terminated s"
  by (auto simp: terminated_def)

lemma cstr_str: "0 \<notin> set xs \<Longrightarrow> cstr (xs @ 0 # ys) = xs"
  by (induction xs) auto

lemma terminated_append [simp]: "terminated (xs @ ys) \<longleftrightarrow> terminated xs \<or> terminated ys"
  by (auto simp: terminated_def)

lemma strlen_cstr: "terminated s \<Longrightarrow> strlen s = Some (length (cstr s))"
  by (induction s) auto

lemma strlen_unterminated: "\<not> terminated s \<Longrightarrow> strlen s = None"
  by (induction s) auto

lemma strncmp_eq:
  assumes "terminated a" and "terminated b" and "length (cstr a) = n" and "length (cstr b) = n"
  shows "\<exists>r. strncmp a b n = Some r \<and> (r = 0 \<longleftrightarrow> cstr a = cstr b)"
  using assms
proof (induction a b n rule: strncmp.induct)
  case (1 p q)
  then show ?case by simp
next
  case (2 a p b q n)
  then show ?case by (auto simp: word_uint_eq_iff split: if_splits)
qed (auto)

lemma equals_cstr:
  assumes "terminated a" and "terminated b"
  shows "equals a b = Some (cstr a = cstr b)"
proof (cases "length (cstr a) = length (cstr b)")
  case True
  then obtain r where "strncmp a b (length (cstr a)) = Some r" and "r = 0 \<longleftrightarrow> cstr a = cstr b"
    using strncmp_eq [OF assms] by metis
  then show ?thesis using True assms by (simp add: equals_def strlen_cstr)
next
  case False
  then show ?thesis using assms by (auto simp: equals_def strlen_cstr)
qed

lemma zero_fill_run:
  "n \<le> length s \<Longrightarrow> zero_fill s n = Some (replicate n 0 @ drop n s)"
  by (induction s n rule: zero_fill.induct) auto

lemma strncpy_run:
  assumes "n \<le> length s" and "terminated t"
  shows "strncpy s t n = Some (take n (cstr t @ replicate n 0) @ drop n s)"
  using assms
proof (induction s t n rule: strncpy.induct)
  case (2 x s c t n)
  have "take n (cstr t @ replicate (Suc n) 0) = take n (cstr t @ replicate n 0)"
    by (simp add: min_def del: replicate.simps)
  then have "take n (cstr t @ 0 # replicate n 0) = take n (cstr t @ replicate n 0)"
    by simp
  with 2 show ?case by (auto simp: zero_fill_run)
qed auto

text \<open>A source that has enough bytes need not be terminated.\<close>

lemma strncpy_bounded:
  assumes "n \<le> length s" and "n \<le> length t"
  shows "strncpy s t n = Some (take n (cstr t @ replicate n 0) @ drop n s)"
  using assms
proof (induction s t n rule: strncpy.induct)
  case (2 x s c t n)
  have "take n (cstr t @ replicate (Suc n) 0) = take n (cstr t @ replicate n 0)"
    by (simp add: min_def del: replicate.simps)
  then have "take n (cstr t @ 0 # replicate n 0) = take n (cstr t @ replicate n 0)"
    by simp
  with 2 show ?case by (auto simp: zero_fill_run)
qed auto

lemma safestrcpy_loop_run:
  assumes "0 < n" and "n \<le> length s" and "terminated t"
  shows "\<exists>r. safestrcpy_loop s t n = Some r \<and> length r = length s \<and> terminated r
      \<and> cstr r = take (n - 1) (cstr t)"
  using assms
proof (induction s t n rule: safestrcpy_loop.induct)
  case (2 x s c t n)
  show ?case
  proof (cases "c = 0")
    case True
    with 2 show ?thesis by (cases s) auto
  next
    case False
    with 2 show ?thesis by fastforce
  qed
qed auto

lemma safestrcpy_run:
  assumes "0 < n" and "nat n \<le> length s" and "terminated t"
  shows "\<exists>r. safestrcpy s t n = Some r \<and> length r = length s \<and> terminated r
      \<and> cstr r = take (nat n - 1) (cstr t)"
  using safestrcpy_loop_run [of "nat n" s t] assms by (simp add: safestrcpy_def)

lemma strcpy_run:
  assumes "length (cstr t) < length s" and "terminated t"
  shows "strcpy s t = Some (cstr t @ 0 # drop (Suc (length (cstr t))) s)"
  using assms by (induction s t rule: strcpy.induct) auto

lemma strcmp_run:
  assumes "terminated a" and "terminated b"
  shows "\<exists>r. strcmp a b = Some r \<and> (r = 0 \<longleftrightarrow> cstr a = cstr b)"
  using assms by (induction a b rule: strcmp.induct) (auto simp: word_uint_eq_iff split: if_splits)

lemma strchr_run:
  assumes "terminated s" and "c \<noteq> 0"
  shows "strchr s c = Some (if c \<in> set (cstr s) then Some (length (takeWhile (\<lambda>x. x \<noteq> c) (cstr s))) else None)"
  using assms by (induction s) auto

text \<open>The decimal digits of a number.\<close>

fun digits :: "nat \<Rightarrow> byte list" where
  "digits n = (if n < 10 then [] else digits (n div 10)) @ [of_nat (48 + n mod 10)]"

declare digits.simps [simp del]

definition is_digit :: "byte \<Rightarrow> bool" where
  "is_digit c \<longleftrightarrow> 48 \<le> uint c \<and> uint c \<le> 57"

lemma uint_digit: "m < 10 \<Longrightarrow> uint (of_nat (48 + m) :: byte) = int (48 + m)"
  by (simp only: unsigned_of_nat) (simp add: take_bit_nat_eq_self)

lemma digits_are_digits: "c \<in> set (digits n) \<Longrightarrow> is_digit c"
proof (induction n rule: digits.induct)
  case (1 n)
  have "uint (of_nat (48 + n mod 10) :: byte) = int (48 + n mod 10)"
    by (rule uint_digit) simp
  with 1 show ?case
    by (subst (asm) digits.simps) (auto simp: is_digit_def simp del: of_nat_add split: if_splits)
qed

lemma atoi_loop_append:
  "\<forall>c \<in> set ds. is_digit c \<Longrightarrow>
     atoi_loop (ds @ s) a = atoi_loop s (foldl (\<lambda>n c. n * 10 + uint c - 48) a ds)"
  by (induction ds arbitrary: a) (auto simp: is_digit_def)

lemma foldl_digits: "foldl (\<lambda>n c. n * 10 + uint c - 48) 0 (digits n) = int n"
proof (induction n rule: digits.induct)
  case (1 n)
  have "uint (of_nat (48 + n mod 10) :: byte) = int (48 + n mod 10)"
    by (rule uint_digit) simp
  moreover have "int (n div 10) * 10 + int (48 + n mod 10) - 48 = int n"
    by (simp add: zdiv_int zmod_int)
  ultimately show ?case using 1
    by (subst digits.simps) (cases "n < 10"; simp del: of_nat_add)
qed

lemma atoi_digits:
  assumes "\<not> is_digit c"
  shows "atoi (digits n @ c # s) = Some (int n)"
  using assms digits_are_digits
  by (simp add: atoi_def atoi_loop_append foldl_digits) (auto simp: is_digit_def)

end
