(* ===== verification/Ptable.thy ===== *)
theory Ptable
  imports Vm CString
begin

text \<open>
  The process table and what the three scheduler variants (\<^verbatim>\<open>proc.c\<close>, \<^verbatim>\<open>proc_MLFQ.c\<close>,
  \<^verbatim>\<open>proc_multiLevel.c\<close>) share word for word: the data of \<^verbatim>\<open>proc.h\<close>, \<^verbatim>\<open>myproc\<close>, the kernel stack
  that \<^verbatim>\<open>allocproc\<close> sets up, \<^verbatim>\<open>switchuvm\<close> and \<^verbatim>\<open>sched\<close>.

  A \<^verbatim>\<open>struct proc *\<close> is an index into the table, \<open>None\<close> the null pointer; following the null
  pointer is a \<open>Fault\<close>. Trap frames and saved contexts lie in the memory of \<^verbatim>\<open>Memory\<close>, on the
  kernel stack the process owns, at the addresses \<open>p_tf\<close> and \<open>p_context\<close>.
\<close>

section \<open>Data\<close>

definition NPROC :: nat where "NPROC = 64"
definition KSTACKSIZE :: u32 where "KSTACKSIZE = 4096"
definition NOFILE :: nat where "NOFILE = 16"

datatype procstate = UNUSED | EMBRYO | SLEEPING | RUNNABLE | RUNNING | ZOMBIE

text \<open>The addresses processes sleep on.\<close>

datatype chan =
    C_proc nat | C_ticks | C_log | C_buf nat | C_bufdata nat | C_inode nat
  | C_nread nat | C_nwrite nat | C_cons

record proc =
  p_sz :: u32
  p_pgdir :: u32
  p_kstack :: u32
  p_state :: procstate
  p_pid :: int
  p_parent :: "nat option"
  p_tf :: u32
  p_context :: u32
  p_chan :: "chan option"
  p_killed :: bool
  p_ofile :: "nat option list"
  p_cwd :: "nat option"
  p_name :: "byte list"
  p_tid :: int
  p_main :: "nat option"
  p_retval :: u32
  p_sbase :: u32
  p_priority :: int
  p_level :: nat
  p_extime :: int

text \<open>
  \<open>cpu_proc\<close> is the field \<^verbatim>\<open>proc\<close> of each \<^verbatim>\<open>struct cpu\<close>, \<open>ts_esp0\<close> the kernel stack pointer of the
  task segment; \<open>sym_forkret\<close> and \<open>sym_trapret\<close> are the addresses of \<^verbatim>\<open>forkret\<close> and \<^verbatim>\<open>trapret\<close>.
\<close>

record ptable_st = vm_st +
  procs :: "proc list"
  initproc :: "nat option"
  nextpid :: int
  cpu_proc :: "nat \<Rightarrow> nat option"
  ts_esp0 :: "nat \<Rightarrow> u32"
  ticks :: u32
  sym_forkret :: u32
  sym_trapret :: u32

section \<open>Access\<close>

abbreviation pfld :: "nat \<Rightarrow> (proc \<Rightarrow> 'a) \<Rightarrow> ('z ptable_st_scheme, 'a) kernel" where
  "pfld p f \<equiv> kget (\<lambda>s. f (procs s ! p))"

definition pset :: "nat \<Rightarrow> (proc \<Rightarrow> proc) \<Rightarrow> ('z ptable_st_scheme, unit) kernel" where
  "pset p g = kmod (\<lambda>s. s\<lparr>procs := (procs s)[p := g (procs s ! p)]\<rparr>)"

definition deref :: "nat option \<Rightarrow> (nat \<Rightarrow> ('s, 'a) kernel) \<Rightarrow> ('s, 'a) kernel" where
  "deref ptr f = (case ptr of None \<Rightarrow> kfault | Some p \<Rightarrow> f p)"

definition myproc :: "('z ptable_st_scheme, nat option) kernel" where
  "myproc =
     kthen pushcli
    (kbind (kget (\<lambda>s. cpu_proc s (me (lk s)))) (\<lambda>p.
     kthen popcli
    (kret p)))"

text \<open>The process that runs: every caller of \<^verbatim>\<open>myproc()\<close> that goes on to use the pointer.\<close>

definition with_myproc :: "(nat \<Rightarrow> ('z ptable_st_scheme, 'a) kernel) \<Rightarrow> ('z ptable_st_scheme, 'a) kernel" where
  "with_myproc f = kbind myproc (\<lambda>p. deref p f)"

section \<open>Kernel stacks\<close>

definition sizeof_trapframe :: u32 where "sizeof_trapframe = 76"
definition sizeof_context :: u32 where "sizeof_context = 20"

definition tf_eax :: u32 where "tf_eax = 28"
definition tf_es :: u32 where "tf_es = 40"
definition tf_ds :: u32 where "tf_ds = 44"
definition tf_eip :: u32 where "tf_eip = 56"
definition tf_cs :: u32 where "tf_cs = 60"
definition tf_eflags :: u32 where "tf_eflags = 64"
definition tf_esp :: u32 where "tf_esp = 68"
definition tf_ss :: u32 where "tf_ss = 72"
definition ctx_eip :: u32 where "ctx_eip = 16"

text \<open>
  The part of \<^verbatim>\<open>allocproc\<close> after the table lock is released: a kernel stack with room for the
  trap frame, the return address \<^verbatim>\<open>trapret\<close> and a context that starts at \<^verbatim>\<open>forkret\<close>.
\<close>

definition alloc_kstack :: "nat \<Rightarrow> ('z ptable_st_scheme, nat option) kernel" where
  "alloc_kstack p =
     kbind kalloc (\<lambda>k.
     kthen (pset p (p_kstack_update (\<lambda>_. k)))
    (if k = 0 then
       kthen (pset p (p_state_update (\<lambda>_. UNUSED)))
      (kret None)
     else
       (let sp = k + KSTACKSIZE - sizeof_trapframe;
            sp1 = sp - 4;
            sp2 = sp1 - sizeof_context in
        kthen (pset p (p_tf_update (\<lambda>_. sp)))
       (kthen (kmod (\<lambda>s. s\<lparr>mem := store32 sp1 (sym_trapret s) (mem s)\<rparr>))
       (kthen (pset p (p_context_update (\<lambda>_. sp2)))
       (kthen (kmod (\<lambda>s. s\<lparr>mem := memset sp2 0 (unat sizeof_context) (mem s)\<rparr>))
       (kthen (kmod (\<lambda>s. s\<lparr>mem := store32 (sp2 + ctx_eip) (sym_forkret s) (mem s)\<rparr>))
       (kret (Some p)))))))))"

text \<open>\<^verbatim>\<open>tf->field = v\<close> and \<^verbatim>\<open>*p->tf = *q->tf\<close>\<close>

definition tf_set :: "nat \<Rightarrow> u32 \<Rightarrow> u32 \<Rightarrow> ('z ptable_st_scheme, unit) kernel" where
  "tf_set p off v = kmod (\<lambda>s. s\<lparr>mem := store32 (p_tf (procs s ! p) + off) v (mem s)\<rparr>)"

definition tf_copy :: "nat \<Rightarrow> nat \<Rightarrow> ('z ptable_st_scheme, unit) kernel" where
  "tf_copy p q = kmod (\<lambda>s. s\<lparr>mem := copy (p_tf (procs s ! p)) (p_tf (procs s ! q))
      (unat sizeof_trapframe) (mem s)\<rparr>)"

definition SEG_UCODE :: u32 where "SEG_UCODE = 3"
definition SEG_UDATA :: u32 where "SEG_UDATA = 4"
definition DPL_USER :: u32 where "DPL_USER = 3"
definition FL_IF :: u32 where "FL_IF = 0x200"

text \<open>The first trap frame, the same in all variants of \<^verbatim>\<open>userinit\<close>.\<close>

definition init_tf :: "nat \<Rightarrow> ('z ptable_st_scheme, unit) kernel" where
  "init_tf p =
     kthen (kmod (\<lambda>s. s\<lparr>mem := memset (p_tf (procs s ! p)) 0 (unat sizeof_trapframe) (mem s)\<rparr>))
    (kthen (tf_set p tf_cs (push_bit 3 SEG_UCODE OR DPL_USER))
    (kthen (tf_set p tf_ds (push_bit 3 SEG_UDATA OR DPL_USER))
    (kthen (tf_set p tf_es (push_bit 3 SEG_UDATA OR DPL_USER))
    (kthen (tf_set p tf_ss (push_bit 3 SEG_UDATA OR DPL_USER))
    (kthen (tf_set p tf_eflags FL_IF)
    (kthen (tf_set p tf_esp PGSIZE)
    (tf_set p tf_eip 0)))))))"

text \<open>The child's file table and directory, its name: the part \<^verbatim>\<open>fork\<close> has in every variant.\<close>

definition copy_files ::
  "(nat \<Rightarrow> ('z ptable_st_scheme, nat) kernel) \<Rightarrow> (nat option \<Rightarrow> ('z ptable_st_scheme, nat option) kernel)
     \<Rightarrow> nat \<Rightarrow> nat \<Rightarrow> ('z ptable_st_scheme, unit) kernel"
where
  "copy_files filedup idup np q =
     kthen (kfor [0..<NOFILE] (\<lambda>i.
       kbind (pfld q (\<lambda>x. p_ofile x ! i)) (\<lambda>f.
       case f of
         None \<Rightarrow> kret ()
       | Some fi \<Rightarrow> kbind (filedup fi) (\<lambda>fi'.
           pset np (\<lambda>x. x\<lparr>p_ofile := (p_ofile x)[i := Some fi']\<rparr>)))))
    (kbind (pfld q p_cwd) (\<lambda>c.
     kbind (idup c) (\<lambda>c'.
     kthen (pset np (p_cwd_update (\<lambda>_. c')))
    (kbind (kget (\<lambda>s. (p_name (procs s ! np), p_name (procs s ! q)))) (\<lambda>(d, n).
     kbind (kopt (safestrcpy d n 16)) (\<lambda>d'.
     pset np (p_name_update (\<lambda>_. d'))))))))"

section \<open>Switching\<close>

text \<open>Of the task segment only the kernel stack pointer is kept.\<close>

definition switchuvm :: "nat option \<Rightarrow> ('z ptable_st_scheme, unit) kernel" where
  "switchuvm ptr =
     (case ptr of None \<Rightarrow> kpanic ''switchuvm: no process'' | Some p \<Rightarrow>
     kbind (pfld p p_kstack) (\<lambda>ks.
     if ks = 0 then kpanic ''switchuvm: no kstack''
     else kbind (pfld p p_pgdir) (\<lambda>d.
     if d = 0 then kpanic ''switchuvm: no pgdir''
     else
       kthen pushcli
      (kthen (kmod (\<lambda>s. s\<lparr>ts_esp0 := (ts_esp0 s)(me (lk s) := ks + KSTACKSIZE)\<rparr>))
      (kthen (kmod (\<lambda>s. s\<lparr>cr3 := V2P d\<rparr>))
      popcli)))))"

text \<open>Enter the scheduler; the process goes on when the scheduler switches back to it.\<close>

definition sched :: "('z ptable_st_scheme, unit) kernel" where
  "sched =
     with_myproc (\<lambda>p.
     kbind (holding L_ptable) (\<lambda>h.
     if \<not> h then kpanic ''sched ptable.lock''
     else kbind (kget (\<lambda>s. ncli (mycpu (lk s)))) (\<lambda>n.
     if n \<noteq> 1 then kpanic ''sched locks''
     else kbind (pfld p p_state) (\<lambda>st.
     if st = RUNNING then kpanic ''sched running''
     else kbind (kget (\<lambda>s. eflags_IF (lk s))) (\<lambda>fl.
     if fl then kpanic ''sched interruptible''
     else kbind (kget (\<lambda>s. intena (mycpu (lk s)))) (\<lambda>ie.
       kthen kyield
      (kmod (\<lambda>s. s\<lparr>lk := set_mycpu ((mycpu (lk s))\<lparr>intena := ie\<rparr>) (lk s)\<rparr>))))))))"

text \<open>Running a process, as the schedulers of \<^verbatim>\<open>proc.c\<close> and \<^verbatim>\<open>proc_multiLevel.c\<close> do it.\<close>

definition rr_dispatch :: "nat \<Rightarrow> ('z ptable_st_scheme, unit) kernel" where
  "rr_dispatch p =
     kthen (kmod (\<lambda>s. s\<lparr>cpu_proc := (cpu_proc s)(me (lk s) := Some p)\<rparr>))
    (kthen (switchuvm (Some p))
    (kthen (pset p (p_state_update (\<lambda>_. RUNNING)))
    (kthen kyield
    (kthen switchkvm
    (kmod (\<lambda>s. s\<lparr>cpu_proc := (cpu_proc s)(me (lk s) := None)\<rparr>))))))"

definition sti :: "('z kbase_scheme, unit) kernel" where
  "sti = kmod (\<lambda>s. s\<lparr>lk := (lk s)\<lparr>eflags_IF := True\<rparr>\<rparr>)"

section \<open>Running them\<close>

lemma pset_run [kernel_simps]:
  "pset p g s = Ret () (s\<lparr>procs := (procs s)[p := g (procs s ! p)]\<rparr>)"
  by (simp add: pset_def kernel_simps)

lemma deref_run [kernel_simps]: "deref (Some p) f = f p" "deref None f s = Fault"
  by (simp_all add: deref_def kernel_simps)

lemma myproc_run:
  assumes "lk_ok (lk s)"
  shows "myproc s = Ret (cpu_proc s (me (lk s))) s"
  using assms
  by (auto simp: myproc_def pushcli_def popcli_def kernel_simps Let_def lk_ok_def set_mycpu_def
      mycpu_def intro!: ptable_st.equality lockst.equality)

lemma with_myproc_run:
  assumes "lk_ok (lk s)"
  shows "with_myproc f s = deref (cpu_proc s (me (lk s))) f s"
  using assms by (simp add: with_myproc_def kernel_simps myproc_run)

lemma switchuvm_run:
  assumes "lk_ok (lk s)" and "p_kstack (procs s ! p) \<noteq> 0" and "p_pgdir (procs s ! p) \<noteq> 0"
  shows "switchuvm (Some p) s = Ret () (s\<lparr>
      ts_esp0 := (ts_esp0 s)(me (lk s) := p_kstack (procs s ! p) + KSTACKSIZE),
      cr3 := V2P (p_pgdir (procs s ! p))\<rparr>)"
  using assms
  by (auto simp: switchuvm_def pushcli_def popcli_def kernel_simps Let_def lk_ok_def set_mycpu_def
      mycpu_def intro!: ptable_st.equality lockst.equality)

text \<open>With just the table lock held, a process that has left RUNNING hands the processor over.\<close>

lemma sched_run:
  fixes s :: "'z ptable_st_scheme"
  assumes "lk_ok (lk s)" and "lock_held L_ptable (lk s)" and "ncli (mycpu (lk s)) = 1"
    and "cpu_proc s (me (lk s)) = Some p" and "p_state (procs s ! p) \<noteq> RUNNING"
  shows "sched s = Wait s (\<lambda>t. Ret () (t\<lparr>lk := set_mycpu
      ((mycpu (lk t))\<lparr>intena := intena (mycpu (lk s))\<rparr>) (lk t)\<rparr>))"
  using assms
  by (simp add: sched_def with_myproc_run holding_run kernel_simps lock_held_def lk_ok_def)

lemma sched_running:
  assumes "lk_ok (lk s)" and "lock_held L_ptable (lk s)" and "ncli (mycpu (lk s)) = 1"
    and "cpu_proc s (me (lk s)) = Some p" and "p_state (procs s ! p) = RUNNING"
  shows "sched s = Panic ''sched running''"
  using assms by (simp add: sched_def with_myproc_run holding_run kernel_simps lock_held_def)

lemma rg_pset [rg_simps]:
  "rg R G (pset p g) Q s = Q () (s\<lparr>procs := (procs s)[p := g (procs s ! p)]\<rparr>)"
  by (simp add: pset_def rg_simps)

lemma rg_deref [rg_simps]: "rg R G (deref ptr f) Q s = (\<forall>p. ptr = Some p \<longrightarrow> rg R G (f p) Q s)"
  by (cases ptr) (simp_all add: deref_def rg_simps)

lemma rg_myproc:
  assumes "\<And>t. lk_only s t \<Longrightarrow> Q (cpu_proc s (me (lk s))) t"
  shows "rg R G myproc Q s"
  by (auto simp: rg_def myproc_def pushcli_def popcli_def kernel_simps Let_def intro!: assms lk_onlyI)

lemma rg_with_myproc:
  assumes "\<And>p t. lk_only s t \<Longrightarrow> cpu_proc s (me (lk s)) = Some p \<Longrightarrow> rg R G (f p) Q t"
  shows "rg R G (with_myproc f) Q s"
  using assms by (auto simp: with_myproc_def rg_simps intro!: rg_myproc)

text \<open>\<^verbatim>\<open>sched\<close> hands over the state it finds and comes back in the state it is resumed in.\<close>

lemma rg_sched:
  assumes "\<And>t. lk_only s t \<Longrightarrow> G t" and "\<And>t u. R t \<Longrightarrow> lk_only t u \<Longrightarrow> Q () u"
  shows "rg R G sched Q s"
  unfolding sched_def
proof (rule rg_with_myproc, unfold rg_bind, rule rg_frame [OF lkf_holding])
  fix p h and t u :: "'a ptable_st_scheme"
  assume "lk_only s t" and "lk_only t u"
  then have u: "lk_only s u" by (rule lkf.frame_trans)
  have Q: "R v \<Longrightarrow> Q () (v\<lparr>lk := set_mycpu c (lk v)\<rparr>)" for c and v :: "'a ptable_st_scheme"
    by (rule assms(2)) (auto intro: lk_onlyI)
  show "rg R G (if \<not> h then kpanic ''sched ptable.lock''
     else kbind (kget (\<lambda>s. ncli (mycpu (lk s)))) (\<lambda>n.
     if n \<noteq> 1 then kpanic ''sched locks''
     else kbind (pfld p p_state) (\<lambda>st.
     if st = RUNNING then kpanic ''sched running''
     else kbind (kget (\<lambda>s. eflags_IF (lk s))) (\<lambda>fl.
     if fl then kpanic ''sched interruptible''
     else kbind (kget (\<lambda>s. intena (mycpu (lk s)))) (\<lambda>ie.
       kthen kyield
      (kmod (\<lambda>s. s\<lparr>lk := set_mycpu ((mycpu (lk s))\<lparr>intena := ie\<rparr>) (lk s)\<rparr>))))))) Q u"
    using Q assms(1) [OF u] by (auto simp: rg_simps)
qed

text \<open>A loop over the table that changes each process by itself.\<close>

lemma kfor_procs:
  assumes "\<And>p s. p < length (procs s) \<Longrightarrow> body p s = Ret () (s\<lparr>procs := (procs s)[p := f (procs s ! p)]\<rparr>)"
    and "n \<le> length (procs s)"
  shows "kfor [0..<n] body s = Ret () (s\<lparr>procs := map f (take n (procs s)) @ drop n (procs s)\<rparr>)"
  using assms(2)
proof (induction n)
  case (Suc n)
  let ?t = "s\<lparr>procs := map f (take n (procs s)) @ drop n (procs s)\<rparr>"
  have "(procs ?t)[n := f (procs ?t ! n)] = map f (take (Suc n) (procs s)) @ drop (Suc n) (procs s)"
    using Suc.prems by (simp add: nth_append list_update_append take_Suc_conv_app_nth Cons_nth_drop_Suc [symmetric])
  moreover have "body n ?t = Ret () (?t\<lparr>procs := (procs ?t)[n := f (procs ?t ! n)]\<rparr>)"
    by (rule assms(1)) (use Suc.prems in simp)
  moreover have "kfor [0..<Suc n] body s = kcont (kfor [0..<n] body s) (\<lambda>_. body n)"
    by (simp add: kfor_append kernel_simps kthen_def kbind_def kret_def kcont_ret)
  ultimately show ?case using Suc by (simp add: kernel_simps)
qed (simp add: kernel_simps)

definition rr_dispatched :: "'z ptable_st_scheme \<Rightarrow> nat \<Rightarrow> 'z ptable_st_scheme" where
  "rr_dispatched s p = (let x = procs s ! p in
     s\<lparr>cpu_proc := (cpu_proc s)(me (lk s) := Some p),
       ts_esp0 := (ts_esp0 s)(me (lk s) := p_kstack x + KSTACKSIZE), cr3 := V2P (p_pgdir x),
       procs := (procs s)[p := x\<lparr>p_state := RUNNING\<rparr>]\<rparr>)"

definition rr_back :: "'z ptable_st_scheme \<Rightarrow> 'z ptable_st_scheme" where
  "rr_back s = s\<lparr>cr3 := V2P (kpgdir s), cpu_proc := (cpu_proc s)(me (lk s) := None)\<rparr>"

lemma rr_dispatch_run:
  assumes "lk_ok (lk s)" and "p_kstack (procs s ! p) \<noteq> 0" and "p_pgdir (procs s ! p) \<noteq> 0"
  shows "rr_dispatch p s = Wait (rr_dispatched s p) (\<lambda>t. Ret () (rr_back t))"
  using assms
  by (simp add: rr_dispatch_def kernel_simps switchuvm_run switchkvm_def rr_dispatched_def rr_back_def Let_def)

end
