(* ===== verification/Mlfq.thy ===== *)
theory Mlfq
  imports Ptable
begin

text \<open>
  The multi-level feedback queue scheduler (\<^verbatim>\<open>proc_MLFQ.c\<close>), built with \<^verbatim>\<open>MLFQ_K = 3\<close> levels, the
  default of the Makefile. Beside the processes the table keeps, for each level, the process
  dispatched last (\<open>heads\<close>) and the number of runnable processes (\<open>numproc\<close>), which the
  scheduler uses to find the highest level with work. The names carry the prefix \<open>mlfq_\<close>, since
  \<^verbatim>\<open>proc.c\<close> defines the same functions; \<^verbatim>\<open>myproc\<close>, \<^verbatim>\<open>sched\<close> and the kernel stack of \<^verbatim>\<open>allocproc\<close> are
  those of \<^verbatim>\<open>Ptable\<close>. The file layer, \<^verbatim>\<open>copyuvm\<close> apart from it, enters \<^verbatim>\<open>fork\<close>, \<^verbatim>\<open>exit\<close> and
  \<^verbatim>\<open>userinit\<close> as arguments.

  \<^verbatim>\<open>Mlfq_Inv\<close> shows that the counters stay equal to the number of runnable processes of each level
  through every operation; \<^verbatim>\<open>Mlfq_Sched\<close> shows which process the scheduler dispatches, when it is
  bound to find one, and when its search never ends.
\<close>

section \<open>State\<close>

definition MLFQ_K :: nat where "MLFQ_K = 3"

definition QT :: "nat \<Rightarrow> int" where "QT l = 4 * int l + 2"

record mlfq_st = ptable_st +
  heads :: "nat option list"
  numproc :: "int list"

definition num_add :: "nat \<Rightarrow> int \<Rightarrow> ('z mlfq_st_scheme, unit) kernel" where
  "num_add l d = kmod (\<lambda>s. s\<lparr>numproc := (numproc s)[l := numproc s ! l + d]\<rparr>)"

definition set_head :: "nat \<Rightarrow> nat option \<Rightarrow> ('z mlfq_st_scheme, unit) kernel" where
  "set_head l h = kmod (\<lambda>s. s\<lparr>heads := (heads s)[l := h]\<rparr>)"

text \<open>The two statements that make a process runnable, wherever the source has them.\<close>

definition make_runnable :: "nat \<Rightarrow> ('z mlfq_st_scheme, unit) kernel" where
  "make_runnable p =
     kthen (pset p (p_state_update (\<lambda>_. RUNNABLE)))
    (kbind (pfld p p_level) (\<lambda>l. num_add l 1))"

section \<open>Creating processes\<close>

definition mlfq_pinit :: "('z mlfq_st_scheme, unit) kernel" where
  "mlfq_pinit =
     kthen (kfor [0..<MLFQ_K] (\<lambda>i.
       kthen (set_head i None)
      (kmod (\<lambda>s. s\<lparr>numproc := (numproc s)[i := 0]\<rparr>))))
    (initlock L_ptable)"

definition mlfq_allocproc :: "('z mlfq_st_scheme, nat option) kernel" where
  "mlfq_allocproc =
     kthen (acquire L_ptable)
    (kbind (kget (\<lambda>s. find (\<lambda>p. p_state (procs s ! p) = UNUSED) [0..<NPROC])) (\<lambda>found.
     case found of
       None \<Rightarrow> kthen (release L_ptable) (kret None)
     | Some p \<Rightarrow>
         kbind (kget nextpid) (\<lambda>n.
         kthen (pset p (\<lambda>x. x\<lparr>p_state := EMBRYO, p_pid := n\<rparr>))
        (kthen (kmod (\<lambda>s. s\<lparr>nextpid := n + 1\<rparr>))
        (kthen (pset p (\<lambda>x. x\<lparr>p_priority := 0, p_extime := 0, p_level := 0\<rparr>))
        (kthen (release L_ptable)
        (alloc_kstack p)))))))"

text \<open>\<^verbatim>\<open>userinit\<close> once it has a process and a page table for it.\<close>

definition mlfq_userinit_proc ::
  "byte list \<Rightarrow> (byte list \<Rightarrow> ('z mlfq_st_scheme, nat option) kernel) \<Rightarrow> u32 \<Rightarrow> nat \<Rightarrow> ('z mlfq_st_scheme, unit) kernel"
where
  "mlfq_userinit_proc initcode namei d p =
     kthen (pset p (p_pgdir_update (\<lambda>_. d)))
    (if d = 0 then kpanic ''userinit: out of memory?''
     else
       kthen (inituvm d initcode)
      (kthen (pset p (p_sz_update (\<lambda>_. PGSIZE)))
      (kthen (init_tf p)
      (kbind (pfld p p_name) (\<lambda>nm.
       kbind (kopt (safestrcpy nm (str ''initcode'' @ [0]) 16)) (\<lambda>nm'.
       kthen (pset p (p_name_update (\<lambda>_. nm')))
      (kbind (namei (str ''/'' @ [0])) (\<lambda>ip.
       kthen (pset p (p_cwd_update (\<lambda>_. ip)))
      (kthen (acquire L_ptable)
      (kthen (make_runnable p)
      (release L_ptable)))))))))))"

definition mlfq_userinit ::
  "byte list \<Rightarrow> (byte list \<Rightarrow> ('z mlfq_st_scheme, nat option) kernel) \<Rightarrow> ('z mlfq_st_scheme, unit) kernel"
where
  "mlfq_userinit initcode namei =
     kbind mlfq_allocproc (\<lambda>ptr.
     kthen (kmod (\<lambda>s. s\<lparr>initproc := ptr\<rparr>))
    (kbind setupkvm (\<lambda>d. deref ptr (\<lambda>p. mlfq_userinit_proc initcode namei d p))))"

definition mlfq_growproc :: "int \<Rightarrow> ('z mlfq_st_scheme, int) kernel" where
  "mlfq_growproc n =
     with_myproc (\<lambda>p.
     kbind (pfld p p_sz) (\<lambda>sz.
     kbind (pfld p p_pgdir) (\<lambda>d.
     kbind (if n > 0 then allocuvm d sz (sz + of_int n)
            else if n < 0 then deallocuvm d sz (sz + of_int n)
            else kret sz) (\<lambda>sz'.
     if n \<noteq> 0 \<and> sz' = 0 then kret (-1)
     else
       kthen (pset p (p_sz_update (\<lambda>_. sz')))
      (kthen (switchuvm (Some p))
      (kret 0))))))"

text \<open>\<^verbatim>\<open>fork\<close> once it has a process \<open>np\<close> for the child.\<close>

definition mlfq_fork_child ::
  "(nat \<Rightarrow> ('z mlfq_st_scheme, nat) kernel) \<Rightarrow> (nat option \<Rightarrow> ('z mlfq_st_scheme, nat option) kernel)
     \<Rightarrow> nat \<Rightarrow> nat \<Rightarrow> ('z mlfq_st_scheme, int) kernel"
where
  "mlfq_fork_child filedup idup curproc np =
     kbind (pfld curproc (\<lambda>x. (p_pgdir x, p_sz x))) (\<lambda>(d, sz).
     kbind (copyuvm d sz) (\<lambda>d'.
     kthen (pset np (p_pgdir_update (\<lambda>_. d')))
    (if d' = 0 then
       kbind (pfld np p_kstack) (\<lambda>k.
       kthen (kfree k)
      (kthen (pset np (\<lambda>x. x\<lparr>p_kstack := 0, p_state := UNUSED\<rparr>))
      (kret (-1))))
     else
       kbind (pfld curproc p_sz) (\<lambda>sz'.
       kthen (pset np (\<lambda>x. x\<lparr>p_sz := sz', p_parent := Some curproc\<rparr>))
      (kthen (tf_copy np curproc)
      (kthen (tf_set np tf_eax 0)
      (kthen (copy_files filedup idup np curproc)
      (kbind (pfld np p_pid) (\<lambda>pid.
       kthen (acquire L_ptable)
      (kthen (make_runnable np)
      (kthen (release L_ptable)
      (kret pid))))))))))))"

definition mlfq_fork ::
  "(nat \<Rightarrow> ('z mlfq_st_scheme, nat) kernel) \<Rightarrow> (nat option \<Rightarrow> ('z mlfq_st_scheme, nat option) kernel)
     \<Rightarrow> ('z mlfq_st_scheme, int) kernel"
where
  "mlfq_fork filedup idup =
     with_myproc (\<lambda>curproc.
     kbind mlfq_allocproc (\<lambda>ptr.
     case ptr of None \<Rightarrow> kret (-1) | Some np \<Rightarrow> mlfq_fork_child filedup idup curproc np))"

section \<open>Sleeping and waking\<close>

definition mlfq_wakeup1 :: "chan option \<Rightarrow> ('z mlfq_st_scheme, unit) kernel" where
  "mlfq_wakeup1 chan =
     kfor [0..<NPROC] (\<lambda>p.
       kbind (pfld p (\<lambda>x. p_state x = SLEEPING \<and> p_chan x = chan)) (\<lambda>b.
       kwhen b (make_runnable p)))"

definition mlfq_wakeup :: "chan option \<Rightarrow> ('z mlfq_st_scheme, unit) kernel" where
  "mlfq_wakeup chan =
     kthen (acquire L_ptable)
    (kthen (mlfq_wakeup1 chan)
    (release L_ptable))"

definition mlfq_sleep :: "chan option \<Rightarrow> lockid option \<Rightarrow> ('z mlfq_st_scheme, unit) kernel" where
  "mlfq_sleep chan lkp =
     kbind myproc (\<lambda>ptr.
     case ptr of None \<Rightarrow> kpanic ''sleep'' | Some p \<Rightarrow>
     case lkp of None \<Rightarrow> kpanic ''sleep without lk'' | Some l \<Rightarrow>
     kthen (kwhen (l \<noteq> L_ptable) (kthen (acquire L_ptable) (release l)))
    (kthen (pset p (\<lambda>x. x\<lparr>p_chan := chan, p_state := SLEEPING\<rparr>))
    (kthen sched
    (kthen (pset p (p_chan_update (\<lambda>_. None)))
    (kwhen (l \<noteq> L_ptable) (kthen (release L_ptable) (acquire l)))))))"

definition mlfq_yield :: "('z mlfq_st_scheme, unit) kernel" where
  "mlfq_yield =
     kthen (acquire L_ptable)
    (kthen (with_myproc (\<lambda>p. pset p (p_state_update (\<lambda>_. RUNNABLE))))
    (kthen (with_myproc (\<lambda>p. kbind (pfld p p_level) (\<lambda>l. num_add l 1)))
    (kthen sched
    (release L_ptable))))"

definition mlfq_kill :: "int \<Rightarrow> ('z mlfq_st_scheme, int) kernel" where
  "mlfq_kill pid =
     kthen (acquire L_ptable)
    (kbind (kget (\<lambda>s. find (\<lambda>p. p_pid (procs s ! p) = pid) [0..<NPROC])) (\<lambda>found.
     case found of
       None \<Rightarrow> kthen (release L_ptable) (kret (-1))
     | Some p \<Rightarrow>
         kthen (pset p (p_killed_update (\<lambda>_. True)))
        (kthen (kbind (pfld p p_state) (\<lambda>st. kwhen (st = SLEEPING) (make_runnable p)))
        (kthen (release L_ptable)
        (kret 0)))))"

section \<open>Exit and wait\<close>

definition mlfq_exit ::
  "(nat \<Rightarrow> ('z mlfq_st_scheme, unit) kernel) \<Rightarrow> ('z mlfq_st_scheme, unit) kernel
     \<Rightarrow> (nat option \<Rightarrow> ('z mlfq_st_scheme, unit) kernel) \<Rightarrow> ('z mlfq_st_scheme, unit) kernel
     \<Rightarrow> ('z mlfq_st_scheme, 'a) kernel"
where
  "mlfq_exit fileclose begin_op iput end_op =
     with_myproc (\<lambda>curproc.
     kbind (kget initproc) (\<lambda>ip.
     if ip = Some curproc then kpanic ''init exiting''
     else
       kthen (kfor [0..<NOFILE] (\<lambda>fd.
         kbind (pfld curproc (\<lambda>x. p_ofile x ! fd)) (\<lambda>f.
         case f of
           None \<Rightarrow> kret ()
         | Some fi \<Rightarrow>
             kthen (fileclose fi)
            (pset curproc (\<lambda>x. x\<lparr>p_ofile := (p_ofile x)[fd := None]\<rparr>)))))
      (kthen begin_op
      (kbind (pfld curproc p_cwd) (\<lambda>c.
       kthen (iput c)
      (kthen end_op
      (kthen (pset curproc (p_cwd_update (\<lambda>_. None)))
      (kthen (acquire L_ptable)
      (kbind (pfld curproc p_parent) (\<lambda>pp.
       kthen (mlfq_wakeup1 (map_option C_proc pp))
      (kthen (kfor [0..<NPROC] (\<lambda>p.
         kbind (pfld p p_parent) (\<lambda>q.
         kwhen (q = Some curproc)
          (kthen (pset p (p_parent_update (\<lambda>_. ip)))
          (kbind (pfld p p_state) (\<lambda>st.
           kwhen (st = ZOMBIE) (mlfq_wakeup1 (map_option C_proc ip))))))))
      (kthen (pset curproc (p_state_update (\<lambda>_. ZOMBIE)))
      (kthen sched
      (kpanic ''zombie exit''))))))))))))))"

text \<open>Freeing a zombie child, and one pass of \<^verbatim>\<open>wait\<close> over the table.\<close>

definition mlfq_reap :: "nat \<Rightarrow> ('z mlfq_st_scheme, int) kernel" where
  "mlfq_reap p =
     kbind (pfld p p_pid) (\<lambda>pid.
     kbind (pfld p p_kstack) (\<lambda>k.
     kthen (kfree k)
    (kthen (pset p (p_kstack_update (\<lambda>_. 0)))
    (kbind (pfld p p_pgdir) (\<lambda>d.
     kthen (freevm d)
    (kthen (pset p (\<lambda>x. x\<lparr>p_pid := 0, p_parent := None, p_name := (p_name x)[0 := 0],
                        p_killed := False, p_state := UNUSED\<rparr>))
    (kret pid)))))))"

definition mlfq_wait_scan :: "nat \<Rightarrow> ('z mlfq_st_scheme, int option) kernel" where
  "mlfq_wait_scan curproc =
     kfind [0..<NPROC] (\<lambda>p.
       kbind (pfld p (\<lambda>x. p_parent x = Some curproc \<and> p_state x = ZOMBIE)) (\<lambda>b.
       if b then kbind (mlfq_reap p) (\<lambda>pid. kret (Some pid)) else kret None))"

text \<open>\<open>n\<close> bounds how often the process is woken before it finds an exited child.\<close>

primrec mlfq_wait_loop :: "nat \<Rightarrow> nat \<Rightarrow> ('z mlfq_st_scheme, int) kernel" where
  "mlfq_wait_loop 0 curproc = kstuck"
| "mlfq_wait_loop (Suc n) curproc =
     kbind (mlfq_wait_scan curproc) (\<lambda>r.
     case r of
       Some pid \<Rightarrow> kthen (release L_ptable) (kret pid)
     | None \<Rightarrow>
         kbind (kget (\<lambda>s. list_ex (\<lambda>x. p_parent x = Some curproc) (procs s))) (\<lambda>havekids.
         kbind (pfld curproc p_killed) (\<lambda>k.
         if \<not> havekids \<or> k then kthen (release L_ptable) (kret (-1))
         else
           kthen (mlfq_sleep (Some (C_proc curproc)) (Some L_ptable))
          (mlfq_wait_loop n curproc))))"

definition mlfq_wait :: "nat \<Rightarrow> ('z mlfq_st_scheme, int) kernel" where
  "mlfq_wait n = with_myproc (\<lambda>curproc. kthen (acquire L_ptable) (mlfq_wait_loop n curproc))"

section \<open>The timer\<close>

text \<open>Called at each timer interrupt: charge the running process and move it down if needed.\<close>

definition degrade_proc :: "nat \<Rightarrow> ('z mlfq_st_scheme, unit) kernel" where
  "degrade_proc p =
     kthen (pset p (\<lambda>x. x\<lparr>p_extime := p_extime x + 1\<rparr>))
    (kbind (pfld p p_level) (\<lambda>l.
     kbind (kget (\<lambda>s. heads s ! l)) (\<lambda>h.
     if h \<noteq> Some p then kpanic ''degrade''
     else
       kbind (pfld p p_extime) (\<lambda>e.
       kwhen (e \<ge> QT l)
        (kthen (set_head l None)
        (if l = MLFQ_K - 1 then pset p (p_extime_update (\<lambda>_. -1))
         else
           kbind (pfld p p_state) (\<lambda>st.
           kthen (kwhen (st = RUNNABLE) (kthen (num_add l (-1)) (num_add (l + 1) 1)))
          (pset p (\<lambda>x. x\<lparr>p_extime := 0, p_level := p_level x + 1\<rparr>)))))))))"

definition degrade :: "('z mlfq_st_scheme, unit) kernel" where
  "degrade =
     kthen (acquire L_ptable)
    (kbind myproc (\<lambda>ptr.
     case ptr of
       None \<Rightarrow> release L_ptable
     | Some p \<Rightarrow> kthen (degrade_proc p) (release L_ptable)))"

definition boost_one :: "nat \<Rightarrow> ('z mlfq_st_scheme, unit) kernel" where
  "boost_one p =
     kbind (pfld p p_state) (\<lambda>st.
     kwhen (st \<noteq> UNUSED)
      (kbind (pfld p p_level) (\<lambda>l.
       kthen (kwhen (st = RUNNABLE) (kthen (num_add l (-1)) (num_add 0 1)))
      (pset p (\<lambda>x. x\<lparr>p_level := 0, p_extime := 0\<rparr>)))))"

definition boost :: "('z mlfq_st_scheme, unit) kernel" where
  "boost =
     kthen (acquire L_ptable)
    (kthen (kfor [0..<NPROC] boost_one)
    (release L_ptable))"

definition rst :: "('z mlfq_st_scheme, unit) kernel" where
  "rst =
     kthen (acquire L_ptable)
    (with_myproc (\<lambda>p.
     kbind (pfld p p_state) (\<lambda>st.
     kbind (pfld p p_level) (\<lambda>l.
     kthen (kwhen (st = RUNNABLE) (kthen (num_add l (-1)) (num_add 0 1)))
    (kthen (pset p (\<lambda>x. x\<lparr>p_level := 0, p_extime := 0\<rparr>))
    (release L_ptable))))))"

section \<open>The timer interrupt\<close>

text \<open>What \<^verbatim>\<open>trap\<close> does at a timer interrupt, in the build with \<^verbatim>\<open>MLFQ_K\<close>: only the first processor counts.\<close>

definition mlfq_tick :: "('z mlfq_st_scheme, unit) kernel" where
  "mlfq_tick =
     kbind (kget (\<lambda>s. me (lk s))) (\<lambda>cpuid.
     kwhen (cpuid = 0)
      (kthen (acquire L_ticks)
      (kthen (kmod (\<lambda>s. s\<lparr>ticks := ticks s + 1\<rparr>))
      (kthen degrade
      (kbind (kget ticks) (\<lambda>t.
       kthen (kwhen (t mod 100 = 0) boost)
      (kthen (mlfq_wakeup (Some C_ticks))
      (release L_ticks))))))))"

text \<open>The rest of \<^verbatim>\<open>trap\<close> after a timer interrupt; \<open>user\<close> says whether it came from user mode.\<close>

definition exit_if_killed :: "('z mlfq_st_scheme, unit) kernel \<Rightarrow> bool \<Rightarrow> ('z mlfq_st_scheme, unit) kernel" where
  "exit_if_killed exit user =
     kbind myproc (\<lambda>ptr.
     case ptr of
       None \<Rightarrow> kret ()
     | Some p \<Rightarrow> kbind (pfld p p_killed) (\<lambda>k. if k \<and> user then exit else kret ()))"

definition mlfq_timer :: "('z mlfq_st_scheme, unit) kernel \<Rightarrow> bool \<Rightarrow> ('z mlfq_st_scheme, unit) kernel" where
  "mlfq_timer exit user =
     kthen mlfq_tick
    (kthen (exit_if_killed exit user)
    (kthen (kbind myproc (\<lambda>ptr.
       case ptr of
         None \<Rightarrow> kret ()
       | Some p \<Rightarrow> kbind (pfld p p_state) (\<lambda>st. if st = RUNNING then mlfq_yield else kret ())))
    (exit_if_killed exit user)))"

section \<open>The scheduler\<close>

text \<open>Where the body of the innermost loop goes on: its two labels, or the next process.\<close>

datatype schpc = Schbegin | Schsearch | Continue

definition sch_runnable :: "'z mlfq_st_scheme \<Rightarrow> nat \<Rightarrow> nat \<Rightarrow> bool" where
  "sch_runnable s level p \<longleftrightarrow> p_state (procs s ! p) = RUNNABLE \<and> p_level (procs s ! p) = level"

text \<open>The first process of the level that has a higher priority than \<open>p\<close>.\<close>

definition sch_better :: "'z mlfq_st_scheme \<Rightarrow> nat \<Rightarrow> nat \<Rightarrow> nat option" where
  "sch_better s level p =
     (if numproc s ! level > 1
      then find (\<lambda>p1. sch_runnable s level p1 \<and> p_priority (procs s ! p1) > p_priority (procs s ! p))
             [0..<NPROC]
      else None)"

definition sch_dispatch :: "nat \<Rightarrow> ('z mlfq_st_scheme, unit) kernel" where
  "sch_dispatch p =
     kthen (kmod (\<lambda>s. s\<lparr>cpu_proc := (cpu_proc s)(me (lk s) := Some p)\<rparr>))
    (kbind (pfld p p_level) (\<lambda>l.
     kthen (set_head l (Some p))
    (kthen (switchuvm (Some p))
    (kthen (pset p (p_state_update (\<lambda>_. RUNNING)))
    (kthen (num_add l (-1))
    (kthen kyield
    (kthen switchkvm
    (kmod (\<lambda>s. s\<lparr>cpu_proc := (cpu_proc s)(me (lk s) := None)\<rparr>)))))))))"

definition sch_body :: "nat \<Rightarrow> nat \<Rightarrow> ('z mlfq_st_scheme, schpc) kernel" where
  "sch_body level p =
     kbind (kget (\<lambda>s. list_ex (\<lambda>i. numproc s ! i > 0) [0..<level])) (\<lambda>higher.
     if higher then kret Schbegin
     else kbind (kget (\<lambda>s. sch_runnable s level p)) (\<lambda>here.
     if \<not> here then kret Continue
     else kbind (kget (\<lambda>s. sch_better s level p)) (\<lambda>b.
     case b of
       Some p1 \<Rightarrow> kret (if p1 < p then Schsearch else Continue)
     | None \<Rightarrow> kthen (sch_dispatch p) (kret Continue))))"

text \<open>
  The loops over levels and processes, as the pair of their indices; \<open>n\<close> bounds the number of
  iterations.
\<close>

primrec sch_loop :: "nat \<Rightarrow> nat \<Rightarrow> nat \<Rightarrow> ('z mlfq_st_scheme, unit) kernel" where
  "sch_loop 0 level p = kstuck"
| "sch_loop (Suc n) level p =
     (if level \<ge> MLFQ_K then kret ()
      else if p \<ge> NPROC then
        kbind (kget (\<lambda>s. numproc s ! level > 0)) (\<lambda>again.
        if again then sch_loop n level 0 else sch_loop n (level + 1) 0)
      else
        kbind (sch_body level p) (\<lambda>pc.
        case pc of
          Schbegin \<Rightarrow> sch_loop n 0 0
        | Schsearch \<Rightarrow> sch_loop n level 0
        | Continue \<Rightarrow> sch_loop n level (p + 1)))"

primrec mlfq_scheduler_loop :: "nat \<Rightarrow> nat \<Rightarrow> ('z mlfq_st_scheme, 'a) kernel" where
  "mlfq_scheduler_loop 0 n = kstuck"
| "mlfq_scheduler_loop (Suc m) n =
     kthen sti
    (kthen (acquire L_ptable)
    (kthen (sch_loop n 0 0)
    (kthen (release L_ptable)
    (mlfq_scheduler_loop m n))))"

definition mlfq_scheduler :: "nat \<Rightarrow> nat \<Rightarrow> ('z mlfq_st_scheme, 'a) kernel" where
  "mlfq_scheduler m n =
     kthen (kmod (\<lambda>s. s\<lparr>cpu_proc := (cpu_proc s)(me (lk s) := None)\<rparr>))
    (mlfq_scheduler_loop m n)"

section \<open>System calls\<close>

definition getlev :: "('z mlfq_st_scheme, nat) kernel" where
  "getlev = with_myproc (\<lambda>p. pfld p p_level)"

definition setpriority :: "int \<Rightarrow> int \<Rightarrow> ('z mlfq_st_scheme, int) kernel" where
  "setpriority pid priority =
     (if priority < 0 \<or> priority > 10 then kret (-2)
      else kbind myproc (\<lambda>curproc.
        kthen (acquire L_ptable)
       (kbind (kget (\<lambda>s. find (\<lambda>p. p_state (procs s ! p) \<noteq> UNUSED
            \<and> p_parent (procs s ! p) = curproc \<and> p_pid (procs s ! p) = pid) [0..<NPROC])) (\<lambda>found.
        case found of
          None \<Rightarrow> kthen (release L_ptable) (kret (-1))
        | Some p \<Rightarrow>
            kthen (pset p (p_priority_update (\<lambda>_. priority)))
           (kthen (release L_ptable)
           (kret 0))))))"

end
