(* ===== verification/Mlfq_Inv.thy ===== *)
theory Mlfq_Inv
  imports Mlfq
begin

text \<open>
  The invariant of the multi-level feedback queue and what every operation of \<^verbatim>\<open>proc_MLFQ.c\<close> does
  to it. Operations that run to completion are compared with the frame relation \<open>mrel\<close>; those that
  give up the processor are specified with rely and guarantee: they hand over a state with the
  invariant and are resumed as the running process.
\<close>

section \<open>The counters\<close>

text \<open>
  The invariant of the table: its arrays have their sizes, levels are below \<open>MLFQ_K\<close>, and each
  counter is the number of runnable processes of its level.
\<close>

definition rn :: "proc \<Rightarrow> nat \<Rightarrow> bool" where
  "rn x l \<longleftrightarrow> p_state x = RUNNABLE \<and> p_level x = l"

definition nrun :: "proc list \<Rightarrow> nat \<Rightarrow> nat" where
  "nrun ps l = length (filter (\<lambda>x. rn x l) ps)"

definition minvc :: "proc list \<Rightarrow> nat option list \<Rightarrow> int list \<Rightarrow> (nat \<Rightarrow> nat option) \<Rightarrow> bool" where
  "minvc ps hs ns c \<longleftrightarrow> length ps = NPROC \<and> length hs = MLFQ_K \<and> length ns = MLFQ_K
     \<and> (\<forall>x \<in> set ps. p_level x < MLFQ_K) \<and> (\<forall>l < MLFQ_K. ns ! l = int (nrun ps l))
     \<and> (\<forall>i p. c i = Some p \<longrightarrow> p < NPROC)"

definition minv :: "'z mlfq_st_scheme \<Rightarrow> bool" where
  "minv s \<longleftrightarrow> minvc (procs s) (heads s) (numproc s) (cpu_proc s)"

lemma nrun_update:
  "p < length ps \<Longrightarrow> int (nrun (ps[p := y]) l) = int (nrun ps l) + of_bool (rn y l) - of_bool (rn (ps ! p) l)"
proof (induction ps arbitrary: p)
  case (Cons x ps)
  then show ?case by (cases p) (auto simp: nrun_def)
qed simp

lemma nrun_pos: "p < length ps \<Longrightarrow> rn (ps ! p) l \<Longrightarrow> 0 < nrun ps l"
  by (auto simp: nrun_def filter_empty_conv)

lemma minvc_update:
  assumes "minvc ps hs ns c" and "p < NPROC" and "p_level y < MLFQ_K"
    and "length ns' = MLFQ_K" and "length hs' = MLFQ_K"
    and "\<And>l. l < MLFQ_K \<Longrightarrow> ns' ! l = ns ! l + of_bool (rn y l) - of_bool (rn (ps ! p) l)"
  shows "minvc (ps[p := y]) hs' ns' c"
  using assms nrun_update [of p ps y] set_update_subset_insert [of ps p y]
  by (auto simp: minvc_def)

text \<open>Updates that do not change whether the process is runnable, or at which level.\<close>

lemma minvc_same:
  assumes "minvc ps hs ns c" and "p < NPROC" and "p_level y < MLFQ_K"
    and "\<And>l. rn y l = rn (ps ! p) l"
  shows "minvc (ps[p := y]) hs ns c"
  using assms by (intro minvc_update [OF assms(1-3)]) (auto simp: minvc_def)

lemma minvc_level: "minvc ps hs ns c \<Longrightarrow> p < NPROC \<Longrightarrow> p_level (ps ! p) < MLFQ_K"
  by (simp add: minvc_def)

lemma minvc_len: "minvc ps hs ns c \<Longrightarrow> length ps = NPROC \<and> length hs = MLFQ_K \<and> length ns = MLFQ_K"
  by (simp add: minvc_def)

section \<open>What each operation keeps\<close>

text \<open>
  \<open>mrel K s t\<close>: the invariant is kept, the processor runs the same process, and processes in one
  of the states \<open>K\<close> stay in it.
\<close>

definition mrel :: "procstate set \<Rightarrow> 'z mlfq_st_scheme \<Rightarrow> 'z mlfq_st_scheme \<Rightarrow> bool" where
  "mrel K s t \<longleftrightarrow> (minv s \<longrightarrow> minv t \<and> cpu_proc t = cpu_proc s \<and> me (lk t) = me (lk s)
     \<and> (\<forall>q < NPROC. p_state (procs s ! q) \<in> K \<longrightarrow> p_state (procs t ! q) = p_state (procs s ! q)))"

interpretation mf: frame "mrel K" for K
proof
  show "mrel K s s" for s :: "'a mlfq_st_scheme" by (simp add: mrel_def)
  show "mrel K s u" if "mrel K s t" "mrel K t u" for s t u :: "'a mlfq_st_scheme"
    using that by (simp add: mrel_def)
qed

lemma kmem_only_mrel: "kmem_only s t \<Longrightarrow> mrel K s t" for s t :: "'z mlfq_st_scheme"
  by (auto simp: kmem_only_def mrel_def minv_def)

lemma mf_vm: "kframe kmem_only m \<Longrightarrow> kframe (mrel K) m" for m :: "('z mlfq_st_scheme, 'a) kernel"
  by (erule kframe_mono) (rule kmem_only_mrel)

lemmas mf_locks = mf_vm [OF kmf_locks(1)] mf_vm [OF kmf_locks(2)]

lemma mf_lk: "kframe lk_only m \<Longrightarrow> kframe (mrel K) m" for m :: "('z mlfq_st_scheme, 'a) kernel"
  by (erule kframe_mono) (auto simp: lk_only_def mrel_def minv_def)

lemma mf_myproc: "kframe (mrel K) myproc"
  by (rule mf_lk) (unfold myproc_def, intro lkf.fr_intros lkf_ops)

lemma mlfq_rg [rg_simps]:
  "rg R G (num_add l d) Q s = Q () (s\<lparr>numproc := (numproc s)[l := numproc s ! l + d]\<rparr>)"
  "rg R G (set_head l h) Q s = Q () (s\<lparr>heads := (heads s)[l := h]\<rparr>)"
  by (simp_all add: num_add_def set_head_def rg_simps)

text \<open>A process that is not runnable becomes so.\<close>

lemma make_runnable_rel:
  assumes "p < NPROC" and "p_state (procs s ! p) \<noteq> RUNNABLE" and "p_state (procs s ! p) \<notin> K"
  shows "mrel K s (s\<lparr>procs := (procs s)[p := (procs s ! p)\<lparr>p_state := RUNNABLE\<rparr>],
     numproc := (numproc s)[p_level (procs s ! p) := numproc s ! p_level (procs s ! p) + 1]\<rparr>)"
proof -
  let ?x = "procs s ! p" and ?ns = "numproc s"
  have "minvc ((procs s)[p := ?x\<lparr>p_state := RUNNABLE\<rparr>]) (heads s) (?ns[p_level ?x := ?ns ! p_level ?x + 1])
      (cpu_proc s)" if "minv s"
    using that assms minvc_level [of "procs s" "heads s" ?ns "cpu_proc s" p]
    by (intro minvc_update [where hs = "heads s" and ns = "?ns"])
       (auto simp: minv_def minvc_def rn_def nth_list_update)
  then show ?thesis
    using assms by (auto simp: mrel_def minv_def nth_list_update minvc_len)
qed

lemma level_upd: "p_level (ps[p := (ps ! p)\<lparr>p_state := st\<rparr>] ! p) = p_level (ps ! p)"
  by (cases "p < length ps") (simp_all add: list_update_beyond)

lemma rg_make_runnable [rg_simps]:
  "rg R G (make_runnable p) Q s = Q ()
     (s\<lparr>procs := (procs s)[p := (procs s ! p)\<lparr>p_state := RUNNABLE\<rparr>],
       numproc := (numproc s)[p_level (procs s ! p) := numproc s ! p_level (procs s ! p) + 1]\<rparr>)"
  by (simp add: make_runnable_def rg_simps level_upd)

lemma mf_wakeup1: "SLEEPING \<notin> K \<Longrightarrow> kframe (mrel K) (mlfq_wakeup1 ch)"
  unfolding mlfq_wakeup1_def
  by (rule mf.fr_for, rule kframe_rg) (auto simp: rg_simps mf.frame_refl intro!: make_runnable_rel)

text \<open>Setting fields other than state and level.\<close>

lemma mrel_pset:
  assumes "\<And>x. p_state (g x) = p_state x" and "\<And>x. p_level (g x) = p_level x"
  shows "mrel K s (s\<lparr>procs := (procs s)[p := g (procs s ! p)]\<rparr>)"
proof (cases "p < NPROC")
  case True
  have "minvc ((procs s)[p := g (procs s ! p)]) (heads s) (numproc s) (cpu_proc s)" if "minv s"
    using that True assms minvc_level [of "procs s" "heads s" "numproc s" "cpu_proc s" p]
    by (intro minvc_same) (simp_all add: minv_def rn_def)
  moreover have "p_state ((procs s)[p := g (procs s ! p)] ! q) = p_state (procs s ! q)" for q
    by (cases "p < length (procs s)") (auto simp: nth_list_update assms list_update_beyond)
  ultimately show ?thesis by (simp add: mrel_def minv_def)
next
  case False
  then have "(procs s)[p := g (procs s ! p)] = procs s" if "minv s"
    using that by (intro list_update_beyond) (simp add: minv_def minvc_def)
  then show ?thesis by (auto simp: mrel_def minv_def)
qed

lemma mf_pset:
  assumes "\<And>x. p_state (g x) = p_state x" and "\<And>x. p_level (g x) = p_level x"
  shows "kframe (mrel K) (pset p g)"
  unfolding pset_def by (rule mf.fr_mod, rule mrel_pset) (fact assms)+

lemma mf_tf: "kframe (mrel K) (tf_set p off v)" "kframe (mrel K) (tf_copy p q)"
  unfolding tf_set_def tf_copy_def by (auto intro!: mf.fr_mod simp: mrel_def minv_def)

lemma mf_switchuvm: "kframe (mrel K) (switchuvm p)"
proof -
  have lk: "kframe (mrel K) (pushcli :: ('a mlfq_st_scheme, unit) kernel)"
    "kframe (mrel K) (popcli :: ('a mlfq_st_scheme, unit) kernel)"
    by (rule mf_lk [OF lkf_pushcli], rule mf_lk [OF lkf_popcli])
  show ?thesis
    unfolding switchuvm_def
    by (intro mf.fr_intros lk mf.fr_mod) (auto simp: mrel_def minv_def)
qed

lemma mf_with_myproc: "(\<And>p. kframe (mrel K) (f p)) \<Longrightarrow> kframe (mrel K) (with_myproc f)"
  unfolding with_myproc_def deref_def by (intro mf.fr_intros mf_myproc)

lemmas mf_ops = mf_locks mf_myproc mf_wakeup1 mf_tf mf_switchuvm mf_with_myproc

lemma mf_growproc: "kframe (mrel K) (mlfq_growproc n)"
  unfolding mlfq_growproc_def
  by (intro mf.fr_intros mf_with_myproc mf_switchuvm mf_vm kmf_vm mf_pset) auto

lemma mf_wakeup: "SLEEPING \<notin> K \<Longrightarrow> kframe (mrel K) (mlfq_wakeup ch)"
  unfolding mlfq_wakeup_def by (intro mf.fr_intros mf_ops)

lemma mf_setpriority: "kframe (mrel K) (setpriority pid pr)"
  unfolding setpriority_def by (intro mf.fr_intros mf_ops mf_pset) auto

lemma mf_getlev: "kframe (mrel K) getlev"
  unfolding getlev_def by (intro mf.fr_intros mf_ops)

text \<open>A change of one process that neither makes nor stops it being runnable.\<close>

lemma mrel_change:
  assumes "p < NPROC" and "p_level y < MLFQ_K" and "p_state y \<noteq> RUNNABLE"
    and "p_state (procs s ! p) \<noteq> RUNNABLE"
    and "p_state (procs s ! p) \<in> K \<Longrightarrow> p_state y = p_state (procs s ! p)"
  shows "mrel K s (s\<lparr>procs := (procs s)[p := y]\<rparr>)"
proof -
  have "minvc ((procs s)[p := y]) (heads s) (numproc s) (cpu_proc s)" if "minv s"
    using that assms by (intro minvc_same) (simp_all add: minv_def rn_def)
  then show ?thesis using assms by (auto simp: mrel_def minv_def nth_list_update minvc_len)
qed

lemma mrel_trans: "mrel K s t \<Longrightarrow> mrel K t u \<Longrightarrow> mrel K s u"
  by (rule mf.frame_trans)

lemma mrel_mono: "mrel K s t \<Longrightarrow> K' \<subseteq> K \<Longrightarrow> mrel K' s t"
  by (auto simp: mrel_def)

lemma mrel_UNIV:
  "mrel UNIV s t \<Longrightarrow> mrel K s t"
  "mrel UNIV s t \<Longrightarrow> mrel K t u \<Longrightarrow> mrel K s u"
  "mrel K s t \<Longrightarrow> mrel UNIV t u \<Longrightarrow> mrel K s u"
  by (meson mrel_mono mrel_trans top_greatest)+

lemma mrel_minv: "mrel K s t \<Longrightarrow> minv s \<Longrightarrow> minv t"
  by (simp add: mrel_def)

lemma mrel_state: "mrel K s t \<Longrightarrow> minv s \<Longrightarrow> q < NPROC \<Longrightarrow> p_state (procs s ! q) \<in> K \<Longrightarrow>
     p_state (procs t ! q) = p_state (procs s ! q)"
  by (simp add: mrel_def)

text \<open>What follows a step that keeps \<open>mrel\<close>.\<close>

lemma rg_mf:
  assumes "kframe (mrel K) m" and "\<And>a t. mrel K s t \<Longrightarrow> Q a t"
  shows "rg R G m Q s"
  using assms by (rule rg_frame)

lemma minv_procs: "minv s \<Longrightarrow> length (procs s) = NPROC" "minv s \<Longrightarrow> p < NPROC \<Longrightarrow> p_level (procs s ! p) < MLFQ_K"
  by (simp_all add: minv_def minvc_def)

lemma rg_kstack:
  fixes s :: "'z mlfq_st_scheme"
  assumes "minv s" and "p < NPROC" and "p_state (procs s ! p) = EMBRYO"
  shows "rg R G (alloc_kstack p) (\<lambda>r t. mrel {RUNNING} s t
     \<and> (\<forall>np. r = Some np \<longrightarrow> np < NPROC \<and> p_state (procs t ! np) = EMBRYO)) s"
  unfolding alloc_kstack_def Let_def rg_bind
  apply (rule rg_mf [OF mf_vm [OF kmf_kalloc], of "{RUNNING, EMBRYO}"])
  subgoal premises st for k t
  proof -
    have t: "minv t" and e: "p_state (procs t ! p) = EMBRYO"
      using assms st by (auto simp: mrel_def)
    have upd: "mrel {RUNNING} s (t\<lparr>procs := (procs t)[p := y]\<rparr>)"
      if "p_level y = p_level (procs t ! p)" and "p_state y \<in> {UNUSED, EMBRYO}" for y
      by (rule mrel_trans [OF mrel_mono [OF st]], simp, rule mrel_change)
         (use assms t e minv_procs that in auto)
    have mem: "mrel {RUNNING} s (u\<lparr>mem := x\<rparr>) = mrel {RUNNING} s u" for u :: "'z mlfq_st_scheme" and x
      by (simp add: mrel_def minv_def)
    have "mrel {RUNNING} s (t\<lparr>procs := (procs t)[p := (procs t ! p)\<lparr>p_kstack := a, p_tf := b, p_context := c\<rparr>],
       mem := x\<rparr>)" for a b c x
      using upd [of "(procs t ! p)\<lparr>p_kstack := a, p_tf := b, p_context := c\<rparr>"] e by (simp add: mem)
    then show ?thesis
      using upd assms(2) e minv_procs(1) [OF t] by (auto simp: rg_simps)
  qed
  done

lemma find_proc: "find P [0..<NPROC] = Some p \<Longrightarrow> p < NPROC \<and> P p"
  by (auto simp: find_Some_iff)

lemma rg_allocproc:
  fixes s :: "'z mlfq_st_scheme"
  assumes "minv s"
  shows "rg R G mlfq_allocproc (\<lambda>r t. mrel {RUNNING} s t
     \<and> (\<forall>np. r = Some np \<longrightarrow> np < NPROC \<and> p_state (procs t ! np) = EMBRYO)) s"
  unfolding mlfq_allocproc_def rg_then
  apply (rule rg_mf [OF mf_locks(1), of UNIV])
  subgoal premises st for a t
  proof (cases "find (\<lambda>p. p_state (procs t ! p) = UNUSED) [0..<NPROC]")
    case None
    then show ?thesis
      using st by (auto simp: rg_simps intro!: rg_mf [OF mf_locks(2), of UNIV] intro: mrel_UNIV(1) [OF mrel_trans])
  next
    case (Some p)
    then have p: "p < NPROC" "p_state (procs t ! p) = UNUSED" by (auto dest: find_proc)
    have t: "minv t" using st assms by (rule mrel_minv)
    let ?y = "(procs t ! p)\<lparr>p_state := EMBRYO, p_pid := nextpid t, p_priority := 0, p_extime := 0, p_level := 0\<rparr>"
    let ?u = "t\<lparr>procs := (procs t)[p := ?y]\<rparr>" and ?v = "t\<lparr>nextpid := nextpid t + 1, procs := (procs t)[p := ?y]\<rparr>"
    have "mrel {RUNNING} t ?u" by (rule mrel_change) (use p t in \<open>auto simp: MLFQ_K_def\<close>)
    then have u: "mrel {RUNNING} s ?v"
      using st by (auto simp: mrel_def minv_def)
    have e: "p_state (procs ?v ! p) = EMBRYO" using p t by (simp add: minv_procs)
    have rest: "rg R G (kthen (release L_ptable) (alloc_kstack p)) (\<lambda>r t. mrel {RUNNING} s t
      \<and> (\<forall>np. r = Some np \<longrightarrow> np < NPROC \<and> p_state (procs t ! np) = EMBRYO)) ?v"
      unfolding rg_then
    proof (rule rg_mf [OF mf_locks(2), of UNIV])
      fix a v assume v: "mrel UNIV ?v v"
      have "minv ?v" using u assms by (rule mrel_minv)
      then have "minv v" and "p_state (procs v ! p) = EMBRYO"
        using v p e by (auto simp: mrel_def)
      then have "rg R G (alloc_kstack p) (\<lambda>r t. mrel {RUNNING} v t
         \<and> (\<forall>np. r = Some np \<longrightarrow> np < NPROC \<and> p_state (procs t ! np) = EMBRYO)) v"
        using p by (intro rg_kstack)
      then show "rg R G (alloc_kstack p) (\<lambda>r t. mrel {RUNNING} s t
         \<and> (\<forall>np. r = Some np \<longrightarrow> np < NPROC \<and> p_state (procs t ! np) = EMBRYO)) v"
        by (rule rg_mono) (use mrel_UNIV(3) [OF u v] mrel_trans in blast)
    qed
    then show ?thesis
      using Some p minv_procs(1) [OF t] by (simp add: rg_basic rg_bind rg_then rg_pset)
  qed
  done

text \<open>A test of the state of a process, followed by a step that keeps the invariant.\<close>

lemma mf_bind_get:
  assumes "\<And>s. rg (\<lambda>_. True) (\<lambda>_. False) (f (g s)) (\<lambda>_. mrel K s) s"
  shows "kframe (mrel K) (kbind (kget g) f)"
  by (rule kframe_rg) (simp add: rg_bind rg_basic assms)

lemma mf_wake_if:
  assumes "SLEEPING \<notin> K" and "p < NPROC"
  shows "kframe (mrel K) (kbind (pfld p p_state) (\<lambda>st. kwhen (st = SLEEPING) (make_runnable p)))"
  using assms by (intro mf_bind_get) (auto simp: rg_simps mf.frame_refl intro!: make_runnable_rel)

lemma mf_kill:
  assumes "SLEEPING \<notin> K"
  shows "kframe (mrel K) (mlfq_kill pid)"
proof -
  have "kframe (mrel K) (case find (\<lambda>p. p_pid (procs s ! p) = pid) [0..<NPROC] of
       None \<Rightarrow> kthen (release L_ptable) (kret (-1))
     | Some p \<Rightarrow> kthen (pset p (p_killed_update (\<lambda>_. True)))
        (kthen (kbind (pfld p p_state) (\<lambda>st. kwhen (st = SLEEPING) (make_runnable p)))
        (kthen (release L_ptable) (kret 0))))" for s :: "'z mlfq_st_scheme"
    by (intro mf.fr_intros mf_locks mf_pset mf_wake_if assms) (auto dest: find_proc)
  then show ?thesis
    unfolding mlfq_kill_def
    by (intro mf.fr_then mf_locks mf_bind_get rg_frame)
qed

text \<open>Moving a process to another level, its counters with it.\<close>

lemma minvc_move:
  assumes "minvc ps hs ns c" and "p < NPROC" and "l' < MLFQ_K" and "length hs' = MLFQ_K"
    and "p_state y = p_state (ps ! p)" and "p_level y = l'"
    and "ns' = (if p_state (ps ! p) = RUNNABLE
       then ns[p_level (ps ! p) := ns ! p_level (ps ! p) - 1, l' := ns[p_level (ps ! p) := ns ! p_level (ps ! p) - 1] ! l' + 1]
       else ns)"
  shows "minvc (ps[p := y]) hs' ns' c"
proof (rule minvc_update [OF assms(1,2)])
  have l: "p_level (ps ! p) < MLFQ_K" using assms(1,2) by (rule minvc_level)
  have n: "length ns = MLFQ_K" using assms(1) by (simp add: minvc_def)
  show "length ns' = MLFQ_K" using n assms(7) by simp
  show "ns' ! k = ns ! k + of_bool (rn y k) - of_bool (rn (ps ! p) k)" if "k < MLFQ_K" for k
    using that l n assms(3,5-7) by (auto simp: rn_def nth_list_update)
qed (use assms in auto)

lemma mrel_move:
  assumes "p < NPROC" and "p_state y = p_state (procs s ! p)" and "p_level y < MLFQ_K"
    and "procs t = (procs s)[p := y]" and "cpu_proc t = cpu_proc s" and "lk t = lk s"
    and "length (heads t) = length (heads s)"
    and "numproc t = (if p_state (procs s ! p) = RUNNABLE
       then (numproc s)[p_level (procs s ! p) := numproc s ! p_level (procs s ! p) - 1,
          p_level y := (numproc s)[p_level (procs s ! p) := numproc s ! p_level (procs s ! p) - 1] ! p_level y + 1]
       else numproc s)"
  shows "mrel K s t"
proof -
  have "minvc ((procs s)[p := y]) (heads t) (numproc t) (cpu_proc s)" if "minv s"
    using that assms by (intro minvc_move [of "procs s" "heads s" "numproc s" _ p]) (auto simp: minv_def minvc_len)
  then show ?thesis using assms by (auto simp: mrel_def minv_def nth_list_update minvc_len)
qed

lemma mf_boost_one: "p < NPROC \<Longrightarrow> kframe (mrel K) (boost_one p)"
  unfolding boost_one_def
  by (rule mf_bind_get)
     (auto simp: rg_simps mf.frame_refl MLFQ_K_def intro!: mrel_move [where p = p and y = "(procs s ! p)\<lparr>p_level := 0, p_extime := 0\<rparr>" for s])

lemma mf_boost: "kframe (mrel K) boost"
  unfolding boost_def by (intro mf.fr_intros mf_locks mf_boost_one) simp

lemma lk_only_mrel: "lk_only s t \<Longrightarrow> mrel K s t" for s t :: "'z mlfq_st_scheme"
  by (auto simp: lk_only_def mrel_def minv_def)

lemma minv_cur: "minv s \<Longrightarrow> cpu_proc s c = Some p \<Longrightarrow> p < NPROC"
  by (simp add: minv_def minvc_def)

lemma mf_rst: "kframe (mrel K) (rst :: ('z mlfq_st_scheme, unit) kernel)"
  unfolding rst_def
proof (intro mf.fr_then mf_locks, rule kframe_rg, rule rg_with_myproc)
  fix s t :: "'z mlfq_st_scheme" and p
  assume t: "lk_only s t" and c: "cpu_proc s (me (lk s)) = Some p"
  let ?y = "(procs t ! p)\<lparr>p_level := 0, p_extime := 0\<rparr>"
  have p: "p < NPROC" if "minv s" using minv_cur [OF that c] .
  have fin: "rg (\<lambda>_. True) (\<lambda>_. False) (release L_ptable) (\<lambda>_. mrel K s) u" if "minv s \<Longrightarrow> mrel K t u" for u
    using that lk_only_mrel [OF t, of K]
    by (intro rg_mf [OF mf_locks(2), of UNIV]) (auto simp: mrel_def)
  show "rg (\<lambda>_. True) (\<lambda>_. False)
       (kbind (pfld p p_state) (\<lambda>st. kbind (pfld p p_level) (\<lambda>l.
        kthen (kwhen (st = RUNNABLE) (kthen (num_add l (-1)) (num_add 0 1)))
         (kthen (pset p (\<lambda>x. x\<lparr>p_level := 0, p_extime := 0\<rparr>)) (release L_ptable))))) (\<lambda>_. mrel K s) t"
    using p by (auto simp: rg_bind rg_then rg_when rg_basic rg_pset mlfq_rg MLFQ_K_def
        intro!: fin mrel_move [where p = p and y = ?y])
qed

text \<open>The effect of \<^verbatim>\<open>degrade\<close> on a process dispatched last at its level.\<close>

lemma degrade_proc_run:
  assumes "p < length (procs s)" and "heads s ! p_level (procs s ! p) = Some p"
  shows "degrade_proc p s = Ret ()
    (let x = procs s ! p; l = p_level x in
     if p_extime x + 1 < QT l then s\<lparr>procs := (procs s)[p := x\<lparr>p_extime := p_extime x + 1\<rparr>]\<rparr>
     else if l = MLFQ_K - 1 then
       s\<lparr>procs := (procs s)[p := x\<lparr>p_extime := -1\<rparr>], heads := (heads s)[l := None]\<rparr>
     else s\<lparr>procs := (procs s)[p := x\<lparr>p_extime := 0, p_level := l + 1\<rparr>], heads := (heads s)[l := None],
       numproc := (if p_state x = RUNNABLE then (numproc s)[l := numproc s ! l - 1,
          l + 1 := (numproc s)[l := numproc s ! l - 1] ! (l + 1) + 1] else numproc s)\<rparr>)"
  using assms by (simp add: degrade_proc_def kernel_simps Let_def num_add_def set_head_def)

lemma degrade_proc_panic:
  assumes "p < length (procs s)" and "heads s ! p_level (procs s ! p) \<noteq> Some p"
  shows "degrade_proc p s = Panic ''degrade''"
  using assms by (simp add: degrade_proc_def kernel_simps)

lemma degrade_proc_rel:
  fixes s :: "'z mlfq_st_scheme"
  assumes "minv s" and "p < NPROC" and "degrade_proc p s = Ret () t"
  shows "mrel K s t"
proof (cases "heads s ! p_level (procs s ! p) = Some p")
  case True
  have l: "p_level (procs s ! p) < MLFQ_K" using assms(1,2) by (rule minv_procs)
  have len: "p < length (procs s)" using assms(1,2) by (simp add: minv_procs)
  let ?x = "procs s ! p"
  have head: "mrel K (s\<lparr>procs := ps\<rparr>) (s\<lparr>procs := ps, heads := hs\<rparr>)" if "length hs = length (heads s)" for ps hs
    using that by (auto simp: mrel_def minv_def minvc_def)
  have 1: "mrel K s (s\<lparr>procs := (procs s)[p := ?x\<lparr>p_extime := e\<rparr>]\<rparr>)" for e
    using mrel_pset [of "\<lambda>x. x\<lparr>p_extime := e\<rparr>" K s p] by simp
  have 2: "mrel K s (s\<lparr>procs := (procs s)[p := ?x\<lparr>p_extime := e\<rparr>], heads := (heads s)[l := None]\<rparr>)" for e l
    by (rule mrel_trans [OF 1 head]) simp
  have 3: "mrel K s (s\<lparr>procs := (procs s)[p := ?x\<lparr>p_extime := 0, p_level := p_level ?x + 1\<rparr>],
       heads := (heads s)[p_level ?x := None],
       numproc := (if p_state ?x = RUNNABLE then (numproc s)[p_level ?x := numproc s ! p_level ?x - 1,
          p_level ?x + 1 := (numproc s)[p_level ?x := numproc s ! p_level ?x - 1] ! (p_level ?x + 1) + 1]
          else numproc s)\<rparr>)" if "p_level ?x \<noteq> MLFQ_K - 1"
    by (rule mrel_move [where p = p and y = "?x\<lparr>p_extime := 0, p_level := p_level ?x + 1\<rparr>"])
       (use assms(2) l that in auto)
  show ?thesis
    using assms(3) 1 2 3 by (auto simp: degrade_proc_run [OF len True] Let_def simp del: One_nat_def split: if_splits)
next
  case False
  then show ?thesis using degrade_proc_panic [of p s] assms by (simp add: minv_procs)
qed

lemma degrade_proc_ret: "\<exists>t. degrade_proc p s = Ret () t \<or> degrade_proc p s = Panic ''degrade''"
  by (simp add: degrade_proc_def kernel_simps num_add_def set_head_def)

lemma mf_degrade: "kframe (mrel K) (degrade :: ('z mlfq_st_scheme, unit) kernel)"
  unfolding degrade_def
proof (intro mf.fr_then mf_locks, rule kframe_rg, unfold rg_bind, rule rg_myproc)
  fix s t :: "'z mlfq_st_scheme"
  assume t: "lk_only s t"
  have fin: "rg (\<lambda>_. True) (\<lambda>_. False) (release L_ptable) (\<lambda>_. mrel K s) u" if "minv s \<Longrightarrow> mrel K t u" for u
    using that lk_only_mrel [OF t, of K]
    by (intro rg_mf [OF mf_locks(2), of UNIV]) (auto simp: mrel_def)
  have one: "rg (\<lambda>_. True) (\<lambda>_. False) (kthen (degrade_proc p) (release L_ptable)) (\<lambda>_. mrel K s) t"
    if "cpu_proc s (me (lk s)) = Some p" for p
  proof -
    have "mrel K t u" if "minv s" and "degrade_proc p t = Ret () u" for u
      using degrade_proc_rel [OF _ _ that(2)] minv_cur [OF that(1) \<open>cpu_proc s (me (lk s)) = Some p\<close>]
        lk_only_mrel [OF t] that(1) by (simp add: mrel_def)
    then show ?thesis
      using degrade_proc_ret [of p t] fin by (auto simp: rg_then rg_def kernel_simps)
  qed
  then show "rg (\<lambda>_. True) (\<lambda>_. False) (case cpu_proc s (me (lk s)) of None \<Rightarrow> release L_ptable
      | Some p \<Rightarrow> kthen (degrade_proc p) (release L_ptable)) (\<lambda>_. mrel K s) t"
    using fin [of t] by (auto simp: mf.frame_refl split: option.splits)
qed

section \<open>Operations that give up the processor\<close>

text \<open>
  A process runs with the invariant, and hands the processor over with the invariant; when it is
  resumed, it is the running process again.
\<close>

definition mrun :: "nat \<Rightarrow> 'z mlfq_st_scheme \<Rightarrow> bool" where
  "mrun q s \<longleftrightarrow> minv s \<and> cpu_proc s (me (lk s)) = Some q \<and> p_state (procs s ! q) = RUNNING"

abbreviation keeps :: "nat \<Rightarrow> ('z mlfq_st_scheme, 'a) kernel \<Rightarrow> bool" where
  "keeps q m \<equiv> (\<forall>s. mrun q s \<longrightarrow> rg (mrun q) minv m (\<lambda>_. mrun q) s)"

lemma mrun_bound: "mrun q s \<Longrightarrow> q < NPROC"
  by (auto simp: mrun_def minv_cur)

lemma mrel_mrun: "mrel K s t \<Longrightarrow> RUNNING \<in> K \<Longrightarrow> mrun q s \<Longrightarrow> mrun q t"
  using mrun_bound [of q s] by (simp add: mrun_def mrel_def)

lemma keeps_frame: "kframe (mrel {RUNNING}) m \<Longrightarrow> keeps q m"
  by (auto intro: rg_mf mrel_mrun [of "{RUNNING}"])

lemma keeps_bind: "keeps q m \<Longrightarrow> (\<And>a. keeps q (f a)) \<Longrightarrow> keeps q (kbind m f)"
  by (auto simp: rg_bind elim!: rg_mono)

lemma keeps_then: "keeps q m \<Longrightarrow> keeps q n \<Longrightarrow> keeps q (kthen m n)"
  by (auto simp: rg_then elim!: rg_mono)

lemma keeps_basic: "keeps q (kret a)" "keeps q (kget f)" "keeps q (kpanic e)" "keeps q kfault" "keeps q kstuck"
  by (simp_all add: rg_simps)

lemma keeps_if: "(b \<Longrightarrow> keeps q m) \<Longrightarrow> (\<not> b \<Longrightarrow> keeps q n) \<Longrightarrow> keeps q (if b then m else n)"
  by simp

lemma keeps_option:
  "keeps q m \<Longrightarrow> (\<And>a. x = Some a \<Longrightarrow> keeps q (f a)) \<Longrightarrow> keeps q (case x of None \<Rightarrow> m | Some a \<Rightarrow> f a)"
  by (cases x) simp_all

lemma keeps_for: "(\<And>i. i \<in> set is \<Longrightarrow> keeps q (body i)) \<Longrightarrow> keeps q (kfor is body)"
  by (auto intro: rg_for)

lemmas keeps_intros = keeps_basic keeps_bind keeps_then keeps_if keeps_option keeps_for

lemma keeps_locks: "keeps q (acquire l)" "keeps q (release l)"
  by (rule keeps_frame, rule mf_locks)+

lemma lk_only_mrun: "lk_only s t \<Longrightarrow> mrun q s \<Longrightarrow> mrun q t"
  by (rule mrel_mrun [OF lk_only_mrel [of _ _ UNIV]]) auto

lemma keeps_myproc:
  assumes "keeps q (f q)"
  shows "keeps q (with_myproc f)"
proof (intro allI impI, rule rg_with_myproc)
  fix s t :: "'a mlfq_st_scheme" and p
  assume "mrun q s" and "lk_only s t" and "cpu_proc s (me (lk s)) = Some p"
  then show "rg (mrun q) minv (f p) (\<lambda>_. mrun q) t"
    using assms lk_only_mrun [of s t q] by (auto simp: mrun_def)
qed

text \<open>After a process has left RUNNING it must hand the processor over.\<close>

lemma keeps_sched:
  assumes "minv s" and "\<And>u. mrun q u \<Longrightarrow> rg (mrun q) minv n (\<lambda>_. mrun q) u"
  shows "rg (mrun q) minv (kthen sched n) (\<lambda>_. mrun q) s"
  unfolding rg_then
proof (rule rg_sched)
  show "minv t" if "lk_only s t" for t
    using lk_only_mrel [OF that] assms(1) by (rule mrel_minv)
  show "rg (mrun q) minv n (\<lambda>_. mrun q) u" if "mrun q t" "lk_only t u" for t u
    by (rule assms(2), rule lk_only_mrun) (fact that)+
qed

lemma keeps_sleep: "keeps q (mlfq_sleep ch lkp)"
proof (intro allI impI)
  fix s :: "'a mlfq_st_scheme"
  assume s: "mrun q s"
  have pre: "keeps q (kwhen (l \<noteq> L_ptable) (kthen (acquire L_ptable) (release l)))" for l
    by (rule keeps_frame) (intro mf.fr_intros mf_locks)
  have rest: "rg (mrun q) minv (kthen (pset q (\<lambda>x. x\<lparr>p_chan := ch, p_state := SLEEPING\<rparr>))
      (kthen sched (kthen (pset q (p_chan_update (\<lambda>_. None)))
      (kwhen (l \<noteq> L_ptable) (kthen (release L_ptable) (acquire l)))))) (\<lambda>_. mrun q) t" if t: "mrun q t" for l and t :: "'a mlfq_st_scheme"
    unfolding rg_then [of _ _ "pset q _"] rg_pset
  proof (rule keeps_sched)
    have "mrel {} t (t\<lparr>procs := (procs t)[q := (procs t ! q)\<lparr>p_chan := ch, p_state := SLEEPING\<rparr>]\<rparr>)"
      by (rule mrel_change) (use t mrun_bound [OF t] in \<open>auto simp: mrun_def minv_procs\<close>)
    then show "minv (t\<lparr>procs := (procs t)[q := (procs t ! q)\<lparr>p_chan := ch, p_state := SLEEPING\<rparr>]\<rparr>)"
      using t by (auto simp: mrun_def mrel_def)
    fix u :: "'a mlfq_st_scheme" assume "mrun q u"
    moreover have "keeps q (kthen (pset q (p_chan_update (\<lambda>_. None)))
      (kwhen (l \<noteq> L_ptable) (kthen (release L_ptable) (acquire l))))"
      by (rule keeps_frame) (intro mf.fr_intros mf_locks mf_pset; simp)
    ultimately show "rg (mrun q) minv (kthen (pset q (p_chan_update (\<lambda>_. None)))
      (kwhen (l \<noteq> L_ptable) (kthen (release L_ptable) (acquire l)))) (\<lambda>_. mrun q) u" by blast
  qed
  have c: "cpu_proc s (me (lk s)) = Some q" using s by (simp add: mrun_def)
  show "rg (mrun q) minv (mlfq_sleep ch lkp) (\<lambda>_. mrun q) s"
    unfolding mlfq_sleep_def rg_bind
  proof (rule rg_myproc)
    fix t assume "lk_only s t"
    then have t: "mrun q t" using s lk_only_mrun by blast
    show "rg (mrun q) minv (case cpu_proc s (me (lk s)) of None \<Rightarrow> kpanic ''sleep'' | Some p \<Rightarrow>
       case lkp of None \<Rightarrow> kpanic ''sleep without lk'' | Some l \<Rightarrow>
         kthen (kwhen (l \<noteq> L_ptable) (kthen (acquire L_ptable) (release l)))
        (kthen (pset p (\<lambda>x. x\<lparr>p_chan := ch, p_state := SLEEPING\<rparr>))
        (kthen sched
        (kthen (pset p (p_chan_update (\<lambda>_. None)))
        (kwhen (l \<noteq> L_ptable) (kthen (release L_ptable) (acquire l))))))) (\<lambda>_. mrun q) t"
      unfolding c option.case
      using t by (cases lkp) (simp add: rg_basic, simp, intro keeps_then [OF pre, rule_format] rest)
  qed
qed

lemma keeps_yield: "keeps q mlfq_yield"
  unfolding mlfq_yield_def
proof (rule keeps_then [OF keeps_locks(1)], intro allI impI)
  fix s :: "'a mlfq_st_scheme"
  assume s: "mrun q s"
  let ?x = "procs s ! q"
  let ?ps = "(procs s)[q := ?x\<lparr>p_state := RUNNABLE\<rparr>]"
  let ?ns = "(numproc s)[p_level ?x := numproc s ! p_level ?x + 1]"
  have q: "q < length (procs s)" using mrun_bound [OF s] s by (simp add: mrun_def minv_procs)
  have "mrel {} s (s\<lparr>procs := ?ps, numproc := ?ns\<rparr>)"
    by (rule make_runnable_rel) (use s mrun_bound [OF s] in \<open>auto simp: mrun_def\<close>)
  then have inv: "minv (s\<lparr>procs := ?ps, numproc := ?ns\<rparr>)"
    using s by (simp add: mrun_def mrel_def)
  have c: "cpu_proc s (me (lk s)) = Some q" using s by (simp add: mrun_def)
  have fin: "rg (mrun q) minv (kthen sched (release L_ptable)) (\<lambda>_. mrun q) (s\<lparr>procs := ?ps, lk := x, numproc := ?ns\<rparr>)" for x
    by (rule keeps_sched) (use inv keeps_locks(2) in \<open>auto simp: minv_def\<close>)
  have two: "rg (mrun q) minv (kthen (with_myproc (\<lambda>p. kbind (pfld p p_level) (\<lambda>l. num_add l 1)))
      (kthen sched (release L_ptable))) (\<lambda>_. mrun q) (s\<lparr>lk := x, procs := ?ps\<rparr>)" if "me x = me (lk s)" for x
    unfolding rg_then [of _ _ "with_myproc _"]
    by (rule rg_with_myproc) (use c q fin that in \<open>auto simp: lk_only_def rg_bind rg_basic mlfq_rg\<close>)
  show "rg (mrun q) minv (kthen (with_myproc (\<lambda>p. pset p (p_state_update (\<lambda>_. RUNNABLE))))
    (kthen (with_myproc (\<lambda>p. kbind (pfld p p_level) (\<lambda>l. num_add l 1)))
    (kthen sched (release L_ptable)))) (\<lambda>_. mrun q) s"
    unfolding rg_then [of _ _ "with_myproc (\<lambda>p. pset p _)"]
    by (rule rg_with_myproc) (use c two in \<open>auto simp: lk_only_def rg_pset\<close>)
qed

text \<open>A child that has exited is freed; no other process is touched.\<close>

lemma rg_reap:
  fixes s :: "'z mlfq_st_scheme"
  assumes "p < NPROC" and "p_state (procs s ! p) = ZOMBIE"
  shows "rg R G (mlfq_reap p) (\<lambda>_. mrel {RUNNING} s) s"
proof -
  have fin: "mrel {RUNNING} s (t\<lparr>procs := (procs t)[p := (procs t ! p)\<lparr>p_pid := 0, p_parent := None,
       p_name := (p_name (procs t ! p))[0 := 0], p_killed := False, p_state := UNUSED\<rparr>]\<rparr>)"
    if t: "mrel UNIV s t" for t :: "'z mlfq_st_scheme"
  proof (cases "minv s")
    case True
    then have "minv t" and "p_state (procs t ! p) = ZOMBIE" using t assms by (auto simp: mrel_def)
    then show ?thesis
      by (intro mrel_UNIV(2) [OF t] mrel_change) (use assms(1) in \<open>auto simp: minv_procs\<close>)
  qed (simp add: mrel_def)
  have k: "kframe (mrel UNIV) (kthen (kfree k) (pset p (p_kstack_update (\<lambda>_. 0))))" for k
    by (intro mf.fr_intros mf_vm [OF kmf_kfree] mf_pset) simp_all
  have "rg R G (kfree k) (\<lambda>_. rg R G (pset p (p_kstack_update (\<lambda>_. 0))) (\<lambda>_. rg R G (pfld p p_pgdir)
      (\<lambda>d. rg R G (freevm d) (\<lambda>_. rg R G (kthen (pset p (\<lambda>x. x\<lparr>p_pid := 0, p_parent := None,
        p_name := (p_name x)[0 := 0], p_killed := False, p_state := UNUSED\<rparr>)) (kret pid)) (\<lambda>_. mrel {RUNNING} s))))) s" for k pid
    unfolding rg_then [of _ _ "kfree k", symmetric]
    by (rule rg_mf [OF k], unfold rg_basic, rule rg_mf [OF mf_vm [OF kmf_freevm], of UNIV])
       (auto simp: rg_then rg_pset rg_basic intro: fin mrel_trans)
  then show ?thesis by (simp add: mlfq_reap_def rg_simps)
qed

lemma mf_wait_scan: "kframe (mrel {RUNNING}) (mlfq_wait_scan cp)"
  unfolding mlfq_wait_scan_def
  by (intro mf.fr_find mf_bind_get)
     (auto simp: rg_bind rg_basic mf.frame_refl intro!: rg_reap [THEN rg_mono])

lemma keeps_wait: "keeps q (mlfq_wait n)"
proof -
  have "keeps q (mlfq_wait_loop n p)" for p
  proof (induction n)
    case (Suc n)
    show ?case
      unfolding mlfq_wait_loop.simps
      by (intro keeps_bind keeps_then keeps_option keeps_if keeps_basic(1,2) keeps_locks keeps_sleep Suc
          keeps_frame [OF mf_wait_scan])
  qed (simp add: rg_simps)
  then show ?thesis unfolding mlfq_wait_def by (intro keeps_myproc keeps_then keeps_locks)
qed

lemma keeps_exit:
  fixes begin_op :: "('z mlfq_st_scheme, unit) kernel"
  assumes "\<And>f. keeps q (fileclose f)" and "keeps q begin_op" and "\<And>c. keeps q (iput c)" and "keeps q end_op"
  shows "keeps q (mlfq_exit fileclose begin_op iput end_op)"
proof -
  have fin: "keeps q (kthen (pset q (p_state_update (\<lambda>_. ZOMBIE))) (kthen sched (kpanic ''zombie exit''))
      :: ('z mlfq_st_scheme, 'a) kernel)"
  proof (intro allI impI)
    fix s :: "'z mlfq_st_scheme" assume s: "mrun q s"
    have "mrel {} s (s\<lparr>procs := (procs s)[q := (procs s ! q)\<lparr>p_state := ZOMBIE\<rparr>]\<rparr>)"
      by (rule mrel_change) (use s mrun_bound [OF s] in \<open>auto simp: mrun_def minv_procs\<close>)
    then have "minv (s\<lparr>procs := (procs s)[q := (procs s ! q)\<lparr>p_state := ZOMBIE\<rparr>]\<rparr>)"
      using s by (simp add: mrun_def mrel_def)
    then show "rg (mrun q) minv (kthen (pset q (p_state_update (\<lambda>_. ZOMBIE))) (kthen sched (kpanic ''zombie exit'')))
        (\<lambda>_. mrun q) s"
      unfolding rg_then [of _ _ "pset q _"] rg_pset by (rule keeps_sched) (simp add: rg_basic)
  qed
  have wk: "kframe (mrel {RUNNING}) (mlfq_wakeup1 ch)" for ch by (rule mf_wakeup1) simp
  have kids: "kframe (mrel {RUNNING}) (kfor [0..<NPROC] (\<lambda>p. kbind (pfld p p_parent) (\<lambda>r. kwhen (r = Some q)
      (kthen (pset p (p_parent_update (\<lambda>_. ip)))
      (kbind (pfld p p_state) (\<lambda>st. kwhen (st = ZOMBIE) (mlfq_wakeup1 (map_option C_proc ip))))))))" for ip
    by (intro mf.fr_intros mf_pset wk) simp_all
  have ps: "keeps q (pset p (\<lambda>x. x\<lparr>p_ofile := (p_ofile x)[fd := None]\<rparr>))"
    "keeps q (pset p (p_cwd_update (\<lambda>_. None)))" for p fd
    by (rule keeps_frame, rule mf_pset; simp)+
  show ?thesis
    unfolding mlfq_exit_def
    by (intro keeps_myproc keeps_bind keeps_then keeps_if keeps_option keeps_for keeps_basic(1-3) keeps_locks
        assms keeps_frame [OF wk] keeps_frame [OF kids] ps fin)
qed

section \<open>The timer interrupt\<close>

lemma mf_tick: "SLEEPING \<notin> K \<Longrightarrow> kframe (mrel K) mlfq_tick"
  unfolding mlfq_tick_def
  by (intro mf.fr_intros mf_locks mf_degrade mf_boost mf_wakeup mf.fr_mod) (auto simp: mrel_def minv_def)

lemma keeps_exit_if_killed:
  assumes "keeps q exit"
  shows "keeps q (exit_if_killed exit user)"
  unfolding exit_if_killed_def
  by (intro keeps_intros keeps_frame [OF mf_myproc] assms)

lemma keeps_timer:
  assumes "keeps q exit"
  shows "keeps q (mlfq_timer exit user)"
  unfolding mlfq_timer_def
  by (intro keeps_intros keeps_exit_if_killed [OF assms] keeps_frame [OF mf_myproc] keeps_yield keeps_frame [OF mf_tick]) simp

text \<open>\<^verbatim>\<open>fork\<close> and \<^verbatim>\<open>userinit\<close> work on a process in state EMBRYO, which nobody else touches.\<close>

definition mfork :: "nat \<Rightarrow> 'z mlfq_st_scheme \<Rightarrow> bool" where
  "mfork np s \<longleftrightarrow> minv s \<and> np < NPROC \<and> p_state (procs s ! np) = EMBRYO"

lemma embryo_step:
  assumes "kframe (mrel {RUNNING, EMBRYO}) m" and "mfork np s"
    and "\<And>a t. mfork np t \<Longrightarrow> mrel {RUNNING} s t \<Longrightarrow> rg R G (f a) (\<lambda>_. mrel {RUNNING} t) t"
  shows "rg R G (kbind m f) (\<lambda>_. mrel {RUNNING} s) s"
  unfolding rg_bind
proof (rule rg_mf [OF assms(1)])
  fix a t assume st: "mrel {RUNNING, EMBRYO} s t"
  then have "mfork np t" using assms(2) by (auto simp: mfork_def mrel_def)
  moreover have s: "mrel {RUNNING} s t" using st by (rule mrel_mono) simp
  ultimately have "rg R G (f a) (\<lambda>_. mrel {RUNNING} t) t" by (rule assms(3))
  then show "rg R G (f a) (\<lambda>_. mrel {RUNNING} s) t" by (rule rg_mono) (rule mrel_trans [OF s])
qed

lemma embryo_then:
  assumes "kframe (mrel {RUNNING, EMBRYO}) m" and "mfork np s"
    and "\<And>t. mfork np t \<Longrightarrow> mrel {RUNNING} s t \<Longrightarrow> rg R G n (\<lambda>_. mrel {RUNNING} t) t"
  shows "rg R G (kthen m n) (\<lambda>_. mrel {RUNNING} s) s"
  unfolding kthen_def by (rule embryo_step [OF assms(1,2)]) (rule assms(3))

lemma embryo_fail:
  assumes "mfork np s"
  shows "rg R G (kbind (pfld np p_kstack) (\<lambda>k. kthen (kfree k)
    (kthen (pset np (\<lambda>x. x\<lparr>p_kstack := 0, p_state := UNUSED\<rparr>)) (kret v)))) (\<lambda>_. mrel {RUNNING} s) s"
  unfolding rg_bind rg_basic
proof (rule embryo_then [OF mf_vm [OF kmf_kfree] assms])
  fix t :: "'a mlfq_st_scheme"
  assume "mfork np t"
  then show "rg R G (kthen (pset np (\<lambda>x. x\<lparr>p_kstack := 0, p_state := UNUSED\<rparr>)) (kret v)) (\<lambda>_. mrel {RUNNING} t) t"
    by (auto simp: rg_simps mfork_def minv_procs intro!: mrel_change)
qed

lemma embryo_run:
  assumes "mfork np s"
  shows "rg R G (kthen (acquire L_ptable) (kthen (make_runnable np) (kthen (release L_ptable) (kret v))))
    (\<lambda>_. mrel {RUNNING} s) s"
proof (rule embryo_then [OF mf_locks(1) assms])
  fix t :: "'a mlfq_st_scheme"
  assume t: "mfork np t"
  let ?u = "t\<lparr>procs := (procs t)[np := (procs t ! np)\<lparr>p_state := RUNNABLE\<rparr>],
       numproc := (numproc t)[p_level (procs t ! np) := numproc t ! p_level (procs t ! np) + 1]\<rparr>"
  have "mrel {RUNNING} t ?u" by (rule make_runnable_rel) (use t in \<open>auto simp: mfork_def\<close>)
  then have "rg R G (kthen (release L_ptable) (kret v)) (\<lambda>_. mrel {RUNNING} t) ?u"
    unfolding rg_then by (intro rg_mf [OF mf_locks(2), of UNIV]) (auto simp: rg_basic intro: mrel_UNIV(3))
  then show "rg R G (kthen (make_runnable np) (kthen (release L_ptable) (kret v))) (\<lambda>_. mrel {RUNNING} t) t"
    by (simp add: rg_then [of _ _ "make_runnable np"] rg_make_runnable)
qed

lemma mf_copy_files:
  fixes filedup :: "nat \<Rightarrow> ('z mlfq_st_scheme, nat) kernel"
  assumes "\<And>f. kframe (mrel K) (filedup f)" and "\<And>c. kframe (mrel K) (idup c)"
  shows "kframe (mrel K) (copy_files filedup idup np q)"
  unfolding copy_files_def by (intro mf.fr_intros assms mf_pset) simp_all

lemma rg_fork_child:
  fixes filedup :: "nat \<Rightarrow> ('z mlfq_st_scheme, nat) kernel"
  assumes "\<And>f. kframe (mrel {RUNNING, EMBRYO}) (filedup f)" and "\<And>c. kframe (mrel {RUNNING, EMBRYO}) (idup c)"
    and "mfork np s"
  shows "rg R G (mlfq_fork_child filedup idup q np) (\<lambda>_. mrel {RUNNING} s) s"
proof -
  have get: "kframe (mrel {RUNNING, EMBRYO}) (kget g :: ('z mlfq_st_scheme, 'c) kernel)" for g by (rule mf.fr_basic)
  show ?thesis
    unfolding mlfq_fork_child_def
    apply (rule embryo_step [OF get assms(3)])
    apply (subst split_beta)
    apply (rule embryo_step [OF mf_vm [OF kmf_copyuvm]], assumption)
    apply (rule embryo_then [OF mf_pset], simp, simp, assumption)
    apply (rule rg_if)
     apply (rule embryo_fail, assumption)
    apply (rule embryo_step [OF get], assumption)
    apply (rule embryo_then [OF mf_pset], simp, simp, assumption)
    apply (rule embryo_then [OF mf_tf(2)], assumption)
    apply (rule embryo_then [OF mf_tf(1)], assumption)
    apply (rule embryo_then [OF mf_copy_files [OF assms(1,2)]], assumption)
    apply (rule embryo_step [OF get], assumption)
    apply (rule embryo_run, assumption)
    done
qed

lemma keeps_fork:
  fixes filedup :: "nat \<Rightarrow> ('z mlfq_st_scheme, nat) kernel"
  assumes "\<And>f. kframe (mrel {RUNNING, EMBRYO}) (filedup f)" and "\<And>c. kframe (mrel {RUNNING, EMBRYO}) (idup c)"
  shows "keeps q (mlfq_fork filedup idup)"
  unfolding mlfq_fork_def
proof (rule keeps_myproc, intro allI impI, unfold rg_bind)
  fix s :: "'z mlfq_st_scheme"
  assume s: "mrun q s"
  then have "minv s" by (simp add: mrun_def)
  from rg_allocproc [OF this]
  show "rg (mrun q) minv mlfq_allocproc (\<lambda>ptr. rg (mrun q) minv
      (case ptr of None \<Rightarrow> kret (-1) | Some np \<Rightarrow> mlfq_fork_child filedup idup q np) (\<lambda>_. mrun q)) s"
  proof (rule rg_mono, elim conjE)
    fix r t
    assume t: "mrel {RUNNING} s t" and np: "\<forall>np. r = Some np \<longrightarrow> np < NPROC \<and> p_state (procs t ! np) = EMBRYO"
    have m: "mrun q t" by (rule mrel_mrun [OF t _ s]) simp
    show "rg (mrun q) minv (case r of None \<Rightarrow> kret (-1) | Some np \<Rightarrow> mlfq_fork_child filedup idup q np) (\<lambda>_. mrun q) t"
    proof (cases r)
      case (Some p)
      with np m have f: "mfork p t" by (simp add: mfork_def mrun_def)
      show ?thesis
        unfolding Some option.case
        by (rule rg_mono [OF rg_fork_child [OF assms f]]) (erule mrel_mrun [OF _ _ m], simp)
    qed (simp add: m rg_simps)
  qed
qed

lemma mf_init_tf: "kframe (mrel K) (init_tf p)"
  unfolding init_tf_def by (intro mf.fr_then mf_tf mf.fr_mod) (simp add: mrel_def minv_def)

lemma rg_userinit_proc:
  fixes namei :: "byte list \<Rightarrow> ('z mlfq_st_scheme, nat option) kernel"
  assumes "\<And>path. kframe (mrel {RUNNING, EMBRYO}) (namei path)" and "mfork p s"
  shows "rg R G (mlfq_userinit_proc initcode namei d p) (\<lambda>_. mrel {RUNNING} s) s"
proof -
  have get: "kframe (mrel {RUNNING, EMBRYO}) (kget g :: ('z mlfq_st_scheme, 'c) kernel)" for g by (rule mf.fr_basic)
  have opt: "kframe (mrel {RUNNING, EMBRYO}) (kopt r :: ('z mlfq_st_scheme, 'c) kernel)" for r by (rule mf.fr_opt)
  have fin: "rg R G (kthen (acquire L_ptable) (kthen (make_runnable p) (release L_ptable))) (\<lambda>_. mrel {RUNNING} t) t"
    if "mfork p t" for t :: "'z mlfq_st_scheme"
    using embryo_run [OF that, of R G "()"] by (simp add: rg_simps)
  show ?thesis
    unfolding mlfq_userinit_proc_def
    apply (rule embryo_then [OF mf_pset], simp, simp, rule assms(2))
    apply (rule rg_if, simp add: rg_basic)
    apply (rule embryo_then [OF mf_vm [OF kmf_inituvm]], assumption)
    apply (rule embryo_then [OF mf_pset], simp, simp, assumption)
    apply (rule embryo_then [OF mf_init_tf], assumption)
    apply (rule embryo_step [OF get], assumption)
    apply (rule embryo_step [OF opt], assumption)
    apply (rule embryo_then [OF mf_pset], simp, simp, assumption)
    apply (rule embryo_step [OF assms(1)], assumption)
    apply (rule embryo_then [OF mf_pset], simp, simp, assumption)
    apply (rule fin, assumption)
    done
qed

lemma rg_userinit:
  fixes namei :: "byte list \<Rightarrow> ('z mlfq_st_scheme, nat option) kernel"
  assumes "\<And>path. kframe (mrel {RUNNING, EMBRYO}) (namei path)" and "minv s"
  shows "rg R G (mlfq_userinit initcode namei) (\<lambda>_. mrel {RUNNING} s) s"
proof -
  have init: "kframe (mrel K) (kmod (\<lambda>s. s\<lparr>initproc := v\<rparr>) :: ('z mlfq_st_scheme, unit) kernel)" for v K
    by (rule mf.fr_mod) (simp add: mrel_def minv_def)
  have rest: "rg R G (kthen (kmod (\<lambda>s. s\<lparr>initproc := Some p\<rparr>))
      (kbind setupkvm (\<lambda>d. mlfq_userinit_proc initcode namei d p))) (\<lambda>_. mrel {RUNNING} t) t"
    if "mfork p t" for p t
    by (rule embryo_then [OF init that], rule embryo_step [OF mf_vm [OF kmf_setupkvm]], assumption)
       (rule rg_userinit_proc [OF assms(1)])
  have none: "kframe (mrel {RUNNING}) (kthen (kmod (\<lambda>s. s\<lparr>initproc := None\<rparr>)) (kbind setupkvm (\<lambda>d. kfault))
      :: ('z mlfq_st_scheme, unit) kernel)"
    by (intro mf.fr_then mf.fr_bind init mf_vm [OF kmf_setupkvm] mf.fr_basic)
  show ?thesis
    unfolding mlfq_userinit_def rg_bind [of _ _ mlfq_allocproc]
  proof (rule rg_mono [OF rg_allocproc [OF assms(2)]], elim conjE)
    fix r and t :: "'z mlfq_st_scheme"
    assume t: "mrel {RUNNING} s t" and np: "\<forall>np. r = Some np \<longrightarrow> np < NPROC \<and> p_state (procs t ! np) = EMBRYO"
    have "minv t" using t assms(2) by (rule mrel_minv)
    then have f: "mfork p t" if "r = Some p" for p using np that by (simp add: mfork_def)
    have "rg R G (kthen (kmod (\<lambda>s. s\<lparr>initproc := r\<rparr>)) (kbind setupkvm
        (\<lambda>d. deref r (\<lambda>p. mlfq_userinit_proc initcode namei d p)))) (\<lambda>_. mrel {RUNNING} t) t"
    proof (cases r)
      case None
      show ?thesis using rg_mf [OF none] by (simp add: None deref_def)
    next
      case (Some p)
      show ?thesis using rest [OF f [OF Some]] by (simp add: Some deref_def)
    qed
    then show "rg R G (kthen (kmod (\<lambda>s. s\<lparr>initproc := r\<rparr>)) (kbind setupkvm
        (\<lambda>d. deref r (\<lambda>p. mlfq_userinit_proc initcode namei d p)))) (\<lambda>_. mrel {RUNNING} s) t"
      by (rule rg_mono) (rule mrel_trans [OF t])
  qed
qed

end
