(* ===== verification/Mlfq_Sched.thy ===== *)
theory Mlfq_Sched
  imports Mlfq_Inv
begin

text \<open>
  The scheduler of \<^verbatim>\<open>proc_MLFQ.c\<close>: the choice of a process, the system made of processes, interrupts
  and scheduler as an inductive set of reachable configurations, and the properties of the
  component.
\<close>

section \<open>The scheduler keeps the counters\<close>

text \<open>\<^verbatim>\<open>switchuvm\<close> touches the registers only.\<close>

lemma switchuvm_regs:
  "rg R G (switchuvm r) Q s" if "\<And>x t c. me x = me (lk s) \<Longrightarrow> Q () (s\<lparr>ts_esp0 := t, cr3 := c, lk := x\<rparr>)"
  using that
  by (auto simp: switchuvm_def rg_simps pushcli_def popcli_def Let_def rg_def kernel_simps split: option.splits)

lemma rg_dispatch:
  fixes s :: "'z mlfq_st_scheme"
  assumes "minv s" and "p < NPROC" and "p_state (procs s ! p) = RUNNABLE"
  shows "rg minv minv (sch_dispatch p) (\<lambda>_. minv) s"
proof -
  let ?x = "procs s ! p"
  have "minvc (procs s) ((heads s)[p_level ?x := Some p]) (numproc s) ((cpu_proc s)(me (lk s) := Some p))"
    using assms(1,2) by (auto simp: minv_def minvc_def)
  then have "minvc ((procs s)[p := ?x\<lparr>p_state := RUNNING\<rparr>]) ((heads s)[p_level ?x := Some p])
      ((numproc s)[p_level ?x := numproc s ! p_level ?x + - 1]) ((cpu_proc s)(me (lk s) := Some p))"
    by (rule minvc_update)
       (use assms minv_procs [OF assms(1)] in \<open>auto simp: minv_def minvc_def rn_def nth_list_update\<close>)
  moreover have "minv (t\<lparr>cr3 := a, cpu_proc := (cpu_proc t)(c := None)\<rparr>)" if "minv t" for t :: "'z mlfq_st_scheme" and a c
    using that by (auto simp: minv_def minvc_def)
  ultimately show ?thesis
    unfolding sch_dispatch_def
    by (auto simp: rg_bind rg_then rg_basic mlfq_rg rg_pset switchkvm_def minv_def intro!: switchuvm_regs)
qed

lemma rg_sch_body:
  assumes "minv s" and "p < NPROC"
  shows "rg minv minv (sch_body level p) (\<lambda>_. minv) s"
  unfolding sch_body_def
  using rg_dispatch [OF assms] assms(1)
  by (auto simp: rg_simps sch_runnable_def split: option.splits)

lemma rg_sch_loop: "minv s \<Longrightarrow> rg minv minv (sch_loop n level p) (\<lambda>_. minv) s"
proof (induction n arbitrary: level p s)
  case (Suc n)
  have "rg minv minv (sch_body level p) (\<lambda>pc. rg minv minv (case pc of Schbegin \<Rightarrow> sch_loop n 0 0
      | Schsearch \<Rightarrow> sch_loop n level 0 | Continue \<Rightarrow> sch_loop n level (Suc p)) (\<lambda>_. minv)) s" if "p < NPROC"
    by (rule rg_mono [OF rg_sch_body [OF Suc.prems that]]) (auto split: schpc.splits intro: Suc.IH)
  then show ?case using Suc by (auto simp: rg_simps)
qed (simp add: rg_simps)

section \<open>Which process is dispatched\<close>

text \<open>
  The process the policy wants: runnable, at the highest level with a runnable process, and with
  a priority that no runnable process of that level exceeds.
\<close>

definition sch_best :: "'z mlfq_st_scheme \<Rightarrow> nat \<Rightarrow> nat \<Rightarrow> bool" where
  "sch_best s level p \<longleftrightarrow> p < NPROC \<and> sch_runnable s level p
     \<and> (\<forall>l < level. \<forall>q < NPROC. \<not> sch_runnable s l q)
     \<and> (\<forall>q < NPROC. sch_runnable s level q \<longrightarrow> p_priority (procs s ! q) \<le> p_priority (procs s ! p))"

definition higher :: "'z mlfq_st_scheme \<Rightarrow> nat \<Rightarrow> bool" where
  "higher s level \<longleftrightarrow> list_ex (\<lambda>i. numproc s ! i > 0) [0..<level]"

lemma sch_body_run:
  "sch_body level p s =
     (if higher s level then Ret Schbegin s
      else if \<not> sch_runnable s level p then Ret Continue s
      else case sch_better s level p of
        Some p1 \<Rightarrow> Ret (if p1 < p then Schsearch else Continue) s
      | None \<Rightarrow> kcont (sch_dispatch p s) (\<lambda>_. Ret Continue))"
  by (simp add: sch_body_def higher_def kernel_simps kret_def split: option.splits)

lemma nrun_zero: "nrun ps l = 0 \<longleftrightarrow> (\<forall>q < length ps. \<not> rn (ps ! q) l)"
  by (simp add: nrun_def filter_empty_conv all_set_conv_all_nth)

lemma numproc_zero:
  assumes "minv s" and "l < MLFQ_K"
  shows "numproc s ! l > 0 \<longleftrightarrow> (\<exists>q < NPROC. sch_runnable s l q)"
  using assms nrun_zero [of "procs s" l]
  by (auto simp: minv_def minvc_def sch_runnable_def rn_def)

lemma higher_iff:
  assumes "minv s" and "level \<le> MLFQ_K"
  shows "higher s level \<longleftrightarrow> (\<exists>l < level. \<exists>q < NPROC. sch_runnable s l q)"
  using assms numproc_zero [OF assms(1)] by (auto simp: higher_def list_ex_iff)

lemma nrun_two:
  assumes "p < length ps" and "q < length ps" and "p \<noteq> q" and "rn (ps ! p) l" and "rn (ps ! q) l"
  shows "1 < nrun ps l"
proof -
  let ?ps = "ps[p := (ps ! p)\<lparr>p_state := UNUSED\<rparr>]"
  have "0 < nrun ?ps l" using assms by (intro nrun_pos [of q]) auto
  moreover have "int (nrun ?ps l) = int (nrun ps l) - 1"
    using nrun_update [OF assms(1), of "(ps ! p)\<lparr>p_state := UNUSED\<rparr>" l] assms(4) by (simp add: rn_def)
  ultimately show ?thesis by linarith
qed

text \<open>With right counters the search for a better process decides the policy.\<close>

lemma sch_better_None:
  assumes "minv s" and "level < MLFQ_K" and "p < NPROC" and "sch_runnable s level p"
    and "sch_better s level p = None" and "q < NPROC" and "sch_runnable s level q"
  shows "p_priority (procs s ! q) \<le> p_priority (procs s ! p)"
proof (cases "p = q")
  case False
  then have "1 < nrun (procs s) level"
    using assms by (intro nrun_two [of p _ q]) (auto simp: minv_procs sch_runnable_def rn_def)
  then have "numproc s ! level > 1" using assms(1,2) by (simp add: minv_def minvc_def)
  then show ?thesis
    using assms(5-7) by (auto simp: sch_better_def find_None_iff not_less)
qed simp

lemma sch_best_iff:
  assumes "minv s" and "level < MLFQ_K" and "p < NPROC" and "\<not> higher s level"
    and "sch_runnable s level p"
  shows "sch_better s level p = None \<longleftrightarrow> sch_best s level p"
proof
  assume "sch_better s level p = None"
  then show "sch_best s level p"
    using assms sch_better_None [OF assms(1-3,5)] higher_iff [OF assms(1), of level]
    by (auto simp: sch_best_def)
next
  assume "sch_best s level p"
  then show "sch_better s level p = None"
    by (auto simp: sch_best_def sch_better_def find_None_iff)
qed

text \<open>The state in which the scheduler hands the processor to \<open>p\<close>.\<close>

definition dispatched :: "'z mlfq_st_scheme \<Rightarrow> nat \<Rightarrow> 'z mlfq_st_scheme" where
  "dispatched s p = (let x = procs s ! p; l = p_level x in
     s\<lparr>cpu_proc := (cpu_proc s)(me (lk s) := Some p), heads := (heads s)[l := Some p],
       ts_esp0 := (ts_esp0 s)(me (lk s) := p_kstack x + KSTACKSIZE), cr3 := V2P (p_pgdir x),
       procs := (procs s)[p := x\<lparr>p_state := RUNNING\<rparr>], numproc := (numproc s)[l := numproc s ! l - 1]\<rparr>)"

definition runnable_ready :: "'z mlfq_st_scheme \<Rightarrow> bool" where
  "runnable_ready s \<longleftrightarrow> lk_ok (lk s) \<and> (\<forall>p < NPROC. p_state (procs s ! p) = RUNNABLE \<longrightarrow>
     p_kstack (procs s ! p) \<noteq> 0 \<and> p_pgdir (procs s ! p) \<noteq> 0)"

text \<open>The state in which it goes on when the processor comes back.\<close>

definition came_back :: "'z mlfq_st_scheme \<Rightarrow> 'z mlfq_st_scheme" where
  "came_back u = u\<lparr>cr3 := V2P (kpgdir u), cpu_proc := (cpu_proc u)(me (lk u) := None)\<rparr>"

lemma sch_dispatch_run:
  assumes "runnable_ready s" and "p < NPROC" and "p_state (procs s ! p) = RUNNABLE"
  shows "sch_dispatch p s = Wait (dispatched s p) (\<lambda>u. Ret () (came_back u))"
  using assms
  by (simp add: sch_dispatch_def kernel_simps set_head_def num_add_def switchuvm_run runnable_ready_def
      dispatched_def Let_def came_back_def switchkvm_def)

lemma sch_loop_best:
  fixes s :: "'z mlfq_st_scheme"
  assumes "minv s" and "runnable_ready s"
  shows "sch_loop n level p s = Wait t k \<Longrightarrow>
    \<exists>l q m. sch_best s l q \<and> t = dispatched s q \<and> k = (\<lambda>u. sch_loop m l (q + 1) (came_back u))"
proof (induction n arbitrary: level p)
  case (Suc n)
  consider "level \<ge> MLFQ_K" | "level < MLFQ_K" "p \<ge> NPROC" | "level < MLFQ_K" "p < NPROC" by linarith
  then show ?case
  proof cases
    case 1
    then show ?thesis using Suc.prems by (simp add: kernel_simps)
  next
    case 2
    then show ?thesis using Suc by (auto simp: kernel_simps split: if_splits)
  next
    case 3
    consider (stay) pc where "sch_body level p s = Ret pc s"
      | (go) "\<not> higher s level" "sch_runnable s level p" "sch_better s level p = None"
      by (cases "higher s level"; cases "sch_runnable s level p"; cases "sch_better s level p")
         (auto simp: sch_body_run)
    then show ?thesis
    proof cases
      case stay
      then show ?thesis using 3 Suc by (auto simp: kernel_simps split: schpc.splits)
    next
      case go
      then have best: "sch_best s level p" using sch_best_iff assms(1) 3 by blast
      have "sch_dispatch p s = Wait (dispatched s p) (\<lambda>u. Ret () (came_back u))"
        using sch_dispatch_run [OF assms(2) 3(2)] go(2) by (auto simp: sch_runnable_def)
      with go 3 Suc.prems have "t = dispatched s p" "k = (\<lambda>u. sch_loop n level (p + 1) (came_back u))"
        by (simp_all add: kernel_simps sch_body_run)
      with best show ?thesis by blast
    qed
  qed
qed (simp add: kernel_simps)

text \<open>Iterations that go on to the next process.\<close>

lemma sch_loop_skip:
  assumes "level < MLFQ_K" and "\<And>q. p \<le> q \<Longrightarrow> q < p + k \<Longrightarrow> q < NPROC \<and> sch_body level q s = Ret Continue s"
  shows "sch_loop (k + n) level p s = sch_loop n level (p + k) s"
  using assms(2)
proof (induction k arbitrary: p)
  case (Suc k)
  have "sch_body level p s = Ret Continue s" and "p < NPROC" using Suc.prems [of p] by auto
  then have "sch_loop (Suc k + n) level p s = sch_loop (k + n) level (Suc p) s"
    using assms(1) by (simp add: kernel_simps)
  also have "\<dots> = sch_loop n level (Suc p + k) s"
    by (rule Suc.IH) (use Suc.prems in auto)
  finally show ?case by simp
qed simp

text \<open>A level without runnable processes is passed in one sweep.\<close>

lemma sch_loop_empty_level:
  assumes "minv s" and "level < MLFQ_K" and "\<forall>l \<le> level. \<forall>q < NPROC. \<not> sch_runnable s l q"
  shows "sch_loop (NPROC + Suc n) level 0 s = sch_loop n (Suc level) 0 s"
proof -
  have "\<not> higher s level" using assms higher_iff [OF assms(1), of level] by auto
  then have "sch_loop (NPROC + Suc n) level 0 s = sch_loop (Suc n) level (0 + NPROC) s"
    using assms by (intro sch_loop_skip) (auto simp: sch_body_run)
  also have "\<dots> = sch_loop n (Suc level) 0 s"
    using assms numproc_zero [OF assms(1,2)] by (auto simp: kernel_simps)
  finally show ?thesis .
qed

lemma sch_loop_empty_levels:
  assumes "minv s" and "level \<le> MLFQ_K" and "\<forall>l < level. \<forall>q < NPROC. \<not> sch_runnable s l q"
  shows "sch_loop (level * Suc NPROC + n) 0 0 s = sch_loop n level 0 s"
  using assms(2,3)
proof (induction level arbitrary: n)
  case (Suc level)
  have "sch_loop (level * Suc NPROC + (NPROC + Suc n)) 0 0 s = sch_loop (NPROC + Suc n) level 0 s"
    by (rule Suc.IH) (use Suc.prems in auto)
  also have "\<dots> = sch_loop n (Suc level) 0 s"
    by (rule sch_loop_empty_level [OF assms(1)]) (use Suc.prems in auto)
  finally show ?case by (simp add: algebra_simps)
qed simp

text \<open>
  The search reaches the first best process if the priorities of the runnable processes before
  it do not fall: a lower one behind a higher one would send the search back to the start.
\<close>

lemma sch_loop_reaches:
  fixes s :: "'z mlfq_st_scheme"
  assumes inv: "minv s" and ready: "runnable_ready s" and l: "level < MLFQ_K" and best: "sch_best s level p"
    and first: "\<forall>q < p. \<not> sch_best s level q"
    and rising: "\<forall>i j. i < j \<and> j < p \<and> sch_runnable s level i \<and> sch_runnable s level j \<longrightarrow>
        p_priority (procs s ! i) \<le> p_priority (procs s ! j)"
  shows "\<exists>k. sch_loop (level * Suc NPROC + (p + Suc n)) 0 0 s = Wait (dispatched s p) k"
proof -
  have p: "p < NPROC" and r: "sch_runnable s level p" and none: "\<forall>l < level. \<forall>q < NPROC. \<not> sch_runnable s l q"
    using best by (auto simp: sch_best_def)
  have nh: "\<not> higher s level" using none higher_iff [OF inv, of level] l by auto
  have skip: "sch_body level q s = Ret Continue s" if q: "q < p" for q
  proof (cases "sch_runnable s level q")
    case True
    have "\<not> sch_best s level q" using first q by blast
    then have "sch_better s level q \<noteq> None" using sch_best_iff [OF inv l _ nh True] q p by auto
    then obtain b where b: "sch_better s level q = Some b" by blast
    then have "b < NPROC" and rb: "sch_runnable s level b" and pb: "p_priority (procs s ! b) > p_priority (procs s ! q)"
      by (auto simp: sch_better_def dest: find_proc split: if_splits)
    have "\<not> b < q" using rising q True rb pb by force
    then show ?thesis using nh True b by (simp add: sch_body_run)
  qed (simp add: sch_body_run nh)
  have "sch_loop (level * Suc NPROC + (p + Suc n)) 0 0 s = sch_loop (p + Suc n) level 0 s"
    by (rule sch_loop_empty_levels [OF inv]) (use l none in auto)
  also have "\<dots> = sch_loop (Suc n) level (0 + p) s"
    by (rule sch_loop_skip [OF l]) (use skip p in auto)
  finally show ?thesis
    using sch_best_iff [OF inv l p nh r] best nh r l p sch_dispatch_run [OF ready p]
    by (auto simp: kernel_simps sch_body_run sch_runnable_def)
qed

section \<open>The system\<close>

text \<open>
  What runs between two context switches: the calls a process makes, and the interrupt handlers.
  The file layer is a parameter, the record \<open>flayer\<close>.
\<close>

record flayer =
  fl_filedup :: "nat \<Rightarrow> (mlfq_st, nat) kernel"
  fl_idup :: "nat option \<Rightarrow> (mlfq_st, nat option) kernel"
  fl_fileclose :: "nat \<Rightarrow> (mlfq_st, unit) kernel"
  fl_begin_op :: "(mlfq_st, unit) kernel"
  fl_iput :: "nat option \<Rightarrow> (mlfq_st, unit) kernel"
  fl_end_op :: "(mlfq_st, unit) kernel"

datatype mcall =
    M_fork | M_exit | M_wait nat | M_sleep "chan option" "lockid option" | M_yield | M_kill int
  | M_wakeup "chan option" | M_rst | M_setpriority int int | M_growproc int | M_timer bool

definition kvoid :: "('s, 'a) kernel \<Rightarrow> ('s, unit) kernel" where
  "kvoid m = kthen m (kret ())"

fun mexec :: "flayer \<Rightarrow> mcall \<Rightarrow> (mlfq_st, unit) kernel" where
  "mexec F M_fork = kvoid (mlfq_fork (fl_filedup F) (fl_idup F))"
| "mexec F M_exit = mlfq_exit (fl_fileclose F) (fl_begin_op F) (fl_iput F) (fl_end_op F)"
| "mexec F (M_wait n) = kvoid (mlfq_wait n)"
| "mexec F (M_sleep c l) = mlfq_sleep c l"
| "mexec F M_yield = mlfq_yield"
| "mexec F (M_kill pid) = kvoid (mlfq_kill pid)"
| "mexec F (M_wakeup c) = mlfq_wakeup c"
| "mexec F M_rst = rst"
| "mexec F (M_setpriority pid pr) = kvoid (setpriority pid pr)"
| "mexec F (M_growproc n) = kvoid (mlfq_growproc n)"
| "mexec F (M_timer user) = mlfq_timer (mlfq_exit (fl_fileclose F) (fl_begin_op F) (fl_iput F) (fl_end_op F)) user"

text \<open>A timer interrupt stops a process (\<open>M_timer\<close>) or a processor that has none; other interrupts wake sleepers up.\<close>

datatype mintr = I_timer | I_wakeup "chan option"

fun mhandle :: "mintr \<Rightarrow> (mlfq_st, unit) kernel" where
  "mhandle I_timer = mlfq_tick"
| "mhandle (I_wakeup c) = mlfq_wakeup c"

text \<open>
  A configuration is the shared state and, for each process that waits to be resumed, how it
  goes on. Any processor may act next, and the lock state is not tracked from step to step.
\<close>

type_synonym mconfig = "mlfq_st \<times> (nat \<Rightarrow> (mlfq_st \<Rightarrow> (mlfq_st, unit) kres) option)"

inductive mreach :: "flayer \<Rightarrow> mconfig \<Rightarrow> bool" for F where
  m_init: "\<lbrakk>length (procs s) = NPROC; length (heads s) = MLFQ_K; length (numproc s) = MLFQ_K;
     \<forall>x \<in> set (procs s). p_state x = UNUSED \<and> p_level x = 0; mlfq_pinit s = Ret () t;
     \<forall>c. cpu_proc t c = None\<rbrakk> \<Longrightarrow> mreach F (t, \<lambda>_. None)"
| m_init_proc: "\<lbrakk>mreach F (s, K); mlfq_userinit code (\<lambda>_. kret ip) s = Ret () t\<rbrakk> \<Longrightarrow> mreach F (t, K)"
| m_cpu: "mreach F (s, K) \<Longrightarrow> mreach F (s\<lparr>lk := x\<rparr>, K)"
| m_call: "\<lbrakk>mreach F (s, K); cpu_proc s (me (lk s)) = Some q; p_state (procs s ! q) = RUNNING;
     mexec F c s = Ret () t\<rbrakk> \<Longrightarrow> mreach F (t, K)"
| m_call_wait: "\<lbrakk>mreach F (s, K); cpu_proc s (me (lk s)) = Some q; p_state (procs s ! q) = RUNNING;
     mexec F c s = Wait t k\<rbrakk> \<Longrightarrow> mreach F (t, K(q := Some k))"
| m_intr: "\<lbrakk>mreach F (s, K); mhandle i s = Ret () t\<rbrakk> \<Longrightarrow> mreach F (t, K)"
| m_dispatch: "\<lbrakk>mreach F (s, K); sch_loop n level p s = Wait t k\<rbrakk> \<Longrightarrow> mreach F (t, K)"
| m_back: "mreach F (s, K) \<Longrightarrow> mreach F (s\<lparr>cpu_proc := (cpu_proc s)(me (lk s) := None)\<rparr>, K)"
| m_resume: "\<lbrakk>mreach F (s, K); cpu_proc s (me (lk s)) = Some q; p_state (procs s ! q) = RUNNING;
     K q = Some k; k s = Ret () t\<rbrakk> \<Longrightarrow> mreach F (t, K(q := None))"
| m_resume_wait: "\<lbrakk>mreach F (s, K); cpu_proc s (me (lk s)) = Some q; p_state (procs s ! q) = RUNNING;
     K q = Some k; k s = Wait t k'\<rbrakk> \<Longrightarrow> mreach F (t, K(q := Some k'))"

text \<open>
  What is assumed of the file layer: taking references does not touch the process table, and the
  other operations may sleep but keep the invariant.
\<close>

definition flayer_ok :: "flayer \<Rightarrow> bool" where
  "flayer_ok F \<longleftrightarrow>
     (\<forall>f. kframe (mrel {RUNNING, EMBRYO}) (fl_filedup F f)) \<and> (\<forall>c. kframe (mrel {RUNNING, EMBRYO}) (fl_idup F c))
   \<and> (\<forall>q. (\<forall>f. keeps q (fl_fileclose F f)) \<and> keeps q (fl_begin_op F)
       \<and> (\<forall>c. keeps q (fl_iput F c)) \<and> keeps q (fl_end_op F))"

lemma keeps_void: "keeps q m \<Longrightarrow> keeps q (kvoid m)"
  unfolding kvoid_def by (intro keeps_then keeps_basic)

lemma keeps_mexec:
  assumes "flayer_ok F"
  shows "keeps q (mexec F c)"
proof -
  have fork: "keeps q (mlfq_fork (fl_filedup F) (fl_idup F))"
    by (rule keeps_fork) (use assms in \<open>auto simp: flayer_ok_def\<close>)
  have exit: "keeps q (mlfq_exit (fl_fileclose F) (fl_begin_op F) (fl_iput F) (fl_end_op F))"
    by (rule keeps_exit) (use assms in \<open>auto simp: flayer_ok_def\<close>)
  have wake: "SLEEPING \<notin> {RUNNING}" by simp
  show ?thesis
    by (induction c; simp only: mexec.simps)
       (rule keeps_void [OF fork], rule exit, rule keeps_void [OF keeps_wait], rule keeps_sleep, rule keeps_yield,
        rule keeps_void [OF keeps_frame [OF mf_kill [OF wake]]], rule keeps_frame [OF mf_wakeup [OF wake]],
        rule keeps_frame [OF mf_rst], rule keeps_void [OF keeps_frame [OF mf_setpriority]],
        rule keeps_void [OF keeps_frame [OF mf_growproc]], rule keeps_timer [OF exit])
qed

lemma mf_mhandle: "kframe (mrel {RUNNING}) (mhandle i)"
  by (cases i) (simp_all add: mf_tick mf_wakeup)

lemma pinit_run:
  assumes "length (heads s) = MLFQ_K" and "length (numproc s) = MLFQ_K"
  shows "\<exists>x. mlfq_pinit s = Ret () (s\<lparr>heads := replicate MLFQ_K None, numproc := replicate MLFQ_K 0, lk := x\<rparr>)"
proof -
  obtain a b c where "heads s = [a, b, c]" using assms(1) by (auto simp: MLFQ_K_def numeral_3_eq_3 length_Suc_conv)
  moreover obtain d e f where "numproc s = [d, e, f]" using assms(2) by (auto simp: MLFQ_K_def numeral_3_eq_3 length_Suc_conv)
  ultimately show ?thesis
    by (simp add: mlfq_pinit_def MLFQ_K_def upt_rec numeral_3_eq_3 kernel_simps set_head_def initlock_def)
       (rule exI, rule refl)
qed

text \<open>The invariant of configurations.\<close>

definition minv_config :: "mconfig \<Rightarrow> bool" where
  "minv_config x \<longleftrightarrow> minv (fst x) \<and> (\<forall>q k t. snd x q = Some k \<and> mrun q t \<longrightarrow> rg_res (mrun q) minv (\<lambda>_. mrun q) (k t))"

lemma mreach_inv:
  assumes "flayer_ok F" and "mreach F x"
  shows "minv_config x"
  using assms(2)
proof (induction rule: mreach.induct)
  case (m_init s t)
  obtain x where t: "t = s\<lparr>heads := replicate MLFQ_K None, numproc := replicate MLFQ_K 0, lk := x\<rparr>"
    using pinit_run [OF m_init(2,3)] m_init(5) by auto
  have "nrun (procs s) l = 0" for l
    using m_init(4) by (auto simp: nrun_def rn_def filter_empty_conv)
  then show ?case
    using m_init t by (auto simp: minv_config_def minv_def minvc_def MLFQ_K_def)
next
  case (m_init_proc s K code ip t)
  have "rg (\<lambda>_. True) (\<lambda>_. True) (mlfq_userinit code (\<lambda>_. kret ip)) (\<lambda>_. mrel {RUNNING} s) s"
    by (rule rg_userinit) (use m_init_proc.IH mf.fr_basic in \<open>auto simp: minv_config_def\<close>)
  then have "mrel {RUNNING} s t" using m_init_proc.hyps by (simp add: rg_def)
  then show ?case using m_init_proc.IH by (auto simp: minv_config_def mrel_def)
next
  case (m_cpu s K x)
  then show ?case by (auto simp: minv_config_def minv_def)
next
  case (m_call s K q c t)
  then have "mrun q s" by (simp add: minv_config_def mrun_def)
  with keeps_mexec [OF assms(1)] have "rg (mrun q) minv (mexec F c) (\<lambda>_. mrun q) s" by blast
  then show ?case using m_call by (auto simp: minv_config_def rg_def mrun_def)
next
  case (m_call_wait s K q c t k)
  then have "mrun q s" by (simp add: minv_config_def mrun_def)
  with keeps_mexec [OF assms(1)] have "rg (mrun q) minv (mexec F c) (\<lambda>_. mrun q) s" by blast
  then show ?case using m_call_wait by (auto simp: minv_config_def rg_def)
next
  case (m_intr s K i t)
  then have "mrel {RUNNING} s t" using mf_mhandle by (auto dest: kframeD)
  then show ?case using m_intr by (auto simp: minv_config_def mrel_def)
next
  case (m_dispatch s K n level p t k)
  then have "rg minv minv (sch_loop n level p) (\<lambda>_. minv) s" by (simp add: minv_config_def rg_sch_loop)
  then show ?case using m_dispatch by (auto simp: minv_config_def rg_def)
next
  case (m_back s K)
  then show ?case by (auto simp: minv_config_def minv_def minvc_def)
next
  case (m_resume s K q k t)
  then have "mrun q s" by (simp add: minv_config_def mrun_def)
  then have "rg_res (mrun q) minv (\<lambda>_. mrun q) (k s)"
    using m_resume.IH m_resume.hyps(4) by (simp add: minv_config_def)
  then have "rg_res (mrun q) minv (\<lambda>_. mrun q) (Ret () t)" using m_resume.hyps(5) by simp
  then show ?case using m_resume.IH by (auto simp: minv_config_def mrun_def)
next
  case (m_resume_wait s K q k t k')
  then have "mrun q s" by (simp add: minv_config_def mrun_def)
  then have "rg_res (mrun q) minv (\<lambda>_. mrun q) (k s)"
    using m_resume_wait.IH m_resume_wait.hyps(4) by (simp add: minv_config_def)
  then have "rg_res (mrun q) minv (\<lambda>_. mrun q) (Wait t k')" using m_resume_wait.hyps(5) by simp
  then show ?case using m_resume_wait.IH by (auto simp: minv_config_def)
qed

section \<open>When the search never ends\<close>

text \<open>
  A runnable process with a better one before it sends the search back to the start of the
  table; if no process up to it may run, the search never gets past it.
\<close>

lemma sch_loop_turns_back:
  fixes s :: "'z mlfq_st_scheme"
  assumes inv: "minv s" and level: "level < MLFQ_K" and none: "\<forall>l < level. \<forall>q < NPROC. \<not> sch_runnable s l q"
    and j: "j < NPROC" "sch_runnable s level j" and i: "i < j" "sch_runnable s level i"
    and fall: "p_priority (procs s ! j) < p_priority (procs s ! i)"
    and nobest: "\<forall>q \<le> j. \<not> sch_best s level q"
  shows "p \<le> j \<Longrightarrow> sch_loop n level p s = Stuck s"
proof (induction n arbitrary: p)
  case (Suc n)
  have nh: "\<not> higher s level" using none higher_iff [OF inv, of level] level by auto
  have p: "p < NPROC" using Suc.prems j(1) by simp
  show ?case
  proof (cases "sch_runnable s level p")
    case False
    then have "p \<noteq> j" using j by auto
    with False show ?thesis using Suc p nh level by (simp add: kernel_simps sch_body_run)
  next
    case True
    have "sch_better s level p \<noteq> None"
      using sch_best_iff [OF inv level p nh True] nobest Suc.prems by auto
    then obtain b where b: "sch_better s level p = Some b" by blast
    have "b < j" if "p = j"
    proof -
      have "\<not> i < b"
        using b i j fall that by (auto simp: sch_better_def find_Some_iff split: if_splits)
      then show ?thesis using i by simp
    qed
    then have "Suc p \<le> j" if "\<not> b < p" using that Suc.prems by force
    then show ?thesis using Suc.IH b p nh True level by (auto simp: kernel_simps sch_body_run)
  qed
qed (simp add: kernel_simps)

section \<open>The timer, step by step\<close>

lemma degrade_run:
  assumes "lk_ok (lk s)" and "lock_free L_ptable (lk s)" and "cpu_proc s (me (lk s)) = Some p"
  shows "degrade s = kcont (degrade_proc p (s\<lparr>lk := lk_acq L_ptable (lk s)\<rparr>)) (\<lambda>_. release L_ptable)"
proof -
  have "me (lk_acq L_ptable (lk s)) = me (lk s)" by (simp add: lk_acq_def)
  then show ?thesis
    using assms by (simp add: degrade_def kernel_simps acquire_run myproc_run lock_simps)
qed

text \<open>A loop over the table that changes each process by \<open>f\<close>, and counters.\<close>

lemma table_prefix:
  assumes body: "\<And>p s. p < length (procs s) \<Longrightarrow> \<exists>ns. body p s = Ret () (s\<lparr>numproc := ns, procs := (procs s)[p := f (procs s ! p)]\<rparr>)"
  shows "n \<le> length (procs s) \<Longrightarrow> \<exists>ns. kfor [0..<n] body s
     = Ret () (s\<lparr>numproc := ns, procs := map f (take n (procs s)) @ drop n (procs s)\<rparr>)"
proof (induction n)
  case 0
  have "kfor [0..<0] body s = Ret () (s\<lparr>numproc := numproc s, procs := map f (take 0 (procs s)) @ drop 0 (procs s)\<rparr>)"
    by (simp add: kernel_simps)
  then show ?case ..
next
  case (Suc n)
  then obtain ns where ns: "kfor [0..<n] body s
      = Ret () (s\<lparr>numproc := ns, procs := map f (take n (procs s)) @ drop n (procs s)\<rparr>)" by auto
  let ?t = "s\<lparr>numproc := ns, procs := map f (take n (procs s)) @ drop n (procs s)\<rparr>"
  obtain ns' where b: "body n ?t = Ret () (?t\<lparr>numproc := ns', procs := (procs ?t)[n := f (procs ?t ! n)]\<rparr>)"
    using body [of n ?t] Suc.prems by auto
  have "(procs ?t)[n := f (procs ?t ! n)] = map f (take (Suc n) (procs s)) @ drop (Suc n) (procs s)"
    using Suc.prems by (simp add: nth_append list_update_append take_Suc_conv_app_nth Cons_nth_drop_Suc [symmetric])
  moreover have "kfor [0..<Suc n] body s = kcont (kfor [0..<n] body s) (\<lambda>_. body n)"
    by (simp add: kfor_append kernel_simps kthen_def kbind_def kret_def kcont_ret)
  ultimately show ?case using ns b by (auto simp: kernel_simps)
qed

text \<open>Such a loop inside a critical section.\<close>

lemma locked_table:
  fixes s :: "'z mlfq_st_scheme"
  assumes "lk_ok (lk s)" and "lock_free L_ptable (lk s)" and "length (procs s) = NPROC"
    and "\<And>p (s :: 'z mlfq_st_scheme). p < length (procs s) \<Longrightarrow> \<exists>ns. body p s = Ret () (s\<lparr>numproc := ns, procs := (procs s)[p := f (procs s ! p)]\<rparr>)"
  shows "\<exists>ns. kthen (acquire L_ptable) (kthen (kfor [0..<NPROC] body) (release L_ptable)) s
    = Ret () (s\<lparr>numproc := ns, procs := map f (procs s)\<rparr>)"
proof -
  let ?s = "s\<lparr>lk := lk_acq L_ptable (lk s)\<rparr>"
  obtain ns where ns: "kfor [0..<NPROC] body ?s = Ret () (?s\<lparr>numproc := ns, procs := map f (procs s)\<rparr>)"
    using table_prefix [of body f NPROC ?s, OF assms(4)] assms(3) by auto
  have "kthen (acquire L_ptable) (kthen (kfor [0..<NPROC] body) (release L_ptable)) s
      = release L_ptable (?s\<lparr>numproc := ns, procs := map f (procs s)\<rparr>)"
    using assms(1,2) ns by (simp add: kernel_simps acquire_run)
  also have "\<dots> = Ret () (?s\<lparr>numproc := ns, procs := map f (procs s), lk := lk s\<rparr>)"
    using assms(1,2) by (subst release_acq [of "lk s"]) simp_all
  also have "?s\<lparr>numproc := ns, procs := map f (procs s), lk := lk s\<rparr> = s\<lparr>numproc := ns, procs := map f (procs s)\<rparr>"
    by (rule mlfq_st.equality) simp_all
  finally show ?thesis by blast
qed

definition boosted :: "proc \<Rightarrow> proc" where
  "boosted x = (if p_state x = UNUSED then x else x\<lparr>p_level := 0, p_extime := 0\<rparr>)"

lemma boost_one_run:
  "\<exists>ns. boost_one p s = Ret () (s\<lparr>numproc := ns, procs := (procs s)[p := boosted (procs s ! p)]\<rparr>)"
proof (cases "p_state (procs s ! p) = UNUSED")
  case True
  then have "boost_one p s = Ret () (s\<lparr>numproc := numproc s, procs := (procs s)[p := boosted (procs s ! p)]\<rparr>)"
    by (simp add: boost_one_def kernel_simps boosted_def)
  then show ?thesis ..
next
  case False
  let ?l = "p_level (procs s ! p)"
  let ?ns = "if p_state (procs s ! p) = RUNNABLE then (numproc s)[?l := numproc s ! ?l - 1,
     0 := (numproc s)[?l := numproc s ! ?l - 1] ! 0 + 1] else numproc s"
  have "boost_one p s = Ret () (s\<lparr>numproc := ?ns, procs := (procs s)[p := boosted (procs s ! p)]\<rparr>)"
    using False by (simp add: boost_one_def kernel_simps boosted_def num_add_def)
  then show ?thesis ..
qed

lemma boost_run:
  assumes "lk_ok (lk s)" and "lock_free L_ptable (lk s)" and "length (procs s) = NPROC"
  shows "\<exists>ns. boost s = Ret () (s\<lparr>numproc := ns, procs := map boosted (procs s)\<rparr>)"
  unfolding boost_def by (rule locked_table [OF assms]) (rule boost_one_run)

definition roused :: "chan option \<Rightarrow> proc \<Rightarrow> proc" where
  "roused ch x = (if p_state x = SLEEPING \<and> p_chan x = ch then x\<lparr>p_state := RUNNABLE\<rparr> else x)"

lemma mlfq_wakeup_run:
  fixes s :: "'z mlfq_st_scheme"
  assumes "lk_ok (lk s)" and "lock_free L_ptable (lk s)" and "length (procs s) = NPROC"
  shows "\<exists>ns. mlfq_wakeup ch s = Ret () (s\<lparr>numproc := ns, procs := map (roused ch) (procs s)\<rparr>)"
  unfolding mlfq_wakeup_def mlfq_wakeup1_def
proof (rule locked_table [OF assms])
  fix p and s :: "'z mlfq_st_scheme"
  assume p: "p < length (procs s)"
  let ?body = "kbind (pfld p (\<lambda>x. p_state x = SLEEPING \<and> p_chan x = ch)) (\<lambda>b. kwhen b (make_runnable p))"
  let ?x = "procs s ! p"
  show "\<exists>ns. ?body s = Ret () (s\<lparr>numproc := ns, procs := (procs s)[p := roused ch ?x]\<rparr>)"
  proof (cases "p_state ?x = SLEEPING \<and> p_chan ?x = ch")
    case True
    then have r: "roused ch ?x = ?x\<lparr>p_state := RUNNABLE\<rparr>" by (simp add: roused_def)
    have "?body s = Ret () (s\<lparr>numproc := (numproc s)[p_level ?x := numproc s ! p_level ?x + 1], procs := (procs s)[p := ?x\<lparr>p_state := RUNNABLE\<rparr>]\<rparr>)"
      using True p by (simp add: kernel_simps make_runnable_def num_add_def pset_def)
    then show ?thesis unfolding r by blast
  next
    case False
    then have r: "roused ch ?x = ?x" unfolding roused_def by (rule if_not_P)
    have "?body s = Ret () (s\<lparr>numproc := numproc s, procs := procs s\<rparr>)"
      unfolding kbind_run kernel_run kcont.simps kwhen_run if_not_P [OF False] by simp
    then show ?thesis unfolding r list_update_id by blast
  qed
qed

text \<open>The charge for a tick.\<close>

definition charged :: "proc \<Rightarrow> proc" where
  "charged x = (if p_extime x + 1 < 4 * int (p_level x) + 2 then x\<lparr>p_extime := p_extime x + 1\<rparr>
     else if p_level x = MLFQ_K - 1 then x\<lparr>p_extime := -1\<rparr>
     else x\<lparr>p_extime := 0, p_level := p_level x + 1\<rparr>)"

definition charged_heads :: "proc \<Rightarrow> nat option list \<Rightarrow> nat option list" where
  "charged_heads x hs = (if p_extime x + 1 < 4 * int (p_level x) + 2 then hs else hs[p_level x := None])"

lemma degrade_result:
  fixes s :: "'z mlfq_st_scheme"
  assumes "lk_ok (lk s)" and "lock_free L_ptable (lk s)" and "cpu_proc s (me (lk s)) = Some p" and "p < length (procs s)"
    and "p_state (procs s ! p) \<noteq> RUNNABLE" and "heads s ! p_level (procs s ! p) = Some p"
  shows "degrade s = Ret () (s\<lparr>procs := (procs s)[p := charged (procs s ! p)], heads := charged_heads (procs s ! p) (heads s)\<rparr>)"
    (is "_ = Ret () ?t")
proof -
  let ?s = "s\<lparr>lk := lk_acq L_ptable (lk s)\<rparr>"
  have e: "degrade_proc p ?s = Ret () (?t\<lparr>lk := lk_acq L_ptable (lk s)\<rparr>)"
  proof -
    have d: "degrade_proc p ?s = Ret () (let x = procs s ! p; l = p_level x in
        if p_extime x + 1 < QT l then ?s\<lparr>procs := (procs s)[p := x\<lparr>p_extime := p_extime x + 1\<rparr>]\<rparr>
        else if l = MLFQ_K - 1 then ?s\<lparr>procs := (procs s)[p := x\<lparr>p_extime := -1\<rparr>], heads := (heads s)[l := None]\<rparr>
        else ?s\<lparr>procs := (procs s)[p := x\<lparr>p_extime := 0, p_level := l + 1\<rparr>], heads := (heads s)[l := None], numproc := numproc s\<rparr>)"
      using degrade_proc_run [of p ?s] assms(4-6) by (simp add: Let_def cong: if_cong)
    consider "p_extime (procs s ! p) + 1 < QT (p_level (procs s ! p))"
      | "\<not> p_extime (procs s ! p) + 1 < QT (p_level (procs s ! p))" "p_level (procs s ! p) = MLFQ_K - 1"
      | "\<not> p_extime (procs s ! p) + 1 < QT (p_level (procs s ! p))" "p_level (procs s ! p) \<noteq> MLFQ_K - 1" by blast
    then show ?thesis
      by cases (unfold d Let_def charged_def charged_heads_def QT_def [symmetric], simp_all)
  qed
  have "release L_ptable (?t\<lparr>lk := lk_acq L_ptable (lk s)\<rparr>) = Ret () (?t\<lparr>lk := lk_acq L_ptable (lk s), lk := lk s\<rparr>)"
    using assms(1,2) by (subst release_acq [of "lk s"]) simp_all
  also have "?t\<lparr>lk := lk_acq L_ptable (lk s), lk := lk s\<rparr> = ?t" by (rule mlfq_st.equality) simp_all
  finally show ?thesis using degrade_run [OF assms(1-3)] e by (simp add: kernel_simps)
qed

text \<open>
  A whole tick on the first processor. The interrupt gate has turned the interrupts off, and no \<^verbatim>\<open>pushcli\<close> is open.
\<close>

definition in_interrupt :: "lockst \<Rightarrow> bool" where
  "in_interrupt x \<longleftrightarrow> ncli (mycpu x) = 0 \<and> \<not> eflags_IF x \<and> lock_free L_ticks x \<and> lock_free L_ptable x"

definition counts :: "proc list \<Rightarrow> int list" where
  "counts ps = map (\<lambda>l. int (card {q. q < length ps \<and> p_state (ps ! q) = RUNNABLE \<and> p_level (ps ! q) = l})) [0..<MLFQ_K]"

lemma minv_counts:
  assumes "minv s"
  shows "numproc s = counts (procs s)"
proof (rule nth_equalityI)
  show "length (numproc s) = length (counts (procs s))" using assms by (simp add: minv_def minvc_def counts_def)
  fix i assume "i < length (numproc s)"
  then have i: "i < MLFQ_K" using assms by (simp add: minv_def minvc_def)
  then show "numproc s ! i = counts (procs s) ! i"
    using assms by (simp add: minv_def minvc_def counts_def nrun_def rn_def length_filter_conv_card)
qed

lemma tick_sync: "me (lk s) = 0 \<Longrightarrow> mlfq_tick s = mlfq_tick (s\<lparr>lk := lk_sync (lk s)\<rparr>)"
  by (simp add: mlfq_tick_def kernel_simps acquire_sync) (simp add: lk_sync_def)

lemma tick_run:
  fixes s :: "'z mlfq_st_scheme"
  assumes "lk_ok (lk s)" and "lock_free L_ticks (lk s)" and "lock_free L_ptable (lk s)" and "me (lk s) = 0"
    and "length (procs s) = NPROC" and "cpu_proc s 0 = Some p" and "p < NPROC"
    and "p_state (procs s ! p) = RUNNING" and "heads s ! p_level (procs s ! p) = Some p"
  shows "\<exists>ns. mlfq_tick s = Ret () (s\<lparr>ticks := ticks s + 1, heads := charged_heads (procs s ! p) (heads s), numproc := ns,
      procs := map (roused (Some C_ticks)) ((if (ticks s + 1) mod 100 = 0 then map boosted else id)
        ((procs s)[p := charged (procs s ! p)]))\<rparr>)"
proof -
  let ?x = "procs s ! p" and ?l = "lk_acq L_ticks (lk s)"
  let ?s1 = "s\<lparr>lk := ?l, ticks := ticks s + 1\<rparr>"
  let ?s2 = "?s1\<lparr>procs := (procs s)[p := charged ?x], heads := charged_heads ?x (heads s)\<rparr>"
  have ok: "lk_ok ?l" "lock_free L_ptable ?l" "me ?l = 0" using assms(1,3,4) by (simp_all add: lock_simps)
  have d: "degrade ?s1 = Ret () ?s2" using degrade_result [of ?s1 p] ok assms(5-9) by simp
  obtain ns where b: "kwhen ((ticks s + 1) mod 100 = 0) boost ?s2 = Ret () (?s2\<lparr>numproc := ns,
      procs := (if (ticks s + 1) mod 100 = 0 then map boosted else id) (procs ?s2)\<rparr>)"
  proof (cases "(ticks s + 1) mod 100 = 0")
    case True
    then show ?thesis using that boost_run [of ?s2] ok assms(5) by (auto simp: kwhen_run)
  next
    case False
    have "?s2 = ?s2\<lparr>numproc := numproc ?s2, procs := id (procs ?s2)\<rparr>" by simp
    then show ?thesis using that [of "numproc ?s2"] False by (simp add: kwhen_run)
  qed
  let ?ps = "(if (ticks s + 1) mod 100 = 0 then map boosted else id) ((procs s)[p := charged ?x])"
  let ?s3 = "?s2\<lparr>numproc := ns, procs := ?ps\<rparr>"
  have len: "length (procs ?s3) = NPROC" using assms(5) by simp
  obtain ns' where w: "mlfq_wakeup (Some C_ticks) ?s3 = Ret () (?s3\<lparr>numproc := ns', procs := map (roused (Some C_ticks)) ?ps\<rparr>)"
    using mlfq_wakeup_run [of ?s3 "Some C_ticks"] ok len by auto
  let ?s4 = "?s3\<lparr>numproc := ns', procs := map (roused (Some C_ticks)) ?ps\<rparr>"
  have r: "release L_ticks ?s4 = Ret () (?s4\<lparr>lk := lk s\<rparr>)" using assms(1,2) by (subst release_acq [of "lk s"]) simp_all
  have a: "acquire L_ticks s = Ret () (s\<lparr>lk := ?l\<rparr>)" by (rule acquire_run [OF assms(1,2)])
  have t: "mlfq_tick s = Ret () (?s4\<lparr>lk := lk s\<rparr>)"
    unfolding mlfq_tick_def using a d b w r assms(4) by (simp add: kbind_run kthen_run kernel_run kwhen_run)
  have e: "?s4\<lparr>lk := lk s\<rparr> = s\<lparr>ticks := ticks s + 1, heads := charged_heads ?x (heads s), numproc := ns', procs := map (roused (Some C_ticks)) ?ps\<rparr>"
    by (rule mlfq_st.equality) simp_all
  show ?thesis using t unfolding e by (rule exI)
qed

text \<open>A tick as an interrupt finds the machine, with the counters that the invariant gives.\<close>

lemma tick_state:
  fixes s :: "'z mlfq_st_scheme"
  assumes "minv s" and "in_interrupt (lk s)" and "me (lk s) = 0" and "cpu_proc s 0 = Some p"
    and "p_state (procs s ! p) = RUNNING" and "heads s ! p_level (procs s ! p) = Some p"
  shows "mlfq_tick s = Ret () (let ps = map (roused (Some C_ticks)) ((if (ticks s + 1) mod 100 = 0 then map boosted else id)
        ((procs s)[p := charged (procs s ! p)]))
     in s\<lparr>lk := lk_sync (lk s), ticks := ticks s + 1, procs := ps, numproc := counts ps, heads := charged_heads (procs s ! p) (heads s)\<rparr>)"
proof -
  let ?s = "s\<lparr>lk := lk_sync (lk s)\<rparr>"
  let ?ps = "map (roused (Some C_ticks)) ((if (ticks s + 1) mod 100 = 0 then map boosted else id) ((procs s)[p := charged (procs s ! p)]))"
  note y = lk_sync_ok [of "lk s"]
  have p: "p < NPROC" "length (procs s) = NPROC" using minv_cur [OF assms(1,4)] minv_procs(1) [OF assms(1)] by simp_all
  obtain ns where t: "mlfq_tick ?s = Ret () (?s\<lparr>ticks := ticks ?s + 1, heads := charged_heads (procs ?s ! p) (heads ?s), numproc := ns, procs := ?ps\<rparr>)"
    using tick_run [of ?s p] y assms(2-6) p by (auto simp: in_interrupt_def)
  let ?t = "?s\<lparr>ticks := ticks ?s + 1, heads := charged_heads (procs ?s ! p) (heads ?s), numproc := ns, procs := ?ps\<rparr>"
  have "minv ?s" using assms(1) by (simp add: minv_def)
  moreover have "mrel {RUNNING} ?s ?t" by (rule kframeD [OF mf_tick t]) simp
  ultimately have "minv ?t" by (simp only: mrel_def)
  then have "ns = counts ?ps" using minv_counts [of ?t] by simp
  then show ?thesis using tick_sync [OF assms(3)] t by (simp add: Let_def)
qed

section \<open>Properties\<close>

text \<open>Example tables: runnable processes of the given priorities at level 0.\<close>

definition idle_proc :: proc where
  "idle_proc = \<lparr>p_sz = 0, p_pgdir = 0, p_kstack = 0, p_state = UNUSED, p_pid = 0, p_parent = None, p_tf = 0,
     p_context = 0, p_chan = None, p_killed = False, p_ofile = replicate NOFILE None, p_cwd = None,
     p_name = replicate 16 0, p_tid = 0, p_main = None, p_retval = 0, p_sbase = 0, p_priority = 0,
     p_level = 0, p_extime = 0\<rparr>"

definition ready_proc :: "int \<Rightarrow> proc" where
  "ready_proc pr = idle_proc\<lparr>p_state := RUNNABLE, p_kstack := 0x80400000, p_pgdir := 0x80401000, p_priority := pr\<rparr>"

definition mlfq_ex :: "int list \<Rightarrow> mlfq_st" where
  "mlfq_ex prs = \<lparr>lk = boot_lk, mem = (\<lambda>_. 0), freelist = 0, use_lock = True, kend = 0x80100000, kdata = 0,
     kpgdir = 0, cr3 = 0, procs = map ready_proc prs @ replicate (NPROC - length prs) idle_proc, initproc = None,
     nextpid = 1, cpu_proc = (\<lambda>_. None), ts_esp0 = (\<lambda>_. 0), ticks = 0, sym_forkret = 0, sym_trapret = 0,
     heads = [None, None, None], numproc = [int (length prs), 0, 0]\<rparr>"

lemma mlfq_ex_procs:
  assumes "length prs \<le> NPROC"
  shows "length (procs (mlfq_ex prs)) = NPROC"
    and "p < NPROC \<Longrightarrow> procs (mlfq_ex prs) ! p = (if p < length prs then ready_proc (prs ! p) else idle_proc)"
  using assms by (auto simp: mlfq_ex_def nth_append)

lemma mlfq_ex_runnable:
  assumes "length prs \<le> NPROC" and "p < NPROC"
  shows "sch_runnable (mlfq_ex prs) l p \<longleftrightarrow> l = 0 \<and> p < length prs"
  using mlfq_ex_procs [OF assms(1)] assms(2) by (auto simp: sch_runnable_def ready_proc_def idle_proc_def)

lemma mlfq_ex_inv:
  assumes "length prs \<le> NPROC"
  shows "minv (mlfq_ex prs)"
proof -
  have "nrun (map ready_proc prs @ replicate n idle_proc) l = (if l = 0 then length prs else 0)" for n l
    by (auto simp: nrun_def rn_def ready_proc_def idle_proc_def filter_map o_def filter_replicate)
  moreover have "[a, 0, 0] ! l = (if l = 0 then a else 0)" if "l < 3" for a :: int and l :: nat
    using that by (auto simp: less_Suc_eq numeral_3_eq_3)
  ultimately show ?thesis
    using assms by (auto simp: minv_def minvc_def mlfq_ex_def MLFQ_K_def ready_proc_def idle_proc_def)
qed

lemma mlfq_ex_ready: "length prs \<le> NPROC \<Longrightarrow> runnable_ready (mlfq_ex prs)"
  using mlfq_ex_procs [of prs] quietD(1) [OF boot_quiet]
  by (auto simp: runnable_ready_def ready_proc_def idle_proc_def) (simp add: mlfq_ex_def)

lemma mlfq_ex_best:
  assumes "length prs \<le> NPROC" and "p < length prs"
  shows "sch_best (mlfq_ex prs) 0 p \<longleftrightarrow> (\<forall>q < length prs. prs ! q \<le> prs ! p)"
  using assms mlfq_ex_procs [OF assms(1)] mlfq_ex_runnable [OF assms(1)]
  by (auto simp: sch_best_def ready_proc_def)

text \<open>
  C1. In every configuration that the processes' system calls, the timer and wake-up
  interrupts and the scheduler can reach, in any interleaving and on any number of processors,
  \<^verbatim>\<open>ptable.numproc[l]\<close> is the number of runnable processes at level \<open>l\<close>.
\<close>

theorem mlfq_counters:
  assumes "flayer_ok F" and "mreach F (s, K)" and "l < MLFQ_K"
  shows "numproc s ! l = int (card {p. p < NPROC \<and> sch_runnable s l p})"
proof -
  have inv: "minv s" using mreach_inv [OF assms(1,2)] by (simp add: minv_config_def)
  have "nrun (procs s) l = card {p. p < NPROC \<and> sch_runnable s l p}"
    using minv_procs(1) [OF inv] by (simp add: nrun_def sch_runnable_def rn_def length_filter_conv_card)
  then show ?thesis using inv assms(3) by (simp add: minv_def minvc_def)
qed

text \<open>A file layer that takes its locks, waits for the log and wakes the others up.\<close>

definition sleepy_layer :: flayer where
  "sleepy_layer = \<lparr>
     fl_filedup = (\<lambda>f. kthen (acquire L_ftable) (kthen (release L_ftable) (kret f))),
     fl_idup = (\<lambda>c. kthen (acquire L_icache) (kthen (release L_icache) (kret c))),
     fl_fileclose = (\<lambda>_. kthen (acquire L_ftable) (release L_ftable)),
     fl_begin_op = kthen (acquire L_log) (kthen (mlfq_sleep (Some C_log) (Some L_log)) (release L_log)),
     fl_iput = (\<lambda>_. kthen (acquire L_icache) (release L_icache)),
     fl_end_op = kthen (acquire L_log) (kthen (mlfq_wakeup (Some C_log)) (release L_log))\<rparr>"

lemma sleepy_layer_ok: "flayer_ok sleepy_layer"
proof -
  have "keeps q (kthen (acquire l) (release l) :: (mlfq_st, unit) kernel)"
      "keeps q (kthen (acquire l) (kthen (mlfq_sleep ch (Some l)) (release l)) :: (mlfq_st, unit) kernel)"
      "keeps q (kthen (acquire l) (kthen (mlfq_wakeup ch) (release l)) :: (mlfq_st, unit) kernel)" for q l ch
    by (rule keeps_then keeps_locks keeps_sleep keeps_frame [OF mf_wakeup] | simp)+
  moreover have "kframe (mrel K) (kthen (acquire l) (kthen (release l) (kret a)) :: (mlfq_st, nat) kernel)"
      "kframe (mrel K) (kthen (acquire l) (kthen (release l) (kret c)) :: (mlfq_st, nat option) kernel)" for K l a c
    by (intro mf.fr_intros mf_locks)+
  ultimately show ?thesis by (simp add: flayer_ok_def sleepy_layer_def)
qed

theorem mlfq_counters_witness:
  "\<exists>s K. mreach sleepy_layer (s, K) \<and> (\<forall>l < MLFQ_K. numproc s ! l = int (card {p. p < NPROC \<and> sch_runnable s l p}))"
proof -
  let ?s = "(mlfq_ex [])\<lparr>numproc := [7, 8, 9]\<rparr>"
  have init: "length (procs ?s) = NPROC" "length (heads ?s) = MLFQ_K" "length (numproc ?s) = MLFQ_K"
    "\<forall>x \<in> set (procs ?s). p_state x = UNUSED \<and> p_level x = 0"
    by (auto simp: mlfq_ex_def MLFQ_K_def idle_proc_def)
  obtain x where run: "mlfq_pinit ?s = Ret () (?s\<lparr>heads := replicate MLFQ_K None, numproc := replicate MLFQ_K 0, lk := x\<rparr>)"
    using pinit_run [OF init(2,3)] by auto
  let ?t = "?s\<lparr>heads := replicate MLFQ_K None, numproc := replicate MLFQ_K 0, lk := x\<rparr>"
  have "mreach sleepy_layer (?t, \<lambda>_. None)"
    by (rule m_init [OF init run]) (simp add: mlfq_ex_def)
  with mlfq_counters [OF sleepy_layer_ok this] show ?thesis by blast
qed

text \<open>
  C2. From whatever position of its loops the search of the scheduler hands the processor over, it has chosen a
  runnable process of the highest level that has one, with the greatest priority of that level. The state it hands over is
  the table with this process running and no other change, and when the processor comes back it goes on with the same search
  behind that process, so this holds for every hand-over. The execution time has no part in the choice.
\<close>

theorem mlfq_dispatch_best:
  fixes s :: "'z mlfq_st_scheme"
  assumes "minv s" and "runnable_ready s" and "sch_loop n level p s = Wait t k"
  shows "\<exists>l q m. sch_best s l q \<and> t = dispatched s q \<and> k = (\<lambda>u. sch_loop m l (q + 1) (came_back u))"
  using assms by (rule sch_loop_best)

theorem mlfq_dispatch_best_witness:
  "\<exists>n k. sch_loop n 0 0 (mlfq_ex [4, 9]) = Wait (dispatched (mlfq_ex [4, 9]) 1) k
     \<and> (\<exists>l q m. sch_best (mlfq_ex [4, 9]) l q \<and> dispatched (mlfq_ex [4, 9]) 1 = dispatched (mlfq_ex [4, 9]) q
        \<and> k = (\<lambda>u. sch_loop m l (q + 1) (came_back u)))"
proof -
  have len: "length [4, 9 :: int] \<le> NPROC" by (simp add: NPROC_def)
  have "\<exists>k. sch_loop (0 * Suc NPROC + (1 + Suc 0)) 0 0 (mlfq_ex [4, 9]) = Wait (dispatched (mlfq_ex [4, 9]) 1) k"
    by (rule sch_loop_reaches [OF mlfq_ex_inv [OF len] mlfq_ex_ready [OF len]])
       (auto simp: MLFQ_K_def mlfq_ex_best [OF len] less_Suc_eq)
  then obtain k where k: "sch_loop (0 * Suc NPROC + (1 + Suc 0)) 0 0 (mlfq_ex [4, 9]) = Wait (dispatched (mlfq_ex [4, 9]) 1) k" ..
  from mlfq_dispatch_best [OF mlfq_ex_inv [OF len] mlfq_ex_ready [OF len] k] k show ?thesis by blast
qed

text \<open>
  C24. If some process is runnable, \<open>p\<close> is the first one the policy allows and the priorities
  of the runnable processes of its level do not fall before it, the search reaches and dispatches
  \<open>p\<close>: one sweep for every empty level above and the \<open>p + 1\<close> first table slots are enough. As everywhere in the search,
  a process of the lowest level that has used up its time (execution time -1) counts as runnable.
\<close>

theorem mlfq_search_ends:
  fixes s :: "'z mlfq_st_scheme"
  assumes "minv s" and "runnable_ready s" and "level < MLFQ_K" and "sch_best s level p"
    and "\<forall>q < p. \<not> sch_best s level q"
    and "\<forall>i j. i < j \<and> j < p \<and> sch_runnable s level i \<and> sch_runnable s level j \<longrightarrow>
        p_priority (procs s ! i) \<le> p_priority (procs s ! j)"
  shows "\<exists>k. sch_loop (level * (NPROC + 1) + p + 1 + n) 0 0 s = Wait (dispatched s p) k"
  using sch_loop_reaches [OF assms, of n] by (simp add: algebra_simps)

theorem mlfq_search_ends_witness:
  "\<exists>k. sch_loop (0 * (NPROC + 1) + 2 + 1 + 0) 0 0 (mlfq_ex [1, 5, 9]) = Wait (dispatched (mlfq_ex [1, 5, 9]) 2) k"
proof -
  have len: "length [1, 5, 9 :: int] \<le> NPROC" by (simp add: NPROC_def)
  have "sch_best (mlfq_ex [1, 5, 9]) 0 2" by (simp add: mlfq_ex_best [OF len] less_Suc_eq numeral_3_eq_3)
  moreover have "\<forall>q < 2. \<not> sch_best (mlfq_ex [1, 5, 9]) 0 q"
    using mlfq_ex_best [OF len] by (auto simp: less_2_cases_iff)
  moreover have "\<forall>i j. i < j \<and> j < 2 \<and> sch_runnable (mlfq_ex [1, 5, 9]) 0 i \<and> sch_runnable (mlfq_ex [1, 5, 9]) 0 j \<longrightarrow>
      p_priority (procs (mlfq_ex [1, 5, 9]) ! i) \<le> p_priority (procs (mlfq_ex [1, 5, 9]) ! j)"
    using mlfq_ex_procs [OF len] by (auto simp: less_2_cases_iff NPROC_def ready_proc_def)
  moreover have "0 < MLFQ_K" by (simp add: MLFQ_K_def)
  ultimately show ?thesis
    by (intro mlfq_search_ends [OF mlfq_ex_inv [OF len] mlfq_ex_ready [OF len]])
qed

text \<open>
  C26. \<^verbatim>\<open>degrade\<close> gives a process that has used up its time on the lowest level the execution time -1 and says
  that it will not be scheduled until boosting, but the search of the scheduler does not look at the execution time: when no
  other process is runnable, the exhausted process is dispatched again without a boost.
\<close>

theorem mlfq_exhausted_runs:
  fixes s :: "'z mlfq_st_scheme"
  assumes "minv s" and "runnable_ready s" and "p < NPROC" and "p_state (procs s ! p) = RUNNABLE"
    and "p_level (procs s ! p) = MLFQ_K - 1" and "p_extime (procs s ! p) = -1"
    and "\<forall>q < NPROC. q \<noteq> p \<longrightarrow> p_state (procs s ! q) \<noteq> RUNNABLE"
  shows "\<exists>k. sch_loop ((MLFQ_K - 1) * (NPROC + 1) + p + 1 + n) 0 0 s = Wait (dispatched s p) k"
proof -
  have r: "sch_runnable s l q \<longleftrightarrow> q = p \<and> l = MLFQ_K - 1" if "q < NPROC" for l q
    using assms(4,5,7) that by (auto simp: sch_runnable_def)
  have best: "sch_best s (MLFQ_K - 1) q \<longleftrightarrow> q = p" for q using r assms(3) by (auto simp: sch_best_def)
  have "\<exists>k. sch_loop ((MLFQ_K - 1) * Suc NPROC + (p + Suc n)) 0 0 s = Wait (dispatched s p) k"
  proof (rule sch_loop_reaches [OF assms(1,2)])
    show "MLFQ_K - 1 < MLFQ_K" by (simp add: MLFQ_K_def)
    show "sch_best s (MLFQ_K - 1) p" "\<forall>q < p. \<not> sch_best s (MLFQ_K - 1) q" using best by auto
    show "\<forall>i j. i < j \<and> j < p \<and> sch_runnable s (MLFQ_K - 1) i \<and> sch_runnable s (MLFQ_K - 1) j \<longrightarrow>
        p_priority (procs s ! i) \<le> p_priority (procs s ! j)" using r assms(3) by auto
  qed
  then show ?thesis by (simp add: algebra_simps)
qed

text \<open>A table with one process, which has used up its time on the lowest level.\<close>

definition exhausted_ex :: mlfq_st where
  "exhausted_ex = (mlfq_ex [])\<lparr>procs := (ready_proc 0)\<lparr>p_level := 2, p_extime := -1\<rparr> # replicate 63 idle_proc, numproc := [0, 0, 1]\<rparr>"

theorem mlfq_exhausted_runs_witness:
  "\<exists>k. sch_loop 131 0 0 exhausted_ex = Wait (dispatched exhausted_ex 0) k"
proof -
  have p: "procs exhausted_ex ! q = (if q = 0 then (ready_proc 0)\<lparr>p_level := 2, p_extime := -1\<rparr> else idle_proc)" if "q < NPROC" for q
    using that by (cases q) (simp_all add: exhausted_ex_def NPROC_def)
  have "nrun (procs exhausted_ex) l = of_bool (l = 2)" for l
    by (simp add: exhausted_ex_def nrun_def rn_def ready_proc_def idle_proc_def filter_replicate)
  then have i: "minv exhausted_ex"
    by (auto simp: minv_def minvc_def exhausted_ex_def mlfq_ex_def MLFQ_K_def NPROC_def ready_proc_def idle_proc_def
        less_Suc_eq numeral_3_eq_3 numeral_2_eq_2)
  have r: "runnable_ready exhausted_ex"
    using p quietD(1) [OF boot_quiet] by (auto simp: runnable_ready_def ready_proc_def idle_proc_def) (simp add: exhausted_ex_def mlfq_ex_def)
  show ?thesis using mlfq_exhausted_runs [OF i r, of 0 0] p by (simp add: NPROC_def MLFQ_K_def ready_proc_def idle_proc_def)
qed

text \<open>
  C25. If a runnable process \<open>j\<close> of the level to be served has a lower priority than one
  before it, and none of the processes up to \<open>j\<close> has the greatest priority, the search never
  ends: with any number of iterations it neither dispatches a process nor leaves the loop, and
  the table lock stays held.
\<close>

theorem mlfq_search_livelock:
  fixes s :: "'z mlfq_st_scheme"
  assumes "minv s" and "sch_runnable s 0 i" and "sch_runnable s 0 j" and "i < j" and "j < NPROC"
    and "p_priority (procs s ! j) < p_priority (procs s ! i)"
    and "\<forall>q \<le> j. \<not> sch_best s 0 q"
  shows "sch_loop n 0 0 s = Stuck s"
  by (rule sch_loop_turns_back [of s 0 j i]) (use assms in \<open>auto simp: MLFQ_K_def\<close>)

theorem mlfq_search_livelock_witness: "\<forall>n. sch_loop n 0 0 (mlfq_ex [2, 1, 3]) = Stuck (mlfq_ex [2, 1, 3])"
proof
  fix n
  have len: "length [2, 1, 3 :: int] \<le> NPROC" by (simp add: NPROC_def)
  have nb: "\<forall>q \<le> 1. \<not> sch_best (mlfq_ex [2, 1, 3]) 0 q"
    using mlfq_ex_best [OF len] by (auto simp: le_Suc_eq)
  show "sch_loop n 0 0 (mlfq_ex [2, 1, 3]) = Stuck (mlfq_ex [2, 1, 3])"
    using mlfq_search_livelock [OF mlfq_ex_inv [OF len], of 0 1] nb mlfq_ex_procs [OF len] mlfq_ex_runnable [OF len]
    by (simp add: NPROC_def ready_proc_def)
qed

text \<open>
  C27. At a timer interrupt on the first processor, whose process was dispatched last at its level, \<^verbatim>\<open>ticks\<close> goes up
  by one and the process is charged one tick; when its quantum of \<^verbatim>\<open>4 * level + 2\<close> ticks is used up it moves down one level
  with a fresh quantum, or, at the lowest level, gets the execution time -1, and in both cases it is no longer the last one
  dispatched there. The processes that sleep on \<^verbatim>\<open>ticks\<close> become runnable and are counted; the locks are given back and
  nothing else changes. This is every tick but each hundredth one.
\<close>

theorem tick_charges:
  fixes s :: "'z mlfq_st_scheme"
  assumes "minv s" and "in_interrupt (lk s)" and "me (lk s) = 0" and "cpu_proc s 0 = Some p"
    and "p_state (procs s ! p) = RUNNING" and "heads s ! p_level (procs s ! p) = Some p" and "(ticks s + 1) mod 100 \<noteq> 0"
  shows "mlfq_tick s = Ret () (let x = procs s ! p;
       y = (if p_extime x + 1 < 4 * int (p_level x) + 2 then x\<lparr>p_extime := p_extime x + 1\<rparr>
            else if p_level x = MLFQ_K - 1 then x\<lparr>p_extime := -1\<rparr>
            else x\<lparr>p_extime := 0, p_level := p_level x + 1\<rparr>);
       ps = map (\<lambda>z. if p_state z = SLEEPING \<and> p_chan z = Some C_ticks then z\<lparr>p_state := RUNNABLE\<rparr> else z) ((procs s)[p := y])
     in s\<lparr>lk := lk_sync (lk s), ticks := ticks s + 1, procs := ps, numproc := counts ps,
          heads := (if p_extime x + 1 < 4 * int (p_level x) + 2 then heads s else (heads s)[p_level x := None])\<rparr>)"
  using tick_state [OF assms(1-6)] assms(7)
  by (simp add: Let_def charged_def charged_heads_def roused_def [abs_def] cong: if_cong)

text \<open>The first process of an example table running at level \<open>l\<close> with \<open>e\<close> ticks used.\<close>

definition running_ex :: "nat \<Rightarrow> int \<Rightarrow> mlfq_st" where
  "running_ex l e = (mlfq_ex [])\<lparr>procs := (ready_proc 0)\<lparr>p_state := RUNNING, p_level := l, p_extime := e\<rparr>
        # replicate 63 idle_proc,
     cpu_proc := (\<lambda>_. Some 0), heads := [None, None, None][l := Some 0]\<rparr>"

text \<open>The same as an interrupt finds it, after \<open>t\<close> ticks.\<close>

definition interrupted_ex :: "nat \<Rightarrow> int \<Rightarrow> u32 \<Rightarrow> mlfq_st" where
  "interrupted_ex l e t = (running_ex l e)\<lparr>lk := boot_lk\<lparr>eflags_IF := False\<rparr>, ticks := t\<rparr>"

lemma interrupted_ex_ok:
  assumes "l < MLFQ_K"
  shows "minv (interrupted_ex l e t)" "in_interrupt (lk (interrupted_ex l e t))" "me (lk (interrupted_ex l e t)) = 0"
    "cpu_proc (interrupted_ex l e t) 0 = Some 0" "p_state (procs (interrupted_ex l e t) ! 0) = RUNNING"
    "heads (interrupted_ex l e t) ! p_level (procs (interrupted_ex l e t) ! 0) = Some 0"
proof -
  have "nrun (procs (interrupted_ex l e t)) i = 0" for i
    by (simp add: interrupted_ex_def running_ex_def nrun_def rn_def ready_proc_def idle_proc_def filter_replicate)
  then show "minv (interrupted_ex l e t)"
    using assms by (auto simp: minv_def minvc_def interrupted_ex_def running_ex_def mlfq_ex_def MLFQ_K_def NPROC_def ready_proc_def
        idle_proc_def less_Suc_eq numeral_3_eq_3 numeral_2_eq_2)
qed (use assms in \<open>auto simp: interrupted_ex_def running_ex_def mlfq_ex_def ready_proc_def in_interrupt_def boot_lk_def mycpu_def
    lock_free_def MLFQ_K_def less_Suc_eq numeral_3_eq_3\<close>)

theorem tick_charges_witness:
  "mlfq_tick (interrupted_ex 0 1 41) = Ret () ((interrupted_ex 0 1 41)\<lparr>lk := lk_sync (lk (interrupted_ex 0 1 41)), ticks := 42,
      procs := (ready_proc 0)\<lparr>p_state := RUNNING, p_level := 1, p_extime := 0\<rparr> # replicate 63 idle_proc,
      numproc := counts ((ready_proc 0)\<lparr>p_state := RUNNING, p_level := 1, p_extime := 0\<rparr> # replicate 63 idle_proc),
      heads := [None, None, None]\<rparr>)"
  using tick_charges [OF interrupted_ex_ok, of 0 1 41]
  by (simp add: interrupted_ex_def running_ex_def mlfq_ex_def ready_proc_def idle_proc_def MLFQ_K_def Let_def)



text \<open>
  C29. \<^verbatim>\<open>rst\<close>, called at the start of the system calls yield and sleep, moves the running
  process to level 0 without making it the head of that level: if it is not that already, a timer interrupt before the
  process has given up the processor panics in \<^verbatim>\<open>degrade\<close>, which on the first processor the whole tick does.
\<close>

theorem rst_then_tick_panics:
  fixes s :: "'z mlfq_st_scheme"
  assumes "quiet (lk s)" and "cpu_proc s (me (lk s)) = Some p" and "p < length (procs s)"
    and "p_state (procs s ! p) = RUNNING" and "heads s ! 0 \<noteq> Some p"
  shows "kthen rst degrade s = Panic ''degrade''
    \<and> (me (lk s) = 0 \<and> ncli (mycpu (lk s)) = 0 \<longrightarrow>
       kthen rst (kthen (kmod (\<lambda>s. s\<lparr>lk := (lk s)\<lparr>eflags_IF := False\<rparr>\<rparr>)) mlfq_tick) s = Panic ''degrade'')"
proof -
  let ?t = "s\<lparr>procs := (procs s)[p := (procs s ! p)\<lparr>p_level := 0, p_extime := 0\<rparr>]\<rparr>"
  have me: "me (lk_acq L_ptable (lk s)) = me (lk s)" by (simp add: lk_acq_def)
  have "rst s = release L_ptable (s\<lparr>lk := lk_acq L_ptable (lk s), procs := procs ?t\<rparr>)"
    using assms me
    by (simp add: rst_def kernel_simps acquire_quiet with_myproc_run lock_simps)
  also have "\<dots> = Ret () (s\<lparr>lk := lk_acq L_ptable (lk s), procs := procs ?t, lk := lk s\<rparr>)"
    using assms(1) by (subst release_acq [of "lk s"]) (simp_all add: lock_simps)
  also have "s\<lparr>lk := lk_acq L_ptable (lk s), procs := procs ?t, lk := lk s\<rparr> = ?t"
    by (rule mlfq_st.equality) simp_all
  finally have r: "rst s = Ret () ?t" .
  have d: "degrade u = Panic ''degrade''" if "lk_ok (lk u)" "lock_free L_ptable (lk u)" "me (lk u) = me (lk s)"
      "procs u = procs ?t" "heads u = heads s" "cpu_proc u = cpu_proc s" for u :: "'z mlfq_st_scheme"
    using degrade_run [OF that(1,2)] that assms degrade_proc_panic [of p "u\<lparr>lk := lk_acq L_ptable (lk u)\<rparr>"] by (simp add: kernel_simps)
  have "mlfq_tick (?t\<lparr>lk := (lk s)\<lparr>eflags_IF := False\<rparr>\<rparr>) = Panic ''degrade''" if c: "me (lk s) = 0" "ncli (mycpu (lk s)) = 0"
  proof -
    let ?l = "lk_sync ((lk s)\<lparr>eflags_IF := False\<rparr>)"
    have l: "lk_ok ?l" "lock_free k ?l" "me ?l = 0" for k
      using lk_sync_ok [of "(lk s)\<lparr>eflags_IF := False\<rparr>"] c assms(1) by (auto simp: quiet_def lock_free_def)
    have "degrade (?t\<lparr>lk := lk_acq L_ticks ?l, ticks := ticks s + 1\<rparr>) = Panic ''degrade''"
      by (rule d) (use l c in \<open>simp_all add: lock_simps\<close>)
    then show ?thesis
      using l c by (subst tick_sync) (simp_all add: mlfq_tick_def kernel_simps acquire_run)
  qed
  moreover have "degrade ?t = Panic ''degrade''" by (rule d) (use assms(1) in \<open>simp_all add: lock_simps\<close>)
  ultimately show ?thesis using r by (auto simp: kernel_simps)
qed

theorem rst_then_tick_panics_witness:
  "kthen rst degrade (running_ex 1 0) = Panic ''degrade''
   \<and> kthen rst (kthen (kmod (\<lambda>s. s\<lparr>lk := (lk s)\<lparr>eflags_IF := False\<rparr>\<rparr>)) mlfq_tick) (running_ex 1 0) = Panic ''degrade''"
  using rst_then_tick_panics [of "running_ex 1 0" 0]
  by (simp add: running_ex_def mlfq_ex_def ready_proc_def boot_quiet) (simp add: boot_lk_def mycpu_def)

end
