(* ===== verification/Multilevel.thy ===== *)
theory Multilevel
  imports Ptable
begin

text \<open>
  The multi-level scheduler (\<^verbatim>\<open>proc_multiLevel.c\<close>): processes with an even pid run round-robin, and only
  when none of them is runnable do the processes with an odd pid run, first come first served by
  pid. The rest of the file is the code of \<^verbatim>\<open>proc.c\<close> without threads and is not repeated.
\<close>

section \<open>The scheduler\<close>

definition ml_even_pass :: "nat list \<Rightarrow> ('z ptable_st_scheme, unit) kernel" where
  "ml_even_pass ps =
     kfor ps (\<lambda>p.
       kbind (pfld p (\<lambda>x. p_pid x mod 2 \<noteq> 0 \<or> p_state x \<noteq> RUNNABLE)) (\<lambda>skip.
       kwhen (\<not> skip) (rr_dispatch p)))"

text \<open>The scan for the smallest odd pid; it stops at a runnable process with an even pid.\<close>

datatype ml_result = Goto_even | Pick "nat option"

primrec ml_scan :: "proc list \<Rightarrow> nat list \<Rightarrow> int \<Rightarrow> nat option \<Rightarrow> ml_result" where
  "ml_scan ps [] tmp p = Pick p"
| "ml_scan ps (i # is) tmp p =
     (if p_state (ps ! i) \<noteq> RUNNABLE then ml_scan ps is tmp p
      else if p_pid (ps ! i) mod 2 \<noteq> 0 then
        (if tmp = 0 \<or> tmp > p_pid (ps ! i) then ml_scan ps is (p_pid (ps ! i)) (Some i)
         else ml_scan ps is tmp p)
      else Goto_even)"

text \<open>The two loops: \<open>ev\<close> at the label \<^verbatim>\<open>even\<close>, else at the head of the second; \<open>n\<close> bounds their rounds.\<close>

primrec ml_loop :: "nat \<Rightarrow> bool \<Rightarrow> ('z ptable_st_scheme, unit) kernel" where
  "ml_loop 0 ev = kstuck"
| "ml_loop (Suc n) ev =
     (if ev then kthen (ml_even_pass [0..<NPROC]) (ml_loop n False)
      else kbind (kget (\<lambda>s. ml_scan (procs s) [0..<NPROC] 0 None)) (\<lambda>r.
        case r of
          Goto_even \<Rightarrow> ml_loop n True
        | Pick ptr \<Rightarrow>
            (case ptr of
               None \<Rightarrow> kret ()
             | Some p \<Rightarrow>
                 kbind (pfld p p_state) (\<lambda>st.
                 if st \<noteq> RUNNABLE then kpanic ''odd pid scheduling''
                 else kthen (rr_dispatch p) (ml_loop n False)))))"

primrec ml_scheduler_loop :: "nat \<Rightarrow> nat \<Rightarrow> ('z ptable_st_scheme, 'a) kernel" where
  "ml_scheduler_loop 0 n = kstuck"
| "ml_scheduler_loop (Suc m) n =
     kthen sti
    (kthen (acquire L_ptable)
    (kthen (ml_loop n True)
    (kthen (release L_ptable)
    (ml_scheduler_loop m n))))"

definition ml_scheduler :: "nat \<Rightarrow> nat \<Rightarrow> ('z ptable_st_scheme, 'a) kernel" where
  "ml_scheduler m n =
     kthen (kmod (\<lambda>s. s\<lparr>cpu_proc := (cpu_proc s)(me (lk s) := None)\<rparr>))
    (ml_scheduler_loop m n)"

section \<open>The scan\<close>

definition odd_ready :: "proc list \<Rightarrow> nat \<Rightarrow> bool" where
  "odd_ready ps i \<longleftrightarrow> p_state (ps ! i) = RUNNABLE \<and> p_pid (ps ! i) mod 2 \<noteq> 0"

definition even_ready :: "proc list \<Rightarrow> nat \<Rightarrow> bool" where
  "even_ready ps i \<longleftrightarrow> p_state (ps ! i) = RUNNABLE \<and> p_pid (ps ! i) mod 2 = 0"

lemma ml_scan_even: "ml_scan ps is tmp p = Goto_even \<longleftrightarrow> (\<exists>i \<in> set is. even_ready ps i)"
  by (induction "is" arbitrary: tmp p) (auto simp: even_ready_def)

text \<open>Without runnable even pids, the scan picks the process with the smallest odd pid.\<close>

lemma ml_scan_pick:
  assumes "\<forall>i \<in> set is. \<not> even_ready ps i" and "\<forall>i \<in> set is. odd_ready ps i \<longrightarrow> p_pid (ps ! i) > 0"
    and "case p of None \<Rightarrow> tmp = 0 | Some q \<Rightarrow> odd_ready ps q \<and> tmp = p_pid (ps ! q) \<and> tmp > 0"
  shows "\<exists>r. ml_scan ps is tmp p = Pick r \<and>
    (case r of
       None \<Rightarrow> p = None \<and> (\<forall>i \<in> set is. \<not> odd_ready ps i)
     | Some q \<Rightarrow> odd_ready ps q \<and> (q \<in> set is \<or> p = Some q) \<and> (\<forall>i \<in> set is. odd_ready ps i \<longrightarrow> p_pid (ps ! q) \<le> p_pid (ps ! i))
         \<and> (\<forall>i. p = Some i \<longrightarrow> p_pid (ps ! q) \<le> p_pid (ps ! i)))"
  using assms
proof (induction "is" arbitrary: tmp p)
  case Nil
  then show ?case by (auto split: option.splits)
next
  case (Cons i js)
  consider (idle) "p_state (ps ! i) \<noteq> RUNNABLE"
    | (better) "odd_ready ps i" "tmp = 0 \<or> tmp > p_pid (ps ! i)"
    | (worse) "odd_ready ps i" "\<not> (tmp = 0 \<or> tmp > p_pid (ps ! i))"
    using Cons.prems(1) by (auto simp: odd_ready_def even_ready_def)
  then show ?case
  proof cases
    case idle
    then have "\<not> odd_ready ps i" by (simp add: odd_ready_def)
    with idle Cons.IH [of tmp p] Cons.prems show ?thesis by (auto split: option.splits)
  next
    case better
    with Cons.prems(2) have "case Some i of None \<Rightarrow> p_pid (ps ! i) = 0 | Some q \<Rightarrow>
        odd_ready ps q \<and> p_pid (ps ! i) = p_pid (ps ! q) \<and> p_pid (ps ! i) > 0" by simp
    from Cons.IH [OF _ _ this] Cons.prems(1,2) obtain r where r: "ml_scan ps js (p_pid (ps ! i)) (Some i) = Pick r"
      and rr: "case r of None \<Rightarrow> Some i = None \<and> (\<forall>i \<in> set js. \<not> odd_ready ps i)
        | Some q \<Rightarrow> odd_ready ps q \<and> (q \<in> set js \<or> Some i = Some q) \<and> (\<forall>i \<in> set js. odd_ready ps i \<longrightarrow> p_pid (ps ! q) \<le> p_pid (ps ! i))
         \<and> (\<forall>j. Some i = Some j \<longrightarrow> p_pid (ps ! q) \<le> p_pid (ps ! j))" by auto
    have "ml_scan ps (i # js) tmp p = Pick r" using better r by (simp add: odd_ready_def)
    moreover obtain q where q: "r = Some q" using rr by (cases r) auto
    moreover have "p_pid (ps ! q) \<le> p_pid (ps ! j)" if "p = Some j" for j
      using rr q better(2) Cons.prems(3) that by force
    ultimately show ?thesis using rr by auto
  next
    case worse
    then obtain j where j: "p = Some j" "tmp = p_pid (ps ! j)" using Cons.prems(3) by (auto split: option.splits)
    from Cons.IH [OF _ _ Cons.prems(3)] Cons.prems(1,2) obtain r where r: "ml_scan ps js tmp p = Pick r"
      and rr: "case r of None \<Rightarrow> p = None \<and> (\<forall>i \<in> set js. \<not> odd_ready ps i)
        | Some q \<Rightarrow> odd_ready ps q \<and> (q \<in> set js \<or> p = Some q) \<and> (\<forall>i \<in> set js. odd_ready ps i \<longrightarrow> p_pid (ps ! q) \<le> p_pid (ps ! i))
         \<and> (\<forall>i. p = Some i \<longrightarrow> p_pid (ps ! q) \<le> p_pid (ps ! i))" by auto
    have "ml_scan ps (i # js) tmp p = Pick r" using worse r by (simp add: odd_ready_def)
    moreover obtain q where q: "r = Some q" using rr j by (cases r) auto
    moreover have "p_pid (ps ! q) \<le> p_pid (ps ! i)" using rr q j worse(2) by force
    ultimately show ?thesis using rr by auto
  qed
qed

section \<open>Properties\<close>

text \<open>
  C34. In its second phase the scheduler goes back to the round-robin phase exactly when a process with
  an even pid is runnable; otherwise it runs the runnable process with the smallest odd pid, and
  leaves the phase when there is none.
\<close>

theorem ml_fcfs:
  fixes s :: "'z ptable_st_scheme"
  assumes "lk_ok (lk s)" and "\<forall>i < NPROC. p_state (procs s ! i) = RUNNABLE \<longrightarrow>
      p_pid (procs s ! i) > 0 \<and> p_kstack (procs s ! i) \<noteq> 0 \<and> p_pgdir (procs s ! i) \<noteq> 0"
  shows "if \<exists>i < NPROC. even_ready (procs s) i then ml_loop (Suc n) False s = ml_loop n True s
    else if \<exists>i < NPROC. odd_ready (procs s) i then
      \<exists>q < NPROC. odd_ready (procs s) q \<and> (\<forall>i < NPROC. odd_ready (procs s) i \<longrightarrow> p_pid (procs s ! q) \<le> p_pid (procs s ! i))
        \<and> ml_loop (Suc n) False s = Wait (rr_dispatched s q) (\<lambda>t. ml_loop n False (rr_back t))
    else ml_loop (Suc n) False s = Ret () s"
proof (cases "\<exists>i < NPROC. even_ready (procs s) i")
  case True
  then have "ml_scan (procs s) [0..<NPROC] 0 None = Goto_even" by (auto simp: ml_scan_even)
  with True show ?thesis by (simp add: kernel_simps)
next
  case False
  obtain r where r: "ml_scan (procs s) [0..<NPROC] 0 None = Pick r"
    and rr: "case r of None \<Rightarrow> \<forall>i < NPROC. \<not> odd_ready (procs s) i
       | Some q \<Rightarrow> odd_ready (procs s) q \<and> q < NPROC \<and> (\<forall>i < NPROC. odd_ready (procs s) i \<longrightarrow> p_pid (procs s ! q) \<le> p_pid (procs s ! i))"
  proof -
    have "\<forall>i \<in> set [0..<NPROC]. \<not> even_ready (procs s) i" using False by auto
    moreover have "\<forall>i \<in> set [0..<NPROC]. odd_ready (procs s) i \<longrightarrow> p_pid (procs s ! i) > 0"
      using assms(2) by (auto simp: odd_ready_def)
    ultimately have "\<exists>r. ml_scan (procs s) [0..<NPROC] 0 None = Pick r \<and>
      (case r of None \<Rightarrow> (None :: nat option) = None \<and> (\<forall>i \<in> set [0..<NPROC]. \<not> odd_ready (procs s) i)
       | Some q \<Rightarrow> odd_ready (procs s) q \<and> (q \<in> set [0..<NPROC] \<or> None = Some q)
          \<and> (\<forall>i \<in> set [0..<NPROC]. odd_ready (procs s) i \<longrightarrow> p_pid (procs s ! q) \<le> p_pid (procs s ! i))
          \<and> (\<forall>i. None = Some i \<longrightarrow> p_pid (procs s ! q) \<le> p_pid (procs s ! i)))"
      by (rule ml_scan_pick) simp
    then show ?thesis by (elim exE conjE) (rule that, assumption, auto split: option.splits)
  qed
  show ?thesis
  proof (cases r)
    case None
    with r rr False show ?thesis by (auto simp: kernel_simps)
  next
    case (Some q)
    then have q: "q < NPROC" "odd_ready (procs s) q" using rr by auto
    then have "rr_dispatch q s = Wait (rr_dispatched s q) (\<lambda>t. Ret () (rr_back t))"
      using assms by (intro rr_dispatch_run) (auto simp: odd_ready_def)
    then have "ml_loop (Suc n) False s = Wait (rr_dispatched s q) (\<lambda>t. ml_loop n False (rr_back t))"
      using r Some q by (simp add: kernel_simps odd_ready_def)
    with q rr Some False show ?thesis by auto
  qed
qed

text \<open>A table with the pids 5 and 3 runnable, in this order.\<close>

definition ml_proc :: "int \<Rightarrow> proc" where
  "ml_proc pid = \<lparr>p_sz = 0, p_pgdir = 0x80401000, p_kstack = 0x80400000,
       p_state = (if pid = 0 then UNUSED else RUNNABLE), p_pid = pid, p_parent = None,
       p_tf = 0, p_context = 0, p_chan = None, p_killed = False, p_ofile = replicate NOFILE None, p_cwd = None,
       p_name = replicate 16 0, p_tid = 0, p_main = None, p_retval = 0, p_sbase = 0, p_priority = 0,
       p_level = 0, p_extime = 0\<rparr>"

definition ml_ex :: ptable_st where
  "ml_ex = \<lparr>lk = boot_lk, mem = (\<lambda>_. 0), freelist = 0, use_lock = True, kend = 0x80100000, kdata = 0,
     kpgdir = 0, cr3 = 0, procs = ml_proc 5 # ml_proc 3 # replicate 62 (ml_proc 0), initproc = None, nextpid = 6,
     cpu_proc = (\<lambda>_. None), ts_esp0 = (\<lambda>_. 0), ticks = 0, sym_forkret = 0, sym_trapret = 0\<rparr>"

lemma ml_ex_nth:
  "i < NPROC \<Longrightarrow> procs ml_ex ! i = (if i = 0 then ml_proc 5 else if i = 1 then ml_proc 3 else ml_proc 0)"
  by (auto simp: ml_ex_def nth_Cons' NPROC_def)

theorem ml_fcfs_witness:
  "ml_loop (Suc 0) False ml_ex = Wait (rr_dispatched ml_ex 1) (\<lambda>t. ml_loop 0 False (rr_back t))"
proof -
  have pid: "p_pid (ml_proc n) = n" "p_state (ml_proc n) = (if n = 0 then UNUSED else RUNNABLE)"
    "p_kstack (ml_proc n) \<noteq> 0" "p_pgdir (ml_proc n) \<noteq> 0" for n
    by (simp_all add: ml_proc_def)
  have odd: "odd_ready (procs ml_ex) i \<longleftrightarrow> i = 0 \<or> i = 1" and even: "\<not> even_ready (procs ml_ex) i" if "i < NPROC" for i
    using ml_ex_nth [OF that] by (auto simp: odd_ready_def even_ready_def pid)
  have ok: "lk_ok (lk ml_ex)" by (simp add: ml_ex_def quietD(1) [OF boot_quiet])
  have run: "\<forall>i < NPROC. p_state (procs ml_ex ! i) = RUNNABLE \<longrightarrow>
      p_pid (procs ml_ex ! i) > 0 \<and> p_kstack (procs ml_ex ! i) \<noteq> 0 \<and> p_pgdir (procs ml_ex ! i) \<noteq> 0"
    by (auto simp: ml_ex_nth pid)
  have n: "0 < NPROC" "1 < NPROC" by (simp_all add: NPROC_def)
  have "\<exists>q < NPROC. odd_ready (procs ml_ex) q \<and> (\<forall>i < NPROC. odd_ready (procs ml_ex) i \<longrightarrow> p_pid (procs ml_ex ! q) \<le> p_pid (procs ml_ex ! i))
        \<and> ml_loop (Suc 0) False ml_ex = Wait (rr_dispatched ml_ex q) (\<lambda>t. ml_loop 0 False (rr_back t))"
    using ml_fcfs [OF ok run, of 0] even odd [OF n(1)] n(1) by (simp split: if_splits)
  then obtain q where q: "q < NPROC" "odd_ready (procs ml_ex) q" "\<forall>i < NPROC. odd_ready (procs ml_ex) i \<longrightarrow> p_pid (procs ml_ex ! q) \<le> p_pid (procs ml_ex ! i)"
    and w: "ml_loop (Suc 0) False ml_ex = Wait (rr_dispatched ml_ex q) (\<lambda>t. ml_loop 0 False (rr_back t))" by blast
  have "p_pid (procs ml_ex ! q) \<le> 3" using q(3) n odd [OF n(2)] ml_ex_nth [OF n(2)] by (auto simp: pid)
  then have "q = 1" using odd [OF q(1)] q(2) ml_ex_nth [OF q(1)] by (auto simp: pid)
  with w show ?thesis by simp
qed

end
