(* ===== verification/Proc.thy ===== *)
theory Proc
  imports Ptable
begin

text \<open>
  The default process layer (\<^verbatim>\<open>proc.c\<close>), the part that needs no file system: the process table,
  sleeping and waking, killing, memory growth and the round-robin scheduler. The operations that
  use files (\<^verbatim>\<open>fork\<close>, \<^verbatim>\<open>exit\<close>, threads) follow in \<^verbatim>\<open>Threads\<close>, above the file layer, whose code sleeps and
  wakes through the operations here.
\<close>

section \<open>State\<close>

record proc_st = ptable_st +
  nexttid :: int

section \<open>Operations\<close>

definition pinit :: "('z proc_st_scheme, unit) kernel" where
  "pinit = initlock L_ptable"

definition allocproc :: "('z proc_st_scheme, nat option) kernel" where
  "allocproc =
     kthen (acquire L_ptable)
    (kbind (kget (\<lambda>s. find (\<lambda>p. p_state (procs s ! p) = UNUSED) [0..<NPROC])) (\<lambda>found.
     case found of
       None \<Rightarrow> kthen (release L_ptable) (kret None)
     | Some p \<Rightarrow>
         kbind (kget nextpid) (\<lambda>n.
         kthen (pset p (\<lambda>x. x\<lparr>p_state := EMBRYO, p_pid := n\<rparr>))
        (kthen (kmod (\<lambda>s. s\<lparr>nextpid := n + 1\<rparr>))
        (kthen (pset p (\<lambda>x. x\<lparr>p_tid := 0, p_main := None\<rparr>))
        (kthen (release L_ptable)
        (alloc_kstack p)))))))"

text \<open>\<^verbatim>\<open>growproc\<close> changes the size of the main thread, for all threads of the process.\<close>

definition growproc :: "int \<Rightarrow> ('z proc_st_scheme, int) kernel" where
  "growproc n =
     with_myproc (\<lambda>curproc.
     kbind (pfld curproc p_tid) (\<lambda>t.
     kbind (pfld curproc p_main) (\<lambda>mn.
     deref (if t = 0 then Some curproc else mn) (\<lambda>main.
     kbind (pfld main p_sz) (\<lambda>sz.
     kbind (pfld main p_pgdir) (\<lambda>d.
     kbind (if n > 0 then allocuvm d sz (sz + of_int n)
            else if n < 0 then deallocuvm d sz (sz + of_int n)
            else kret sz) (\<lambda>sz'.
     if n \<noteq> 0 \<and> sz' = 0 then kret (-1)
     else
       kthen (pset main (p_sz_update (\<lambda>_. sz')))
      (kthen (switchuvm (Some curproc))
      (kret 0)))))))))"

definition wakeup1 :: "chan option \<Rightarrow> ('z proc_st_scheme, unit) kernel" where
  "wakeup1 chan =
     kfor [0..<NPROC] (\<lambda>p.
       kbind (pfld p (\<lambda>x. p_state x = SLEEPING \<and> p_chan x = chan)) (\<lambda>b.
       kwhen b (pset p (p_state_update (\<lambda>_. RUNNABLE)))))"

definition wakeup :: "chan option \<Rightarrow> ('z proc_st_scheme, unit) kernel" where
  "wakeup chan =
     kthen (acquire L_ptable)
    (kthen (wakeup1 chan)
    (release L_ptable))"

definition sleep :: "chan option \<Rightarrow> lockid option \<Rightarrow> ('z proc_st_scheme, unit) kernel" where
  "sleep chan lkp =
     kbind myproc (\<lambda>ptr.
     case ptr of None \<Rightarrow> kpanic ''sleep'' | Some p \<Rightarrow>
     case lkp of None \<Rightarrow> kpanic ''sleep without lk'' | Some l \<Rightarrow>
     kthen (kwhen (l \<noteq> L_ptable) (kthen (acquire L_ptable) (release l)))
    (kthen (pset p (\<lambda>x. x\<lparr>p_chan := chan, p_state := SLEEPING\<rparr>))
    (kthen sched
    (kthen (pset p (p_chan_update (\<lambda>_. None)))
    (kwhen (l \<noteq> L_ptable) (kthen (release L_ptable) (acquire l)))))))"

definition yield :: "('z proc_st_scheme, unit) kernel" where
  "yield =
     kthen (acquire L_ptable)
    (kthen (with_myproc (\<lambda>p. pset p (p_state_update (\<lambda>_. RUNNABLE))))
    (kthen sched
    (release L_ptable)))"

definition kill :: "int \<Rightarrow> ('z proc_st_scheme, int) kernel" where
  "kill pid =
     kthen (acquire L_ptable)
    (kbind (kget (\<lambda>s. find (\<lambda>p. p_pid (procs s ! p) = pid) [0..<NPROC])) (\<lambda>found.
     case found of
       None \<Rightarrow> kthen (release L_ptable) (kret (-1))
     | Some p \<Rightarrow>
         kthen (pset p (p_killed_update (\<lambda>_. True)))
        (kthen (kbind (pfld p p_state) (\<lambda>st. kwhen (st = SLEEPING) (pset p (p_state_update (\<lambda>_. RUNNABLE)))))
        (kthen (release L_ptable)
        (kret 0)))))"

section \<open>The round-robin scheduler\<close>

definition rr_pass :: "nat list \<Rightarrow> ('z proc_st_scheme, unit) kernel" where
  "rr_pass ps =
     kfor ps (\<lambda>p.
       kbind (pfld p p_state) (\<lambda>st.
       kwhen (st = RUNNABLE) (rr_dispatch p)))"

text \<open>\<open>n\<close> bounds the number of passes over the table.\<close>

primrec scheduler_loop :: "nat \<Rightarrow> ('z proc_st_scheme, 'a) kernel" where
  "scheduler_loop 0 = kstuck"
| "scheduler_loop (Suc n) =
     kthen sti
    (kthen (acquire L_ptable)
    (kthen (rr_pass [0..<NPROC])
    (kthen (release L_ptable)
    (scheduler_loop n))))"

definition scheduler :: "nat \<Rightarrow> ('z proc_st_scheme, 'a) kernel" where
  "scheduler n =
     kthen (kmod (\<lambda>s. s\<lparr>cpu_proc := (cpu_proc s)(me (lk s) := None)\<rparr>))
    (scheduler_loop n)"

section \<open>Waking\<close>

definition woken :: "chan option \<Rightarrow> proc \<Rightarrow> proc" where
  "woken ch x = (if p_state x = SLEEPING \<and> p_chan x = ch then x\<lparr>p_state := RUNNABLE\<rparr> else x)"

lemma wakeup1_run:
  assumes "length (procs s) = NPROC"
  shows "wakeup1 ch s = Ret () (s\<lparr>procs := map (woken ch) (procs s)\<rparr>)"
proof -
  have "wakeup1 ch s = Ret () (s\<lparr>procs := map (woken ch) (take NPROC (procs s)) @ drop NPROC (procs s)\<rparr>)"
    unfolding wakeup1_def
    by (rule kfor_procs) (auto simp: kernel_simps woken_def assms)
  then show ?thesis using assms by simp
qed

lemma acquire_release_procs:
  assumes "lk_ok (lk s)" and "lock_free l (lk s)"
    and "\<And>t. procs t = procs s \<Longrightarrow> m t = Ret () (t\<lparr>procs := ps\<rparr>)"
  shows "kthen (acquire l) (kthen m (release l)) s = Ret () (s\<lparr>procs := ps\<rparr>)"
proof -
  have "kthen (acquire l) (kthen m (release l)) s = release l (s\<lparr>lk := lk_acq l (lk s), procs := ps\<rparr>)"
    using assms by (simp add: kernel_simps acquire_run)
  also have "\<dots> = Ret () (s\<lparr>lk := lk_acq l (lk s), procs := ps, lk := lk s\<rparr>)"
    using assms by (subst release_acq [of "lk s"]) simp_all
  also have "s\<lparr>lk := lk_acq l (lk s), procs := ps, lk := lk s\<rparr> = s\<lparr>procs := ps\<rparr>"
    by (rule ptable_st.equality) simp_all
  finally show ?thesis .
qed

lemma wakeup_run:
  assumes "lk_ok (lk s)" and "lock_free L_ptable (lk s)" and "length (procs s) = NPROC"
  shows "wakeup ch s = Ret () (s\<lparr>procs := map (woken ch) (procs s)\<rparr>)"
  unfolding wakeup_def
  by (rule acquire_release_procs [OF assms(1,2)]) (simp add: wakeup1_run assms(3))

section \<open>The scheduler's pass\<close>

lemma rr_pass_skip:
  assumes "\<forall>p \<in> set ps. p_state (procs s ! p) \<noteq> RUNNABLE"
  shows "rr_pass (ps @ qs) s = rr_pass qs s"
  using assms by (induction ps) (simp_all add: rr_pass_def kernel_simps)

lemma rr_pass_next:
  assumes "lk_ok (lk s)" and "p_state (procs s ! p) = RUNNABLE"
    and "p_kstack (procs s ! p) \<noteq> 0" and "p_pgdir (procs s ! p) \<noteq> 0"
    and "\<forall>q \<in> set ps. p_state (procs s ! q) \<noteq> RUNNABLE"
  shows "rr_pass (ps @ p # qs) s = Wait (rr_dispatched s p) (\<lambda>t. rr_pass qs (rr_back t))"
  using rr_pass_skip [OF assms(5), of "p # qs"] assms
  by (simp add: rr_pass_def kernel_simps rr_dispatch_run)

section \<open>Sleeping\<close>

lemma lk_rel_other:
  assumes "lk_ok x" and "lock_free l x" and "l \<noteq> l'"
  shows "lk_rel l (lk_acq l' (lk_acq l x)) = lk_acq l' x"
  using assms
  by (auto simp: lk_rel_def lk_acq_def lock_free_def lk_ok_def set_mycpu_def mycpu_def fun_upd_twist
      fun_eq_iff intro!: lockst.equality)

lemma lock_held_other: "l \<noteq> l' \<Longrightarrow> lock_held l (lk_acq l x) \<Longrightarrow> lock_held l (lk_acq l' (lk_acq l x))"
  by (simp add: lock_held_def lk_acq_def)

text \<open>
  The state a sleeping process leaves: it sleeps on the channel, the table lock is held, and the
  caller's lock is free. The caller's lock was given up only after the table lock was taken.
\<close>

definition asleep :: "'z proc_st_scheme \<Rightarrow> chan option \<Rightarrow> lockst \<Rightarrow> nat \<Rightarrow> 'z proc_st_scheme" where
  "asleep s ch x p = s\<lparr>lk := lk_acq L_ptable x,
     procs := (procs s)[p := (procs s ! p)\<lparr>p_chan := ch, p_state := SLEEPING\<rparr>]\<rparr>"

lemma sleep_run:
  fixes s :: "'z proc_st_scheme"
  assumes "lk s = lk_acq l x" and "quiet x" and "ncli (mycpu x) = 0" and "l \<noteq> L_ptable"
    and "cpu_proc s (me x) = Some p" and "p < length (procs s)"
  shows "sleep ch (Some l) s = Wait (asleep s ch x p) (\<lambda>t.
     kcont (Ret () (t\<lparr>lk := set_mycpu ((mycpu (lk t))\<lparr>intena := intena (mycpu x)\<rparr>) (lk t)\<rparr>)) (\<lambda>_.
     kthen (pset p (p_chan_update (\<lambda>_. None))) (kthen (release L_ptable) (acquire l))))"
proof -
  have me: "me (lk_acq k y) = me y" for k y by (simp add: lk_acq_def)
  have ok: "lk_ok (lk s)" using assms(1,2) by (simp add: lock_simps)
  have acq: "acquire L_ptable s = Ret () (s\<lparr>lk := lk_acq L_ptable (lk_acq l x)\<rparr>)"
    using assms(1,2,4) by (simp add: acquire_run lock_simps)
  have rel: "release l (s\<lparr>lk := lk_acq L_ptable (lk_acq l x)\<rparr>) = Ret () (s\<lparr>lk := lk_acq L_ptable x\<rparr>)"
    using assms(2-4) by (subst release_run)
      (simp_all add: lock_simps lock_held_other lk_rel_other add.commute)
  have sch: "sched (asleep s ch x p) = Wait (asleep s ch x p) (\<lambda>t. Ret () (t\<lparr>lk := set_mycpu
      ((mycpu (lk t))\<lparr>intena := intena (mycpu x)\<rparr>) (lk t)\<rparr>))"
    using assms by (subst sched_run [where p = p]) (simp_all add: asleep_def lock_simps)
  show ?thesis
    using assms ok sch
    by (simp add: sleep_def kernel_simps myproc_run me acq rel asleep_def)
qed

text \<open>The same lock state, but with a lock in the hands of processor \<open>c\<close>.\<close>

definition taken_by :: "nat \<Rightarrow> lockid \<Rightarrow> lockst \<Rightarrow> lockst" where
  "taken_by c l x = x\<lparr>spin := (spin x)(l := \<lparr>locked = True, lk_cpu = Some c\<rparr>)\<rparr>"

lemma acquire_blocked:
  assumes "lk_ok (lk s)" and "spin (lk s) l = \<lparr>locked = True, lk_cpu = Some c\<rparr>" and "c \<noteq> me (lk s)"
  shows "\<exists>x. acquire l s = Stuck (s\<lparr>lk := x\<rparr>) \<and> spin x = spin (lk s) \<and> me x = me (lk s)"
proof -
  obtain d where push: "pushcli s = Ret () (s\<lparr>lk := (set_mycpu d (lk s))\<lparr>eflags_IF := False\<rparr>\<rparr>)" and d: "0 < ncli d"
    using assms(1) by (auto simp: pushcli_def kernel_simps Let_def lk_ok_def)
  have "lk_ok ((set_mycpu d (lk s))\<lparr>eflags_IF := False\<rparr>)" using d by (auto simp: lk_ok_def)
  then show ?thesis using assms(2,3) by (auto simp: acquire_def kernel_simps push holding_run)
qed

text \<open>While another processor has the table lock, the caller's lock is not given up.\<close>

lemma sleep_blocked:
  fixes s :: "'z proc_st_scheme"
  assumes "lk s = lk_acq l x" and "quiet x" and "l \<noteq> L_ptable" and "cpu_proc s (me x) = Some p" and "c \<noteq> me x"
  shows "\<exists>u. sleep ch (Some l) (s\<lparr>lk := taken_by c L_ptable (lk s)\<rparr>) = Stuck u \<and> lock_held l (lk u) \<and> procs u = procs s"
proof -
  let ?s = "s\<lparr>lk := taken_by c L_ptable (lk s)\<rparr>"
  have me: "me (lk ?s) = me x" by (simp add: taken_by_def assms(1) lk_acq_def)
  have "lk_ok (lk s)" using assms(1,2) by (simp add: lock_simps)
  then have ok: "lk_ok (lk ?s)" by (simp add: lk_ok_def taken_by_def)
  obtain y where y: "acquire L_ptable ?s = Stuck (?s\<lparr>lk := y\<rparr>)" "spin y = spin (lk ?s)" "me y = me (lk ?s)"
    using acquire_blocked [OF ok, of L_ptable c] assms(5) me by (auto simp: taken_by_def)
  have "sleep ch (Some l) ?s = Stuck (?s\<lparr>lk := y\<rparr>)"
    using assms(3,4) me y(1) ok by (simp add: sleep_def kernel_simps myproc_run)
  moreover have "lock_held l y" using assms(3) y(2,3) me by (simp add: lock_held_def taken_by_def assms(1) lk_acq_def)
  ultimately show ?thesis by simp
qed

section \<open>Properties\<close>

text \<open>
  C30. From any position of its pass over the table the scheduler runs the first runnable process
  at or after it, and when it gets the processor back it goes on with the processes behind: every
  process that stays runnable gets its turn within one pass.
\<close>

theorem rr_round_robin:
  fixes s :: "'z proc_st_scheme"
  assumes "lk_ok (lk s)" and "i \<le> p" and "p < NPROC" and "p_state (procs s ! p) = RUNNABLE"
    and "p_kstack (procs s ! p) \<noteq> 0" and "p_pgdir (procs s ! p) \<noteq> 0"
    and "\<forall>q. i \<le> q \<and> q < p \<longrightarrow> p_state (procs s ! q) \<noteq> RUNNABLE"
  shows "rr_pass [i..<NPROC] s = Wait (rr_dispatched s p) (\<lambda>t. rr_pass [Suc p..<NPROC] (rr_back t))"
proof -
  have "[i..<NPROC] = [i..<p] @ p # [Suc p..<NPROC]"
    using assms(2,3) upt_add_eq_append [of i p "NPROC - p"] by (simp add: upt_conv_Cons)
  then show ?thesis using assms by (simp add: rr_pass_next)
qed

text \<open>A table whose process 5 is ready to run.\<close>

definition ex_proc :: proc where
  "ex_proc = \<lparr>p_sz = 0, p_pgdir = 0x80401000, p_kstack = 0x80400000, p_state = UNUSED, p_pid = 0, p_parent = None,
     p_tf = 0, p_context = 0, p_chan = None, p_killed = False, p_ofile = replicate NOFILE None, p_cwd = None,
     p_name = replicate 16 0, p_tid = 0, p_main = None, p_retval = 0, p_sbase = 0, p_priority = 0,
     p_level = 0, p_extime = 0\<rparr>"

definition proc_ex :: "proc list \<Rightarrow> proc_st" where
  "proc_ex ps = \<lparr>lk = boot_lk, mem = (\<lambda>_. 0), freelist = 0, use_lock = True, kend = 0x80100000, kdata = 0,
     kpgdir = 0, cr3 = 0, procs = ps, initproc = None, nextpid = 1, cpu_proc = (\<lambda>_. None), ts_esp0 = (\<lambda>_. 0),
     ticks = 0, sym_forkret = 0, sym_trapret = 0, nexttid = 1\<rparr>"

theorem rr_round_robin_witness:
  "rr_pass [0..<NPROC] (proc_ex ((replicate 64 ex_proc)[5 := ex_proc\<lparr>p_state := RUNNABLE\<rparr>]))
     = Wait (rr_dispatched (proc_ex ((replicate 64 ex_proc)[5 := ex_proc\<lparr>p_state := RUNNABLE\<rparr>])) 5)
         (\<lambda>t. rr_pass [Suc 5..<NPROC] (rr_back t))"
  by (rule rr_round_robin)
     (auto simp: proc_ex_def ex_proc_def nth_list_update NPROC_def quietD(1) [OF boot_quiet])

text \<open>
  C31. \<^verbatim>\<open>wakeup(chan)\<close> makes exactly the processes that sleep on \<^verbatim>\<open>chan\<close> runnable and changes nothing
  else, the locks included.
\<close>

theorem wakeup_wakes:
  fixes s :: "'z proc_st_scheme"
  assumes "lk_ok (lk s)" and "lock_free L_ptable (lk s)" and "length (procs s) = NPROC"
  shows "wakeup ch s = Ret () (s\<lparr>procs := map (\<lambda>x. if p_state x = SLEEPING \<and> p_chan x = ch
      then x\<lparr>p_state := RUNNABLE\<rparr> else x) (procs s)\<rparr>)"
  using wakeup_run [OF assms] by (simp add: woken_def [abs_def])

theorem wakeup_wakes_witness:
  "wakeup (Some C_ticks) (proc_ex (replicate 64 (ex_proc\<lparr>p_state := SLEEPING, p_chan := Some C_ticks\<rparr>)))
     = Ret () (proc_ex (replicate 64 (ex_proc\<lparr>p_state := RUNNABLE, p_chan := Some C_ticks\<rparr>)))"
  using wakeup_wakes [of "proc_ex (replicate 64 (ex_proc\<lparr>p_state := SLEEPING, p_chan := Some C_ticks\<rparr>))" "Some C_ticks"]
  by (simp add: proc_ex_def ex_proc_def NPROC_def quietD [OF boot_quiet])

text \<open>
  C32. A process that goes to sleep on a channel with a lock \<open>l\<close> gives \<open>l\<close> up only while it holds the table
  lock, and the table lock only once it is asleep. If another processor holds the table lock, the process spins and still
  holds \<open>l\<close>, so whoever needs \<open>l\<close> to change the condition waited for cannot come in between. Otherwise it hands over a state in
  which it sleeps on the channel with the table lock held and \<open>l\<close> free: a \<^verbatim>\<open>wakeup\<close>, which needs the table lock, finds
  it asleep and makes it runnable. Resumed with the table lock, it returns with \<open>l\<close> held again and the channel cleared.
\<close>

theorem sleep_no_lost_wakeup:
  fixes s t :: "'z proc_st_scheme"
  assumes "lk s = lk_acq l x" and "quiet x" and "ncli (mycpu x) = 0" and "l \<noteq> L_ptable"
    and "cpu_proc s (me x) = Some p" and "p < length (procs s)"
    and "lk t = lk_acq L_ptable y" and "quiet y" and "ncli (mycpu y) = 0" and "p < length (procs t)"
    and "c \<noteq> me x"
  shows "(\<exists>u. sleep ch (Some l) (s\<lparr>lk := taken_by c L_ptable (lk s)\<rparr>) = Stuck u \<and> lock_held l (lk u) \<and> procs u = procs s)
    \<and> (\<exists>k. sleep ch (Some l) s = Wait (asleep s ch x p) k
     \<and> lock_held L_ptable (lk (asleep s ch x p)) \<and> lock_free l (lk (asleep s ch x p))
     \<and> p_state (woken ch (procs (asleep s ch x p) ! p)) = RUNNABLE
     \<and> (\<exists>u. k t = Ret () u \<and> lock_held l (lk u) \<and> lock_free L_ptable (lk u) \<and> p_chan (procs u ! p) = None))"
proof -
  let ?c = "(mycpu y)\<lparr>intena := intena (mycpu x)\<rparr>"
  define z where "z = (set_mycpu ?c y)\<lparr>eflags_IF := intena (mycpu x)\<rparr>"
  have zok: "lk_ok z" and zfree: "lock_free k z" and zcli: "ncli (mycpu z) = 0" for k
    using assms(8,9) by (auto simp: z_def lk_ok_def lock_free_def quiet_def)
  have acq: "set_mycpu ((mycpu (lk t))\<lparr>intena := intena (mycpu x)\<rparr>) (lk t) = lk_acq L_ptable z"
    by (auto simp: assms(7) z_def lk_acq_def set_mycpu_def mycpu_def intro!: lockst.equality)
  let ?u = "t\<lparr>lk := lk_acq L_ptable z, procs := (procs t)[p := (procs t ! p)\<lparr>p_chan := None\<rparr>]\<rparr>"
  have rel: "release L_ptable ?u = Ret () (?u\<lparr>lk := z\<rparr>)"
    using zok zfree by (subst release_acq [of z]) simp_all
  have "acquire l (?u\<lparr>lk := z\<rparr>) = Ret () (?u\<lparr>lk := lk_acq l z\<rparr>)"
    using zok zfree by (subst acquire_run) simp_all
  then have res: "kcont (Ret () (t\<lparr>lk := lk_acq L_ptable z\<rparr>)) (\<lambda>_. kthen (pset p (p_chan_update (\<lambda>_. None)))
      (kthen (release L_ptable) (acquire l))) = Ret () (?u\<lparr>lk := lk_acq l z\<rparr>)"
    using rel by (simp add: kernel_simps)
  have "lock_held l (lk_acq l z)" "lock_free L_ptable (lk_acq l z)"
    using zfree assms(4) by (simp_all add: lock_simps)
  then have "\<exists>k. sleep ch (Some l) s = Wait (asleep s ch x p) k
     \<and> lock_held L_ptable (lk (asleep s ch x p)) \<and> lock_free l (lk (asleep s ch x p))
     \<and> p_state (woken ch (procs (asleep s ch x p) ! p)) = RUNNABLE
     \<and> (\<exists>u. k t = Ret () u \<and> lock_held l (lk u) \<and> lock_free L_ptable (lk u) \<and> p_chan (procs u ! p) = None)"
    using sleep_run [OF assms(1-6), of ch] res acq assms(2,4,6,10)
    by (simp add: asleep_def woken_def lock_simps)
  with sleep_blocked [OF assms(1,2,4,5,11)] show ?thesis by blast
qed

theorem sleep_no_lost_wakeup_witness:
  "(\<exists>k. sleep (Some C_ticks) (Some L_ticks) ((proc_ex (replicate 64 ex_proc))\<lparr>lk := lk_acq L_ticks boot_lk, cpu_proc := (\<lambda>_. Some 3)\<rparr>)
      = Wait (asleep ((proc_ex (replicate 64 ex_proc))\<lparr>lk := lk_acq L_ticks boot_lk, cpu_proc := (\<lambda>_. Some 3)\<rparr>) (Some C_ticks) boot_lk 3) k)
   \<and> (\<exists>u. sleep (Some C_ticks) (Some L_ticks) ((proc_ex (replicate 64 ex_proc))\<lparr>lk := taken_by 1 L_ptable (lk_acq L_ticks boot_lk), cpu_proc := (\<lambda>_. Some 3)\<rparr>)
      = Stuck u \<and> lock_held L_ticks (lk u))"
  using sleep_no_lost_wakeup [OF _ boot_quiet _ _ _ _ _ boot_quiet,
      of "(proc_ex (replicate 64 ex_proc))\<lparr>lk := lk_acq L_ticks boot_lk, cpu_proc := (\<lambda>_. Some 3)\<rparr>" L_ticks 3
        "(proc_ex (replicate 64 ex_proc))\<lparr>lk := lk_acq L_ptable boot_lk\<rparr>" 1 "Some C_ticks"]
  by (auto simp: proc_ex_def boot_lk_def mycpu_def)

text \<open>
  C33. \<^verbatim>\<open>kill(pid)\<close> marks the first process with this pid as killed, wakes it if it sleeps, and reports 0; without
  such a process it changes nothing and reports -1.
\<close>

theorem kill_marks:
  fixes s :: "'z proc_st_scheme"
  assumes "quiet (lk s)" and "length (procs s) = NPROC"
  shows "kill pid s = (case find (\<lambda>p. p_pid (procs s ! p) = pid) [0..<NPROC] of
      None \<Rightarrow> Ret (-1) s
    | Some p \<Rightarrow> Ret 0 (s\<lparr>procs := (procs s)[p := (let x = (procs s ! p)\<lparr>p_killed := True\<rparr> in
        if p_state x = SLEEPING then x\<lparr>p_state := RUNNABLE\<rparr> else x)]\<rparr>))"
proof (cases "find (\<lambda>p. p_pid (procs s ! p) = pid) [0..<NPROC]")
  case None
  then show ?thesis
    using assms(1) by (simp add: kill_def kernel_simps acquire_quiet release_acq [of "lk s"] lock_simps)
next
  case (Some p)
  then have p: "p < length (procs s)" using assms(2) by (auto simp: find_Some_iff)
  let ?y = "let x = (procs s ! p)\<lparr>p_killed := True\<rparr> in if p_state x = SLEEPING then x\<lparr>p_state := RUNNABLE\<rparr> else x"
  let ?t = "s\<lparr>lk := lk_acq L_ptable (lk s), procs := (procs s)[p := ?y]\<rparr>"
  have "kill pid s = kcont (release L_ptable ?t) (\<lambda>_. kret 0)"
    using assms(1) Some p by (simp add: kill_def kernel_simps acquire_quiet Let_def)
  also have "release L_ptable ?t = Ret () (?t\<lparr>lk := lk s\<rparr>)"
    using assms(1) by (subst release_acq [of "lk s"]) (simp_all add: lock_simps)
  also have "?t\<lparr>lk := lk s\<rparr> = s\<lparr>procs := (procs s)[p := ?y]\<rparr>"
    by (rule ptable_st.equality) simp_all
  finally show ?thesis using Some by (simp add: kernel_simps)
qed

theorem kill_marks_witness:
  "kill 7 (proc_ex (replicate 64 (ex_proc\<lparr>p_state := SLEEPING, p_pid := 7\<rparr>)))
     = Ret 0 (proc_ex ((ex_proc\<lparr>p_state := RUNNABLE, p_pid := 7, p_killed := True\<rparr>)
         # replicate 63 (ex_proc\<lparr>p_state := SLEEPING, p_pid := 7\<rparr>)))"
proof -
  let ?s = "proc_ex (replicate 64 (ex_proc\<lparr>p_state := SLEEPING, p_pid := 7\<rparr>))"
  have f: "find (\<lambda>p. p_pid (procs ?s ! p) = 7) [0..<NPROC] = Some 0"
    by (rule find_index_first) (simp_all add: proc_ex_def ex_proc_def NPROC_def)
  have "replicate 64 x = x # replicate 63 x" for x :: proc by (simp add: replicate_Suc [symmetric] del: replicate_Suc)
  then show ?thesis
    using kill_marks [of ?s 7] f by (simp add: proc_ex_def ex_proc_def NPROC_def boot_quiet)
qed

end
