(* ===== verification/Sleeplock.thy ===== *)
theory Sleeplock
  imports Proc
begin

text \<open>
  Sleep locks (\<^verbatim>\<open>sleeplock.c\<close>, \<^verbatim>\<open>sleeplock.h\<close>): the locks of buffers and inodes, on which a process
  sleeps instead of spinning. A sleep lock is known by its owner, \<open>SL_buf\<close> or \<open>SL_inode\<close>, which also
  gives the spin lock inside it and the channel its waiters sleep on (its address).

  A loop that waits for a condition is followed through \<open>wakes\<close> wake-ups, a number that is part of
  the state and that no statement restricts.
\<close>

section \<open>Operations\<close>

datatype slock = SL_buf nat | SL_inode nat

record sleeplock =
  sl_locked :: bool
  sl_pid :: int

record sl_st = proc_st +
  slocks :: "slock \<Rightarrow> sleeplock"
  wakes :: nat

fun sl_lk :: "slock \<Rightarrow> lockid" where
  "sl_lk (SL_buf i) = L_buf i"
| "sl_lk (SL_inode i) = L_inode i"

fun sl_chan :: "slock \<Rightarrow> chan" where
  "sl_chan (SL_buf i) = C_buf i"
| "sl_chan (SL_inode i) = C_inode i"

definition sl_set :: "slock \<Rightarrow> bool \<Rightarrow> int \<Rightarrow> ('z sl_st_scheme, unit) kernel" where
  "sl_set l b pid = kmod (\<lambda>s. s\<lparr>slocks := (slocks s)(l := \<lparr>sl_locked = b, sl_pid = pid\<rparr>)\<rparr>)"

definition initsleeplock :: "slock \<Rightarrow> ('z sl_st_scheme, unit) kernel" where
  "initsleeplock l =
     kthen (initlock (sl_lk l))
    (sl_set l False 0)"

primrec acquiresleep_loop :: "nat \<Rightarrow> slock \<Rightarrow> ('z sl_st_scheme, unit) kernel" where
  "acquiresleep_loop 0 l = kbind (kget (\<lambda>s. sl_locked (slocks s l))) (\<lambda>b. if b then kstuck else kret ())"
| "acquiresleep_loop (Suc n) l =
     kbind (kget (\<lambda>s. sl_locked (slocks s l))) (\<lambda>b.
     if b then
       kthen (sleep (Some (sl_chan l)) (Some (sl_lk l)))
      (acquiresleep_loop n l)
     else kret ())"

definition acquiresleep :: "slock \<Rightarrow> ('z sl_st_scheme, unit) kernel" where
  "acquiresleep l =
     kthen (acquire (sl_lk l))
    (kbind (kget wakes) (\<lambda>n.
     kthen (acquiresleep_loop n l)
    (with_myproc (\<lambda>p.
     kbind (pfld p p_pid) (\<lambda>pid.
     kthen (sl_set l True pid)
    (release (sl_lk l)))))))"

definition releasesleep :: "slock \<Rightarrow> ('z sl_st_scheme, unit) kernel" where
  "releasesleep l =
     kthen (acquire (sl_lk l))
    (kthen (sl_set l False 0)
    (kthen (wakeup (Some (sl_chan l)))
    (release (sl_lk l))))"

definition holdingsleep :: "slock \<Rightarrow> ('z sl_st_scheme, bool) kernel" where
  "holdingsleep l =
     kthen (acquire (sl_lk l))
    (kbind (kget (\<lambda>s. sl_locked (slocks s l))) (\<lambda>b.
     kbind (if b then with_myproc (\<lambda>p. kbind (pfld p p_pid) (\<lambda>pid. kget (\<lambda>s. sl_pid (slocks s l) = pid)))
            else kret False) (\<lambda>r.
     kthen (release (sl_lk l))
    (kret r))))"

section \<open>Uncontended use\<close>

text \<open>
  A process runs, no spin lock is held, and nobody sleeps on a channel of the file system: the
  situation of a process that has the file system to itself.
\<close>

definition fs_chan :: "chan option \<Rightarrow> bool" where
  "fs_chan c \<longleftrightarrow> (\<exists>i. c = Some (C_buf i) \<or> c = Some (C_inode i) \<or> c = Some C_log)"

definition calm :: "'z proc_st_scheme \<Rightarrow> bool" where
  "calm s \<longleftrightarrow> quiet (lk s) \<and> length (procs s) = NPROC \<and> cpu_proc s (me (lk s)) \<noteq> None
     \<and> (\<forall>x \<in> set (procs s). p_state x = SLEEPING \<longrightarrow> \<not> fs_chan (p_chan x))"

definition curpid :: "'z proc_st_scheme \<Rightarrow> int" where
  "curpid s = p_pid (procs s ! the (cpu_proc s (me (lk s))))"

lemma woken_calm: "calm s \<Longrightarrow> fs_chan ch \<Longrightarrow> map (woken ch) (procs s) = procs s"
  by (rule map_idI) (auto simp: woken_def calm_def)

lemma fs_chan_sl [simp]: "fs_chan (Some (sl_chan l))"
  by (cases l) (auto simp: fs_chan_def)

lemma sl_lk_ptable [simp]: "sl_lk l \<noteq> L_ptable" "L_ptable \<noteq> sl_lk l"
  by (cases l; simp)+

lemma initsleep_run: "\<exists>x. initsleeplock l s = Ret () (s\<lparr>lk := x, slocks := (slocks s)(l := \<lparr>sl_locked = False, sl_pid = 0\<rparr>)\<rparr>)"
  by (simp add: initsleeplock_def sl_set_def initlock_def kernel_simps) (rule exI, rule refl)

text \<open>A critical section of a free lock around an update of the sleep locks.\<close>

lemma release_slocks:
  fixes s :: "'z sl_st_scheme"
  assumes "quiet (lk s)"
  shows "release l (s\<lparr>lk := lk_acq l (lk s), slocks := f\<rparr>) = Ret () (s\<lparr>slocks := f\<rparr>)"
proof -
  have "release l (s\<lparr>lk := lk_acq l (lk s), slocks := f\<rparr>) = Ret () (s\<lparr>lk := lk_acq l (lk s), slocks := f, lk := lk s\<rparr>)"
    using assms by (subst release_acq [of "lk s"]) (simp_all add: lock_simps)
  also have "s\<lparr>lk := lk_acq l (lk s), slocks := f, lk := lk s\<rparr> = s\<lparr>slocks := f\<rparr>"
    by (rule sl_st.equality) simp_all
  finally show ?thesis .
qed

lemma release_same:
  fixes s :: "'z sl_st_scheme"
  assumes "quiet (lk s)"
  shows "release l (s\<lparr>lk := lk_acq l (lk s)\<rparr>) = Ret () s"
  using assms by (subst release_acq [of "lk s"]) (simp_all add: lock_simps)

lemma acquiresleep_run:
  fixes s :: "'z sl_st_scheme"
  assumes "calm s" and "\<not> sl_locked (slocks s l)"
  shows "acquiresleep l s = Ret () (s\<lparr>slocks := (slocks s)(l := \<lparr>sl_locked = True, sl_pid = curpid s\<rparr>)\<rparr>)"
proof -
  have q: "quiet (lk s)" using assms(1) by (simp add: calm_def)
  obtain p where p: "cpu_proc s (me (lk s)) = Some p" using assms(1) by (auto simp: calm_def)
  have loop: "acquiresleep_loop n l t = Ret () t" if "slocks t = slocks s" for n and t :: "'z sl_st_scheme"
    using assms(2) that by (cases n) (simp_all add: kernel_simps)
  show ?thesis
    using q p release_slocks [OF q]
    by (simp add: acquiresleep_def kernel_simps acquire_quiet loop with_myproc_run lock_simps sl_set_def curpid_def)
qed

lemma releasesleep_run:
  fixes s :: "'z sl_st_scheme"
  assumes "calm s"
  shows "releasesleep l s = Ret () (s\<lparr>slocks := (slocks s)(l := \<lparr>sl_locked = False, sl_pid = 0\<rparr>)\<rparr>)"
proof -
  have q: "quiet (lk s)" using assms by (simp add: calm_def)
  let ?t = "s\<lparr>lk := lk_acq (sl_lk l) (lk s), slocks := (slocks s)(l := \<lparr>sl_locked = False, sl_pid = 0\<rparr>)\<rparr>"
  have w: "wakeup (Some (sl_chan l)) ?t = Ret () ?t"
    using assms q woken_calm [OF assms fs_chan_sl]
    by (subst wakeup_run) (simp_all add: calm_def lock_simps)
  show ?thesis
    using q w release_slocks [OF q]
    by (simp add: releasesleep_def kernel_simps acquire_quiet sl_set_def)
qed

lemma holdingsleep_run:
  fixes s :: "'z sl_st_scheme"
  assumes "calm s"
  shows "holdingsleep l s = Ret (sl_locked (slocks s l) \<and> sl_pid (slocks s l) = curpid s) s"
proof -
  have q: "quiet (lk s)" using assms(1) by (simp add: calm_def)
  obtain p where p: "cpu_proc s (me (lk s)) = Some p" using assms(1) by (auto simp: calm_def)
  show ?thesis
    using q p release_same [OF q]
    by (simp add: holdingsleep_def kernel_simps acquire_quiet with_myproc_run lock_simps curpid_def)
qed

end
