(* ===== verification/Bio.thy ===== *)
theory Bio
  imports Sleeplock
begin

text \<open>
  The buffer cache (\<^verbatim>\<open>bio.c\<close>, \<^verbatim>\<open>buf.h\<close>) over the in-memory disk (\<^verbatim>\<open>memide.c\<close>). Buffers are indices
  below \<open>NBUF\<close>; the recently-used list runs through \<open>bnext\<close> and \<open>bprev\<close> with the index \<open>NBUF\<close> for its
  head \<^verbatim>\<open>bcache.head\<close>. \<open>dwrites\<close> records the writes the disk has seen, oldest first; no code reads
  it.
\<close>

section \<open>State\<close>

definition NBUF :: nat where "NBUF = 30"
definition BSIZE :: nat where "BSIZE = 512"

type_synonym block = "byte list"

record buf =
  b_valid :: bool
  b_dirty :: bool
  b_dev :: nat
  b_blockno :: nat
  b_refcnt :: u32
  b_data :: block

record bio_st = sl_st +
  bufs :: "buf list"
  bnext :: "nat \<Rightarrow> nat"
  bprev :: "nat \<Rightarrow> nat"
  memdisk :: "block list"
  dwrites :: "(nat \<times> block) list"

abbreviation bfld :: "nat \<Rightarrow> (buf \<Rightarrow> 'a) \<Rightarrow> ('z bio_st_scheme, 'a) kernel" where
  "bfld b f \<equiv> kget (\<lambda>s. f (bufs s ! b))"

definition bset :: "nat \<Rightarrow> (buf \<Rightarrow> buf) \<Rightarrow> ('z bio_st_scheme, unit) kernel" where
  "bset b g = kmod (\<lambda>s. s\<lparr>bufs := (bufs s)[b := g (bufs s ! b)]\<rparr>)"

section \<open>The in-memory disk\<close>

definition iderw :: "nat \<Rightarrow> ('z bio_st_scheme, unit) kernel" where
  "iderw b =
     kbind (holdingsleep (SL_buf b)) (\<lambda>h.
     if \<not> h then kpanic ''iderw: buf not locked''
     else kbind (bfld b id) (\<lambda>x.
     if b_valid x \<and> \<not> b_dirty x then kpanic ''iderw: nothing to do''
     else if b_dev x \<noteq> 1 then kpanic ''iderw: request not for disk 1''
     else kbind (kget (\<lambda>s. length (memdisk s))) (\<lambda>disksize.
     if b_blockno x \<ge> disksize then kpanic ''iderw: block out of range''
     else
       kthen
         (if b_dirty x then
            kthen (bset b (b_dirty_update (\<lambda>_. False)))
           (kmod (\<lambda>s. s\<lparr>memdisk := (memdisk s)[b_blockno x := b_data x],
                       dwrites := dwrites s @ [(b_blockno x, b_data x)]\<rparr>))
          else kbind (kget (\<lambda>s. memdisk s ! b_blockno x)) (\<lambda>d. bset b (b_data_update (\<lambda>_. d))))
      (bset b (b_valid_update (\<lambda>_. True))))))"

section \<open>The cache\<close>

definition binit :: "('z bio_st_scheme, unit) kernel" where
  "binit =
     kthen (initlock L_bcache)
    (kthen (kmod (\<lambda>s. s\<lparr>bprev := (bprev s)(NBUF := NBUF), bnext := (bnext s)(NBUF := NBUF)\<rparr>))
    (kfor [0..<NBUF] (\<lambda>b.
       kthen (kmod (\<lambda>s. s\<lparr>bnext := (bnext s)(b := bnext s NBUF)\<rparr>))
      (kthen (kmod (\<lambda>s. s\<lparr>bprev := (bprev s)(b := NBUF)\<rparr>))
      (kthen (initsleeplock (SL_buf b))
      (kthen (kmod (\<lambda>s. s\<lparr>bprev := (bprev s)(bnext s NBUF := b)\<rparr>))
      (kmod (\<lambda>s. s\<lparr>bnext := (bnext s)(NBUF := b)\<rparr>))))))))"

text \<open>
  The walk along the links until the head; it visits at most \<open>NBUF\<close> buffers on a proper list, and
  \<open>None\<close> stands for running in circles.
\<close>

primrec blist_find :: "nat \<Rightarrow> (nat \<Rightarrow> nat) \<Rightarrow> nat \<Rightarrow> (nat \<Rightarrow> bool) \<Rightarrow> nat option option" where
  "blist_find 0 nx b P = None"
| "blist_find (Suc n) nx b P =
     (if b = NBUF then Some None
      else if P b then Some (Some b)
      else blist_find n nx (nx b) P)"

definition bwalk :: "('z bio_st_scheme \<Rightarrow> nat \<Rightarrow> nat) \<Rightarrow> (buf \<Rightarrow> bool) \<Rightarrow> ('z bio_st_scheme, nat option) kernel" where
  "bwalk nx P =
     kbind (kget (\<lambda>s. blist_find (Suc NBUF) (nx s) (nx s NBUF) (\<lambda>b. P (bufs s ! b)))) (\<lambda>r.
     case r of None \<Rightarrow> kstuck | Some b \<Rightarrow> kret b)"

definition bget :: "nat \<Rightarrow> nat \<Rightarrow> ('z bio_st_scheme, nat) kernel" where
  "bget dev blockno =
     kthen (acquire L_bcache)
    (kbind (bwalk bnext (\<lambda>x. b_dev x = dev \<and> b_blockno x = blockno)) (\<lambda>hit.
     case hit of
       Some b \<Rightarrow>
         kthen (bset b (\<lambda>x. x\<lparr>b_refcnt := b_refcnt x + 1\<rparr>))
        (kthen (release L_bcache)
        (kthen (acquiresleep (SL_buf b))
        (kret b)))
     | None \<Rightarrow>
         kbind (bwalk bprev (\<lambda>x. b_refcnt x = 0 \<and> \<not> b_dirty x)) (\<lambda>free.
         case free of
           Some b \<Rightarrow>
             kthen (bset b (\<lambda>x. x\<lparr>b_dev := dev, b_blockno := blockno, b_valid := False, b_dirty := False, b_refcnt := 1\<rparr>))
            (kthen (release L_bcache)
            (kthen (acquiresleep (SL_buf b))
            (kret b)))
         | None \<Rightarrow> kpanic ''bget: no buffers'')))"

definition bread :: "nat \<Rightarrow> nat \<Rightarrow> ('z bio_st_scheme, nat) kernel" where
  "bread dev blockno =
     kbind (bget dev blockno) (\<lambda>b.
     kbind (bfld b b_valid) (\<lambda>v.
     kthen (kwhen (\<not> v) (iderw b))
    (kret b)))"

definition bwrite :: "nat \<Rightarrow> ('z bio_st_scheme, unit) kernel" where
  "bwrite b =
     kbind (holdingsleep (SL_buf b)) (\<lambda>h.
     if \<not> h then kpanic ''bwrite''
     else
       kthen (bset b (b_dirty_update (\<lambda>_. True)))
      (iderw b))"

text \<open>The six pointer assignments that move a buffer to the front of the list.\<close>

definition bmove :: "nat \<Rightarrow> ('z bio_st_scheme, unit) kernel" where
  "bmove b =
     kthen (kmod (\<lambda>s. s\<lparr>bprev := (bprev s)(bnext s b := bprev s b)\<rparr>))
    (kthen (kmod (\<lambda>s. s\<lparr>bnext := (bnext s)(bprev s b := bnext s b)\<rparr>))
    (kthen (kmod (\<lambda>s. s\<lparr>bnext := (bnext s)(b := bnext s NBUF)\<rparr>))
    (kthen (kmod (\<lambda>s. s\<lparr>bprev := (bprev s)(b := NBUF)\<rparr>))
    (kthen (kmod (\<lambda>s. s\<lparr>bprev := (bprev s)(bnext s NBUF := b)\<rparr>))
    (kmod (\<lambda>s. s\<lparr>bnext := (bnext s)(NBUF := b)\<rparr>))))))"

definition brelse :: "nat \<Rightarrow> ('z bio_st_scheme, unit) kernel" where
  "brelse b =
     kbind (holdingsleep (SL_buf b)) (\<lambda>h.
     if \<not> h then kpanic ''brelse''
     else
       kthen (releasesleep (SL_buf b))
      (kthen (acquire L_bcache)
      (kthen (bset b (\<lambda>x. x\<lparr>b_refcnt := b_refcnt x - 1\<rparr>))
      (kbind (bfld b b_refcnt) (\<lambda>r.
       kthen (kwhen (r = 0) (bmove b))
      (release L_bcache))))))"

section \<open>The linked list\<close>

primrec chain :: "(nat \<Rightarrow> nat) \<Rightarrow> nat \<Rightarrow> nat list \<Rightarrow> nat \<Rightarrow> bool" where
  "chain nx a [] z \<longleftrightarrow> a = z"
| "chain nx a (x # xs) z \<longleftrightarrow> a = x \<and> chain nx (nx x) xs z"

definition dll :: "(nat \<Rightarrow> nat) \<Rightarrow> (nat \<Rightarrow> nat) \<Rightarrow> nat list \<Rightarrow> bool" where
  "dll nx pv xs \<longleftrightarrow> chain nx (nx NBUF) xs NBUF \<and> chain pv (pv NBUF) (rev xs) NBUF
     \<and> distinct xs \<and> NBUF \<notin> set xs"

lemma chain_append: "chain nx a (xs @ ys) z \<longleftrightarrow> (\<exists>m. chain nx a xs m \<and> chain nx m ys z)"
  by (induction xs arbitrary: a) auto

lemma chain_upd: "x \<notin> set xs \<Longrightarrow> chain (nx(x := v)) a xs z = chain nx a xs z"
  by (induction xs arbitrary: a) auto

lemma blist_find_chain:
  "chain nx a xs NBUF \<Longrightarrow> NBUF \<notin> set xs \<Longrightarrow> length xs < n \<Longrightarrow> blist_find n nx a P = Some (find P xs)"
proof (induction xs arbitrary: a n)
  case Nil
  then show ?case by (cases n) auto
next
  case (Cons x xs)
  then show ?case by (cases n) auto
qed

text \<open>First and last element of a list through its links.\<close>

lemma chain_hd: "chain nx a xs z \<Longrightarrow> a = hd (xs @ [z])"
  by (cases xs) auto

lemma chain_next: "chain nx a (xs @ x # ys) z \<Longrightarrow> nx x = hd (ys @ [z])"
  by (auto simp: chain_append dest: chain_hd)

text \<open>The pointer surgery of \<^verbatim>\<open>brelse\<close> moves the buffer to the front.\<close>

lemma bmove_links:
  "bmove b s = Ret () (let
      pv1 = (bprev s)(bnext s b := bprev s b);
      nx1 = (bnext s)(pv1 b := bnext s b);
      nx2 = nx1(b := nx1 NBUF);
      pv2 = pv1(b := NBUF);
      pv3 = pv2(nx2 NBUF := b);
      nx3 = nx2(NBUF := b) in s\<lparr>bnext := nx3, bprev := pv3\<rparr>)"
  by (auto simp: bmove_def kernel_simps Let_def intro!: bio_st.equality)

lemma chain_remove:
  assumes "chain nx (nx NBUF) (xs @ b # ys) NBUF" and "distinct (xs @ b # ys)" and "NBUF \<notin> set (xs @ b # ys)"
  shows "chain (nx(hd (rev xs @ [NBUF]) := nx b)) ((nx(hd (rev xs @ [NBUF]) := nx b)) NBUF) (xs @ ys) NBUF"
proof (cases xs rule: rev_cases)
  case Nil
  with assms show ?thesis by (simp add: chain_upd)
next
  case (snoc us u)
  with assms show ?thesis by (auto simp: chain_append chain_upd)
qed

lemma dll_remove:
  assumes "dll nx pv (xs @ b # ys)"
  shows "dll (nx(pv b := nx b)) (pv(nx b := pv b)) (xs @ ys)"
proof -
  have pb: "pv b = hd (rev xs @ [NBUF])"
    using assms chain_next [of pv "pv NBUF" "rev ys" b "rev xs" NBUF] by (simp add: dll_def)
  have nb: "nx b = hd (rev (rev ys) @ [NBUF])"
    using assms chain_next [of nx "nx NBUF" xs b ys NBUF] by (simp add: dll_def)
  have "chain (nx(pv b := nx b)) ((nx(pv b := nx b)) NBUF) (xs @ ys) NBUF"
    unfolding pb by (rule chain_remove) (use assms in \<open>auto simp: dll_def\<close>)
  moreover have "chain (pv(nx b := pv b)) ((pv(nx b := pv b)) NBUF) (rev ys @ rev xs) NBUF"
    unfolding nb by (rule chain_remove) (use assms in \<open>auto simp: dll_def\<close>)
  ultimately show ?thesis using assms by (auto simp: dll_def)
qed

lemma dll_insert:
  assumes "dll nx pv zs" and "b \<notin> set zs" and "b \<noteq> NBUF"
  shows "dll (nx(b := nx NBUF, NBUF := b)) (pv(b := NBUF, nx NBUF := b)) (b # zs)"
proof (cases zs)
  case Nil
  with assms show ?thesis by (auto simp: dll_def)
next
  case (Cons z zs')
  with assms have z: "nx NBUF = z" "z \<noteq> b" "z \<noteq> NBUF" by (auto simp: dll_def)
  with assms Cons show ?thesis by (auto simp: dll_def chain_upd chain_append)
qed

lemma dll_move_front:
  assumes "dll (bnext s) (bprev s) (xs @ b # ys)"
  shows "\<exists>nx pv. bmove b s = Ret () (s\<lparr>bnext := nx, bprev := pv\<rparr>) \<and> dll nx pv (b # xs @ ys)"
proof -
  let ?nx = "bnext s" and ?pv = "bprev s"
  have b: "b \<notin> set (xs @ ys)" "b \<noteq> NBUF" using assms by (auto simp: dll_def)
  have "?nx b = hd (ys @ [NBUF])" using assms chain_next [of ?nx "?nx NBUF" xs b ys NBUF] by (simp add: dll_def)
  then have nb: "?nx b \<noteq> b" using b by (cases ys) auto
  have pb: "(?pv(?nx b := ?pv b)) b = ?pv b" using nb by simp
  have "dll ((?nx(?pv b := ?nx b))(b := (?nx(?pv b := ?nx b)) NBUF, NBUF := b))
     ((?pv(?nx b := ?pv b))(b := NBUF, (?nx(?pv b := ?nx b)) NBUF := b)) (b # xs @ ys)"
    by (rule dll_insert [OF dll_remove [OF assms] b])
  then have "dll ((?nx((?pv(?nx b := ?pv b)) b := ?nx b))(b := (?nx((?pv(?nx b := ?pv b)) b := ?nx b)) NBUF, NBUF := b))
     ((?pv(?nx b := ?pv b))(b := NBUF, (?nx((?pv(?nx b := ?pv b)) b := ?nx b, b := (?nx((?pv(?nx b := ?pv b)) b := ?nx b)) NBUF)) NBUF := b)) (b # xs @ ys)"
    using b(2) unfolding pb by simp
  then show ?thesis unfolding bmove_links Let_def by blast
qed

text \<open>\<^verbatim>\<open>binit\<close> links all buffers, the last one first.\<close>

lemma binit_list:
  fixes s :: "'z bio_st_scheme"
  shows "\<exists>t. binit s = Ret () t \<and> dll (bnext t) (bprev t) (rev [0..<NBUF]) \<and> bufs t = bufs s
     \<and> (\<forall>b < NBUF. \<not> sl_locked (slocks t (SL_buf b))) \<and> memdisk t = memdisk s"
proof -
  define body :: "nat \<Rightarrow> ('z bio_st_scheme, unit) kernel" where "body = (\<lambda>b.
       kthen (kmod (\<lambda>s. s\<lparr>bnext := (bnext s)(b := bnext s NBUF)\<rparr>))
      (kthen (kmod (\<lambda>s. s\<lparr>bprev := (bprev s)(b := NBUF)\<rparr>))
      (kthen (initsleeplock (SL_buf b))
      (kthen (kmod (\<lambda>s. s\<lparr>bprev := (bprev s)(bnext s NBUF := b)\<rparr>))
      (kmod (\<lambda>s. s\<lparr>bnext := (bnext s)(NBUF := b)\<rparr>))))))"
  have step: "\<exists>u. body b t = Ret () u \<and> dll (bnext u) (bprev u) (b # zs) \<and> bufs u = bufs t
      \<and> slocks u = (slocks t)(SL_buf b := \<lparr>sl_locked = False, sl_pid = 0\<rparr>) \<and> memdisk u = memdisk t"
    if d: "dll (bnext t) (bprev t) zs" and b: "b \<notin> set zs" "b \<noteq> NBUF" for b zs and t :: "'z bio_st_scheme"
  proof -
    obtain x where "initsleeplock (SL_buf b) (t\<lparr>bnext := (bnext t)(b := bnext t NBUF), bprev := (bprev t)(b := NBUF)\<rparr>)
       = Ret () (t\<lparr>bnext := (bnext t)(b := bnext t NBUF), bprev := (bprev t)(b := NBUF), lk := x,
           slocks := (slocks t)(SL_buf b := \<lparr>sl_locked = False, sl_pid = 0\<rparr>)\<rparr>)"
      using initsleep_run [of "SL_buf b" "t\<lparr>bnext := (bnext t)(b := bnext t NBUF), bprev := (bprev t)(b := NBUF)\<rparr>"]
      by auto
    then show ?thesis using dll_insert [OF d b] b by (simp add: body_def kernel_simps)
  qed
  have loop: "\<exists>u. kfor [0..<n] body t = Ret () u \<and> dll (bnext u) (bprev u) (rev [0..<n]) \<and> bufs u = bufs t
      \<and> (\<forall>b < n. \<not> sl_locked (slocks u (SL_buf b))) \<and> memdisk u = memdisk t"
    if "dll (bnext t) (bprev t) []" and "n \<le> NBUF" for n and t :: "'z bio_st_scheme"
    using that(2)
  proof (induction n)
    case 0
    then show ?case using that(1) by (simp add: kernel_simps)
  next
    case (Suc n)
    then obtain u where u: "kfor [0..<n] body t = Ret () u" "dll (bnext u) (bprev u) (rev [0..<n])" "bufs u = bufs t"
      "\<forall>b < n. \<not> sl_locked (slocks u (SL_buf b))" "memdisk u = memdisk t" by auto
    obtain v where v: "body n u = Ret () v" "dll (bnext v) (bprev v) (n # rev [0..<n])" "bufs v = bufs u"
      "slocks v = (slocks u)(SL_buf n := \<lparr>sl_locked = False, sl_pid = 0\<rparr>)" "memdisk v = memdisk u"
      using step [OF u(2), of n] Suc.prems by auto
    have "kfor [0..<Suc n] body t = kcont (kfor [0..<n] body t) (\<lambda>_. body n)"
      by (simp add: kfor_append kernel_simps kthen_def kbind_def kret_def kcont_ret)
    then show ?case using u v by (auto simp: kernel_simps less_Suc_eq)
  qed
  let ?t = "s\<lparr>lk := (lk s)\<lparr>spin := (spin (lk s))(L_bcache := \<lparr>locked = False, lk_cpu = None\<rparr>)\<rparr>,
     bprev := (bprev s)(NBUF := NBUF), bnext := (bnext s)(NBUF := NBUF)\<rparr>"
  have "dll (bnext ?t) (bprev ?t) []" by (simp add: dll_def)
  from loop [OF this order_refl] show ?thesis
    by (simp add: binit_def kernel_simps initlock_def body_def)
qed

section \<open>What the cache promises\<close>

text \<open>
  \<open>cached s bn b\<close>: buffer \<open>b\<close> holds block \<open>bn\<close> of the disk. \<open>bview\<close> is the content of a block as the
  users of the cache see it, \<open>held\<close> the blocks whose buffer is locked, \<open>pinned\<close> the ones whose buffer is
  dirty and must stay in the cache.
\<close>

definition cached :: "'z bio_st_scheme \<Rightarrow> nat \<Rightarrow> nat \<Rightarrow> bool" where
  "cached s bn b \<longleftrightarrow> b < NBUF \<and> b_dev (bufs s ! b) = 1 \<and> b_blockno (bufs s ! b) = bn"

definition bview :: "'z bio_st_scheme \<Rightarrow> nat \<Rightarrow> block" where
  "bview s bn = (case find (cached s bn) [0..<NBUF] of Some b \<Rightarrow> b_data (bufs s ! b) | None \<Rightarrow> memdisk s ! bn)"

definition held :: "'z bio_st_scheme \<Rightarrow> nat set" where
  "held s = {bn. \<exists>b. cached s bn b \<and> b_refcnt (bufs s ! b) \<noteq> 0}"

definition pinned :: "'z bio_st_scheme \<Rightarrow> nat set" where
  "pinned s = {bn. \<exists>b. cached s bn b \<and> b_dirty (bufs s ! b)}"

definition buf_ok :: "block list \<Rightarrow> int \<Rightarrow> sleeplock \<Rightarrow> buf \<Rightarrow> bool" where
  "buf_ok disk pid l x \<longleftrightarrow> length (b_data x) = BSIZE
     \<and> (if b_dev x = 1 then b_blockno x < length disk \<and> b_valid x else b_refcnt x = 0 \<and> \<not> b_dirty x)
     \<and> (b_refcnt x = 0 \<and> \<not> sl_locked l \<or> b_refcnt x = 1 \<and> sl_locked l \<and> sl_pid l = pid)
     \<and> (b_dev x = 1 \<and> b_refcnt x = 0 \<and> \<not> b_dirty x \<longrightarrow> b_data x = disk ! b_blockno x)"

definition buf_unique :: "'z bio_st_scheme \<Rightarrow> bool" where
  "buf_unique s \<longleftrightarrow> (\<forall>bn b c. cached s bn b \<longrightarrow> cached s bn c \<longrightarrow> b = c)"

definition bst :: "'z bio_st_scheme \<Rightarrow> bool" where
  "bst s \<longleftrightarrow> calm s \<and> length (bufs s) = NBUF
     \<and> (\<exists>xs. dll (bnext s) (bprev s) xs \<and> set xs = {0..<NBUF})
     \<and> (\<forall>b < NBUF. buf_ok (memdisk s) (curpid s) (slocks s (SL_buf b)) (bufs s ! b))
     \<and> buf_unique s
     \<and> (\<forall>d \<in> set (memdisk s). length d = BSIZE)"

definition bio_frame :: "'z bio_st_scheme \<Rightarrow> 'z bio_st_scheme \<Rightarrow> bool" where
  "bio_frame s t \<longleftrightarrow> (\<exists>A B N P. t = s\<lparr>slocks := A, bufs := B, bnext := N, bprev := P\<rparr>
     \<and> (\<forall>i. A (SL_inode i) = slocks s (SL_inode i)))"

lemma buf_uniqueD: "buf_unique s \<Longrightarrow> cached s bn b \<Longrightarrow> cached s bn c \<Longrightarrow> b = c"
  unfolding buf_unique_def by blast

lemma bst_unique: "bst s \<Longrightarrow> cached s bn b \<Longrightarrow> cached s bn c \<Longrightarrow> b = c"
  unfolding bst_def by (blast dest: buf_uniqueD)

lemma bview_cached: "bst s \<Longrightarrow> cached s bn b \<Longrightarrow> bview s bn = b_data (bufs s ! b)"
proof -
  assume s: "bst s" and b: "cached s bn b"
  then obtain c where c: "find (cached s bn) [0..<NBUF] = Some c"
    by (cases "find (cached s bn) [0..<NBUF]") (auto simp: find_None_iff cached_def)
  then have "cached s bn c" by (metis find_Some_iff)
  with s b have "c = b" by (blast dest: bst_unique)
  with c show ?thesis by (simp add: bview_def)
qed

lemma bview_uncached: "\<forall>b. \<not> cached s bn b \<Longrightarrow> bview s bn = memdisk s ! bn"
proof -
  assume "\<forall>b. \<not> cached s bn b"
  then have "find (cached s bn) [0..<NBUF] = None" by (simp add: find_None_iff)
  then show ?thesis by (simp add: bview_def)
qed

lemma bst_len: "bst s \<Longrightarrow> bn < length (memdisk s) \<Longrightarrow> length (bview s bn) = BSIZE"
proof (cases "\<exists>b. cached s bn b")
  case True
  assume s: "bst s"
  from True obtain b where b: "cached s bn b" by blast
  with s show ?thesis by (auto simp: bview_cached bst_def buf_ok_def cached_def)
next
  case False
  assume s: "bst s" and "bn < length (memdisk s)"
  with False show ?thesis by (simp add: bview_uncached bst_def)
qed

lemma bwalk_next:
  assumes "bst s" and "bnext t = bnext s"
  shows "\<exists>xs. set xs = {0..<NBUF} \<and> (\<forall>P. bwalk bnext P t = Ret (find (\<lambda>b. P (bufs t ! b)) xs) t)"
proof -
  obtain xs where xs: "dll (bnext s) (bprev s) xs" "set xs = {0..<NBUF}" using assms(1) by (auto simp: bst_def)
  then have "length xs = NBUF" using distinct_card [of xs] by (simp add: dll_def)
  then have "blist_find (Suc NBUF) (bnext t) (bnext t NBUF) Q = Some (find Q xs)" for Q
    using xs assms(2) by (intro blist_find_chain) (auto simp: dll_def)
  then show ?thesis using xs(2) by (auto simp: bwalk_def kernel_simps simp del: blist_find.simps)
qed

lemma bwalk_prev:
  assumes "bst s" and "bprev t = bprev s"
  shows "\<exists>xs. set xs = {0..<NBUF} \<and> (\<forall>P. bwalk bprev P t = Ret (find (\<lambda>b. P (bufs t ! b)) xs) t)"
proof -
  obtain xs where xs: "dll (bnext s) (bprev s) xs" "set xs = {0..<NBUF}" using assms(1) by (auto simp: bst_def)
  then have "length (rev xs) = NBUF" using distinct_card [of xs] by (simp add: dll_def)
  then have "blist_find (Suc NBUF) (bprev t) (bprev t NBUF) Q = Some (find Q (rev xs))" for Q
    using xs assms(2) by (intro blist_find_chain) (auto simp: dll_def)
  then show ?thesis using xs(2) by (intro exI [of _ "rev xs"]) (auto simp: bwalk_def kernel_simps simp del: blist_find.simps)
qed

text \<open>One buffer and its lock changed.\<close>

definition bput :: "'z bio_st_scheme \<Rightarrow> nat \<Rightarrow> sleeplock \<Rightarrow> buf \<Rightarrow> 'z bio_st_scheme" where
  "bput s b l x = s\<lparr>slocks := (slocks s)(SL_buf b := l), bufs := (bufs s)[b := x]\<rparr>"

lemma bput_sel [simp]:
  "bufs (bput s b l x) = (bufs s)[b := x]" "slocks (bput s b l x) = (slocks s)(SL_buf b := l)"
  "bnext (bput s b l x) = bnext s" "bprev (bput s b l x) = bprev s" "memdisk (bput s b l x) = memdisk s"
  "dwrites (bput s b l x) = dwrites s" "lk (bput s b l x) = lk s"
  "calm (bput s b l x) = calm s" "curpid (bput s b l x) = curpid s"
  by (simp_all add: bput_def calm_def curpid_def)

lemma bio_frame_refl [simp]: "bio_frame s s"
  unfolding bio_frame_def
  by (rule exI [of _ "slocks s"], rule exI [of _ "bufs s"], rule exI [of _ "bnext s"], rule exI [of _ "bprev s"]) simp

lemma bio_frame_trans: "bio_frame s t \<Longrightarrow> bio_frame t u \<Longrightarrow> bio_frame s u"
proof -
  assume "bio_frame s t" and "bio_frame t u"
  then obtain A B N P A' B' N' P' where "t = s\<lparr>slocks := A, bufs := B, bnext := N, bprev := P\<rparr>"
    "\<forall>i. A (SL_inode i) = slocks s (SL_inode i)" "u = t\<lparr>slocks := A', bufs := B', bnext := N', bprev := P'\<rparr>"
    "\<forall>i. A' (SL_inode i) = slocks t (SL_inode i)" by (auto simp: bio_frame_def)
  then have "u = s\<lparr>slocks := A', bufs := B', bnext := N', bprev := P'\<rparr>" "\<forall>i. A' (SL_inode i) = slocks s (SL_inode i)"
    by simp_all
  then show ?thesis unfolding bio_frame_def by blast
qed

lemma bio_frame_bput [simp]: "bio_frame s (bput s b l x)"
  unfolding bio_frame_def
  by (rule exI [of _ "(slocks s)(SL_buf b := l)"], rule exI [of _ "(bufs s)[b := x]"],
      rule exI [of _ "bnext s"], rule exI [of _ "bprev s"], rule conjI, rule bio_st.equality)
    (simp_all add: bput_def)

lemma cached_bput:
  "length (bufs s) = NBUF \<Longrightarrow> b < NBUF \<Longrightarrow>
   cached (bput s b l x) bn c \<longleftrightarrow> (if c = b then b_dev x = 1 \<and> b_blockno x = bn else cached s bn c)"
  by (auto simp: cached_def)

lemma bst_bput:
  assumes "bst s" and "b < NBUF" and "buf_ok (memdisk s) (curpid s) l x"
    and "b_dev x = 1 \<Longrightarrow> \<forall>c. cached s (b_blockno x) c \<longrightarrow> c = b"
  shows "bst (bput s b l x)"
proof -
  have len: "length (bufs s) = NBUF" using assms(1) by (simp add: bst_def)
  have ok: "buf_ok (memdisk s) (curpid s) (((slocks s)(SL_buf b := l)) (SL_buf c)) ((bufs s)[b := x] ! c)" if "c < NBUF" for c
    using assms(1,3) that len by (cases "c = b") (simp_all add: bst_def)
  have "c = d" if "cached (bput s b l x) bn c" "cached (bput s b l x) bn d" for bn c d
    using that unfolding cached_bput [OF len assms(2)] by (metis assms(4) bst_unique [OF assms(1)])
  then have un: "buf_unique (bput s b l x)" unfolding buf_unique_def by blast
  show ?thesis unfolding bst_def using ok un assms(1) by (simp add: bst_def)
qed

lemma bview_bput:
  assumes "bst s" and "b < NBUF" and "bst (bput s b l x)"
  shows "bview (bput s b l x) bn =
    (if b_dev x = 1 \<and> b_blockno x = bn then b_data x else if cached s bn b then memdisk s ! bn else bview s bn)"
proof -
  have len: "length (bufs s) = NBUF" using assms(1) by (simp add: bst_def)
  let ?t = "bput s b l x"
  note c = cached_bput [OF len assms(2), of l x bn]
  consider (new) "b_dev x = 1 \<and> b_blockno x = bn" | (old) "\<not> (b_dev x = 1 \<and> b_blockno x = bn)" "cached s bn b"
    | (other) c where "\<not> (b_dev x = 1 \<and> b_blockno x = bn)" "c \<noteq> b" "cached s bn c"
    | (none) "\<not> (b_dev x = 1 \<and> b_blockno x = bn)" "\<forall>c. \<not> cached s bn c" by metis
  then show ?thesis
  proof cases
    case new
    then have "cached ?t bn b" using c [of b] by simp
    then have "bview ?t bn = b_data x" using bview_cached [OF assms(3)] len assms(2) by simp
    then show ?thesis by (simp only: if_P [OF new])
  next
    case old
    then have "\<forall>d. \<not> cached ?t bn d" using c bst_unique [OF assms(1)] by metis
    then have "bview ?t bn = memdisk s ! bn" using bview_uncached [of ?t] by simp
    then show ?thesis by (simp only: if_not_P [OF old(1)] if_P [OF old(2)])
  next
    case other
    then have t: "cached ?t bn c" using c by simp
    have n: "\<not> cached s bn b" using other bst_unique [OF assms(1)] by metis
    have "bview ?t bn = bview s bn"
      using bview_cached [OF assms(3) t] bview_cached [OF assms(1) other(3)] other(2) by simp
    then show ?thesis by (simp only: if_not_P [OF other(1)] if_not_P [OF n])
  next
    case none
    then have "\<forall>d. \<not> cached ?t bn d" using c by metis
    then have "bview ?t bn = bview s bn" using bview_uncached [of ?t] bview_uncached [of s] none(2) by simp
    then show ?thesis using none(2) by (simp only: if_not_P [OF none(1)] if_False)
  qed
qed

lemma held_bput:
  assumes "length (bufs s) = NBUF" and "b < NBUF"
  shows "held (bput s b l x) = {bn. \<exists>c. c \<noteq> b \<and> cached s bn c \<and> b_refcnt (bufs s ! c) \<noteq> 0}
     \<union> (if b_dev x = 1 \<and> b_refcnt x \<noteq> 0 then {b_blockno x} else {})"
  using assms by (auto simp: held_def cached_bput split: if_splits)

lemma pinned_bput:
  assumes "length (bufs s) = NBUF" and "b < NBUF"
  shows "pinned (bput s b l x) = {bn. \<exists>c. c \<noteq> b \<and> cached s bn c \<and> b_dirty (bufs s ! c)}
     \<union> (if b_dev x = 1 \<and> b_dirty x then {b_blockno x} else {})"
  using assms by (auto simp: pinned_def cached_bput split: if_splits)

lemma held_split:
  "held s = {bn. \<exists>c. c \<noteq> b \<and> cached s bn c \<and> b_refcnt (bufs s ! c) \<noteq> 0}
     \<union> {bn. cached s bn b \<and> b_refcnt (bufs s ! b) \<noteq> 0}"
  by (auto simp: held_def)

lemma pinned_split:
  "pinned s = {bn. \<exists>c. c \<noteq> b \<and> cached s bn c \<and> b_dirty (bufs s ! c)} \<union> {bn. cached s bn b \<and> b_dirty (bufs s ! b)}"
  by (auto simp: pinned_def)

end
