(* ===== verification/Bcache.thy ===== *)
theory Bcache
  imports Bio
begin

text \<open>
  What the buffer cache (\<^verbatim>\<open>bio.c\<close>) promises its users: the laws of \<^verbatim>\<open>bread\<close>, \<^verbatim>\<open>bwrite\<close> and \<^verbatim>\<open>brelse\<close> over
  the view of the disk that the cache presents, and the interface locale that the log and the file
  system build on.
\<close>

section \<open>Getting a buffer\<close>

lemma find_SomeD: "find P xs = Some x \<Longrightarrow> x \<in> set xs \<and> P x"
  by (induction xs) (auto split: if_splits)

lemma release_bufs:
  fixes s :: "'z bio_st_scheme"
  assumes "quiet (lk s)"
  shows "release l (s\<lparr>lk := lk_acq l (lk s), bufs := B\<rparr>) = Ret () (s\<lparr>bufs := B\<rparr>)"
proof -
  have "release l (s\<lparr>lk := lk_acq l (lk s), bufs := B\<rparr>) = Ret () (s\<lparr>lk := lk_acq l (lk s), bufs := B, lk := lk s\<rparr>)"
    using assms by (subst release_acq [of "lk s"]) (simp_all add: lock_simps)
  also have "s\<lparr>lk := lk_acq l (lk s), bufs := B, lk := lk s\<rparr> = s\<lparr>bufs := B\<rparr>"
    by (rule bio_st.equality) simp_all
  finally show ?thesis .
qed

lemma calm_bufs [simp]: "calm (s\<lparr>bufs := B\<rparr>) = calm s" "curpid (s\<lparr>bufs := B\<rparr>) = curpid s"
  by (simp_all add: calm_def curpid_def)

lemma acquire_buf:
  fixes s :: "'z bio_st_scheme"
  assumes "calm s" and "\<not> sl_locked (slocks s (SL_buf b))"
  shows "acquiresleep (SL_buf b) (s\<lparr>bufs := (bufs s)[b := x]\<rparr>)
     = Ret () (bput s b \<lparr>sl_locked = True, sl_pid = curpid s\<rparr> x)"
  using assms by (subst acquiresleep_run) (auto simp: bput_def)

lemma bwalk_lk:
  assumes "bst s"
  obtains xs ys where "set xs = {0..<NBUF}" "set ys = {0..<NBUF}"
    "\<And>P. bwalk bnext P (s\<lparr>lk := y\<rparr>) = Ret (find (\<lambda>b. P (bufs s ! b)) xs) (s\<lparr>lk := y\<rparr>)"
    "\<And>P. bwalk bprev P (s\<lparr>lk := y\<rparr>) = Ret (find (\<lambda>b. P (bufs s ! b)) ys) (s\<lparr>lk := y\<rparr>)"
  using bwalk_next [OF assms, of "s\<lparr>lk := y\<rparr>"] bwalk_prev [OF assms, of "s\<lparr>lk := y\<rparr>"] by auto

lemma bget_hit:
  assumes "bst s" and "cached s bn b" and "b_refcnt (bufs s ! b) = 0"
  shows "bget 1 bn s = Ret b (bput s b \<lparr>sl_locked = True, sl_pid = curpid s\<rparr> ((bufs s ! b)\<lparr>b_refcnt := 1\<rparr>))"
proof -
  have c: "calm s" and q: "quiet (lk s)" using assms(1) by (simp_all add: bst_def calm_def)
  have b: "b < NBUF" using assms(2) by (simp add: cached_def)
  have u: "\<not> sl_locked (slocks s (SL_buf b))"
    using assms(1,3) b by (auto simp: bst_def buf_ok_def)
  obtain xs where xs: "set xs = {0..<NBUF}"
      "\<And>P. bwalk bnext P (s\<lparr>lk := lk_acq L_bcache (lk s)\<rparr>) = Ret (find (\<lambda>b. P (bufs s ! b)) xs) (s\<lparr>lk := lk_acq L_bcache (lk s)\<rparr>)"
    by (rule bwalk_lk [OF assms(1), of "lk_acq L_bcache (lk s)"]) blast
  have "find (\<lambda>b. b_dev (bufs s ! b) = 1 \<and> b_blockno (bufs s ! b) = bn) xs = Some b"
  proof (cases "find (\<lambda>b. b_dev (bufs s ! b) = 1 \<and> b_blockno (bufs s ! b) = bn) xs")
    case None
    then have "\<not> (\<exists>a. a \<in> set xs \<and> b_dev (bufs s ! a) = 1 \<and> b_blockno (bufs s ! a) = bn)"
      unfolding find_None_iff .
    moreover have "b \<in> set xs \<and> b_dev (bufs s ! b) = 1 \<and> b_blockno (bufs s ! b) = bn"
      using assms(2) xs(1) by (simp add: cached_def)
    ultimately show ?thesis by blast
  next
    case (Some a)
    from find_SomeD [OF this] have "cached s bn a" using xs(1) by (simp add: cached_def)
    from bst_unique [OF assms(1) this assms(2)] Some show ?thesis by simp
  qed
  with xs(2) show ?thesis
    using q c u assms(3) by (simp add: bget_def kernel_simps acquire_quiet bset_def release_bufs acquire_buf)
qed

lemma bget_miss:
  assumes "bst s" and "\<forall>b. \<not> cached s bn b" and "\<exists>b < NBUF. b_refcnt (bufs s ! b) = 0 \<and> \<not> b_dirty (bufs s ! b)"
  shows "\<exists>b < NBUF. b_refcnt (bufs s ! b) = 0 \<and> \<not> b_dirty (bufs s ! b)
     \<and> bget 1 bn s = Ret b (bput s b \<lparr>sl_locked = True, sl_pid = curpid s\<rparr>
          ((bufs s ! b)\<lparr>b_dev := 1, b_blockno := bn, b_valid := False, b_dirty := False, b_refcnt := 1\<rparr>))"
proof -
  let ?t = "s\<lparr>lk := lk_acq L_bcache (lk s)\<rparr>" and ?P = "\<lambda>b. b_dev (bufs s ! b) = 1 \<and> b_blockno (bufs s ! b) = bn"
  let ?F = "\<lambda>b. b_refcnt (bufs s ! b) = 0 \<and> \<not> b_dirty (bufs s ! b)"
  have c: "calm s" and q: "quiet (lk s)" using assms(1) by (simp_all add: bst_def calm_def)
  obtain xs ys where xs: "set xs = {0..<NBUF}" "set ys = {0..<NBUF}"
      "\<And>P. bwalk bnext P ?t = Ret (find (\<lambda>b. P (bufs s ! b)) xs) ?t"
      "\<And>P. bwalk bprev P ?t = Ret (find (\<lambda>b. P (bufs s ! b)) ys) ?t"
    by (rule bwalk_lk [OF assms(1), of "lk_acq L_bcache (lk s)"]) blast
  have none: "find ?P xs = None" using assms(2) xs(1) by (auto simp: find_None_iff cached_def)
  obtain b where b: "find ?F ys = Some b"
    using assms(3) xs(2) by (cases "find ?F ys") (auto simp: find_None_iff)
  then have bb: "b \<in> set ys" "?F b" using find_SomeD [of ?F ys b] by auto
  then have u: "\<not> sl_locked (slocks s (SL_buf b))"
    using assms(1) xs(2) by (auto simp: bst_def buf_ok_def)
  show ?thesis
    using bb xs none b q c u
    by (intro exI [of _ b]) (simp add: bget_def kernel_simps acquire_quiet bset_def release_bufs acquire_buf)
qed

section \<open>The laws\<close>

definition holds :: "'z bio_st_scheme \<Rightarrow> nat \<Rightarrow> nat \<Rightarrow> bool" where
  "holds s bn b \<longleftrightarrow> cached s bn b \<and> b_refcnt (bufs s ! b) \<noteq> 0"

definition room :: "'z bio_st_scheme \<Rightarrow> bool" where
  "room s \<longleftrightarrow> (\<exists>b < NBUF. b_refcnt (bufs s ! b) = 0 \<and> \<not> b_dirty (bufs s ! b))"

lemma holds_held: "holds s bn b \<Longrightarrow> bn \<in> held s"
  by (auto simp: holds_def held_def)

lemma holds_buf:
  assumes "bst s" and "holds s bn b"
  shows "b < NBUF" "b_dev (bufs s ! b) = 1" "b_blockno (bufs s ! b) = bn" "b_valid (bufs s ! b)"
    "b_refcnt (bufs s ! b) = 1" "sl_locked (slocks s (SL_buf b))" "sl_pid (slocks s (SL_buf b)) = curpid s"
    "bn < length (memdisk s)" "b_data (bufs s ! b) = bview s bn" "length (bview s bn) = BSIZE"
proof -
  have c: "cached s bn b" using assms(2) by (simp add: holds_def)
  then show b: "b < NBUF" and d: "b_dev (bufs s ! b) = 1" and n: "b_blockno (bufs s ! b) = bn" by (simp_all add: cached_def)
  have ok: "buf_ok (memdisk s) (curpid s) (slocks s (SL_buf b)) (bufs s ! b)" using assms(1) b by (simp add: bst_def)
  show "b_valid (bufs s ! b)" "b_refcnt (bufs s ! b) = 1" "sl_locked (slocks s (SL_buf b))"
    "sl_pid (slocks s (SL_buf b)) = curpid s" "bn < length (memdisk s)"
    using ok d n assms(2) by (auto simp: buf_ok_def holds_def)
  show v: "b_data (bufs s ! b) = bview s bn" using bview_cached [OF assms(1) c] by simp
  show "length (bview s bn) = BSIZE" using ok v by (simp add: buf_ok_def)
qed

text \<open>The effect of replacing a buffer by one for the same block.\<close>

lemma bput_same:
  assumes "bst s" and "cached s bn b" and "b_dev x = 1" and "b_blockno x = bn"
    and ok: "buf_ok (memdisk s) (curpid s) l x"
  shows "bst (bput s b l x)" "bview (bput s b l x) = (bview s)(bn := b_data x)"
    "held (bput s b l x) = (if b_refcnt x = 0 then held s - {bn} else insert bn (held s))"
    "pinned (bput s b l x) = (if b_dirty x then insert bn (pinned s) else pinned s - {bn})"
    "cached (bput s b l x) n c = cached s n c"
    "holds (bput s b l x) n c = (if c = b then n = bn \<and> b_refcnt x \<noteq> 0 else holds s n c)"
proof -
  have b: "b < NBUF" and old: "b_dev (bufs s ! b) = 1" "b_blockno (bufs s ! b) = bn"
    using assms(2) by (simp_all add: cached_def)
  have len: "length (bufs s) = NBUF" using assms(1) by (simp add: bst_def)
  have un: "cached s bn c \<Longrightarrow> c = b" for c using bst_unique [OF assms(1) _ assms(2)] .
  show new: "bst (bput s b l x)" by (rule bst_bput [OF assms(1) b ok]) (use un assms(4) in blast)
  show "bview (bput s b l x) = (bview s)(bn := b_data x)"
    using assms(3,4) old by (auto simp: bview_bput [OF assms(1) b new] cached_def)
  have nb: "cached s n b \<Longrightarrow> n = bn" for n using old by (simp add: cached_def)
  have h: "{n. \<exists>c. c \<noteq> b \<and> cached s n c \<and> b_refcnt (bufs s ! c) \<noteq> 0} = held s - {bn}"
    unfolding held_def by (rule set_eqI, unfold mem_Collect_eq Diff_iff singleton_iff) (metis un nb)
  show "held (bput s b l x) = (if b_refcnt x = 0 then held s - {bn} else insert bn (held s))"
    unfolding held_bput [OF len b] h using assms(3,4) by auto
  have p: "{n. \<exists>c. c \<noteq> b \<and> cached s n c \<and> b_dirty (bufs s ! c)} = pinned s - {bn}"
    unfolding pinned_def by (rule set_eqI, unfold mem_Collect_eq Diff_iff singleton_iff) (metis un nb)
  show "pinned (bput s b l x) = (if b_dirty x then insert bn (pinned s) else pinned s - {bn})"
    unfolding pinned_bput [OF len b] p using assms(3,4) by auto
  show ca: "cached (bput s b l x) n c = cached s n c" for n c
    unfolding cached_bput [OF len b] using assms(2-4) old b by (auto simp: cached_def)
  show "holds (bput s b l x) n c = (if c = b then n = bn \<and> b_refcnt x \<noteq> 0 else holds s n c)"
    unfolding holds_def ca using len b old by (auto simp: cached_def)
qed

lemma bset_bput: "bset b g s = Ret () (bput s b (slocks s (SL_buf b)) (g (bufs s ! b)))"
proof -
  have "s\<lparr>bufs := (bufs s)[b := g (bufs s ! b)]\<rparr> = bput s b (slocks s (SL_buf b)) (g (bufs s ! b))"
    unfolding bput_def by (rule bio_st.equality) simp_all
  then show ?thesis by (simp add: bset_def kernel_simps)
qed

lemma iderw_read:
  assumes "calm s" and "sl_locked (slocks s (SL_buf b))" and "sl_pid (slocks s (SL_buf b)) = curpid s"
    and "\<not> b_valid (bufs s ! b)" and "\<not> b_dirty (bufs s ! b)" and "b_dev (bufs s ! b) = 1"
    and "b_blockno (bufs s ! b) < length (memdisk s)" and "b < length (bufs s)"
  shows "iderw b s = Ret () (bput s b (slocks s (SL_buf b))
     ((bufs s ! b)\<lparr>b_data := memdisk s ! b_blockno (bufs s ! b), b_valid := True\<rparr>))"
  using assms by (simp add: iderw_def kernel_simps holdingsleep_run bset_bput) (simp add: bput_def)

theorem bread_law:
  assumes "bst s" and "bn < length (memdisk s)" and "bn \<notin> held s" and "room s \<or> bn \<in> pinned s"
  shows "\<exists>b t. bread 1 bn s = Ret b t \<and> bst t \<and> bio_frame s t \<and> holds t bn b
     \<and> bview t = bview s \<and> held t = insert bn (held s) \<and> pinned t = pinned s
     \<and> (\<forall>n c. holds t n c \<longleftrightarrow> n = bn \<and> c = b \<or> holds s n c)"
proof (cases "\<exists>b. cached s bn b")
  case True
  then obtain b where b: "cached s bn b" by blast
  let ?l = "\<lparr>sl_locked = True, sl_pid = curpid s\<rparr>" and ?x = "(bufs s ! b)\<lparr>b_refcnt := 1\<rparr>"
  have r: "b_refcnt (bufs s ! b) = 0" using assms(3) b by (auto simp: held_def)
  have ok: "buf_ok (memdisk s) (curpid s) (slocks s (SL_buf b)) (bufs s ! b)" and bb: "b < NBUF" "b_dev (bufs s ! b) = 1"
      "b_blockno (bufs s ! b) = bn" and len: "length (bufs s) = NBUF"
    using assms(1) b by (auto simp: bst_def cached_def)
  have ok': "buf_ok (memdisk s) (curpid s) ?l ?x" using ok bb by (auto simp: buf_ok_def)
  note new = bput_same [OF assms(1) b _ _ ok']
  let ?t = "bput s b ?l ?x"
  have "bread 1 bn s = Ret b ?t"
    using bget_hit [OF assms(1) b r] ok bb len by (simp add: bread_def kernel_simps buf_ok_def)
  moreover have "bst ?t" using new(1) bb by simp
  moreover have "bview ?t = bview s" using new(2) bb bview_cached [OF assms(1) b] by (auto simp: fun_eq_iff)
  moreover have "held ?t = insert bn (held s)" using new(3) bb by simp
  moreover have "pinned ?t = pinned s"
  proof -
    have "bn \<in> pinned s \<longleftrightarrow> b_dirty (bufs s ! b)"
      unfolding pinned_def using b bst_unique [OF assms(1) b] by blast
    then show ?thesis using new(4) bb by auto
  qed
  moreover have "\<forall>n c. holds ?t n c \<longleftrightarrow> n = bn \<and> c = b \<or> holds s n c"
    using new(6) bb r by (auto simp: holds_def [of s])
  ultimately show ?thesis using bio_frame_bput by blast
next
  case False
  have "\<exists>b < NBUF. b_refcnt (bufs s ! b) = 0 \<and> \<not> b_dirty (bufs s ! b)" using assms(4) False by (auto simp: room_def pinned_def)
  then obtain b where b: "b < NBUF" "b_refcnt (bufs s ! b) = 0" "\<not> b_dirty (bufs s ! b)"
    and get: "bget 1 bn s = Ret b (bput s b \<lparr>sl_locked = True, sl_pid = curpid s\<rparr>
          ((bufs s ! b)\<lparr>b_dev := 1, b_blockno := bn, b_valid := False, b_dirty := False, b_refcnt := 1\<rparr>))"
    using bget_miss [OF assms(1), of bn] False by blast
  let ?l = "\<lparr>sl_locked = True, sl_pid = curpid s\<rparr>"
  let ?x = "(bufs s ! b)\<lparr>b_dev := 1, b_blockno := bn, b_dirty := False, b_refcnt := 1, b_data := memdisk s ! bn, b_valid := True\<rparr>"
  let ?t = "bput s b ?l ?x"
  have len: "length (bufs s) = NBUF" and c: "calm s" and disk: "length (memdisk s ! bn) = BSIZE"
    and bok: "buf_ok (memdisk s) (curpid s) (slocks s (SL_buf b)) (bufs s ! b)"
    using assms(1,2) b(1) by (auto simp: bst_def)
  have "buf_ok (memdisk s) (curpid s) ?l ?x" using assms(2) disk by (auto simp: buf_ok_def)
  then have t: "bst ?t" by (rule bst_bput [OF assms(1) b(1)]) (use False in simp)
  have "bread 1 bn s = Ret b ?t"
    using get len b c assms(2) by (simp add: bread_def kernel_simps iderw_read) (simp add: bput_def)
  moreover have "bview ?t = bview s"
  proof
    fix n
    have "cached s n b \<Longrightarrow> bview s n = memdisk s ! n"
      using bview_cached [OF assms(1)] bok b by (auto simp: buf_ok_def cached_def)
    moreover have "bview s bn = memdisk s ! bn" using False by (intro bview_uncached) blast
    ultimately show "bview ?t n = bview s n" unfolding bview_bput [OF assms(1) b(1) t] by auto
  qed
  moreover have "held ?t = insert bn (held s)" "pinned ?t = pinned s"
    using b by (auto simp: held_bput [OF len b(1)] pinned_bput [OF len b(1)] held_split [of s b] pinned_split [of s b])
  moreover have "\<forall>n c. holds ?t n c \<longleftrightarrow> n = bn \<and> c = b \<or> holds s n c"
    using b len by (auto simp: holds_def cached_bput [OF len b(1)])
  ultimately show ?thesis using t bio_frame_bput by blast
qed

text \<open>Changing the data of a buffer one holds, and marking it dirty.\<close>

theorem bdata_law:
  assumes "bst s" and "holds s bn b" and "length (f (bview s bn)) = BSIZE"
  shows "\<exists>t. bset b (b_data_update f) s = Ret () t \<and> bst t \<and> bio_frame s t
     \<and> bview t = (bview s)(bn := f (bview s bn)) \<and> held t = held s \<and> pinned t = pinned s \<and> holds t = holds s"
proof -
  note b = holds_buf [OF assms(1,2)]
  let ?x = "(bufs s ! b)\<lparr>b_data := f (bview s bn)\<rparr>"
  have c: "cached s bn b" using assms(2) by (simp add: holds_def)
  have "buf_ok (memdisk s) (curpid s) (slocks s (SL_buf b)) ?x" using b assms(3) by (simp add: buf_ok_def)
  note new = bput_same [OF assms(1) c _ _ this]
  have "b_data_update f (bufs s ! b) = ?x" using b by simp
  then have run: "bset b (b_data_update f) s = Ret () (bput s b (slocks s (SL_buf b)) ?x)" by (simp add: bset_bput)
  have "bn \<in> pinned s \<longleftrightarrow> b_dirty (bufs s ! b)"
    unfolding pinned_def using c bst_unique [OF assms(1) c] by blast
  then have p: "pinned (bput s b (slocks s (SL_buf b)) ?x) = pinned s" using new(4) b by auto
  have "holds (bput s b (slocks s (SL_buf b)) ?x) = holds s"
    using new(6) b by (auto simp: fun_eq_iff holds_def [of s] cached_def)
  then show ?thesis using run p new(1-3) b holds_held [OF assms(2)] by (simp add: insert_absorb)
qed

theorem bdirty_law:
  assumes "bst s" and "holds s bn b"
  shows "\<exists>t. bset b (b_dirty_update (\<lambda>_. True)) s = Ret () t \<and> bst t \<and> bio_frame s t
     \<and> bview t = bview s \<and> held t = held s \<and> pinned t = insert bn (pinned s) \<and> holds t = holds s"
proof -
  note b = holds_buf [OF assms]
  let ?x = "(bufs s ! b)\<lparr>b_dirty := True\<rparr>"
  have c: "cached s bn b" using assms(2) by (simp add: holds_def)
  have "buf_ok (memdisk s) (curpid s) (slocks s (SL_buf b)) ?x" using b by (simp add: buf_ok_def)
  note new = bput_same [OF assms(1) c _ _ this]
  have run: "bset b (b_dirty_update (\<lambda>_. True)) s = Ret () (bput s b (slocks s (SL_buf b)) ?x)" by (simp add: bset_bput)
  have "holds (bput s b (slocks s (SL_buf b)) ?x) = holds s"
    using new(6) b by (auto simp: fun_eq_iff holds_def [of s] cached_def)
  moreover have "bview (bput s b (slocks s (SL_buf b)) ?x) = bview s" using new(2) b by (auto simp: fun_eq_iff)
  ultimately show ?thesis using run new(1,3,4) b holds_held [OF assms(2)] by (simp add: insert_absorb)
qed

text \<open>Writing a buffer to the disk.\<close>

lemma bst_disk:
  assumes "bst s" and "holds s bn b" and "length d = BSIZE"
  shows "bst (s\<lparr>memdisk := (memdisk s)[bn := d], dwrites := w\<rparr>)"
proof -
  note b = holds_buf [OF assms(1,2)]
  let ?t = "s\<lparr>memdisk := (memdisk s)[bn := d], dwrites := w\<rparr>"
  have c: "cached s bn b" using assms(2) by (simp add: holds_def)
  have "cached ?t = cached s" by (simp add: cached_def fun_eq_iff)
  then have u: "buf_unique ?t" using assms(1) by (simp add: bst_def buf_unique_def)
  have cc: "calm ?t = calm s" "curpid ?t = curpid s" by (simp_all add: calm_def curpid_def)
  have ok: "buf_ok ((memdisk s)[bn := d]) (curpid s) (slocks s (SL_buf e)) (bufs s ! e)" if "e < NBUF" for e
  proof -
    have o: "buf_ok (memdisk s) (curpid s) (slocks s (SL_buf e)) (bufs s ! e)" using assms(1) that by (simp add: bst_def)
    show ?thesis
    proof (cases "e = b")
      case True
      then show ?thesis using o b by (simp add: buf_ok_def)
    next
      case False
      then have "b_dev (bufs s ! e) = 1 \<Longrightarrow> b_blockno (bufs s ! e) \<noteq> bn"
        using bst_unique [OF assms(1) c, of e] that by (auto simp: cached_def)
      then show ?thesis using o by (auto simp: buf_ok_def)
    qed
  qed
  have "\<forall>e \<in> set ((memdisk s)[bn := d]). length e = BSIZE"
    using assms(1,3) set_update_subset_insert [of "memdisk s" bn d] by (auto simp: bst_def)
  then show ?thesis using assms(1) u cc ok by (simp add: bst_def)
qed

lemma disk_views:
  "held (s\<lparr>memdisk := d, dwrites := w\<rparr>) = held s" "pinned (s\<lparr>memdisk := d, dwrites := w\<rparr>) = pinned s"
  "holds (s\<lparr>memdisk := d, dwrites := w\<rparr>) = holds s" "cached (s\<lparr>memdisk := d, dwrites := w\<rparr>) = cached s"
  by (simp_all add: held_def pinned_def holds_def cached_def fun_eq_iff)

theorem bwrite_law:
  assumes "bst s" and "holds s bn b"
  shows "\<exists>t. bwrite b s = Ret () t \<and> bst t
     \<and> bio_frame (s\<lparr>memdisk := (memdisk s)[bn := bview s bn], dwrites := dwrites s @ [(bn, bview s bn)]\<rparr>) t
     \<and> bview t = bview s \<and> held t = held s \<and> pinned t = pinned s - {bn} \<and> holds t = holds s"
proof -
  note b = holds_buf [OF assms]
  let ?d = "s\<lparr>memdisk := (memdisk s)[bn := bview s bn], dwrites := dwrites s @ [(bn, bview s bn)]\<rparr>"
  have c: "cached s bn b" and calm: "calm s" and len: "length (bufs s) = NBUF"
    using assms by (simp_all add: holds_def bst_def)
  let ?x = "(bufs s ! b)\<lparr>b_dirty := False, b_valid := True\<rparr>"
  have d: "bst ?d" by (rule bst_disk [OF assms b(10)])
  have hd: "holds ?d bn b" and cd: "cached ?d bn b" using assms(2) c by (simp_all add: disk_views)
  have "buf_ok (memdisk ?d) (curpid ?d) (slocks ?d (SL_buf b)) ?x"
    using b by (simp add: buf_ok_def curpid_def)
  note new = bput_same [OF d cd _ _ this]
  let ?t = "bput ?d b (slocks s (SL_buf b)) ?x"
  have "bwrite b s = Ret () ?t"
    using b calm len
    by (simp add: bwrite_def iderw_def kernel_simps holdingsleep_run bset_bput)
      (simp add: bput_def disk_views)
  moreover have "bst ?t" using new(1) b by simp
  moreover have "bview ?t = bview s"
  proof
    fix n
    have "bview ?d n = bview s n" if "n \<noteq> bn"
      using that unfolding bview_def disk_views by (simp split: option.split)
    then show "bview ?t n = bview s n" using new(2) b by simp
  qed
  moreover have "held ?t = held s" "pinned ?t = pinned s - {bn}"
    using new(3,4) b holds_held [OF assms(2)] by (simp_all add: disk_views insert_absorb)
  moreover have "holds ?t = holds s"
    using new(6) b by (auto simp: fun_eq_iff disk_views holds_def [of s] cached_def)
  ultimately show ?thesis using bio_frame_bput by blast
qed

text \<open>Giving a buffer back.\<close>

lemma links_views:
  "held (s\<lparr>bnext := d, bprev := w\<rparr>) = held s" "pinned (s\<lparr>bnext := d, bprev := w\<rparr>) = pinned s"
  "holds (s\<lparr>bnext := d, bprev := w\<rparr>) = holds s" "cached (s\<lparr>bnext := d, bprev := w\<rparr>) = cached s"
  "bview (s\<lparr>bnext := d, bprev := w\<rparr>) = bview s" "calm (s\<lparr>bnext := d, bprev := w\<rparr>) = calm s"
  "curpid (s\<lparr>bnext := d, bprev := w\<rparr>) = curpid s"
proof -
  show c: "cached (s\<lparr>bnext := d, bprev := w\<rparr>) = cached s" by (simp add: cached_def fun_eq_iff)
  show "bview (s\<lparr>bnext := d, bprev := w\<rparr>) = bview s" by (rule ext) (simp add: bview_def c split: option.split)
qed (simp_all add: held_def pinned_def holds_def cached_def calm_def curpid_def fun_eq_iff)

lemma bst_links:
  assumes "bst s" and "dll nx pv xs" and "set xs = {0..<NBUF}"
  shows "bst (s\<lparr>bnext := nx, bprev := pv\<rparr>)"
proof -
  have "buf_unique (s\<lparr>bnext := nx, bprev := pv\<rparr>) = buf_unique s" by (simp add: buf_unique_def links_views)
  then show ?thesis using assms by (auto simp: bst_def links_views)
qed

theorem brelse_law:
  assumes "bst s" and "holds s bn b" and "bn \<in> pinned s \<or> bview s bn = memdisk s ! bn"
  shows "\<exists>t. brelse b s = Ret () t \<and> bst t \<and> bio_frame s t \<and> bview t = bview s
     \<and> held t = held s - {bn} \<and> pinned t = pinned s \<and> (\<forall>n c. holds t n c \<longleftrightarrow> n \<noteq> bn \<and> holds s n c)"
proof -
  note b = holds_buf [OF assms(1,2)]
  let ?l = "\<lparr>sl_locked = False, sl_pid = 0\<rparr>" and ?x = "(bufs s ! b)\<lparr>b_refcnt := 0\<rparr>"
  let ?t = "bput s b ?l ?x"
  have c: "cached s bn b" and calm: "calm s" and q: "quiet (lk s)" and len: "length (bufs s) = NBUF"
    using assms by (simp_all add: holds_def bst_def calm_def)
  have pin: "bn \<in> pinned s \<longleftrightarrow> b_dirty (bufs s ! b)"
    unfolding pinned_def using c bst_unique [OF assms(1) c] by blast
  have "buf_ok (memdisk s) (curpid s) ?l ?x" using b assms(3) pin by (auto simp: buf_ok_def)
  note new = bput_same [OF assms(1) c _ _ this]
  have t: "bst ?t" using new(1) b by simp
  obtain xs where xs: "dll (bnext s) (bprev s) xs" "set xs = {0..<NBUF}" using assms(1) by (auto simp: bst_def)
  then obtain us vs where uv: "xs = us @ b # vs" using b(1) split_list [of b xs] by auto
  let ?m = "s\<lparr>slocks := (slocks s)(SL_buf b := ?l), lk := lk_acq L_bcache (lk s), bufs := (bufs s)[b := ?x]\<rparr>"
  obtain nx pv where mv: "bmove b ?m = Ret () (?m\<lparr>bnext := nx, bprev := pv\<rparr>)" "dll nx pv (b # us @ vs)"
    using dll_move_front [of ?m us b vs] xs(1) uv by auto
  have rel: "release L_bcache (?m\<lparr>bnext := nx, bprev := pv\<rparr>) = Ret () (?t\<lparr>bnext := nx, bprev := pv\<rparr>)"
    using q by (subst release_acq [of "lk s"]) (auto simp: lock_simps bput_def intro!: bio_st.equality)
  have run: "brelse b s = Ret () (?t\<lparr>bnext := nx, bprev := pv\<rparr>)"
    using b calm q len mv(1) rel
    by (simp add: brelse_def kernel_simps holdingsleep_run releasesleep_run acquire_quiet bset_def)
  have "bst (?t\<lparr>bnext := nx, bprev := pv\<rparr>)" by (rule bst_links [OF t mv(2)]) (use xs uv in auto)
  moreover have "bio_frame s (?t\<lparr>bnext := nx, bprev := pv\<rparr>)"
    unfolding bio_frame_def bput_def by (rule exI, rule exI, rule exI, rule exI, rule conjI, rule refl) simp
  moreover have "bview ?t = bview s" using new(2) b by (auto simp: fun_eq_iff)
  moreover have "held ?t = held s - {bn}" using new(3) b by simp
  moreover have "pinned ?t = pinned s" using new(4) b pin by auto
  moreover have "\<forall>n c. holds ?t n c \<longleftrightarrow> n \<noteq> bn \<and> holds s n c"
  proof (intro allI)
    fix n e
    have "e \<noteq> b \<Longrightarrow> holds s n e \<Longrightarrow> n \<noteq> bn" using bst_unique [OF assms(1) c] by (auto simp: holds_def)
    moreover have "holds s n b \<Longrightarrow> n = bn" using b by (simp add: holds_def cached_def)
    ultimately show "holds ?t n e \<longleftrightarrow> n \<noteq> bn \<and> holds s n e" using new(6) [of n e] b by auto
  qed
  ultimately show ?thesis using run by (simp add: links_views)
qed

text \<open>There is a buffer to recycle as long as fewer than \<open>NBUF\<close> blocks are held or pinned.\<close>

lemma room_card:
  assumes "bst s" and "card (held s \<union> pinned s) < NBUF"
  shows "room s"
proof (rule ccontr)
  assume "\<not> room s"
  then have full: "b_refcnt (bufs s ! b) \<noteq> 0 \<or> b_dirty (bufs s ! b)" if "b < NBUF" for b
    using that by (auto simp: room_def)
  let ?f = "\<lambda>b. b_blockno (bufs s ! b)"
  have c: "cached s (?f b) b" if "b < NBUF" for b
    using assms(1) that full [OF that] by (auto simp: bst_def cached_def buf_ok_def split: if_splits)
  have inj: "inj_on ?f {0..<NBUF}"
  proof (rule inj_onI)
    fix a b assume "a \<in> {0..<NBUF}" "b \<in> {0..<NBUF}" "?f a = ?f b"
    then show "a = b" using bst_unique [OF assms(1), of "?f a" a b] c [of a] c [of b] by simp
  qed
  have sub: "?f ` {0..<NBUF} \<subseteq> held s \<union> pinned s"
  proof
    fix n assume "n \<in> ?f ` {0..<NBUF}"
    then obtain b where "b < NBUF" "n = ?f b" by auto
    then show "n \<in> held s \<union> pinned s" using full c by (auto simp: held_def pinned_def)
  qed
  have fin: "finite (held s \<union> pinned s)"
  proof (rule finite_subset)
    show "held s \<union> pinned s \<subseteq> ?f ` {0..<NBUF}" by (auto simp: held_def pinned_def cached_def)
  qed simp
  show False using card_mono [OF fin sub] card_image [OF inj] assms(2) by simp
qed

text \<open>A block that nobody holds is pinned or agrees with the disk.\<close>

lemma unheld_clean:
  assumes "bst s" and "bn \<notin> held s"
  shows "bn \<in> pinned s \<or> bview s bn = memdisk s ! bn"
proof (cases "\<exists>b. cached s bn b")
  case True
  then obtain b where b: "cached s bn b" by blast
  have "b_refcnt (bufs s ! b) = 0" using assms(2) b by (auto simp: held_def)
  then show ?thesis
    using assms(1) b bview_cached [OF assms(1) b] by (auto simp: bst_def buf_ok_def pinned_def cached_def)
qed (simp add: bview_uncached)

definition clean :: "'z bio_st_scheme \<Rightarrow> nat \<Rightarrow> bool" where
  "clean s bn \<longleftrightarrow> bn \<in> pinned s \<or> bview s bn = memdisk s ! bn"

text \<open>The parts of the state that the cache depends on.\<close>

definition bio_agree :: "'y bio_st_scheme \<Rightarrow> 'z bio_st_scheme \<Rightarrow> bool" where
  "bio_agree s t \<longleftrightarrow> bufs t = bufs s \<and> memdisk t = memdisk s \<and> slocks t = slocks s \<and> bnext t = bnext s
     \<and> bprev t = bprev s \<and> lk t = lk s \<and> procs t = procs s \<and> cpu_proc t = cpu_proc s"

lemma bio_agree_views:
  assumes "bio_agree s t"
  shows "cached t = cached s" "bview t = bview s" "held t = held s" "pinned t = pinned s" "holds t = holds s"
    "room t = room s" "bst t = bst s" "clean t = clean s"
proof -
  show c: "cached t = cached s" using assms by (simp add: bio_agree_def cached_def fun_eq_iff)
  show v: "bview t = bview s" by (rule ext) (use assms in \<open>simp add: bio_agree_def bview_def c split: option.split\<close>)
  show h: "held t = held s" "holds t = holds s" and r: "room t = room s"
    using assms by (simp_all add: bio_agree_def held_def holds_def room_def c fun_eq_iff)
  show p: "pinned t = pinned s" using assms by (simp add: bio_agree_def pinned_def c)
  show "bst t = bst s" using assms by (simp add: bio_agree_def bst_def c buf_unique_def calm_def curpid_def)
  show "clean t = clean s" using assms by (simp add: fun_eq_iff clean_def p v bio_agree_def)
qed

section \<open>The interface\<close>

text \<open>
  A block store: \<open>rd\<close> locks a block, \<open>put\<close> changes its content, \<open>mark\<close> makes the change permanent (for
  the log itself by writing through to the disk, for the file system by entering the block into the
  log) and \<open>rel\<close> unlocks it. \<open>own s bn b\<close> says that handle \<open>b\<close> stands for the locked block \<open>bn\<close>, \<open>safe\<close>
  that giving a block back loses nothing, \<open>blk\<close> and \<open>mk\<close> which blocks may be read and marked, and
  \<open>space s k\<close> that \<open>k\<close> more blocks may be marked. \<open>rfr\<close> and \<open>fr\<close> say what else the operations leave
  alone, \<open>rfr\<close> those other than \<open>mark\<close>.
\<close>

locale block_store =
  fixes inv :: "'s \<Rightarrow> bool" and view :: "'s \<Rightarrow> nat \<Rightarrow> block" and locked :: "'s \<Rightarrow> nat set"
    and own :: "'s \<Rightarrow> nat \<Rightarrow> nat \<Rightarrow> bool" and safe :: "'s \<Rightarrow> nat \<Rightarrow> bool" and blk :: "'s \<Rightarrow> nat \<Rightarrow> bool"
    and mk :: "'s \<Rightarrow> nat \<Rightarrow> bool" and space :: "'s \<Rightarrow> nat \<Rightarrow> bool"
    and rfr :: "'s \<Rightarrow> 's \<Rightarrow> bool" and fr :: "'s \<Rightarrow> 's \<Rightarrow> bool"
    and rd :: "nat \<Rightarrow> ('s, nat) kernel" and data :: "'s \<Rightarrow> nat \<Rightarrow> block"
    and put :: "nat \<Rightarrow> (block \<Rightarrow> block) \<Rightarrow> ('s, unit) kernel"
    and mark :: "nat \<Rightarrow> ('s, unit) kernel" and rel :: "nat \<Rightarrow> ('s, unit) kernel"
  assumes rfr_trans: "rfr s t \<Longrightarrow> rfr t u \<Longrightarrow> rfr s u" and fr_trans: "fr s t \<Longrightarrow> fr t u \<Longrightarrow> fr s u"
    and rfr_fr: "rfr s t \<Longrightarrow> fr s t" and fr_blk: "fr s t \<Longrightarrow> blk t = blk s \<and> mk t = mk s"
    and rfr_space: "rfr s t \<Longrightarrow> space t = space s"
    and rd_law: "inv s \<Longrightarrow> blk s bn \<Longrightarrow> bn \<notin> locked s \<Longrightarrow> space s k \<Longrightarrow> card (locked s) \<le> k \<Longrightarrow>
        \<exists>b t. rd bn s = Ret b t \<and> inv t \<and> rfr s t \<and> own t bn b \<and> safe t bn
        \<and> view t = view s \<and> locked t = insert bn (locked s) \<and> (\<forall>n c. own s n c \<longrightarrow> own t n c)
        \<and> (\<forall>n. safe s n \<longrightarrow> safe t n)"
    and data_law: "inv s \<Longrightarrow> own s bn b \<Longrightarrow> data s b = view s bn \<and> length (view s bn) = BSIZE"
    and put_law: "inv s \<Longrightarrow> own s bn b \<Longrightarrow> length (f (view s bn)) = BSIZE \<Longrightarrow>
        \<exists>t. put b f s = Ret () t \<and> inv t \<and> rfr s t \<and> own t = own s \<and> view t = (view s)(bn := f (view s bn))
        \<and> locked t = locked s \<and> (\<forall>n. n \<noteq> bn \<longrightarrow> safe s n \<longrightarrow> safe t n)"
    and mark_law: "inv s \<Longrightarrow> own s bn b \<Longrightarrow> mk s bn \<Longrightarrow> space s (Suc k) \<Longrightarrow>
        \<exists>t. mark b s = Ret () t \<and> inv t \<and> fr s t \<and> own t = own s \<and> view t = view s \<and> locked t = locked s
        \<and> safe t bn \<and> (\<forall>n. safe s n \<longrightarrow> safe t n) \<and> space t k"
    and rel_law: "inv s \<Longrightarrow> own s bn b \<Longrightarrow> safe s bn \<Longrightarrow>
        \<exists>t. rel b s = Ret () t \<and> inv t \<and> rfr s t \<and> view t = view s \<and> locked t = locked s - {bn}
        \<and> (\<forall>n c. n \<noteq> bn \<longrightarrow> own s n c \<longrightarrow> own t n c) \<and> (\<forall>n. safe s n \<longrightarrow> safe t n)"
begin

text \<open>Reading a block and giving it back.\<close>

lemma block_get:
  assumes "inv s" and "blk s bn" and "bn \<notin> locked s" and "space s k" and "card (locked s) \<le> k"
  shows "\<exists>t. kbind (rd bn) (\<lambda>b. kbind (kget (\<lambda>s. f (data s b))) (\<lambda>r. kthen (rel b) (kret r))) s = Ret (f (view s bn)) t
    \<and> inv t \<and> rfr s t \<and> view t = view s \<and> locked t = locked s \<and> (\<forall>n c. own s n c \<longrightarrow> n \<noteq> bn \<longrightarrow> own t n c) \<and> (\<forall>n. safe s n \<longrightarrow> safe t n)"
proof -
  obtain b t where t: "rd bn s = Ret b t" "inv t" "rfr s t" "own t bn b" "safe t bn" "view t = view s"
      "locked t = insert bn (locked s)" "\<forall>n c. own s n c \<longrightarrow> own t n c" "\<forall>n. safe s n \<longrightarrow> safe t n"
    using rd_law [OF assms] by blast
  obtain u where u: "rel b t = Ret () u" "inv u" "rfr t u" "view u = view t" "locked u = locked t - {bn}"
      "\<forall>n c. n \<noteq> bn \<longrightarrow> own t n c \<longrightarrow> own u n c" "\<forall>n. safe t n \<longrightarrow> safe u n"
    using rel_law [OF t(2,4,5)] by blast
  have "data t b = view s bn" using data_law [OF t(2,4)] t(6) by simp
  then show ?thesis using t u assms(3) rfr_trans [OF t(3) u(3)] by (simp add: kernel_simps)
qed

text \<open>Changing a block that is held, and giving it back.\<close>

lemma block_store_held:
  assumes "inv s" and "own s bn b" and "mk s bn" and "space s (Suc k)" and "length (f (view s bn)) = BSIZE"
  shows "\<exists>t. kthen (put b f) (kthen (mark b) (rel b)) s = Ret () t
    \<and> inv t \<and> fr s t \<and> view t = (view s)(bn := f (view s bn)) \<and> locked t = locked s - {bn} \<and> space t k
    \<and> (\<forall>n c. own s n c \<longrightarrow> n \<noteq> bn \<longrightarrow> own t n c) \<and> (\<forall>n. safe s n \<longrightarrow> n \<noteq> bn \<longrightarrow> safe t n)"
proof -
  obtain u where u: "put b f s = Ret () u" "inv u" "rfr s u" "own u = own s" "view u = (view s)(bn := f (view s bn))"
      "locked u = locked s" "\<forall>n. n \<noteq> bn \<longrightarrow> safe s n \<longrightarrow> safe u n"
    using put_law [of s bn b f] assms(1,2,5) by blast
  have "own u bn b" "mk u bn" "space u (Suc k)"
    using u(3,4) assms(2-4) rfr_space [OF u(3)] fr_blk [OF rfr_fr [OF u(3)]] by simp_all
  then obtain v where v: "mark b u = Ret () v" "inv v" "fr u v" "own v = own u" "view v = view u" "locked v = locked u" "safe v bn"
      "\<forall>n. safe u n \<longrightarrow> safe v n" "space v k"
    using mark_law [OF u(2), of bn b k] by blast
  have "own v bn b" using v(4) u(4) assms(2) by simp
  then obtain w where w: "rel b v = Ret () w" "inv w" "rfr v w" "view w = view v" "locked w = locked v - {bn}"
      "\<forall>n c. n \<noteq> bn \<longrightarrow> own v n c \<longrightarrow> own w n c" "\<forall>n. safe v n \<longrightarrow> safe w n"
    using rel_law [OF v(2), of bn b] v(7) by blast
  have "fr s w" using fr_trans rfr_fr [OF u(3)] v(3) rfr_fr [OF w(3)] by blast
  then show ?thesis using u v w rfr_space [OF w(3)] by (simp add: kernel_simps)
qed

text \<open>Changing a block.\<close>

lemma block_modify:
  assumes "inv s" and "blk s bn" and "mk s bn" and "bn \<notin> locked s" and "space s (Suc k)" and "card (locked s) \<le> Suc k"
    and "length (f (view s bn)) = BSIZE"
  shows "\<exists>t. kbind (rd bn) (\<lambda>b. kthen (put b f) (kthen (mark b) (rel b))) s = Ret () t
    \<and> inv t \<and> fr s t \<and> view t = (view s)(bn := f (view s bn)) \<and> locked t = locked s \<and> space t k
    \<and> (\<forall>n c. own s n c \<longrightarrow> n \<noteq> bn \<longrightarrow> own t n c) \<and> (\<forall>n. safe s n \<longrightarrow> n \<noteq> bn \<longrightarrow> safe t n)"
proof -
  obtain b t where t: "rd bn s = Ret b t" "inv t" "rfr s t" "own t bn b" "safe t bn" "view t = view s"
      "locked t = insert bn (locked s)" "\<forall>n c. own s n c \<longrightarrow> own t n c" "\<forall>n. safe s n \<longrightarrow> safe t n"
    using rd_law [OF assms(1,2,4,5,6)] by blast
  have "mk t bn" "space t (Suc k)" "length (f (view t bn)) = BSIZE"
    using assms(3,5,7) t(6) rfr_space [OF t(3)] fr_blk [OF rfr_fr [OF t(3)]] by simp_all
  then obtain u where u: "kthen (put b f) (kthen (mark b) (rel b)) t = Ret () u" "inv u" "fr t u"
      "view u = (view t)(bn := f (view t bn))" "locked u = locked t - {bn}" "space u k"
      "\<forall>n c. own t n c \<longrightarrow> n \<noteq> bn \<longrightarrow> own u n c" "\<forall>n. safe t n \<longrightarrow> n \<noteq> bn \<longrightarrow> safe u n"
    using block_store_held [OF t(2,4), of k f] by blast
  have "fr s u" using fr_trans rfr_fr [OF t(3)] u(3) by blast
  then show ?thesis using t u assms(4) by (simp add: kernel_simps)
qed

end

text \<open>The cache with write-through, as the log uses it.\<close>

definition disk_frame :: "'z bio_st_scheme \<Rightarrow> 'z bio_st_scheme \<Rightarrow> bool" where
  "disk_frame s t \<longleftrightarrow> (\<exists>d w. length d = length (memdisk s) \<and> bio_frame (s\<lparr>memdisk := d, dwrites := w\<rparr>) t)"

lemma bio_frame_sel:
  "bio_frame s t \<Longrightarrow> memdisk t = memdisk s \<and> dwrites t = dwrites s \<and> lk t = lk s"
  by (auto simp: bio_frame_def)

lemma bio_frame_disk: "bio_frame s t \<Longrightarrow> bio_frame (s\<lparr>memdisk := d, dwrites := w\<rparr>) (t\<lparr>memdisk := d, dwrites := w\<rparr>)"
proof -
  assume "bio_frame s t"
  then obtain A B N P where t: "t = s\<lparr>slocks := A, bufs := B, bnext := N, bprev := P\<rparr>"
    and i: "\<forall>i. A (SL_inode i) = slocks s (SL_inode i)" by (auto simp: bio_frame_def)
  have "t\<lparr>memdisk := d, dwrites := w\<rparr> = s\<lparr>memdisk := d, dwrites := w, slocks := A, bufs := B, bnext := N, bprev := P\<rparr>"
    unfolding t by (rule bio_st.equality) simp_all
  then show ?thesis unfolding bio_frame_def using i by (intro exI [of _ A] exI [of _ B] exI [of _ N] exI [of _ P]) simp
qed

lemma disk_frameI: "bio_frame s t \<Longrightarrow> disk_frame s t"
  unfolding disk_frame_def by (rule exI [of _ "memdisk s"], rule exI [of _ "dwrites s"]) simp

lemma disk_frame_trans: "disk_frame s t \<Longrightarrow> disk_frame t u \<Longrightarrow> disk_frame s u"
proof -
  assume "disk_frame s t" "disk_frame t u"
  then obtain d w d' w' where st: "length d = length (memdisk s)" "bio_frame (s\<lparr>memdisk := d, dwrites := w\<rparr>) t"
    and tu: "length d' = length (memdisk t)" "bio_frame (t\<lparr>memdisk := d', dwrites := w'\<rparr>) u" by (auto simp: disk_frame_def)
  have "bio_frame (s\<lparr>memdisk := d', dwrites := w'\<rparr>) (t\<lparr>memdisk := d', dwrites := w'\<rparr>)"
    using bio_frame_disk [OF st(2), where d = d' and w = w'] by simp
  moreover have "length d' = length (memdisk s)" using st tu(1) bio_frame_sel [OF st(2)] by simp
  ultimately show ?thesis using bio_frame_trans tu(2) unfolding disk_frame_def by blast
qed

definition cache_frame :: "'z bio_st_scheme \<Rightarrow> 'z bio_st_scheme \<Rightarrow> bool" where
  "cache_frame s t \<longleftrightarrow> bio_frame s t \<and> pinned t = pinned s"

lemma cache_frame_trans: "cache_frame s t \<Longrightarrow> cache_frame t u \<Longrightarrow> cache_frame s u"
  unfolding cache_frame_def using bio_frame_trans by auto

definition wspace :: "'z bio_st_scheme \<Rightarrow> nat \<Rightarrow> bool" where
  "wspace s k \<longleftrightarrow> card (pinned s) + k < NBUF"

lemma disk_frame_sel: "disk_frame s t \<Longrightarrow> length (memdisk t) = length (memdisk s)"
  unfolding disk_frame_def using bio_frame_sel by fastforce

interpretation wt: block_store bst bview held holds clean "\<lambda>s bn. bn < length (memdisk s)" "\<lambda>_ _. True" wspace cache_frame disk_frame
  "bread 1" "\<lambda>s b. b_data (bufs s ! b)" "\<lambda>b f. bset b (b_data_update f)" bwrite brelse
proof
  show "cache_frame s t \<Longrightarrow> cache_frame t u \<Longrightarrow> cache_frame s u" for s t u :: "'z bio_st_scheme"
    by (rule cache_frame_trans)
  show "cache_frame s t \<Longrightarrow> disk_frame s t" for s t :: "'z bio_st_scheme"
    by (simp add: cache_frame_def disk_frameI)
  show "cache_frame s t \<Longrightarrow> wspace t = wspace s" for s t :: "'z bio_st_scheme"
    by (simp add: cache_frame_def wspace_def fun_eq_iff)
  show "disk_frame s t \<Longrightarrow> (\<lambda>bn. bn < length (memdisk t)) = (\<lambda>bn. bn < length (memdisk s)) \<and> (\<lambda>_. True) = (\<lambda>_. True)"
    for s t :: "'z bio_st_scheme" by (simp add: disk_frame_sel)
  show "disk_frame s t \<Longrightarrow> disk_frame t u \<Longrightarrow> disk_frame s u" for s t u :: "'z bio_st_scheme"
    by (rule disk_frame_trans)
  fix s :: "'z bio_st_scheme" and bn b :: nat
  assume s: "bst s"
  show "\<exists>b t. bread 1 bn s = Ret b t \<and> bst t \<and> cache_frame s t \<and> holds t bn b \<and> clean t bn
        \<and> bview t = bview s \<and> held t = insert bn (held s) \<and> (\<forall>n c. holds s n c \<longrightarrow> holds t n c)
        \<and> (\<forall>n. clean s n \<longrightarrow> clean t n)" if h: "bn < length (memdisk s)" "bn \<notin> held s" "wspace s k" "card (held s) \<le> k" for k
  proof -
    have "card (held s \<union> pinned s) < NBUF"
      using h(3,4) card_Un_le [of "held s" "pinned s"] by (simp add: wspace_def)
    then have r: "bn < length (memdisk s)" "bn \<notin> held s" "room s \<or> bn \<in> pinned s" using h room_card [OF s] by simp_all
    obtain b t where t: "bread 1 bn s = Ret b t" "bst t" "bio_frame s t" "holds t bn b" "bview t = bview s"
        "held t = insert bn (held s)" "pinned t = pinned s" "\<forall>n c. holds t n c \<longleftrightarrow> n = bn \<and> c = b \<or> holds s n c"
      using bread_law [OF s r] by blast
    have "clean t n = clean s n" for n using t(5,7) bio_frame_sel [OF t(3)] by (simp add: clean_def)
    moreover have "clean s bn" using unheld_clean [OF s r(2)] by (simp add: clean_def)
    ultimately show ?thesis using t r by (simp add: cache_frame_def)
  qed
  assume b: "holds s bn b"
  show "b_data (bufs s ! b) = bview s bn \<and> length (bview s bn) = BSIZE"
    using holds_buf(9,10) [OF s b] by simp
  show "\<exists>t. bset b (b_data_update f) s = Ret () t \<and> bst t \<and> cache_frame s t \<and> holds t = holds s \<and> bview t = (bview s)(bn := f (bview s bn))
        \<and> held t = held s \<and> (\<forall>n. n \<noteq> bn \<longrightarrow> clean s n \<longrightarrow> clean t n)" if len: "length (f (bview s bn)) = BSIZE" for f
  proof -
    obtain t where t: "bset b (b_data_update f) s = Ret () t" "bst t" "bio_frame s t"
      "bview t = (bview s)(bn := f (bview s bn))" "held t = held s" "pinned t = pinned s" "holds t = holds s"
      using bdata_law [of s bn b f] s b len by blast
    have "n \<noteq> bn \<Longrightarrow> clean t n = clean s n" for n using t(4,6) bio_frame_sel [OF t(3)] by (simp add: clean_def)
    then show ?thesis using t by (simp add: cache_frame_def)
  qed
  show "\<exists>t. bwrite b s = Ret () t \<and> bst t \<and> disk_frame s t \<and> holds t = holds s \<and> bview t = bview s \<and> held t = held s
        \<and> clean t bn \<and> (\<forall>n. clean s n \<longrightarrow> clean t n) \<and> wspace t k" if sp: "wspace s (Suc k)" for k
  proof -
    let ?s = "s\<lparr>memdisk := (memdisk s)[bn := bview s bn], dwrites := dwrites s @ [(bn, bview s bn)]\<rparr>"
    obtain t where t: "bwrite b s = Ret () t" "bst t" "bio_frame ?s t" "bview t = bview s" "held t = held s"
        "pinned t = pinned s - {bn}" "holds t = holds s"
      using bwrite_law [OF s b] by blast
    have d: "memdisk t = (memdisk s)[bn := bview s bn]" using bio_frame_sel [OF t(3)] by simp
    have "clean t bn" using d t(4) holds_buf(8) [OF s b] by (simp add: clean_def)
    moreover have "clean s n \<longrightarrow> clean t n" for n
      using t(4,6) d holds_buf(8) [OF s b] by (cases "n = bn") (auto simp: clean_def)
    moreover have "disk_frame s t" unfolding disk_frame_def using t(3)
      by (intro exI [of _ "(memdisk s)[bn := bview s bn]"] exI [of _ "dwrites s @ [(bn, bview s bn)]"]) simp
    moreover have "wspace t k" using sp t(6) card_Diff1_le [of "pinned s" bn] by (simp add: wspace_def)
    ultimately show ?thesis using t by blast
  qed
  show "\<exists>t. brelse b s = Ret () t \<and> bst t \<and> cache_frame s t \<and> bview t = bview s \<and> held t = held s - {bn}
        \<and> (\<forall>n c. n \<noteq> bn \<longrightarrow> holds s n c \<longrightarrow> holds t n c) \<and> (\<forall>n. clean s n \<longrightarrow> clean t n)" if cl: "clean s bn"
  proof -
    obtain t where t: "brelse b s = Ret () t" "bst t" "bio_frame s t" "bview t = bview s"
       "held t = held s - {bn}" "pinned t = pinned s" "\<forall>n c. holds t n c \<longleftrightarrow> n \<noteq> bn \<and> holds s n c"
      using brelse_law [OF s b] cl unfolding clean_def by blast
    have "clean t n = clean s n" for n using t(4,6) bio_frame_sel [OF t(3)] by (simp add: clean_def)
    then show ?thesis using t by (simp add: cache_frame_def)
  qed
qed

section \<open>A cache to start with\<close>

text \<open>All buffers in a ring, and a process that has the machine to itself.\<close>

definition ring_next :: "nat \<Rightarrow> nat" where "ring_next i = (if i = NBUF then 0 else i + 1)"
definition ring_prev :: "nat \<Rightarrow> nat" where "ring_prev i = (if i = 0 then NBUF else i - 1)"

lemma ring_dll: "dll ring_next ring_prev [0..<NBUF]"
proof -
  have "chain ring_next k [k..<n] n" if "k \<le> n" "n \<le> NBUF" for k n
    using that
  proof (induction "n - k" arbitrary: k)
    case (Suc m)
    then have "[k..<n] = k # [Suc k..<n]" by (simp add: upt_conv_Cons)
    moreover have "ring_next k = Suc k" using Suc by (simp add: ring_next_def)
    ultimately show ?case using Suc.hyps(1) [of "Suc k"] Suc.hyps(2) Suc.prems by simp
  qed simp
  moreover have "chain ring_prev (ring_prev n) (rev [0..<n]) NBUF" if "n \<le> NBUF" for n
    using that by (induction n) (auto simp: ring_prev_def)
  ultimately show ?thesis
    by (simp add: dll_def ring_next_def)
qed

definition idle_buf :: buf where
  "idle_buf = \<lparr>b_valid = False, b_dirty = False, b_dev = 0, b_blockno = 0, b_refcnt = 0, b_data = replicate BSIZE 0\<rparr>"

definition solo_procs :: "proc list" where
  "solo_procs = (replicate NPROC ex_proc)[0 := ex_proc\<lparr>p_state := RUNNING, p_pid := 1\<rparr>]"

text \<open>Blocks that are in the cache but not yet on the disk, and otherwise free buffers.\<close>

definition dirty_buf :: "nat \<times> block \<Rightarrow> buf" where
  "dirty_buf w = \<lparr>b_valid = True, b_dirty = True, b_dev = 1, b_blockno = fst w, b_refcnt = 0, b_data = snd w\<rparr>"

definition cache_of :: "(nat \<times> block) list \<Rightarrow> buf list" where
  "cache_of ws = map dirty_buf ws @ replicate (NBUF - length ws) idle_buf"

definition solo :: "(nat \<times> block) list \<Rightarrow> block list \<Rightarrow> 'z bio_st_scheme \<Rightarrow> bool" where
  "solo ws disk s \<longleftrightarrow> lk s = boot_lk \<and> procs s = solo_procs \<and> cpu_proc s = (\<lambda>_. Some 0)
     \<and> slocks s = (\<lambda>_. \<lparr>sl_locked = False, sl_pid = 0\<rparr>) \<and> bufs s = cache_of ws \<and> memdisk s = disk
     \<and> bnext s = ring_next \<and> bprev s = ring_prev"

lemma solo_calm: "solo ws disk s \<Longrightarrow> calm s"
proof -
  assume s: "solo ws disk s"
  have "p_state x \<noteq> SLEEPING" if "x \<in> set solo_procs" for x
    using that by (auto simp: solo_procs_def ex_proc_def in_set_conv_nth nth_list_update split: if_splits)
  then show ?thesis using s boot_quiet by (auto simp: solo_def calm_def solo_procs_def)
qed

lemma solo_bst:
  assumes "solo ws disk s" and "length ws \<le> NBUF" and "distinct (map fst ws)"
    and "\<forall>w \<in> set ws. fst w < length disk \<and> length (snd w) = BSIZE" and "\<forall>d \<in> set disk. length d = BSIZE"
  shows "bst s" "held s = {}" "pinned s = fst ` set ws"
    "bview s n = (case map_of ws n of Some x \<Rightarrow> x | None \<Rightarrow> disk ! n)"
proof -
  let ?m = "length ws"
  have b: "bufs s ! b = (if b < ?m then dirty_buf (ws ! b) else idle_buf)" if "b < NBUF" for b
    using assms(1,2) that by (auto simp: solo_def cache_of_def nth_append)
  have c: "cached s n b \<longleftrightarrow> b < ?m \<and> fst (ws ! b) = n" for n b
  proof (cases "b < NBUF")
    case True
    then show ?thesis by (simp add: cached_def b dirty_buf_def idle_buf_def)
  next
    case False
    then show ?thesis using assms(2) by (simp add: cached_def)
  qed
  have u: "buf_unique s"
    unfolding buf_unique_def c using assms(3) by (auto simp: distinct_conv_nth)
  have sl: "slocks s (SL_buf b) = \<lparr>sl_locked = False, sl_pid = 0\<rparr>" for b using assms(1) by (simp add: solo_def)
  have "buf_ok disk (curpid s) (slocks s (SL_buf b)) (bufs s ! b)" if "b < NBUF" for b
    unfolding b [OF that] sl using assms(4) by (auto simp: buf_ok_def dirty_buf_def idle_buf_def)
  then show s: "bst s"
    using assms(1,2,5) u solo_calm [OF assms(1)] ring_dll
    by (auto simp: bst_def solo_def cache_of_def intro!: exI [of _ "[0..<NBUF]"])
  show "held s = {}" using assms(2) by (auto simp: held_def c b dirty_buf_def)
  show "pinned s = fst ` set ws"
  proof -
    have d: "b_dirty (bufs s ! b)" if "b < ?m" for b using that assms(2) by (simp add: b dirty_buf_def)
    have "pinned s = (\<lambda>b. fst (ws ! b)) ` {..<?m}" unfolding pinned_def c using d by auto
    also have "\<dots> = fst ` set ws" by (auto simp: set_conv_nth image_image)
    finally show ?thesis .
  qed
  show "bview s n = (case map_of ws n of Some x \<Rightarrow> x | None \<Rightarrow> disk ! n)"
  proof (cases "map_of ws n")
    case None
    then have "\<forall>b. \<not> cached s n b" by (auto simp: c map_of_eq_None_iff)
    then show ?thesis using None assms(1) by (simp add: bview_uncached solo_def)
  next
    case (Some x)
    then obtain b where w: "b < ?m" "ws ! b = (n, x)" using map_of_SomeD [OF Some] by (auto simp: in_set_conv_nth)
    then have "cached s n b" by (simp add: c)
    then show ?thesis using bview_cached [OF s] Some w assms(2) by (simp add: b dirty_buf_def)
  qed
qed

end
