(* ===== verification/Layout.thy ===== *)
theory Layout
  imports Bcache CString
begin

text \<open>
  The on-disk format (\<^verbatim>\<open>fs.h\<close>, the header block of \<^verbatim>\<open>log.c\<close>): structures in a block of bytes, with
  little-endian fields at the offsets the compiler gives them. An access through a pointer to such
  a structure is a \<open>get\<close> or \<open>put\<close> at its offset.
\<close>

section \<open>Fields\<close>

definition get16 :: "byte list \<Rightarrow> nat \<Rightarrow> nat" where
  "get16 d i = unat (d ! i) + 256 * unat (d ! (i + 1))"

definition get32 :: "byte list \<Rightarrow> nat \<Rightarrow> nat" where
  "get32 d i = get16 d i + 65536 * get16 d (i + 2)"

definition put16 :: "nat \<Rightarrow> nat \<Rightarrow> byte list \<Rightarrow> byte list" where
  "put16 i v d = d[i := of_nat v, i + 1 := of_nat (v div 256)]"

definition put32 :: "nat \<Rightarrow> nat \<Rightarrow> byte list \<Rightarrow> byte list" where
  "put32 i v d = put16 (i + 2) (v div 65536) (put16 i v d)"

text \<open>A C \<^verbatim>\<open>short\<close> from its 16 bits, and an \<^verbatim>\<open>int\<close> from its 32.\<close>

definition short_of :: "int \<Rightarrow> int" where
  "short_of x = (x + 2 ^ 15) mod 2 ^ 16 - 2 ^ 15"

definition int_of :: "int \<Rightarrow> int" where
  "int_of x = (x + 2 ^ 31) mod 2 ^ 32 - 2 ^ 31"

definition getS :: "byte list \<Rightarrow> nat \<Rightarrow> int" where
  "getS d i = short_of (int (get16 d i))"

definition putS :: "nat \<Rightarrow> int \<Rightarrow> byte list \<Rightarrow> byte list" where
  "putS i v d = put16 i (nat (v mod 2 ^ 16)) d"

definition getB :: "nat \<Rightarrow> nat \<Rightarrow> byte list \<Rightarrow> byte list" where
  "getB i n d = take n (drop i d)"

lemma put16_length [simp]: "length (put16 i v d) = length d"
  by (simp add: put16_def)

lemma put32_length [simp]: "length (put32 i v d) = length d"
  by (simp add: put32_def)

lemma putS_length [simp]: "length (putS i v d) = length d"
  by (simp add: putS_def)

lemma unat_byte: "unat (of_nat v :: byte) = v mod 256"
  by (simp add: unat_of_nat)

lemma get16_put16: "i + 1 < length d \<Longrightarrow> get16 (put16 i v d) i = v mod 65536"
proof -
  assume i: "i + 1 < length d"
  have "v mod (256 * 256) = 256 * (v div 256 mod 256) + v mod 256" by (rule mod_mult2_eq)
  then show ?thesis using i by (simp add: get16_def put16_def unat_byte)
qed

lemma get16_put16_other: "i + 2 \<le> j \<or> j + 2 \<le> i \<Longrightarrow> get16 (put16 j v d) i = get16 d i"
  by (auto simp: get16_def put16_def)

lemma get32_put32: "i + 3 < length d \<Longrightarrow> get32 (put32 i v d) i = v mod 2 ^ 32"
proof -
  assume i: "i + 3 < length d"
  have "v mod (65536 * 65536) = 65536 * (v div 65536 mod 65536) + v mod 65536" by (rule mod_mult2_eq)
  then show ?thesis using i by (simp add: get32_def put32_def get16_put16 get16_put16_other)
qed

lemma get32_put32_other: "i + 4 \<le> j \<or> j + 4 \<le> i \<Longrightarrow> get32 (put32 j v d) i = get32 d i"
  by (auto simp: get32_def put32_def get16_put16_other)

lemma get16_put32_other: "i + 2 \<le> j \<or> j + 4 \<le> i \<Longrightarrow> get16 (put32 j v d) i = get16 d i"
  by (auto simp: put32_def get16_put16_other)

lemma get32_put16_other: "i + 4 \<le> j \<or> j + 2 \<le> i \<Longrightarrow> get32 (put16 j v d) i = get32 d i"
  by (auto simp: get32_def get16_put16_other)

lemma getS_putS: "i + 1 < length d \<Longrightarrow> getS (putS i v d) i = short_of v"
  by (simp add: getS_def putS_def get16_put16 short_of_def) (simp add: mod_add_left_eq)

lemma short_of_id: "- (2 ^ 15) \<le> x \<Longrightarrow> x < 2 ^ 15 \<Longrightarrow> short_of x = x"
  by (simp add: short_of_def)

lemma int_of_id: "- (2 ^ 31) \<le> x \<Longrightarrow> x < 2 ^ 31 \<Longrightarrow> int_of x = x"
  by (simp add: int_of_def)

lemma get16_less: "get16 d i < 65536"
proof -
  have "unat (d ! i) < 256" "unat (d ! (i + 1)) < 256" using unsigned_less [of "d ! i"] unsigned_less [of "d ! (i + 1)"] by simp_all
  then show ?thesis unfolding get16_def by linarith
qed

lemma get32_less: "get32 d i < 2 ^ 32"
  using get16_less [of d i] get16_less [of d "i + 2"] unfolding get32_def by simp

lemma get16_overlay_other:
  "off + length xs \<le> length d \<Longrightarrow> i + 2 \<le> length d \<Longrightarrow> i + 2 \<le> off \<or> off + length xs \<le> i \<Longrightarrow>
     get16 (overlay off xs d) i = get16 d i"
  by (auto simp: get16_def nth_overlay)

lemma get32_overlay_other:
  "off + length xs \<le> length d \<Longrightarrow> i + 4 \<le> length d \<Longrightarrow> i + 4 \<le> off \<or> off + length xs \<le> i \<Longrightarrow>
     get32 (overlay off xs d) i = get32 d i"
  by (auto simp: get32_def get16_overlay_other)

lemma nth_put16: "j \<noteq> i \<Longrightarrow> j \<noteq> i + 1 \<Longrightarrow> put16 i v d ! j = d ! j"
  by (simp add: put16_def)

lemma nth_put32: "j < i \<or> i + 4 \<le> j \<Longrightarrow> put32 i v d ! j = d ! j"
  by (auto simp: put32_def nth_put16)

lemma nth_putS: "j < i \<or> i + 2 \<le> j \<Longrightarrow> putS i v d ! j = d ! j"
  by (auto simp: putS_def nth_put16)

section \<open>Structures\<close>

definition NDIRECT :: nat where "NDIRECT = 7"
definition NINDIRECT :: nat where "NINDIRECT = BSIZE div 4"
definition MAXFILE :: nat where "MAXFILE = NDIRECT + NINDIRECT"
definition MAX_LEN :: nat where "MAX_LEN = 15"
definition IPB :: nat where "IPB = BSIZE div 64"
definition BPB :: nat where "BPB = BSIZE * 8"
definition DIRSIZ :: nat where "DIRSIZ = 14"

record superblock =
  sb_size :: nat
  sb_nblocks :: nat
  sb_ninodes :: nat
  sb_nlog :: nat
  sb_logstart :: nat
  sb_inodestart :: nat
  sb_bmapstart :: nat

definition superblock_of :: "byte list \<Rightarrow> superblock" where
  "superblock_of d = \<lparr>sb_size = get32 d 0, sb_nblocks = get32 d 4, sb_ninodes = get32 d 8, sb_nlog = get32 d 12,
     sb_logstart = get32 d 16, sb_inodestart = get32 d 20, sb_bmapstart = get32 d 24\<rparr>"

definition IBLOCK :: "nat \<Rightarrow> superblock \<Rightarrow> nat" where
  "IBLOCK i sb = i div IPB + sb_inodestart sb"

definition BBLOCK :: "nat \<Rightarrow> superblock \<Rightarrow> nat" where
  "BBLOCK b sb = b div BPB + sb_bmapstart sb"

record dinode =
  di_type :: int
  di_major :: int
  di_minor :: int
  di_nlink :: int
  di_size :: nat
  di_perm :: nat
  di_owner :: "byte list"
  di_addrs :: "nat list"

definition dinode_at :: "nat \<Rightarrow> byte list \<Rightarrow> dinode" where
  "dinode_at off d = \<lparr>di_type = getS d off, di_major = getS d (off + 2), di_minor = getS d (off + 4),
     di_nlink = getS d (off + 6), di_size = get32 d (off + 8), di_perm = get32 d (off + 12),
     di_owner = getB (off + 16) 16 d, di_addrs = map (\<lambda>k. get32 d (off + 32 + 4 * k)) [0..<NDIRECT + 1]\<rparr>"

text \<open>The fields as \<^verbatim>\<open>iupdate\<close> writes them; \<open>put_array\<close> is the \<^verbatim>\<open>memmove\<close> of the addresses.\<close>

primrec put_array :: "nat \<Rightarrow> nat list \<Rightarrow> byte list \<Rightarrow> byte list" where
  "put_array off [] d = d"
| "put_array off (x # xs) d = put_array (off + 4) xs (put32 off x d)"

definition put_meta :: "nat \<Rightarrow> dinode \<Rightarrow> byte list \<Rightarrow> byte list" where
  "put_meta off x d =
     put32 (off + 12) (di_perm x) (put32 (off + 8) (di_size x) (putS (off + 6) (di_nlink x)
       (putS (off + 4) (di_minor x) (putS (off + 2) (di_major x) (putS off (di_type x) d)))))"

definition put_dinode :: "nat \<Rightarrow> dinode \<Rightarrow> byte list \<Rightarrow> byte list option" where
  "put_dinode off x d =
     map_option (\<lambda>ow. put_array (off + 32) (di_addrs x) (overlay (off + 16) ow (put_meta off x d)))
       (strncpy (getB (off + 16) 16 (put_meta off x d)) (di_owner x) MAX_LEN)"

record dirent =
  de_inum :: nat
  de_name :: "byte list"

definition dirent_of :: "byte list \<Rightarrow> dirent" where
  "dirent_of d = \<lparr>de_inum = get16 d 0, de_name = getB 2 DIRSIZ d\<rparr>"

definition bytes_of_dirent :: "dirent \<Rightarrow> byte list" where
  "bytes_of_dirent e = [of_nat (de_inum e), of_nat (de_inum e div 256)] @ de_name e"

section \<open>Round trips\<close>

lemma put_array_length [simp]: "length (put_array off xs d) = length d"
  by (induction xs arbitrary: off d) auto

lemma nth_put_array: "j < off \<or> off + 4 * length xs \<le> j \<Longrightarrow> put_array off xs d ! j = d ! j"
  by (induction xs arbitrary: off d) (auto simp: nth_put32)

lemma get32_put_array_other:
  "i + 4 \<le> off \<or> off + 4 * length xs \<le> i \<Longrightarrow> get32 (put_array off xs d) i = get32 d i"
  by (induction xs arbitrary: off d) (auto simp: get32_put32_other)

lemma get16_put_array_other:
  "i + 2 \<le> off \<or> off + 4 * length xs \<le> i \<Longrightarrow> get16 (put_array off xs d) i = get16 d i"
  by (induction xs arbitrary: off d) (auto simp: get16_put32_other)

lemma get32_put_array:
  "k < length xs \<Longrightarrow> off + 4 * length xs \<le> length d \<Longrightarrow>
     get32 (put_array off xs d) (off + 4 * k) = xs ! k mod 2 ^ 32"
proof (induction xs arbitrary: off d k)
  case (Cons x xs)
  show ?case
  proof (cases k)
    case 0
    then show ?thesis using Cons.prems by (simp add: get32_put_array_other get32_put32)
  next
    case (Suc j)
    then show ?thesis using Cons.IH [of j "off + 4" "put32 off x d"] Cons.prems by (simp add: add.assoc)
  qed
qed simp

definition dinode_ok :: "dinode \<Rightarrow> bool" where
  "dinode_ok x \<longleftrightarrow> (\<forall>v \<in> {di_type x, di_major x, di_minor x, di_nlink x}. - (2 ^ 15) \<le> v \<and> v < 2 ^ 15)
     \<and> di_size x < 2 ^ 32 \<and> di_perm x < 2 ^ 32 \<and> length (di_owner x) = 16 \<and> terminated (di_owner x)
     \<and> length (di_addrs x) = NDIRECT + 1 \<and> (\<forall>a \<in> set (di_addrs x). a < 2 ^ 32)"

lemma put_meta_length [simp]: "length (put_meta off x d) = length d"
  by (simp add: put_meta_def)

lemma nth_put_meta: "j < off \<or> off + 16 \<le> j \<Longrightarrow> put_meta off x d ! j = d ! j"
  by (auto simp: put_meta_def nth_put32 nth_putS)

lemma getS_cong: "get16 d i = get16 d' j \<Longrightarrow> getS d i = getS d' j"
  by (simp add: getS_def)

lemma getS_put_others:
  "i + 2 \<le> j \<or> j + 2 \<le> i \<Longrightarrow> getS (putS j v d) i = getS d i"
  "i + 2 \<le> j \<or> j + 4 \<le> i \<Longrightarrow> getS (put32 j w d) i = getS d i"
  by (rule getS_cong, auto simp: putS_def get16_put16_other get16_put32_other)+

lemma get32_putS_other: "i + 4 \<le> j \<or> j + 2 \<le> i \<Longrightarrow> get32 (putS j v d) i = get32 d i"
  by (auto simp: putS_def get32_put16_other)

lemma put_meta_get:
  assumes "dinode_ok x" and "off + 64 \<le> length d"
  shows "getS (put_meta off x d) off = di_type x" "getS (put_meta off x d) (off + 2) = di_major x"
    "getS (put_meta off x d) (off + 4) = di_minor x" "getS (put_meta off x d) (off + 6) = di_nlink x"
    "get32 (put_meta off x d) (off + 8) = di_size x" "get32 (put_meta off x d) (off + 12) = di_perm x"
  using assms
  by (auto simp: put_meta_def dinode_ok_def getS_put_others getS_putS short_of_id get32_put32_other get32_put32)

text \<open>The owner field keeps its last byte, as \<^verbatim>\<open>strncpy\<close> copies \<open>MAX_LEN\<close> bytes.\<close>

lemma put_dinode_run:
  assumes "dinode_ok x" and "off + 64 \<le> length d"
  shows "\<exists>e. put_dinode off x d = Some e \<and> length e = length d
    \<and> dinode_at off e = x\<lparr>di_owner := take 15 (cstr (di_owner x) @ replicate 15 0) @ [d ! (off + 31)]\<rparr>
    \<and> (\<forall>j. j < off \<or> off + 64 \<le> j \<longrightarrow> e ! j = d ! j)"
proof -
  let ?m = "put_meta off x d" and ?ow = "take 15 (cstr (di_owner x) @ replicate 15 0) @ [d ! (off + 31)]"
  let ?o = "overlay (off + 16) ?ow ?m" and ?e = "put_array (off + 32) (di_addrs x) (overlay (off + 16) ?ow ?m)"
  have x: "length (di_owner x) = 16" "terminated (di_owner x)" "length (di_addrs x) = 8" "\<forall>a \<in> set (di_addrs x). a < 2 ^ 32"
    using assms(1) by (auto simp: dinode_ok_def NDIRECT_def)
  have "drop 15 (getB (off + 16) 16 ?m) = [d ! (off + 31)]"
    using assms(2) by (intro nth_equalityI) (auto simp: getB_def nth_put_meta add.commute)
  then have "strncpy (getB (off + 16) 16 ?m) (di_owner x) MAX_LEN = Some ?ow"
    using x assms(2) by (subst strncpy_run) (simp_all add: MAX_LEN_def getB_def)
  then have run: "put_dinode off x d = Some ?e" by (simp add: put_dinode_def)
  have ow: "length ?ow = 16" by simp
  have len: "length ?o = length d" "length ?e = length d" using assms(2) ow by simp_all
  have o16: "get16 ?o i = get16 ?m i" if "off \<le> i" "i + 2 \<le> off + 16" for i
    using that assms(2) ow by (subst get16_overlay_other) simp_all
  have o32: "get32 ?o i = get32 ?m i" if "off \<le> i" "i + 4 \<le> off + 16" for i
    using that assms(2) ow by (subst get32_overlay_other) simp_all
  have S: "getS ?e i = getS ?m i" if "off \<le> i" "i + 2 \<le> off + 16" for i
    using that o16 [OF that] by (intro getS_cong) (simp add: get16_put_array_other)
  have W: "get32 ?e i = get32 ?m i" if "off \<le> i" "i + 4 \<le> off + 16" for i
    using that o32 [OF that] by (simp add: get32_put_array_other)
  have own: "getB (off + 16) 16 ?e = ?ow"
  proof (rule nth_equalityI)
    show "length (getB (off + 16) 16 ?e) = length ?ow" using len assms(2) ow by (simp add: getB_def)
    fix i assume "i < length (getB (off + 16) 16 ?e)"
    then have i: "i < 16" using len assms(2) by (simp add: getB_def)
    then have "getB (off + 16) 16 ?e ! i = ?o ! (off + 16 + i)"
      using assms(2) len by (simp add: getB_def nth_put_array)
    also have "\<dots> = ?ow ! i" using i assms(2) ow by (subst nth_overlay) simp_all
    finally show "getB (off + 16) 16 ?e ! i = ?ow ! i" .
  qed
  have ad: "map (\<lambda>k. get32 ?e (off + 32 + 4 * k)) [0..<NDIRECT + 1] = di_addrs x"
  proof (rule nth_equalityI)
    show "length (map (\<lambda>k. get32 ?e (off + 32 + 4 * k)) [0..<NDIRECT + 1]) = length (di_addrs x)"
      using x(3) by (simp add: NDIRECT_def)
    fix k assume "k < length (map (\<lambda>k. get32 ?e (off + 32 + 4 * k)) [0..<NDIRECT + 1])"
    then have k: "k < 8" by (simp add: NDIRECT_def)
    have "get32 ?e (off + 32 + 4 * k) = di_addrs x ! k mod 2 ^ 32"
      by (rule get32_put_array) (use k x(3) len assms(2) in simp_all)
    then show "map (\<lambda>k. get32 ?e (off + 32 + 4 * k)) [0..<NDIRECT + 1] ! k = di_addrs x ! k"
      using k x(3,4) by (simp add: NDIRECT_def)
  qed
  have "dinode_at off ?e = x\<lparr>di_owner := ?ow\<rparr>"
    using S W put_meta_get [OF assms] own ad unfolding dinode_at_def by (intro dinode.equality) simp_all
  moreover have "?e ! j = d ! j" if "j < off \<or> off + 64 \<le> j" for j
  proof -
    have "?e ! j = ?o ! j" by (rule nth_put_array) (use that x(3) in auto)
    also have "\<dots> = d ! j"
    proof (cases "j < length d")
      case True
      then show ?thesis using that assms(2) ow by (subst nth_overlay) (auto simp: nth_put_meta)
    next
      case False
      then show ?thesis using that assms(2) by (auto simp: overlay_def nth_append nth_put_meta min_def)
    qed
    finally show ?thesis .
  qed
  ultimately show ?thesis using run len(2) by blast
qed

lemma dirent_roundtrip:
  "de_inum e < 65536 \<Longrightarrow> length (de_name e) = DIRSIZ \<Longrightarrow> dirent_of (bytes_of_dirent e) = e"
  by (intro dirent.equality)
    (simp_all add: dirent_of_def bytes_of_dirent_def get16_def unat_byte getB_def mod_mult_self3 mod_div_mult_eq)

end
