(* ===== verification/Wal.thy ===== *)
theory Wal
  imports Layout
begin

text \<open>
  The write-ahead log (\<^verbatim>\<open>log.c\<close>) and \<^verbatim>\<open>readsb\<close> of \<^verbatim>\<open>fs.c\<close>. The in-memory log \<^verbatim>\<open>struct log\<close> is part of
  the state; its lock is \<open>L_log\<close> and the channel its waiters sleep on is \<open>C_log\<close>.
\<close>

section \<open>State\<close>

definition MAXOPBLOCKS :: nat where "MAXOPBLOCKS = 10"
definition LOGSIZE :: nat where "LOGSIZE = MAXOPBLOCKS * 3"

record wal_st = bio_st +
  lg_start :: int
  lg_size :: int
  lg_outstanding :: int
  lg_committing :: bool
  lg_dev :: nat
  lh_n :: int
  lh_block :: "nat list"

text \<open>An \<^verbatim>\<open>int\<close> passed for a \<^verbatim>\<open>uint\<close> block number.\<close>

definition uint_of :: "int \<Rightarrow> nat" where
  "uint_of i = nat (i mod 2 ^ 32)"

section \<open>Operations\<close>

definition readsb :: "nat \<Rightarrow> ('z bio_st_scheme, superblock) kernel" where
  "readsb dev =
     kbind (bread dev 1) (\<lambda>bp.
     kbind (bfld bp (\<lambda>x. superblock_of (b_data x))) (\<lambda>sb.
     kthen (brelse bp)
    (kret sb)))"

text \<open>The access \<^verbatim>\<open>log.lh.block[i]\<close> with the bounds of its array.\<close>

definition lh_at :: "nat \<Rightarrow> ('z wal_st_scheme, nat) kernel" where
  "lh_at i = (if i < LOGSIZE then kget (\<lambda>s. lh_block s ! i) else kfault)"

text \<open>The body of the loop, and the loop.\<close>

definition install_one :: "nat \<Rightarrow> ('z wal_st_scheme, unit) kernel" where
  "install_one tail =
     kbind (kget (\<lambda>s. (lg_dev s, uint_of (lg_start s + int tail + 1)))) (\<lambda>(dev, lbn).
     kbind (bread dev lbn) (\<lambda>lbuf.
     kbind (lh_at tail) (\<lambda>bn.
     kbind (bread dev bn) (\<lambda>dbuf.
     kbind (bfld lbuf b_data) (\<lambda>d.
     kthen (bset dbuf (b_data_update (\<lambda>_. d)))
    (kthen (bwrite dbuf)
    (kthen (brelse lbuf)
    (brelse dbuf))))))))"

definition install_trans :: "('z wal_st_scheme, unit) kernel" where
  "install_trans = kbind (kget lh_n) (\<lambda>n. kfor [0..<nat n] install_one)"

definition read_head :: "('z wal_st_scheme, unit) kernel" where
  "read_head =
     kbind (kget (\<lambda>s. (lg_dev s, uint_of (lg_start s)))) (\<lambda>(dev, bn).
     kbind (bread dev bn) (\<lambda>buf.
     kbind (bfld buf b_data) (\<lambda>d.
     kthen (kmod (\<lambda>s. s\<lparr>lh_n := int_of (int (get32 d 0))\<rparr>))
    (kbind (kget lh_n) (\<lambda>n.
     kthen (kfor [0..<nat n] (\<lambda>i.
       if i < LOGSIZE then kmod (\<lambda>s. s\<lparr>lh_block := (lh_block s)[i := get32 d (4 + 4 * i)]\<rparr>) else kfault))
    (brelse buf))))))"

text \<open>The header block: the count and that many block numbers over what the block held.\<close>

definition head_block :: "int \<Rightarrow> nat list \<Rightarrow> block \<Rightarrow> block" where
  "head_block n bs d = put_array 4 (take (nat n) bs) (put32 0 (uint_of n) d)"

definition write_head :: "('z wal_st_scheme, unit) kernel" where
  "write_head =
     kbind (kget (\<lambda>s. (lg_dev s, uint_of (lg_start s)))) (\<lambda>(dev, bn).
     kbind (bread dev bn) (\<lambda>buf.
     kbind (kget (\<lambda>s. (lh_n s, lh_block s))) (\<lambda>(n, bs).
     if n > int LOGSIZE then kfault
     else
       kthen (bset buf (b_data_update (head_block n bs)))
      (kthen (bwrite buf)
      (brelse buf)))))"

definition recover_from_log :: "('z wal_st_scheme, unit) kernel" where
  "recover_from_log =
     kthen read_head
    (kthen install_trans
    (kthen (kmod (\<lambda>s. s\<lparr>lh_n := 0\<rparr>))
    write_head))"

definition initlog :: "nat \<Rightarrow> ('z wal_st_scheme, unit) kernel" where
  "initlog dev =
     (if 4 + 4 * LOGSIZE \<ge> BSIZE then kpanic ''initlog: too big logheader''
      else
        kthen (initlock L_log)
       (kbind (readsb dev) (\<lambda>sb.
        kthen (kmod (\<lambda>s. s\<lparr>lg_start := int_of (int (sb_logstart sb)), lg_size := int_of (int (sb_nlog sb)), lg_dev := dev\<rparr>))
       recover_from_log)))"

primrec begin_op_loop :: "nat \<Rightarrow> ('z wal_st_scheme, unit) kernel" where
  "begin_op_loop 0 = kstuck"
| "begin_op_loop (Suc k) =
     kbind (kget (\<lambda>s. lg_committing s \<or> lh_n s + (lg_outstanding s + 1) * int MAXOPBLOCKS > int LOGSIZE)) (\<lambda>full.
     if full then
       kthen (sleep (Some C_log) (Some L_log))
      (begin_op_loop k)
     else
       kthen (kmod (\<lambda>s. s\<lparr>lg_outstanding := lg_outstanding s + 1\<rparr>))
      (release L_log))"

definition begin_op :: "('z wal_st_scheme, unit) kernel" where
  "begin_op =
     kthen (acquire L_log)
    (kbind (kget wakes) (\<lambda>k. begin_op_loop (Suc k)))"

definition write_log_one :: "nat \<Rightarrow> ('z wal_st_scheme, unit) kernel" where
  "write_log_one tail =
     kbind (kget (\<lambda>s. (lg_dev s, uint_of (lg_start s + int tail + 1)))) (\<lambda>(dev, lbn).
     kbind (bread dev lbn) (\<lambda>to.
     kbind (lh_at tail) (\<lambda>bn.
     kbind (bread dev bn) (\<lambda>from.
     kbind (bfld from b_data) (\<lambda>d.
     kthen (bset to (b_data_update (\<lambda>_. d)))
    (kthen (bwrite to)
    (kthen (brelse from)
    (brelse to))))))))"

definition write_log :: "('z wal_st_scheme, unit) kernel" where
  "write_log = kbind (kget lh_n) (\<lambda>n. kfor [0..<nat n] write_log_one)"

definition commit :: "('z wal_st_scheme, unit) kernel" where
  "commit =
     kbind (kget lh_n) (\<lambda>n.
     kwhen (n > 0)
      (kthen write_log
      (kthen write_head
      (kthen install_trans
      (kthen (kmod (\<lambda>s. s\<lparr>lh_n := 0\<rparr>))
      write_head)))))"

definition end_op :: "('z wal_st_scheme, unit) kernel" where
  "end_op =
     kthen (acquire L_log)
    (kthen (kmod (\<lambda>s. s\<lparr>lg_outstanding := lg_outstanding s - 1\<rparr>))
    (kbind (kget lg_committing) (\<lambda>c.
     if c then kpanic ''log.committing''
     else kbind (kget (\<lambda>s. lg_outstanding s = 0)) (\<lambda>do_commit.
       kthen (if do_commit then kmod (\<lambda>s. s\<lparr>lg_committing := True\<rparr>) else wakeup (Some C_log))
      (kthen (release L_log)
      (kwhen do_commit
        (kthen commit
        (kthen (acquire L_log)
        (kthen (kmod (\<lambda>s. s\<lparr>lg_committing := False\<rparr>))
        (kthen (wakeup (Some C_log))
        (release L_log)))))))))))"

text \<open>The slot of a block in the header: its old one, or the first free one.\<close>

definition lh_slot :: "nat \<Rightarrow> int \<Rightarrow> nat list \<Rightarrow> nat" where
  "lh_slot bn n bs = (case find (\<lambda>i. bs ! i = bn) [0..<nat n] of Some i \<Rightarrow> i | None \<Rightarrow> nat n)"

definition log_write :: "nat \<Rightarrow> ('z wal_st_scheme, unit) kernel" where
  "log_write b =
     kbind (kget (\<lambda>s. lh_n s \<ge> int LOGSIZE \<or> lh_n s \<ge> lg_size s - 1)) (\<lambda>big.
     if big then kpanic ''too big a transaction''
     else kbind (kget (\<lambda>s. lg_outstanding s < 1)) (\<lambda>out.
     if out then kpanic ''log_write outside of trans''
     else
       kthen (acquire L_log)
      (kbind (bfld b b_blockno) (\<lambda>bn.
       kbind (kget (\<lambda>s. lh_slot bn (lh_n s) (lh_block s))) (\<lambda>i.
       kthen (kmod (\<lambda>s. s\<lparr>lh_block := (lh_block s)[i := bn]\<rparr>))
      (kthen (kmod (\<lambda>s. if int i = lh_n s then s\<lparr>lh_n := lh_n s + 1\<rparr> else s))
      (kthen (bset b (b_dirty_update (\<lambda>_. True)))
      (release L_log))))))))"

end
