(* ===== verification/Wal_Crash.thy ===== *)
theory Wal_Crash
  imports Wal
begin

text \<open>
  Crash safety of the log: the exact sequence of disk writes of \<^verbatim>\<open>commit\<close>, the effect of \<^verbatim>\<open>initlog\<close>
  on a disk, and that recovery after a crash between any two of these writes finds the state
  before the transaction or the state after it.
\<close>

section \<open>Disk writes\<close>

definition apply_writes :: "(nat \<times> block) list \<Rightarrow> block list \<Rightarrow> block list" where
  "apply_writes ws d = fold (\<lambda>(b, x) d. d[b := x]) ws d"

lemma apply_writes_simps [simp]:
  "apply_writes [] d = d" "apply_writes (w # ws) d = apply_writes ws (d[fst w := snd w])"
  "apply_writes (ws @ vs) d = apply_writes vs (apply_writes ws d)"
  by (simp_all add: apply_writes_def case_prod_beta)

lemma apply_writes_length [simp]: "length (apply_writes ws d) = length d"
  by (induction ws arbitrary: d) auto

lemma apply_writes_other: "n \<notin> fst ` set ws \<Longrightarrow> apply_writes ws d ! n = d ! n"
  by (induction ws arbitrary: d) auto

lemma apply_writes_at:
  "distinct (map fst ws) \<Longrightarrow> (n, x) \<in> set ws \<Longrightarrow> n < length d \<Longrightarrow> apply_writes ws d ! n = x"
proof (induction ws arbitrary: d)
  case (Cons w ws)
  show ?case
  proof (cases "w = (n, x)")
    case True
    then have "n \<notin> fst ` set ws" using Cons.prems(1) by auto
    then show ?thesis using True Cons.prems(3) by (simp add: apply_writes_other)
  next
    case False
    then show ?thesis using Cons by auto
  qed
qed simp

text \<open>The state after a run that wrote \<open>ws\<close> through the cache.\<close>

definition wframe :: "'z bio_st_scheme \<Rightarrow> (nat \<times> block) list \<Rightarrow> 'z bio_st_scheme \<Rightarrow> bool" where
  "wframe s ws t \<longleftrightarrow> bio_frame (s\<lparr>memdisk := apply_writes ws (memdisk s), dwrites := dwrites s @ ws\<rparr>) t"

lemma wframe_frame: "bio_frame s t \<Longrightarrow> wframe s [] t"
  by (simp add: wframe_def)

lemma wframe_disk: "wframe s ws t \<Longrightarrow> memdisk t = apply_writes ws (memdisk s) \<and> dwrites t = dwrites s @ ws"
  unfolding wframe_def by (drule bio_frame_sel) simp

lemma wframe_trans: "wframe s ws t \<Longrightarrow> wframe t vs u \<Longrightarrow> wframe s (ws @ vs) u"
proof -
  assume st: "wframe s ws t" and tu: "wframe t vs u"
  let ?d = "apply_writes vs (memdisk t)" and ?w = "dwrites t @ vs"
  have "bio_frame (s\<lparr>memdisk := ?d, dwrites := ?w\<rparr>) (t\<lparr>memdisk := ?d, dwrites := ?w\<rparr>)"
    using bio_frame_disk [OF st [unfolded wframe_def], where d = ?d and w = ?w] by simp
  then have "bio_frame (s\<lparr>memdisk := ?d, dwrites := ?w\<rparr>) u" using tu unfolding wframe_def by (rule bio_frame_trans)
  then show ?thesis using wframe_disk [OF st] by (simp add: wframe_def)
qed

section \<open>Copying a block through the cache\<close>

lemma two_reads:
  assumes "bst s" and "held s = {}" and "x \<noteq> y" and "x < length (memdisk s)" and "y < length (memdisk s)"
    and "room s" and "y \<in> pinned s \<or> card (insert x (pinned s)) < NBUF"
  shows "\<exists>a t b u. bread 1 x s = Ret a t \<and> bread 1 y t = Ret b u \<and> bst u \<and> bio_frame s t \<and> bio_frame t u
    \<and> holds u x a \<and> holds u y b \<and> bview u = bview s \<and> held u = {x, y} \<and> pinned u = pinned s"
proof -
  obtain a t where t: "bread 1 x s = Ret a t" "bst t" "bio_frame s t" "bview t = bview s" "held t = insert x (held s)"
      "pinned t = pinned s" "\<forall>n c. holds t n c \<longleftrightarrow> n = x \<and> c = a \<or> holds s n c"
    using bread_law [of s x] assms(1,2,4,6) by blast
  have d: "memdisk t = memdisk s" using bio_frame_sel [OF t(3)] by simp
  have y: "y < length (memdisk t)" "y \<notin> held t" using d t(5) assms(2,3,5) by auto
  have "room t \<or> y \<in> pinned t"
    using assms(2,7) room_card [OF t(2)] t(5,6) by auto
  then obtain b u where u: "bread 1 y t = Ret b u" "bst u" "bio_frame t u" "bview u = bview t" "held u = insert y (held t)"
      "pinned u = pinned t" "\<forall>n c. holds u n c \<longleftrightarrow> n = y \<and> c = b \<or> holds t n c"
    using bread_law [of t y] t(2) y by blast
  have "holds u x a" "holds u y b" "bview u = bview s" "held u = {x, y}" "pinned u = pinned s"
    using t u assms(2) by auto
  then show ?thesis using t u by blast
qed

lemma copy_held:
  assumes "bst s" and "holds s src a" and "holds s dst b" and "src \<noteq> dst" and "clean s src"
  shows "\<exists>t. kbind (bfld a b_data) (\<lambda>d. kthen (bset b (b_data_update (\<lambda>_. d))) (kthen (bwrite b) (kthen (brelse a) (brelse b)))) s = Ret () t
    \<and> bst t \<and> wframe s [(dst, bview s src)] t \<and> bview t = (bview s)(dst := bview s src)
    \<and> held t = held s - {src, dst} \<and> pinned t = pinned s - {dst}"
proof -
  let ?d = "bview s src"
  have a: "b_data (bufs s ! a) = ?d" "length ?d = BSIZE" using holds_buf(9,10) [OF assms(1,2)] by simp_all
  obtain t where t: "bset b (b_data_update (\<lambda>_. ?d)) s = Ret () t" "bst t" "bio_frame s t" "bview t = (bview s)(dst := ?d)"
      "held t = held s" "pinned t = pinned s" "holds t = holds s"
    using bdata_law [of s dst b "\<lambda>_. ?d"] assms(1,3) a(2) by blast
  have b: "holds t dst b" using t(7) assms(3) by simp
  obtain u where u: "bwrite b t = Ret () u" "bst u"
      "bio_frame (t\<lparr>memdisk := (memdisk t)[dst := bview t dst], dwrites := dwrites t @ [(dst, bview t dst)]\<rparr>) u"
      "bview u = bview t" "held u = held t" "pinned u = pinned t - {dst}" "holds u = holds t"
    using bwrite_law [of t dst b] t(2) b by blast
  have w: "wframe t [(dst, ?d)] u" using u(3) t(4) by (simp add: wframe_def)
  have disk: "memdisk u = (memdisk s)[dst := ?d]" using wframe_disk [OF w] bio_frame_sel [OF t(3)] by simp
  have dst: "dst < length (memdisk s)" by (rule holds_buf(8) [OF assms(1,3)])
  have "src \<in> pinned u \<or> bview u src = memdisk u ! src"
    using assms(4,5) u(4,6) t(4,6) disk by (auto simp: clean_def)
  moreover have "holds u src a" using u(7) t(7) assms(2) by simp
  ultimately obtain v where v: "brelse a u = Ret () v" "bst v" "bio_frame u v" "bview v = bview u" "held v = held u - {src}"
      "pinned v = pinned u" "\<forall>n c. holds v n c \<longleftrightarrow> n \<noteq> src \<and> holds u n c"
    using brelse_law [of u src a] u(2) by blast
  have "bview v dst = memdisk v ! dst"
    using v(4) u(4) t(4) disk bio_frame_sel [OF v(3)] dst by simp
  moreover have "holds v dst b" using v(7) u(7) t(7) assms(3,4) by simp
  ultimately obtain x where x: "brelse b v = Ret () x" "bst x" "bio_frame v x" "bview x = bview v" "held x = held v - {dst}"
      "pinned x = pinned v"
    using brelse_law [of v dst b] v(2) by blast
  have "wframe s ([] @ [(dst, ?d)] @ [] @ []) x"
    by (rule wframe_trans [OF wframe_frame [OF t(3)] wframe_trans [OF w wframe_trans [OF wframe_frame [OF v(3)] wframe_frame [OF x(3)]]]])
  then show ?thesis using t u v x a(1) by (auto simp: kernel_simps)
qed

section \<open>The log\<close>

definition log_area :: "'z wal_st_scheme \<Rightarrow> nat set" where
  "log_area s = {nat (lg_start s)..<nat (lg_start s + lg_size s)}"

definition logged :: "'z wal_st_scheme \<Rightarrow> nat list" where
  "logged s = take (nat (lh_n s)) (lh_block s)"

definition log_ok :: "'z wal_st_scheme \<Rightarrow> bool" where
  "log_ok s \<longleftrightarrow> lg_dev s = 1 \<and> 0 \<le> lg_start s \<and> 1 \<le> lg_size s
     \<and> lg_start s + lg_size s \<le> int (length (memdisk s)) \<and> length (memdisk s) < 2 ^ 32 \<and> length (lh_block s) = LOGSIZE
     \<and> 0 \<le> lh_n s \<and> lh_n s < int LOGSIZE \<and> lh_n s < lg_size s \<and> distinct (logged s)
     \<and> (\<forall>b \<in> set (logged s). b < length (memdisk s) \<and> b \<notin> log_area s)"

lemma wframe_log:
  assumes "wframe s ws t"
  shows "lh_n t = lh_n s" "lh_block t = lh_block s" "lg_start t = lg_start s" "lg_size t = lg_size s" "lg_dev t = lg_dev s"
    "lg_outstanding t = lg_outstanding s" "lg_committing t = lg_committing s"
    "length (memdisk t) = length (memdisk s)"
  using assms by (auto simp: wframe_def bio_frame_def)

lemma log_ok_frame: "wframe s ws t \<Longrightarrow> log_ok t = log_ok s"
  by (simp add: log_ok_def logged_def log_area_def wframe_log)

lemma log_slot:
  assumes "log_ok s" and "i < nat (lh_n s)"
  shows "uint_of (lg_start s + int i + 1) = nat (lg_start s) + 1 + i" "nat (lg_start s) + 1 + i < length (memdisk s)"
    "nat (lg_start s) + 1 + i \<in> log_area s" "i < LOGSIZE" "lh_block s ! i = logged s ! i" "logged s ! i \<in> set (logged s)"
    "uint_of (lg_start s) = nat (lg_start s)" "nat (lg_start s) < length (memdisk s)" "length (logged s) = nat (lh_n s)"
proof -
  have s: "0 \<le> lg_start s" "lg_start s + lg_size s \<le> int (length (memdisk s))" "int (length (memdisk s)) < 2 ^ 32"
      "length (lh_block s) = LOGSIZE" "lh_n s < int LOGSIZE" "lh_n s < lg_size s"
    using assms(1) by (simp_all add: log_ok_def)
  have "lg_start s + int i + 1 < 2 ^ 32" "0 \<le> lg_start s + int i + 1" using s assms(2) by linarith+
  then show "uint_of (lg_start s + int i + 1) = nat (lg_start s) + 1 + i" using s(1) by (simp add: uint_of_def nat_add_distrib)
  show "nat (lg_start s) + 1 + i < length (memdisk s)" "nat (lg_start s) + 1 + i \<in> log_area s" "i < LOGSIZE"
    "nat (lg_start s) < length (memdisk s)"
    using s assms(2) by (auto simp: log_area_def)
  show "uint_of (lg_start s) = nat (lg_start s)" using s assms(2) by (simp add: uint_of_def)
  show l: "length (logged s) = nat (lh_n s)" "lh_block s ! i = logged s ! i" using assms(2) s by (auto simp: logged_def)
  show "logged s ! i \<in> set (logged s)" using l(1) assms(2) by simp
qed

text \<open>A counting loop with an invariant.\<close>

lemma kfor_inv:
  assumes "J 0 s" and "\<And>i t. i < m \<Longrightarrow> J i t \<Longrightarrow> \<exists>u. body i t = Ret () u \<and> J (Suc i) u"
  shows "\<exists>u. kfor [0..<m] body s = Ret () u \<and> J m u"
  using assms(2)
proof (induction m)
  case 0
  then show ?case using assms(1) by (simp add: kernel_simps)
next
  case (Suc m)
  then obtain t where t: "kfor [0..<m] body s = Ret () t" "J m t" by (meson less_Suc_eq)
  from Suc.prems [of m, OF _ t(2)] obtain u where u: "body m t = Ret () u" "J (Suc m) u" by auto
  have "kfor [0..<Suc m] body s = kcont (kfor [0..<m] body s) (\<lambda>_. body m)"
    by (simp add: kfor_append kernel_simps kthen_def kbind_def kret_def kcont_ret)
  then show ?case using t u by (simp add: kernel_simps)
qed

text \<open>Writing the cached blocks to the log.\<close>

definition log_writes :: "'z wal_st_scheme \<Rightarrow> nat \<Rightarrow> (nat \<times> block) list" where
  "log_writes s m = map (\<lambda>j. (nat (lg_start s) + 1 + j, bview s (logged s ! j))) [0..<m]"

definition home_writes :: "'z wal_st_scheme \<Rightarrow> nat \<Rightarrow> (nat \<times> block) list" where
  "home_writes s m = map (\<lambda>j. (logged s ! j, bview s (nat (lg_start s) + 1 + j))) [0..<m]"

lemma write_log_run:
  fixes s :: "'z wal_st_scheme"
  assumes "bst s" and "log_ok s" and "held s = {}" and "pinned s = set (logged s)"
  shows "\<exists>t. write_log s = Ret () t \<and> bst t \<and> held t = {} \<and> pinned t = pinned s
    \<and> wframe s (log_writes s (nat (lh_n s))) t
    \<and> (\<forall>n. n \<notin> {nat (lg_start s) + 1..<nat (lg_start s) + 1 + nat (lh_n s)} \<longrightarrow> bview t n = bview s n)
    \<and> (\<forall>j < nat (lh_n s). bview t (nat (lg_start s) + 1 + j) = bview s (logged s ! j))"
proof -
  let ?n = "nat (lh_n s)" and ?L = "nat (lg_start s)"
  define J where "J = (\<lambda>i t. bst t \<and> held t = {} \<and> pinned t = pinned s \<and> wframe s (log_writes s i) t
     \<and> (\<forall>n. n \<notin> {?L + 1..<?L + 1 + i} \<longrightarrow> bview t n = bview s n) \<and> (\<forall>j < i. bview t (?L + 1 + j) = bview s (logged s ! j)))"
  have len: "length (logged s) < NBUF"
    using assms(2) by (auto simp: log_ok_def logged_def LOGSIZE_def MAXOPBLOCKS_def NBUF_def)
  have J0: "J 0 s" using assms by (simp add: J_def log_writes_def wframe_frame)
  have step: "\<exists>u. write_log_one i t = Ret () u \<and> J (Suc i) u"
    if i: "i < ?n" and J: "J i t" for i and t :: "'z wal_st_scheme"
  proof -
    have t: "bst t" "held t = {}" "pinned t = set (logged s)" "wframe s (log_writes s i) t"
        "\<forall>n. n \<notin> {?L + 1..<?L + 1 + i} \<longrightarrow> bview t n = bview s n" "\<forall>j < i. bview t (?L + 1 + j) = bview s (logged s ! j)"
      using J assms(4) by (simp_all add: J_def)
    note fr = wframe_log [OF t(4)]
    note sl = log_slot [OF assms(2) i]
    let ?x = "?L + 1 + i" and ?y = "logged s ! i"
    have y: "?y < length (memdisk s)" "?y \<notin> log_area s" using assms(2) sl(6) by (auto simp: log_ok_def)
    have y': "?y \<notin> {?L + 1..<?L + 1 + i}" using y(2) sl(3) by (auto simp: log_area_def)
    have ne: "?x \<noteq> ?y" using sl(3) y(2) by metis
    have xy: "?x < length (memdisk t)" "?y < length (memdisk t)" using sl(2) y(1) fr(8) by simp_all
    have "card (set (logged s)) < NBUF" using len card_length [of "logged s"] by linarith
    then have "room t" using room_card [OF t(1)] t(2,3) by simp
    then obtain a u b v where r: "bread 1 ?x t = Ret a u" "bread 1 ?y u = Ret b v" "bst v" "bio_frame t u" "bio_frame u v"
        "holds v ?x a" "holds v ?y b" "bview v = bview t" "held v = {?x, ?y}" "pinned v = pinned t"
      using two_reads [OF t(1,2) ne xy] sl(6) t(3) by blast
    have dv: "memdisk v = memdisk t" using bio_frame_sel [OF r(4)] bio_frame_sel [OF r(5)] by simp
    have "clean v ?y" using t(3) r(10) sl(6) by (simp add: clean_def)
    then obtain w where w: "kbind (bfld b b_data) (\<lambda>d. kthen (bset a (b_data_update (\<lambda>_. d))) (kthen (bwrite a) (kthen (brelse b) (brelse a)))) v = Ret () w"
      "bst w" "wframe v [(?x, bview v ?y)] w" "bview w = (bview v)(?x := bview v ?y)" "held w = held v - {?y, ?x}" "pinned w = pinned v - {?x}"
      using copy_held [OF r(3,7,6)] y(2) sl(3) by metis
    have "lh_block u = lh_block s" using r(4) fr(2) by (auto simp: bio_frame_def)
    then have at: "lh_at i u = Ret ?y u" using sl(4,5) by (simp add: lh_at_def kernel_simps)
    have dev: "lg_dev t = 1" "lg_start t = lg_start s" using fr assms(2) by (simp_all add: log_ok_def)
    have vy: "bview v ?y = bview s ?y" using r(8) t(5) y' by simp
    have "wframe s (log_writes s i @ [] @ [] @ [(?x, bview s ?y)]) w"
      using wframe_trans [OF t(4) wframe_trans [OF wframe_frame [OF r(4)] wframe_trans [OF wframe_frame [OF r(5)] w(3)]]] vy by simp
    then have "wframe s (log_writes s (Suc i)) w" by (simp add: log_writes_def)
    moreover have "\<forall>n. n \<notin> {?L + 1..<?L + 1 + Suc i} \<longrightarrow> bview w n = bview s n" using w(4) r(8) t(5) by auto
    moreover have "\<forall>j < Suc i. bview w (?L + 1 + j) = bview s (logged s ! j)" using w(4) r(8) t(6) vy by (auto simp: less_Suc_eq)
    moreover have "pinned w = pinned s" using w(6) r(10) t(3) assms(2,4) sl(3) by (auto simp: log_ok_def)
    ultimately have "J (Suc i) w" using w(2,5) r(9) unfolding J_def by auto
    then show ?thesis using w(1) r(1,2) at dev sl(1) by (simp add: kernel_simps write_log_one_def)
  qed
  from kfor_inv [of J s ?n write_log_one, OF J0 step] show ?thesis by (simp add: write_log_def kernel_simps J_def)
qed

text \<open>Installing the logged blocks at their homes.\<close>

lemma install_trans_run:
  fixes s :: "'z wal_st_scheme"
  assumes "bst s" and "log_ok s" and "held s = {}" and "pinned s = set (logged s) \<or> pinned s = {}"
  shows "\<exists>t. install_trans s = Ret () t \<and> bst t \<and> held t = {} \<and> pinned t = {}
    \<and> wframe s (home_writes s (nat (lh_n s))) t
    \<and> (\<forall>n. n \<notin> set (logged s) \<longrightarrow> bview t n = bview s n)
    \<and> (\<forall>j < nat (lh_n s). bview t (logged s ! j) = bview s (nat (lg_start s) + 1 + j))"
proof -
  let ?n = "nat (lh_n s)" and ?L = "nat (lg_start s)"
  define J where "J = (\<lambda>i t. bst t \<and> held t = {} \<and> pinned t = pinned s - set (take i (logged s)) \<and> wframe s (home_writes s i) t
     \<and> (\<forall>n. n \<notin> set (take i (logged s)) \<longrightarrow> bview t n = bview s n) \<and> (\<forall>j < i. bview t (logged s ! j) = bview s (?L + 1 + j)))"
  have len: "length (logged s) < NBUF" and dist: "distinct (logged s)"
    using assms(2) by (auto simp: log_ok_def logged_def LOGSIZE_def MAXOPBLOCKS_def NBUF_def)
  have J0: "J 0 s" using assms by (simp add: J_def home_writes_def wframe_frame)
  have step: "\<exists>u. install_one i t = Ret () u \<and> J (Suc i) u"
    if i: "i < ?n" and J: "J i t" for i and t :: "'z wal_st_scheme"
  proof -
    have t: "bst t" "held t = {}" "pinned t = pinned s - set (take i (logged s))" "wframe s (home_writes s i) t"
        "\<forall>n. n \<notin> set (take i (logged s)) \<longrightarrow> bview t n = bview s n" "\<forall>j < i. bview t (logged s ! j) = bview s (?L + 1 + j)"
      using J by (simp_all add: J_def)
    note fr = wframe_log [OF t(4)]
    note sl = log_slot [OF assms(2) i]
    let ?x = "?L + 1 + i" and ?y = "logged s ! i"
    have y: "?y < length (memdisk s)" "?y \<notin> log_area s" using assms(2) sl(6) by (auto simp: log_ok_def)
    have ne: "?x \<noteq> ?y" using sl(3) y(2) by metis
    have xy: "?x < length (memdisk t)" "?y < length (memdisk t)" using sl(2) y(1) fr(8) by simp_all
    have x: "?x \<notin> set (logged s)" using assms(2) sl(3) by (auto simp: log_ok_def)
    have yi: "?y \<notin> set (take i (logged s))"
      using dist i sl(9) by (auto simp: in_set_conv_nth nth_eq_iff_index_eq)
    have sub: "pinned t \<subseteq> set (logged s)" using t(3) assms(4) by auto
    have "card (pinned t) \<le> length (logged s)"
      using card_mono [OF _ sub] card_length [of "logged s"] by simp
    then have "card (pinned t) < NBUF" using len by simp
    then have room: "room t" using room_card [OF t(1)] t(2) by simp
    have pin: "?y \<in> pinned t \<or> card (insert ?x (pinned t)) < NBUF"
      using t(3) assms(4) yi sl(6) by (auto simp: NBUF_def)
    obtain a u b v where r: "bread 1 ?x t = Ret a u" "bread 1 ?y u = Ret b v" "bst v" "bio_frame t u" "bio_frame u v"
        "holds v ?x a" "holds v ?y b" "bview v = bview t" "held v = {?x, ?y}" "pinned v = pinned t"
      using two_reads [OF t(1,2) ne xy room pin] by blast
    have dv: "memdisk v = memdisk t" using bio_frame_sel [OF r(4)] bio_frame_sel [OF r(5)] by simp
    have "clean v ?x" using unheld_clean [OF t(1), of ?x] t(2) r(8,10) dv by (simp add: clean_def)
    then obtain w where w: "kbind (bfld a b_data) (\<lambda>d. kthen (bset b (b_data_update (\<lambda>_. d))) (kthen (bwrite b) (kthen (brelse a) (brelse b)))) v = Ret () w"
      "bst w" "wframe v [(?y, bview v ?x)] w" "bview w = (bview v)(?y := bview v ?x)" "held w = held v - {?x, ?y}" "pinned w = pinned v - {?y}"
      using copy_held [OF r(3,6,7) ne] by metis
    have "lh_block u = lh_block s" using r(4) fr(2) by (auto simp: bio_frame_def)
    then have at: "lh_at i u = Ret ?y u" using sl(4,5) by (simp add: lh_at_def kernel_simps)
    have dev: "lg_dev t = 1" "lg_start t = lg_start s" using fr assms(2) by (simp_all add: log_ok_def)
    have take: "set (take (Suc i) (logged s)) = insert ?y (set (take i (logged s)))"
      using i sl(9) by (simp add: take_Suc_conv_app_nth)
    have "?x \<notin> set (take i (logged s))" using x by (metis in_set_takeD)
    then have vx: "bview v ?x = bview s ?x" using r(8) t(5) by simp
    have "wframe s (home_writes s i @ [] @ [] @ [(?y, bview s ?x)]) w"
      using wframe_trans [OF t(4) wframe_trans [OF wframe_frame [OF r(4)] wframe_trans [OF wframe_frame [OF r(5)] w(3)]]] vx by simp
    then have "wframe s (home_writes s (Suc i)) w" by (simp add: home_writes_def)
    moreover have "\<forall>n. n \<notin> set (take (Suc i) (logged s)) \<longrightarrow> bview w n = bview s n" using w(4) r(8) t(5) take by auto
    moreover have "\<forall>j < Suc i. bview w (logged s ! j) = bview s (?L + 1 + j)"
    proof (intro allI impI)
      fix j assume j: "j < Suc i"
      show "bview w (logged s ! j) = bview s (?L + 1 + j)"
      proof (cases "j = i")
        case False
        then have "logged s ! j \<noteq> ?y" using dist j i sl(9) by (simp add: nth_eq_iff_index_eq)
        then show ?thesis using w(4) r(8) t(6) j False by simp
      qed (simp add: w(4) vx [simplified])
    qed
    moreover have "pinned w = pinned s - set (take (Suc i) (logged s))" using w(6) r(10) t(3) take by auto
    ultimately have "J (Suc i) w" using w(2,5) r(9) unfolding J_def by auto
    then show ?thesis using w(1) r(1,2) at dev sl(1) by (simp add: kernel_simps install_one_def)
  qed
  obtain t where t: "kfor [0..<?n] install_one s = Ret () t" "J ?n t"
    using kfor_inv [of J s ?n install_one, OF J0 step] by blast
  have "length (logged s) = ?n" using assms(2) by (auto simp: log_ok_def logged_def min_def)
  then have "take ?n (logged s) = logged s" by simp
  then have "pinned t = {}" using t(2) assms(4) by (auto simp: J_def)
  then show ?thesis using t \<open>take ?n (logged s) = logged s\<close> by (simp add: install_trans_def kernel_simps J_def)
qed

lemma head_block_length [simp]: "length (head_block n bs d) = length d"
  by (simp add: head_block_def)

lemma write_head_run:
  fixes s :: "'z wal_st_scheme"
  assumes "bst s" and "log_ok s" and "held s = {}" and "pinned s \<subseteq> set (logged s)"
  shows "\<exists>t. write_head s = Ret () t \<and> bst t \<and> held t = {} \<and> pinned t = pinned s
    \<and> wframe s [(nat (lg_start s), head_block (lh_n s) (lh_block s) (bview s (nat (lg_start s))))] t
    \<and> bview t = (bview s)(nat (lg_start s) := head_block (lh_n s) (lh_block s) (bview s (nat (lg_start s))))"
proof -
  let ?L = "nat (lg_start s)" and ?f = "head_block (lh_n s) (lh_block s)"
  have L: "uint_of (lg_start s) = ?L" "?L < length (memdisk s)" "?L \<in> log_area s" "lg_dev s = 1" "lh_n s \<le> int LOGSIZE"
    using assms(2) by (auto simp: log_ok_def uint_of_def log_area_def)
  have "length (logged s) < NBUF"
    using assms(2) by (auto simp: log_ok_def logged_def LOGSIZE_def MAXOPBLOCKS_def NBUF_def)
  then have "card (pinned s) < NBUF" using card_mono [OF _ assms(4)] card_length [of "logged s"] by simp
  then have "room s" using room_card [OF assms(1)] assms(3) by simp
  then obtain b t where t: "bread 1 ?L s = Ret b t" "bst t" "bio_frame s t" "holds t ?L b"
     "bview t = bview s" "held t = insert ?L (held s)" "pinned t = pinned s"
    using bread_law [OF assms(1) L(2)] assms(3) by blast
  have fr: "lh_n t = lh_n s" "lh_block t = lh_block s" using t(3) by (auto simp: bio_frame_def)
  have "length (?f (bview t ?L)) = BSIZE" using holds_buf(10) [OF t(2,4)] by simp
  then obtain u where u: "bset b (b_data_update ?f) t = Ret () u" "bst u" "bio_frame t u" "bview u = (bview t)(?L := ?f (bview t ?L))"
      "held u = held t" "pinned u = pinned t" "holds u = holds t"
    using bdata_law [of t ?L b ?f] t(2,4) by blast
  have b: "holds u ?L b" using u(7) t(4) by simp
  obtain v where v: "bwrite b u = Ret () v" "bst v"
      "bio_frame (u\<lparr>memdisk := (memdisk u)[?L := bview u ?L], dwrites := dwrites u @ [(?L, bview u ?L)]\<rparr>) v"
      "bview v = bview u" "held v = held u" "pinned v = pinned u - {?L}" "holds v = holds u"
    using bwrite_law [OF u(2) b] by blast
  have w: "wframe u [(?L, ?f (bview s ?L))] v" using v(3) u(4) t(5) by (simp add: wframe_def)
  have "memdisk v = (memdisk u)[?L := ?f (bview s ?L)]" using wframe_disk [OF w] by simp
  then have "bview v ?L = memdisk v ! ?L"
    using v(4) u(4) t(5) L(2) bio_frame_sel [OF t(3)] bio_frame_sel [OF u(3)] by simp
  moreover have "holds v ?L b" using v(7) b by simp
  ultimately obtain x where x: "brelse b v = Ret () x" "bst x" "bio_frame v x" "bview x = bview v" "held x = held v - {?L}"
      "pinned x = pinned v"
    using brelse_law [of v ?L b] v(2) by blast
  have "wframe s ([] @ [] @ [(?L, ?f (bview s ?L))] @ []) x"
    by (rule wframe_trans [OF wframe_frame [OF t(3)] wframe_trans [OF wframe_frame [OF u(3)] wframe_trans [OF w wframe_frame [OF x(3)]]]])
  moreover have "?L \<notin> pinned s" using assms(2,4) L(3) by (auto simp: log_ok_def)
  ultimately show ?thesis
    using t u v x L fr assms(3) by (auto simp: write_head_def kernel_simps)
qed

section \<open>The writes of a commit\<close>

definition head_after :: "'z wal_st_scheme \<Rightarrow> block" where
  "head_after s = head_block (lh_n s) (lh_block s) (bview s (nat (lg_start s)))"

definition commit_writes :: "'z wal_st_scheme \<Rightarrow> (nat \<times> block) list" where
  "commit_writes s = log_writes s (nat (lh_n s)) @ [(nat (lg_start s), head_after s)]
     @ map (\<lambda>j. (logged s ! j, bview s (logged s ! j))) [0..<nat (lh_n s)]
     @ [(nat (lg_start s), head_block 0 (lh_block s) (head_after s))]"

lemma wframe_lhn: "wframe s ws t \<Longrightarrow> wframe (s\<lparr>lh_n := n\<rparr>) ws (t\<lparr>lh_n := n\<rparr>)"
proof -
  assume "wframe s ws t"
  then obtain A B N P where t: "t = s\<lparr>memdisk := apply_writes ws (memdisk s), dwrites := dwrites s @ ws,
       slocks := A, bufs := B, bnext := N, bprev := P\<rparr>"
    and i: "\<forall>i. A (SL_inode i) = slocks s (SL_inode i)" by (auto simp: wframe_def bio_frame_def)
  show ?thesis unfolding wframe_def bio_frame_def t
    by (rule exI [of _ A], rule exI [of _ B], rule exI [of _ N], rule exI [of _ P]) (simp add: i)
qed

lemma lh_agree: "bio_agree s (s\<lparr>lh_n := n\<rparr>)" "bio_agree s (s\<lparr>lh_n := n, lh_block := w\<rparr>)"
  by (simp_all add: bio_agree_def)

lemmas lhn_views = bio_agree_views [OF lh_agree(1)]
lemmas lhb_views = bio_agree_views [OF lh_agree(2)]

lemma commit_run:
  fixes s :: "'z wal_st_scheme"
  assumes "bst s" and "log_ok s" and "held s = {}" and "pinned s = set (logged s)" and "lh_n s > 0"
  shows "\<exists>t. commit s = Ret () t \<and> bst t \<and> held t = {} \<and> pinned t = {} \<and> lh_n t = 0
    \<and> wframe (s\<lparr>lh_n := 0\<rparr>) (commit_writes s) t \<and> (\<forall>n. n \<notin> log_area s \<longrightarrow> bview t n = bview s n)"
proof -
  let ?L = "nat (lg_start s)" and ?n = "nat (lh_n s)" and ?bl = "logged s"
  obtain t where t: "write_log s = Ret () t" "bst t" "held t = {}" "pinned t = pinned s" "wframe s (log_writes s ?n) t"
      "\<forall>n. n \<notin> {?L + 1..<?L + 1 + ?n} \<longrightarrow> bview t n = bview s n" "\<forall>j < ?n. bview t (?L + 1 + j) = bview s (?bl ! j)"
    using write_log_run [OF assms(1-4)] by blast
  note ft = wframe_log [OF t(5)]
  have lt: "log_ok t" "logged t = ?bl" using log_ok_frame [OF t(5)] assms(2) ft by (simp_all add: logged_def)
  have vL: "bview t ?L = bview s ?L" using t(6) by simp
  obtain u where u: "write_head t = Ret () u" "bst u" "held u = {}" "pinned u = pinned t"
      "wframe t [(?L, head_after s)] u" "bview u = (bview t)(?L := head_after s)"
    using write_head_run [OF t(2) lt(1) t(3)] t(4) assms(4) lt(2) ft vL by (auto simp: head_after_def)
  note fu = wframe_log [OF u(5)]
  have lu: "log_ok u" "logged u = ?bl" using log_ok_frame [OF u(5)] lt ft fu by (simp_all add: logged_def)
  obtain v where v: "install_trans u = Ret () v" "bst v" "held v = {}" "pinned v = {}" "wframe u (home_writes u (nat (lh_n u))) v"
     "\<forall>n. n \<notin> set (logged u) \<longrightarrow> bview v n = bview u n" "\<forall>j < nat (lh_n u). bview v (logged u ! j) = bview u (nat (lg_start u) + 1 + j)"
    using install_trans_run [OF u(2) lu(1) u(3)] u(4) t(4) assms(4) lu(2) by auto
  note fv = wframe_log [OF v(5)]
  have hw: "home_writes u (nat (lh_n u)) = map (\<lambda>j. (?bl ! j, bview s (?bl ! j))) [0..<?n]"
    using lu(2) fu ft u(6) t(7) by (auto simp: home_writes_def)
  let ?v = "v\<lparr>lh_n := 0\<rparr>"
  have lv: "log_ok ?v" using assms(2) fv fu ft by (auto simp: log_ok_def logged_def)
  have start: "lg_start ?v = lg_start s" "lh_block ?v = lh_block s" using fv fu ft by simp_all
  have Lbl: "?L \<notin> set ?bl" using assms(2) by (auto simp: log_ok_def log_area_def)
  have vh: "bview ?v ?L = head_after s" using v(6) u(6) lu(2) Lbl by (simp add: lhn_views)
  have "bst ?v" "held ?v = {}" "pinned ?v = {}" using v by (simp_all add: lhn_views)
  then obtain x where x: "write_head ?v = Ret () x" "bst x" "held x = {}" "pinned x = {}"
      "wframe ?v [(?L, head_block 0 (lh_block s) (head_after s))] x"
      "bview x = (bview ?v)(?L := head_block 0 (lh_block s) (head_after s))"
    using write_head_run [of ?v, OF _ lv] start vh by auto
  have "wframe s (log_writes s ?n @ [(?L, head_after s)] @ home_writes u (nat (lh_n u))) v"
    by (rule wframe_trans [OF t(5) wframe_trans [OF u(5) v(5)]])
  from wframe_trans [OF wframe_lhn [OF this] x(5)] have "wframe (s\<lparr>lh_n := 0\<rparr>) (commit_writes s) x"
    using hw by (simp add: commit_writes_def)
  moreover have "commit s = Ret () x" using t(1) u(1) v(1) x(1) assms(5) by (simp add: commit_def kernel_simps)
  moreover have "bview x n = bview s n" if "n \<notin> log_area s" for n
  proof -
    have nL: "n \<noteq> ?L" "n \<notin> {?L + 1..<?L + 1 + ?n}" using that assms(2) by (auto simp: log_area_def log_ok_def)
    show ?thesis
    proof (cases "n \<in> set ?bl")
      case True
      then obtain j where j: "j < length ?bl" "n = ?bl ! j" by (auto simp: in_set_conv_nth)
      then have "j < ?n" by (simp add: logged_def)
      then show ?thesis using x(6) nL v(7) lu(2) u(6) t(7) j fu ft by (simp add: lhn_views)
    next
      case False
      then show ?thesis using x(6) nL v(6) u(6) t(6) lu(2) by (simp add: lhn_views)
    qed
  qed
  moreover have "lh_n x = 0" using wframe_log(1) [OF x(5)] by simp
  ultimately show ?thesis using x by blast
qed

section \<open>Recovery\<close>

lemma get32_head_count: "4 \<le> length d \<Longrightarrow> 0 \<le> n \<Longrightarrow> n < 2 ^ 31 \<Longrightarrow> get32 (head_block n bs d) 0 = nat n"
  by (simp add: head_block_def get32_put_array_other get32_put32 uint_of_def nat_less_iff)

lemma get32_head_block:
  assumes "i < nat n" and "nat n \<le> length bs" and "4 + 4 * nat n \<le> length d" and "bs ! i < 2 ^ 32"
  shows "get32 (head_block n bs d) (4 + 4 * i) = bs ! i"
proof -
  have "get32 (head_block n bs d) (4 + 4 * i) = take (nat n) bs ! i mod 2 ^ 32"
    unfolding head_block_def by (rule get32_put_array) (use assms in auto)
  then show ?thesis using assms by simp
qed

text \<open>The header that \<^verbatim>\<open>read_head\<close> finds in a block.\<close>

definition head_list :: "block \<Rightarrow> nat list" where
  "head_list d = map (\<lambda>i. get32 d (4 + 4 * i)) [0..<get32 d 0]"

lemma read_head_loop:
  fixes s :: "'z wal_st_scheme"
  assumes "m \<le> LOGSIZE" and "length (lh_block s) = LOGSIZE"
  shows "\<exists>u. kfor [0..<m] (\<lambda>i. if i < LOGSIZE then kmod (\<lambda>s. s\<lparr>lh_block := (lh_block s)[i := get32 d (4 + 4 * i)]\<rparr>) else kfault) s
     = Ret () (s\<lparr>lh_block := u\<rparr>) \<and> length u = LOGSIZE \<and> take m u = map (\<lambda>i. get32 d (4 + 4 * i)) [0..<m]"
proof -
  define J where "J = (\<lambda>i t. \<exists>u. t = s\<lparr>lh_block := u\<rparr> \<and> length u = LOGSIZE \<and> take i u = map (\<lambda>i. get32 d (4 + 4 * i)) [0..<i])"
  have "J 0 s" unfolding J_def by (rule exI [of _ "lh_block s"]) (simp add: assms(2))
  moreover have "\<exists>u. (if i < LOGSIZE then kmod (\<lambda>s. s\<lparr>lh_block := (lh_block s)[i := get32 d (4 + 4 * i)]\<rparr>) else kfault) t = Ret () u \<and> J (Suc i) u"
    if i: "i < m" and J: "J i t" for i t
  proof -
    obtain u where u: "t = s\<lparr>lh_block := u\<rparr>" "length u = LOGSIZE" "take i u = map (\<lambda>i. get32 d (4 + 4 * i)) [0..<i]"
      using J by (auto simp: J_def)
    have "take (Suc i) (u[i := get32 d (4 + 4 * i)]) = map (\<lambda>i. get32 d (4 + 4 * i)) [0..<Suc i]"
      using u i assms(1) by (simp add: take_Suc_conv_app_nth)
    then show ?thesis using u i assms(1) by (auto simp: J_def kernel_simps)
  qed
  ultimately show ?thesis
    using kfor_inv [of J s m "\<lambda>i. if i < LOGSIZE then kmod (\<lambda>s. s\<lparr>lh_block := (lh_block s)[i := get32 d (4 + 4 * i)]\<rparr>) else kfault"]
    by (auto simp: J_def)
qed

text \<open>A log whose header block on the disk is well-formed.\<close>

definition disk_log_ok :: "'z wal_st_scheme \<Rightarrow> bool" where
  "disk_log_ok s \<longleftrightarrow> lg_dev s = 1 \<and> 0 \<le> lg_start s \<and> 1 \<le> lg_size s
     \<and> lg_start s + lg_size s \<le> int (length (memdisk s)) \<and> length (memdisk s) < 2 ^ 32 \<and> length (lh_block s) = LOGSIZE
     \<and> (let d = memdisk s ! nat (lg_start s) in
          get32 d 0 < LOGSIZE \<and> int (get32 d 0) < lg_size s \<and> distinct (head_list d)
          \<and> (\<forall>b \<in> set (head_list d). b < length (memdisk s) \<and> b \<notin> log_area s))"

lemma read_head_run:
  fixes s :: "'z wal_st_scheme"
  assumes "bst s" and "disk_log_ok s" and "held s = {}" and "pinned s = {}"
  shows "\<exists>t. read_head s = Ret () t \<and> bst t \<and> held t = {} \<and> pinned t = {} \<and> bview t = bview s \<and> log_ok t
    \<and> logged t = head_list (memdisk s ! nat (lg_start s)) \<and> lh_n t = int (get32 (memdisk s ! nat (lg_start s)) 0)
    \<and> (\<exists>n u. bio_frame (s\<lparr>lh_n := n, lh_block := u\<rparr>) t)"
proof -
  let ?L = "nat (lg_start s)" and ?d = "memdisk s ! nat (lg_start s)"
  let ?n = "get32 ?d 0"
  have L: "uint_of (lg_start s) = ?L" "?L < length (memdisk s)" "lg_dev s = 1" "?n < LOGSIZE" "length (lh_block s) = LOGSIZE"
    using assms(2) by (auto simp: disk_log_ok_def uint_of_def Let_def)
  have "room s" using room_card [OF assms(1)] assms(3,4) by (simp add: NBUF_def)
  then obtain b t where t: "bread 1 ?L s = Ret b t" "bst t" "bio_frame s t" "holds t ?L b"
     "bview t = bview s" "held t = insert ?L (held s)" "pinned t = pinned s"
    using bread_law [OF assms(1) L(2)] assms(3) by blast
  have vd: "bview s ?L = ?d" using unheld_clean [OF assms(1), of ?L] assms(3,4) by simp
  then have d: "b_data (bufs t ! b) = ?d" using holds_buf(9) [OF t(2,4)] t(5) by simp
  have i: "int_of (int ?n) = int ?n" using L(4) by (intro int_of_id) (auto simp: LOGSIZE_def MAXOPBLOCKS_def)
  have len: "length (lh_block (t\<lparr>lh_n := int ?n\<rparr>)) = LOGSIZE" using t(3) L(5) by (auto simp: bio_frame_def)
  obtain w where w: "kfor [0..<?n] (\<lambda>i. if i < LOGSIZE then kmod (\<lambda>s. s\<lparr>lh_block := (lh_block s)[i := get32 ?d (4 + 4 * i)]\<rparr>) else kfault) (t\<lparr>lh_n := int ?n\<rparr>)
     = Ret () (t\<lparr>lh_n := int ?n, lh_block := w\<rparr>)" "length w = LOGSIZE" "take ?n w = head_list ?d"
    using read_head_loop [OF less_imp_le [OF L(4)] len, of ?d] by (auto simp: head_list_def)
  let ?t = "t\<lparr>lh_n := int ?n, lh_block := w\<rparr>"
  have "bst ?t" "holds ?t ?L b" "bview ?t ?L = memdisk ?t ! ?L"
    using t vd bio_frame_sel [OF t(3)] by (simp_all add: lhb_views)
  then obtain u where u: "brelse b ?t = Ret () u" "bst u" "bio_frame ?t u" "bview u = bview ?t"
     "held u = held ?t - {?L}" "pinned u = pinned ?t"
    using brelse_law [of ?t ?L b] by blast
  have fu: "lh_n u = int ?n" "lh_block u = w" "lg_start u = lg_start s" "lg_size u = lg_size s" "lg_dev u = lg_dev s"
      "memdisk u = memdisk s"
    using u(3) t(3) by (auto simp: bio_frame_def)
  have lg: "logged u = head_list ?d" using fu w by (simp add: logged_def)
  have "log_ok u"
    using assms(2) fu lg w(2) by (simp add: log_ok_def disk_log_ok_def Let_def log_area_def)
  moreover have "bio_frame (s\<lparr>lh_n := int ?n, lh_block := w\<rparr>) u"
  proof -
    obtain A B N P where tt: "t = s\<lparr>slocks := A, bufs := B, bnext := N, bprev := P\<rparr>"
      and i: "\<forall>i. A (SL_inode i) = slocks s (SL_inode i)" using t(3) by (auto simp: bio_frame_def)
    have "bio_frame (s\<lparr>lh_n := int ?n, lh_block := w\<rparr>) ?t"
      unfolding bio_frame_def tt by (rule exI [of _ A], rule exI [of _ B], rule exI [of _ N], rule exI [of _ P]) (simp add: i)
    then show ?thesis using u(3) by (rule bio_frame_trans)
  qed
  moreover have "read_head s = Ret () u"
    using t(1) d w(1) u(1) L i by (simp add: read_head_def kernel_simps)
  ultimately show ?thesis using u fu lg t assms(3,4) by (auto simp: lhb_views)
qed

lemma recover_run:
  fixes s :: "'z wal_st_scheme"
  assumes "bst s" and "disk_log_ok s" and "held s = {}" and "pinned s = {}"
  shows "\<exists>t. recover_from_log s = Ret () t \<and> bst t \<and> lh_n t = 0
    \<and> (\<forall>j < get32 (memdisk s ! nat (lg_start s)) 0.
         memdisk t ! (head_list (memdisk s ! nat (lg_start s)) ! j) = memdisk s ! (nat (lg_start s) + 1 + j))
    \<and> (\<forall>n. n \<notin> log_area s \<longrightarrow> n \<notin> set (head_list (memdisk s ! nat (lg_start s))) \<longrightarrow> memdisk t ! n = memdisk s ! n)"
proof -
  let ?L = "nat (lg_start s)" and ?d = "memdisk s ! nat (lg_start s)"
  let ?n = "get32 ?d 0" and ?hl = "head_list ?d"
  obtain t m w where t: "read_head s = Ret () t" "bst t" "held t = {}" "pinned t = {}" "bview t = bview s" "log_ok t"
     "logged t = ?hl" "lh_n t = int ?n" "bio_frame (s\<lparr>lh_n := m, lh_block := w\<rparr>) t"
    using read_head_run [OF assms] by blast
  have ft: "lg_start t = lg_start s" "lg_size t = lg_size s" "memdisk t = memdisk s" using t(9) by (auto simp: bio_frame_def)
  obtain u where u: "install_trans t = Ret () u" "bst u" "held u = {}" "pinned u = {}" "wframe t (home_writes t (nat (lh_n t))) u"
    using install_trans_run [OF t(2,6,3)] t(4) by auto
  note fu = wframe_log [OF u(5)]
  let ?u = "u\<lparr>lh_n := 0\<rparr>"
  have "log_ok ?u" using t(6) fu by (auto simp: log_ok_def logged_def log_area_def)
  moreover have "bst ?u" "held ?u = {}" "pinned ?u = {}" using u by (simp_all add: lhn_views)
  ultimately obtain v h where v: "write_head ?u = Ret () v" "bst v" "wframe ?u [(nat (lg_start ?u), h)] v"
    using write_head_run [of ?u] by auto
  have ws: "home_writes t (nat (lh_n t)) = map (\<lambda>j. (?hl ! j, memdisk s ! (?L + 1 + j))) [0..<?n]"
  proof -
    have "bview s k = memdisk s ! k" for k using unheld_clean [OF assms(1), of k] assms(3,4) by simp
    then show ?thesis using t(5,7,8) ft by (simp add: home_writes_def)
  qed
  have disk: "memdisk v = (apply_writes (map (\<lambda>j. (?hl ! j, memdisk s ! (?L + 1 + j))) [0..<?n]) (memdisk s))[?L := h]"
    using wframe_disk [OF v(3)] wframe_disk [OF u(5)] ws ft fu by simp
  have hl: "distinct ?hl" "\<forall>b \<in> set ?hl. b < length (memdisk s) \<and> b \<notin> log_area s" "length ?hl = ?n"
    using assms(2) by (simp_all add: disk_log_ok_def Let_def head_list_def)
  have L: "?L \<in> log_area s" using assms(2) by (auto simp: disk_log_ok_def log_area_def)
  let ?ws = "map (\<lambda>j. (?hl ! j, memdisk s ! (?L + 1 + j))) [0..<?n]"
  have fst: "map fst ?ws = ?hl" using hl(3) by (intro nth_equalityI) auto
  then have fs: "fst ` set ?ws = set ?hl" by (metis set_map)
  have "memdisk v ! (?hl ! j) = memdisk s ! (?L + 1 + j)" if "j < ?n" for j
  proof -
    have h: "?hl ! j \<in> set ?hl" using hl(3) that by simp
    then have "?hl ! j \<noteq> ?L" using hl(2) L by auto
    moreover have "apply_writes ?ws (memdisk s) ! (?hl ! j) = memdisk s ! (?L + 1 + j)"
      by (rule apply_writes_at) (use fst hl h that in auto)
    ultimately show ?thesis using disk by simp
  qed
  moreover have "memdisk v ! n = memdisk s ! n" if "n \<notin> log_area s" "n \<notin> set ?hl" for n
  proof -
    have "n \<noteq> ?L" using that(1) L by auto
    then show ?thesis using disk apply_writes_other [of n ?ws] fs that(2) by simp
  qed
  moreover have "recover_from_log s = Ret () v" using t(1) u(1) v(1) by (simp add: recover_from_log_def kernel_simps)
  moreover have "lh_n v = 0" using wframe_log(1) [OF v(3)] by simp
  ultimately show ?thesis using v(2) by blast
qed

lemma initlock_quiet: "quiet (lk s) \<Longrightarrow> initlock l s = Ret () s"
  by (simp add: initlock_def kernel_simps quiet_def lock_free_def fun_upd_idem)

text \<open>Booting from a disk: the log as the super block describes it is recovered.\<close>

definition booted :: "superblock \<Rightarrow> 'z wal_st_scheme \<Rightarrow> 'z wal_st_scheme" where
  "booted sb s = s\<lparr>lg_start := int (sb_logstart sb), lg_size := int (sb_nlog sb), lg_dev := 1\<rparr>"

lemma initlog_run:
  fixes s :: "'z wal_st_scheme"
  assumes "bst s" and "held s = {}" and "pinned s = {}" and "1 < length (memdisk s)"
    and sb: "superblock_of (memdisk s ! 1) = sb" "sb_logstart sb < 2 ^ 31" "sb_nlog sb < 2 ^ 31"
    and ok: "disk_log_ok (booted sb s)"
  shows "\<exists>t. initlog 1 s = Ret () t \<and> bst t \<and> lh_n t = 0
    \<and> (\<forall>j < get32 (memdisk s ! sb_logstart sb) 0.
         memdisk t ! (head_list (memdisk s ! sb_logstart sb) ! j) = memdisk s ! (sb_logstart sb + 1 + j))
    \<and> (\<forall>n. n \<notin> log_area (booted sb s) \<longrightarrow> n \<notin> set (head_list (memdisk s ! sb_logstart sb)) \<longrightarrow> memdisk t ! n = memdisk s ! n)"
proof -
  have q: "quiet (lk s)" using assms(1) by (simp add: bst_def calm_def)
  have "1 \<notin> held s" "wspace s 0" "card (held s) \<le> 0" using assms(2,3) by (simp_all add: wspace_def NBUF_def)
  from wt.block_get [OF assms(1,4) this, of superblock_of]
  obtain t where t: "readsb 1 s = Ret (superblock_of (bview s 1)) t" "bst t" "cache_frame s t" "bview t = bview s" "held t = held s"
    by (auto simp: readsb_def)
  have v1: "bview s 1 = memdisk s ! 1" using unheld_clean [OF assms(1), of 1] assms(2,3) by simp
  have fr: "bio_frame s t" "pinned t = {}" using t(3) assms(3) by (simp_all add: cache_frame_def)
  obtain A B N P where tt: "t = s\<lparr>slocks := A, bufs := B, bnext := N, bprev := P\<rparr>"
    using fr(1) by (auto simp: bio_frame_def)
  let ?u = "booted sb t"
  have "bio_agree t ?u" by (simp add: bio_agree_def booted_def)
  then have u: "bst ?u" "held ?u = {}" "pinned ?u = {}" using t(2,5) fr(2) assms(2) by (simp_all add: bio_agree_views)
  have m: "memdisk ?u = memdisk s" "lg_start ?u = int (sb_logstart sb)" "log_area ?u = log_area (booted sb s)"
    using bio_frame_sel [OF fr(1)] by (simp_all add: booted_def log_area_def)
  have d: "disk_log_ok ?u" using ok by (simp add: disk_log_ok_def booted_def tt log_area_def)
  obtain v where v: "recover_from_log ?u = Ret () v" "bst v" "lh_n v = 0"
     "\<forall>j < get32 (memdisk ?u ! nat (lg_start ?u)) 0.
         memdisk v ! (head_list (memdisk ?u ! nat (lg_start ?u)) ! j) = memdisk ?u ! (nat (lg_start ?u) + 1 + j)"
     "\<forall>n. n \<notin> log_area ?u \<longrightarrow> n \<notin> set (head_list (memdisk ?u ! nat (lg_start ?u))) \<longrightarrow> memdisk v ! n = memdisk ?u ! n"
    using recover_run [OF u(1) d u(2,3)] by blast
  have "initlog 1 s = recover_from_log (t\<lparr>lg_start := int_of (int (sb_logstart sb)), lg_size := int_of (int (sb_nlog sb)), lg_dev := 1\<rparr>)"
    using t(1) v1 sb(1) initlock_quiet [OF q]
    by (simp add: initlog_def kernel_simps LOGSIZE_def MAXOPBLOCKS_def BSIZE_def)
  also have "t\<lparr>lg_start := int_of (int (sb_logstart sb)), lg_size := int_of (int (sb_nlog sb)), lg_dev := 1\<rparr> = ?u"
    using sb(2,3) by (simp add: booted_def int_of_id)
  finally show ?thesis using v m by simp
qed

section \<open>Atomicity\<close>

text \<open>The disk at a crash after \<open>k\<close> of the writes of a commit.\<close>

definition crash_disk :: "'z wal_st_scheme \<Rightarrow> nat \<Rightarrow> block list" where
  "crash_disk s k = apply_writes (take k (commit_writes s)) (memdisk s)"

text \<open>A transaction that is ready to commit, on a disk whose super block describes the log.\<close>

definition ready_to_commit :: "superblock \<Rightarrow> 'z wal_st_scheme \<Rightarrow> bool" where
  "ready_to_commit sb s \<longleftrightarrow> bst s \<and> log_ok s \<and> held s = {} \<and> pinned s = set (logged s) \<and> lh_n s > 0
     \<and> lg_start s = int (sb_logstart sb) \<and> lg_size s = int (sb_nlog sb) \<and> sb_logstart sb < 2 ^ 31 \<and> sb_nlog sb < 2 ^ 31
     \<and> 1 < length (memdisk s) \<and> 1 \<notin> log_area s \<and> 1 \<notin> set (logged s) \<and> superblock_of (memdisk s ! 1) = sb
     \<and> get32 (memdisk s ! sb_logstart sb) 0 = 0"

lemma commit_writes_parts:
  assumes "log_ok s"
  defines "n \<equiv> nat (lh_n s)"
  shows "length (log_writes s n) = n" "length (commit_writes s) = 2 * n + 2"
    "map fst (log_writes s n) = map (\<lambda>j. nat (lg_start s) + 1 + j) [0..<n]"
    "map fst (map (\<lambda>j. (logged s ! j, bview s (logged s ! j))) [0..<n]) = logged s"
proof -
  show "length (log_writes s n) = n" "length (commit_writes s) = 2 * n + 2"
    by (simp_all add: log_writes_def commit_writes_def n_def)
  show "map fst (log_writes s n) = map (\<lambda>j. nat (lg_start s) + 1 + j) [0..<n]" by (simp add: log_writes_def)
  have "length (logged s) = n" using assms(1) by (auto simp: log_ok_def logged_def n_def min_def)
  then show "map fst (map (\<lambda>j. (logged s ! j, bview s (logged s ! j))) [0..<n]) = logged s"
    by (intro nth_equalityI) auto
qed

lemma fst_take: "fst ` set (take m ws) \<subseteq> set (map fst ws)"
  unfolding set_map by (rule image_mono [OF set_take_subset])

text \<open>Before the header is written only the log area has changed.\<close>

lemma crash_before:
  assumes "log_ok s" and "k \<le> nat (lh_n s)"
  shows "crash_disk s k ! nat (lg_start s) = memdisk s ! nat (lg_start s)"
    "n \<notin> log_area s \<Longrightarrow> crash_disk s k ! n = memdisk s ! n"
proof -
  let ?n = "nat (lh_n s)"
  have tk: "take k (commit_writes s) = take k (log_writes s ?n)"
    using commit_writes_parts(1) [OF assms(1)] assms(2) by (simp add: commit_writes_def)
  have "fst ` set (take k (log_writes s ?n)) \<subseteq> set (map fst (log_writes s ?n))"
    by (rule fst_take)
  then have sub: "fst ` set (take k (log_writes s ?n)) \<subseteq> {nat (lg_start s) + 1..<nat (lg_start s) + 1 + ?n}"
    unfolding commit_writes_parts(3) [OF assms(1)] by auto
  show "crash_disk s k ! nat (lg_start s) = memdisk s ! nat (lg_start s)"
    unfolding crash_disk_def tk by (rule apply_writes_other) (use sub in auto)
  assume n: "n \<notin> log_area s"
  have "{nat (lg_start s) + 1..<nat (lg_start s) + 1 + ?n} \<subseteq> log_area s"
    using assms(1) by (auto simp: log_area_def log_ok_def)
  then show "crash_disk s k ! n = memdisk s ! n"
    unfolding crash_disk_def tk using sub n by (intro apply_writes_other) auto
qed

text \<open>After it, the header and the log hold the transaction, whatever has been installed.\<close>

lemma crash_between:
  assumes "bst s" and "log_ok s" and "k < nat (lh_n s) + 1 + nat (lh_n s) + 1" and "nat (lh_n s) < k"
  shows "crash_disk s k ! nat (lg_start s) = head_after s"
    "j < nat (lh_n s) \<Longrightarrow> crash_disk s k ! (nat (lg_start s) + 1 + j) = bview s (logged s ! j)"
    "n \<notin> log_area s \<Longrightarrow> n \<notin> set (logged s) \<Longrightarrow> crash_disk s k ! n = memdisk s ! n"
proof -
  let ?n = "nat (lh_n s)" and ?L = "nat (lg_start s)"
  let ?h = "map (\<lambda>j. (logged s ! j, bview s (logged s ! j))) [0..<?n]"
  let ?d1 = "apply_writes (log_writes s ?n) (memdisk s)"
  note parts = commit_writes_parts [OF assms(2)]
  define m where "m = k - ?n - 1"
  then have m: "k = ?n + 1 + m" "m \<le> ?n" using assms(3,4) by linarith+
  have tk: "take k (commit_writes s) = log_writes s ?n @ [(?L, head_after s)] @ take m ?h"
    using parts(1) m by (simp add: commit_writes_def)
  have "fst ` set (take m ?h) \<subseteq> set (map fst ?h)" by (rule fst_take)
  then have sub: "fst ` set (take m ?h) \<subseteq> set (logged s)" unfolding parts(4) .
  have L: "?L < length (memdisk s)" "?L \<in> log_area s" and bl: "\<forall>b \<in> set (logged s). b \<notin> log_area s"
    using assms(2) by (auto simp: log_ok_def log_area_def)
  have cd: "crash_disk s k = apply_writes (take m ?h) (?d1[?L := head_after s])"
    unfolding crash_disk_def tk by simp
  have out: "crash_disk s k ! i = (?d1[?L := head_after s]) ! i" if "i \<notin> set (logged s)" for i
    unfolding cd by (rule apply_writes_other) (use sub that in blast)
  show "crash_disk s k ! ?L = head_after s" using out [of ?L] bl L by auto
  show "crash_disk s k ! (?L + 1 + j) = bview s (logged s ! j)" if j: "j < ?n"
  proof -
    have a: "?L + 1 + j \<in> log_area s" "?L + 1 + j < length (memdisk s)" using log_slot(2,3) [OF assms(2) j] by auto
    have "?d1 ! (?L + 1 + j) = bview s (logged s ! j)"
    proof (rule apply_writes_at)
      show "distinct (map fst (log_writes s ?n))" unfolding parts(3) by (simp add: distinct_map inj_on_def)
      show "(?L + 1 + j, bview s (logged s ! j)) \<in> set (log_writes s ?n)" using j by (auto simp: log_writes_def)
    qed (rule a(2))
    moreover have "?L + 1 + j \<notin> set (logged s)" using a(1) bl by blast
    ultimately show ?thesis using out [of "?L + 1 + j"] by simp
  qed
  assume n: "n \<notin> log_area s" "n \<notin> set (logged s)"
  have "fst ` set (log_writes s ?n) = set (map fst (log_writes s ?n))" by simp
  also have "\<dots> \<subseteq> log_area s" unfolding parts(3) using assms(2) by (auto simp: log_area_def log_ok_def)
  finally have "?d1 ! n = memdisk s ! n" using n(1) by (intro apply_writes_other) auto
  moreover have "n \<noteq> ?L" using n(1) L(2) by metis
  ultimately show "crash_disk s k ! n = memdisk s ! n" using out [OF n(2)] by simp
qed

text \<open>At the end everything is installed and the header is empty.\<close>

lemma crash_after:
  assumes "bst s" and "log_ok s" and "k \<ge> nat (lh_n s) + 1 + nat (lh_n s) + 1"
  shows "get32 (crash_disk s k ! nat (lg_start s)) 0 = 0"
    "n \<in> set (logged s) \<Longrightarrow> crash_disk s k ! n = bview s n"
    "n \<notin> log_area s \<Longrightarrow> n \<notin> set (logged s) \<Longrightarrow> crash_disk s k ! n = memdisk s ! n"
proof -
  let ?n = "nat (lh_n s)" and ?L = "nat (lg_start s)" and ?H = "head_block 0 (lh_block s) (head_after s)"
  let ?h = "map (\<lambda>j. (logged s ! j, bview s (logged s ! j))) [0..<?n]"
  let ?d2 = "(apply_writes (log_writes s ?n) (memdisk s))[?L := head_after s]"
  note parts = commit_writes_parts [OF assms(2)]
  have cd: "crash_disk s k = (apply_writes ?h ?d2)[?L := ?H]"
    unfolding crash_disk_def using assms(3) parts(2) by (simp add: commit_writes_def)
  have L: "?L < length (memdisk s)" "?L \<in> log_area s" and bl: "\<forall>b \<in> set (logged s). b \<notin> log_area s \<and> b < length (memdisk s)"
    and dist: "distinct (logged s)"
    using assms(2) by (auto simp: log_ok_def log_area_def)
  have "length (bview s ?L) = BSIZE" by (rule bst_len [OF assms(1) L(1)])
  then have "get32 ?H 0 = 0" by (subst get32_head_count) (simp_all add: head_after_def BSIZE_def)
  then show "get32 (crash_disk s k ! ?L) 0 = 0" using cd L by simp
  show "crash_disk s k ! n = bview s n" if n: "n \<in> set (logged s)"
  proof -
    obtain j where j: "j < length (logged s)" "n = logged s ! j" using n by (auto simp: in_set_conv_nth)
    then have jn: "j < ?n" by (simp add: logged_def)
    have "apply_writes ?h ?d2 ! n = bview s n"
    proof (rule apply_writes_at)
      show "distinct (map fst ?h)" unfolding parts(4) by (rule dist)
      show "(n, bview s n) \<in> set ?h" using j jn by auto
      show "n < length ?d2" using bl n by simp
    qed
    moreover have "n \<noteq> ?L" using bl n L by auto
    ultimately show ?thesis using cd by simp
  qed
  assume n: "n \<notin> log_area s" "n \<notin> set (logged s)"
  have "fst ` set ?h = set (logged s)" using parts(4) set_map [of fst ?h] by simp
  then have a: "apply_writes ?h ?d2 ! n = ?d2 ! n" using n(2) by (intro apply_writes_other) simp
  have "fst ` set (log_writes s ?n) = set (map fst (log_writes s ?n))" by simp
  also have "\<dots> \<subseteq> log_area s" unfolding parts(3) using assms(2) by (auto simp: log_area_def log_ok_def)
  finally have "apply_writes (log_writes s ?n) (memdisk s) ! n = memdisk s ! n" using n(1) by (intro apply_writes_other) auto
  moreover have "n \<noteq> ?L" using n(1) L(2) by metis
  ultimately show "crash_disk s k ! n = memdisk s ! n" using cd a by simp
qed

lemma head_after_list:
  assumes "bst s" and "log_ok s"
  shows "get32 (head_after s) 0 = nat (lh_n s)" "head_list (head_after s) = logged s"
proof -
  have L: "nat (lg_start s) < length (memdisk s)" using assms(2) by (auto simp: log_ok_def)
  have len: "length (bview s (nat (lg_start s))) = BSIZE" by (rule bst_len [OF assms(1) L])
  have n: "0 \<le> lh_n s" "lh_n s < int LOGSIZE" "length (lh_block s) = LOGSIZE" using assms(2) by (auto simp: log_ok_def)
  show c: "get32 (head_after s) 0 = nat (lh_n s)"
    unfolding head_after_def using n len by (subst get32_head_count) (auto simp: BSIZE_def LOGSIZE_def MAXOPBLOCKS_def)
  show "head_list (head_after s) = logged s"
  proof (rule nth_equalityI)
    show l: "length (head_list (head_after s)) = length (logged s)"
      using c n by (auto simp: head_list_def logged_def)
    fix i assume "i < length (head_list (head_after s))"
    then have i: "i < nat (lh_n s)" by (simp add: head_list_def c)
    have b: "lh_block s ! i < 2 ^ 32"
      using log_slot(5,6) [OF assms(2) i] assms(2) by (fastforce simp: log_ok_def)
    have "get32 (head_after s) (4 + 4 * i) = lh_block s ! i"
      unfolding head_after_def by (rule get32_head_block) (use i n len b in \<open>auto simp: BSIZE_def LOGSIZE_def MAXOPBLOCKS_def\<close>)
    then show "head_list (head_after s) ! i = logged s ! i"
      using i c log_slot(5) [OF assms(2) i] by (simp add: head_list_def)
  qed
qed

text \<open>A machine that starts up on a disk: nothing is held or pinned.\<close>

definition fresh_boot :: "block list \<Rightarrow> 'z wal_st_scheme \<Rightarrow> bool" where
  "fresh_boot d r \<longleftrightarrow> bst r \<and> held r = {} \<and> pinned r = {} \<and> length (lh_block r) = LOGSIZE \<and> memdisk r = d"

lemma crash_boot:
  fixes s r :: "'z wal_st_scheme"
  assumes s: "ready_to_commit sb s" and r: "fresh_boot (crash_disk s k) r"
  shows "\<exists>t. initlog 1 r = Ret () t \<and> bst t \<and> lh_n t = 0
    \<and> (\<forall>n. n \<notin> log_area s \<longrightarrow> memdisk t ! n = (if k \<le> nat (lh_n s) then memdisk s ! n else bview s n))"
proof -
  let ?n = "nat (lh_n s)" and ?L = "sb_logstart sb" and ?hd = "crash_disk s k ! sb_logstart sb"
  have S: "bst s" "log_ok s" "held s = {}" "pinned s = set (logged s)" "nat (lg_start s) = ?L"
    and sb: "sb_logstart sb < 2 ^ 31" "sb_nlog sb < 2 ^ 31" "1 < length (memdisk s)" "1 \<notin> log_area s" "1 \<notin> set (logged s)"
      "superblock_of (memdisk s ! 1) = sb" "get32 (memdisk s ! ?L) 0 = 0" "lg_start s = int ?L" "lg_size s = int (sb_nlog sb)"
    using s by (auto simp: ready_to_commit_def)
  have R: "bst r" "held r = {}" "pinned r = {}" "length (lh_block r) = LOGSIZE" "memdisk r = crash_disk s k"
    using r by (auto simp: fresh_boot_def)
  have same: "bview s n = memdisk s ! n" if "n \<notin> set (logged s)" for n
    using unheld_clean [OF S(1), of n] S(3,4) that by simp
  have area: "log_area (booted sb r) = log_area s" using sb by (simp add: log_area_def booted_def)
  have L: "?L < length (memdisk s)" using S(2,5) by (auto simp: log_ok_def)
  have one: "crash_disk s k ! 1 = memdisk s ! 1"
    using crash_before(2) [OF S(2)] crash_between(3) [OF S(1,2)] crash_after(3) [OF S(1,2)] sb(4,5)
    by (cases "k \<le> ?n"; cases "k < ?n + 1 + ?n + 1") auto
  have hd: "head_list ?hd = (if ?n < k \<and> k < ?n + 1 + ?n + 1 then logged s else [])"
    and cnt: "get32 ?hd 0 = (if ?n < k \<and> k < ?n + 1 + ?n + 1 then ?n else 0)"
  proof -
    consider "k \<le> ?n" | "?n < k" "k < ?n + 1 + ?n + 1" | "k \<ge> ?n + 1 + ?n + 1" by linarith
    then have "head_list ?hd = (if ?n < k \<and> k < ?n + 1 + ?n + 1 then logged s else [])
       \<and> get32 ?hd 0 = (if ?n < k \<and> k < ?n + 1 + ?n + 1 then ?n else 0)"
    proof cases
      case 1
      then have "?hd = memdisk s ! ?L" using crash_before(1) [OF S(2)] S(5) by simp
      then show ?thesis using 1 sb(7) by (simp add: head_list_def)
    next
      case 2
      then have "?hd = head_after s" using crash_between(1) [OF S(1,2)] S(5) by simp
      then show ?thesis using 2 head_after_list [OF S(1,2)] by simp
    next
      case 3
      then have "get32 ?hd 0 = 0" using crash_after(1) [OF S(1,2)] S(5) by simp
      then show ?thesis using 3 by (simp add: head_list_def)
    qed
    then show "head_list ?hd = (if ?n < k \<and> k < ?n + 1 + ?n + 1 then logged s else [])"
      "get32 ?hd 0 = (if ?n < k \<and> k < ?n + 1 + ?n + 1 then ?n else 0)" by simp_all
  qed
  have len: "length (crash_disk s k) = length (memdisk s)" by (simp add: crash_disk_def)
  have "?n < LOGSIZE" "?n < sb_nlog sb" using S(2) sb(9) by (auto simp: log_ok_def)
  then have "disk_log_ok (booted sb r)"
    using S(2) hd cnt len area R(4,5) sb unfolding disk_log_ok_def Let_def
    by (simp add: booted_def log_ok_def LOGSIZE_def MAXOPBLOCKS_def)
  moreover have "superblock_of (memdisk r ! 1) = sb" "1 < length (memdisk r)" using one R(5) sb(3,6) len by simp_all
  ultimately obtain t where t: "initlog 1 r = Ret () t" "bst t" "lh_n t = 0"
    "\<forall>j < get32 ?hd 0. memdisk t ! (head_list ?hd ! j) = crash_disk s k ! (?L + 1 + j)"
    "\<forall>n. n \<notin> log_area s \<longrightarrow> n \<notin> set (head_list ?hd) \<longrightarrow> memdisk t ! n = crash_disk s k ! n"
    using initlog_run [OF R(1-3), of sb] sb(1,2) R(5) area by auto
  have "memdisk t ! n = (if k \<le> ?n then memdisk s ! n else bview s n)" if n: "n \<notin> log_area s" for n
  proof -
    consider "k \<le> ?n" | "?n < k" "k < ?n + 1 + ?n + 1" "n \<in> set (logged s)" | "?n < k" "k < ?n + 1 + ?n + 1" "n \<notin> set (logged s)"
      | "k \<ge> ?n + 1 + ?n + 1" by linarith
    then show ?thesis
    proof cases
      case 1
      then show ?thesis using t(5) n hd crash_before(2) [OF S(2) 1 n] by simp
    next
      case 2
      then obtain j where j: "j < length (logged s)" "n = logged s ! j" by (auto simp: in_set_conv_nth)
      then have "j < ?n" by (simp add: logged_def)
      then show ?thesis using t(4) hd cnt 2 j crash_between(2) [OF S(1,2) 2(2,1), of j] S(5) by simp
    next
      case 3
      then show ?thesis using t(5) n hd crash_between(3) [OF S(1,2) 3(2,1) n 3(3)] same [OF 3(3)] by simp
    next
      case 4
      then show ?thesis
        using t(5) n hd crash_after(2,3) [OF S(1,2) 4] same by (cases "n \<in> set (logged s)") auto
    qed
  qed
  then show ?thesis using t(1-3) by blast
qed

text \<open>
  C3. Committing a transaction writes to the disk in an order such that a crash after any
  number \<open>k\<close> of these writes is harmless: when the machine starts again, \<^verbatim>\<open>initlog\<close> succeeds and outside the
  log area the disk is exactly as before the transaction (if the header had not been written) or
  as the transaction left it in the cache (if it had).
\<close>

theorem crash_atomic:
  fixes s :: "'z wal_st_scheme"
  assumes "ready_to_commit sb s"
  shows "\<exists>u ws. commit s = Ret () u \<and> dwrites u = dwrites s @ ws
    \<and> (\<forall>k (r :: 'z wal_st_scheme). fresh_boot (apply_writes (take k ws) (memdisk s)) r \<longrightarrow>
         (\<exists>t. initlog 1 r = Ret () t \<and> bst t \<and> lh_n t = 0
            \<and> (\<forall>n. n \<notin> log_area s \<longrightarrow> memdisk t ! n = (if k \<le> nat (lh_n s) then memdisk s ! n else bview s n))))"
proof -
  obtain u where u: "commit s = Ret () u" "wframe (s\<lparr>lh_n := 0\<rparr>) (commit_writes s) u"
    using commit_run [of s] assms by (auto simp: ready_to_commit_def)
  have "dwrites u = dwrites s @ commit_writes s" using wframe_disk [OF u(2)] by simp
  moreover have "\<exists>t. initlog 1 r = Ret () t \<and> bst t \<and> lh_n t = 0
            \<and> (\<forall>n. n \<notin> log_area s \<longrightarrow> memdisk t ! n = (if k \<le> nat (lh_n s) then memdisk s ! n else bview s n))"
    if "fresh_boot (apply_writes (take k (commit_writes s)) (memdisk s)) r" for k and r :: "'z wal_st_scheme"
    using crash_boot [OF assms that [folded crash_disk_def]] .
  ultimately show ?thesis using u(1) by blast
qed

text \<open>A disk of ten blocks with the log in blocks 2 to 6, and a transaction that changes block 8.\<close>

definition zblock :: block where "zblock = replicate BSIZE 0"

definition sb_block :: "nat list \<Rightarrow> block" where
  "sb_block xs = put_array 0 xs zblock"

definition tiny_disk :: "block list" where
  "tiny_disk = (replicate 10 zblock)[1 := sb_block [10, 1, 16, 5, 2, 7, 9]]"

definition wal_ex :: "(nat \<times> block) list \<Rightarrow> block list \<Rightarrow> wal_st" where
  "wal_ex ws disk = \<lparr>lk = boot_lk, mem = (\<lambda>_. 0), freelist = 0, use_lock = True, kend = 0x80100000, kdata = 0,
     kpgdir = 0, cr3 = 0, procs = solo_procs, initproc = None, nextpid = 1, cpu_proc = (\<lambda>_. Some 0), ts_esp0 = (\<lambda>_. 0),
     ticks = 0, sym_forkret = 0, sym_trapret = 0, nexttid = 1, slocks = (\<lambda>_. \<lparr>sl_locked = False, sl_pid = 0\<rparr>), wakes = 0,
     bufs = cache_of ws, bnext = ring_next, bprev = ring_prev, memdisk = disk, dwrites = [], lg_start = 2, lg_size = 5,
     lg_outstanding = 0, lg_committing = False, lg_dev = 1, lh_n = int (length ws),
     lh_block = map fst ws @ replicate (LOGSIZE - length ws) 0\<rparr>"

lemma superblock_of_sb_block:
  assumes "length xs = 7" and "\<forall>x \<in> set xs. x < 2 ^ 32"
  shows "superblock_of (sb_block xs) = \<lparr>sb_size = xs ! 0, sb_nblocks = xs ! 1, sb_ninodes = xs ! 2, sb_nlog = xs ! 3,
     sb_logstart = xs ! 4, sb_inodestart = xs ! 5, sb_bmapstart = xs ! 6\<rparr>"
proof -
  have "get32 (sb_block xs) (4 * k) = xs ! k" if "k < 7" for k
    using get32_put_array [of k xs 0 zblock] assms that by (simp add: sb_block_def zblock_def BSIZE_def)
  from this [of 0] this [of 1] this [of 2] this [of 3] this [of 4] this [of 5] this [of 6]
  show ?thesis by (simp add: superblock_of_def)
qed

lemma tiny_disk_nth: "n < 10 \<Longrightarrow> tiny_disk ! n = (if n = 1 then sb_block [10, 1, 16, 5, 2, 7, 9] else zblock)"
  by (simp add: tiny_disk_def nth_list_update)

lemma zblock_get [simp]: "i + 3 < BSIZE \<Longrightarrow> get32 zblock i = 0"
  by (simp add: get32_def get16_def zblock_def)

lemma tiny_disk_ok: "\<forall>d \<in> set tiny_disk. length d = BSIZE"
proof -
  have "set tiny_disk \<subseteq> insert (sb_block [10, 1, 16, 5, 2, 7, 9]) {zblock}"
    unfolding tiny_disk_def using set_update_subset_insert [of "replicate 10 zblock"] by fastforce
  then show ?thesis by (auto simp: sb_block_def zblock_def)
qed

lemma wal_ex_sel [simp]:
  "memdisk (wal_ex ws disk) = disk" "dwrites (wal_ex ws disk) = []" "lg_start (wal_ex ws disk) = 2" "lg_size (wal_ex ws disk) = 5"
  "lg_dev (wal_ex ws disk) = 1" "lh_n (wal_ex ws disk) = int (length ws)"
  "lh_block (wal_ex ws disk) = map fst ws @ replicate (LOGSIZE - length ws) 0"
  "logged (wal_ex ws disk) = map fst ws" "log_area (wal_ex ws disk) = {2..<7}" "solo ws disk (wal_ex ws disk)"
  by (auto simp: wal_ex_def logged_def log_area_def solo_def)

lemma apply_writes_blocks:
  "\<forall>d \<in> set disk. length d = m \<Longrightarrow> \<forall>w \<in> set ws. length (snd w) = m \<Longrightarrow> \<forall>d \<in> set (apply_writes ws disk). length d = m"
proof (induction ws arbitrary: disk)
  case (Cons w ws)
  have "\<forall>d \<in> set (disk[fst w := snd w]). length d = m"
  proof
    fix d assume "d \<in> set (disk[fst w := snd w])"
    then have "d = snd w \<or> d \<in> set disk" using set_update_subset_insert [of disk "fst w" "snd w"] by blast
    then show "length d = m" using Cons.prems by auto
  qed
  from Cons.IH [OF this] Cons.prems(2) show ?case by simp
qed simp

lemma commit_writes_blocks:
  assumes "bst s" and "log_ok s"
  shows "\<forall>w \<in> set (commit_writes s). length (snd w) = BSIZE"
proof -
  have "length (bview s (nat (lg_start s))) = BSIZE" using assms by (intro bst_len) (auto simp: log_ok_def)
  then have "length (head_after s) = BSIZE" by (simp add: head_after_def)
  moreover have "length (bview s (logged s ! j)) = BSIZE" if "j < nat (lh_n s)" for j
    using assms log_slot(6) [OF assms(2) that] by (intro bst_len) (auto simp: log_ok_def)
  ultimately show ?thesis by (auto simp: commit_writes_def log_writes_def)
qed

theorem crash_atomic_witness:
  "\<exists>u ws t. commit (wal_ex [(8, replicate BSIZE 7)] tiny_disk) = Ret () u \<and> dwrites u = ws
     \<and> initlog 1 (wal_ex [] (apply_writes (take 2 ws) tiny_disk)) = Ret () t \<and> memdisk t ! 8 = replicate BSIZE 7"
proof -
  let ?s = "wal_ex [(8, replicate BSIZE 7)] tiny_disk"
  let ?sb = "\<lparr>sb_size = 10, sb_nblocks = 1, sb_ninodes = 16, sb_nlog = 5, sb_logstart = 2, sb_inodestart = 7, sb_bmapstart = 9\<rparr>"
  have len: "length tiny_disk = 10" by (simp add: tiny_disk_def)
  have ws: "length [(8 :: nat, replicate BSIZE 7 :: block)] \<le> NBUF" "distinct (map fst [(8 :: nat, replicate BSIZE 7 :: block)])"
      "\<forall>w \<in> set [(8 :: nat, replicate BSIZE 7 :: block)]. fst w < length tiny_disk \<and> length (snd w) = BSIZE"
    by (simp_all add: NBUF_def len)
  note b = solo_bst [OF wal_ex_sel(10) ws tiny_disk_ok]
  have sb: "superblock_of (tiny_disk ! 1) = ?sb"
    using superblock_of_sb_block [of "[10, 1, 16, 5, 2, 7, 9]"] by (simp add: tiny_disk_nth)
  have ok: "log_ok ?s" by (simp add: log_ok_def len LOGSIZE_def MAXOPBLOCKS_def)
  have ready: "ready_to_commit ?sb ?s"
    unfolding ready_to_commit_def using b(1-3) sb len ok by (simp add: tiny_disk_nth BSIZE_def)
  from crash_atomic [OF ready] obtain u ws where u: "commit ?s = Ret () u" "dwrites u = dwrites ?s @ ws"
    and boot: "\<forall>k (r :: wal_st). fresh_boot (apply_writes (take k ws) (memdisk ?s)) r \<longrightarrow>
         (\<exists>t. initlog 1 r = Ret () t \<and> bst t \<and> lh_n t = 0
            \<and> (\<forall>n. n \<notin> log_area ?s \<longrightarrow> memdisk t ! n = (if k \<le> nat (lh_n ?s) then memdisk ?s ! n else bview ?s n)))"
    by blast
  have "ws = commit_writes ?s"
  proof -
    obtain v where "commit ?s = Ret () v" "wframe (?s\<lparr>lh_n := 0\<rparr>) (commit_writes ?s) v"
      using commit_run [of ?s] ready unfolding ready_to_commit_def by blast
    then show ?thesis using u wframe_disk by fastforce
  qed
  then have disk: "\<forall>d \<in> set (apply_writes (take 2 ws) tiny_disk). length d = BSIZE"
    using commit_writes_blocks [OF b(1) ok] by (intro apply_writes_blocks tiny_disk_ok) (auto dest: in_set_takeD)
  let ?r = "wal_ex [] (apply_writes (take 2 ws) tiny_disk)"
  note rb = solo_bst [OF wal_ex_sel(10), of "[]", OF _ _ _ disk]
  have "fresh_boot (apply_writes (take 2 ws) (memdisk ?s)) ?r"
    using rb by (simp add: fresh_boot_def)
  with boot obtain t where "initlog 1 ?r = Ret () t"
    "\<forall>n. n \<notin> log_area ?s \<longrightarrow> memdisk t ! n = (if 2 \<le> nat (lh_n ?s) then memdisk ?s ! n else bview ?s n)" by blast
  then show ?thesis using u b(4) [of 8] by auto
qed

end
