(* ===== verification/Perm.thy ===== *)
theory Perm
  imports Wal_Crash
begin

text \<open>
  Users and permissions: the login table \<^verbatim>\<open>ltable\<close> of \<^verbatim>\<open>sysfile.c\<close>, \<^verbatim>\<open>whoami\<close>, \<^verbatim>\<open>checkmod\<close> and the mode bits of
  \<^verbatim>\<open>fs.h\<close>.

  The 16 bytes before the array \<^verbatim>\<open>usernames\<close> are the fields \<^verbatim>\<open>fd\<close>, \<^verbatim>\<open>userIdx\<close>, \<^verbatim>\<open>userCnt\<close> and \<^verbatim>\<open>f\<close> of the same
  structure. They are what \<^verbatim>\<open>whoami\<close> reads between \<^verbatim>\<open>lbegin\<close> and the first login, when \<^verbatim>\<open>userIdx\<close> is -1.
\<close>

section \<open>State\<close>

definition MAX_USER :: nat where "MAX_USER = 10"

record acc_st = wal_st +
  lt_fd :: int
  lt_userIdx :: int
  lt_userCnt :: int
  lt_f :: "nat option"
  lt_usernames :: "byte list list"
  lt_passwords :: "byte list list"

definition T_DIR :: int where "T_DIR = 1"
definition T_FILE :: int where "T_FILE = 2"
definition T_DEV :: int where "T_DEV = 3"

definition MODE_RUSR :: nat where "MODE_RUSR = 32"
definition MODE_WUSR :: nat where "MODE_WUSR = 16"
definition MODE_XUSR :: nat where "MODE_XUSR = 8"
definition MODE_ROTH :: nat where "MODE_ROTH = 4"
definition MODE_WOTH :: nat where "MODE_WOTH = 2"
definition MODE_XOTH :: nat where "MODE_XOTH = 1"

definition R_OK :: nat where "R_OK = 4"
definition W_OK :: nat where "W_OK = 2"
definition X_OK :: nat where "X_OK = 1"

record stat =
  st_type :: int
  st_dev :: nat
  st_ino :: nat
  st_nlink :: int
  st_size :: nat
  st_perm :: nat
  st_owner :: "byte list"

section \<open>Operations\<close>

definition le32 :: "int \<Rightarrow> byte list" where
  "le32 i = map (\<lambda>k. word_of_int (i div 256 ^ k)) [0..<4]"

text \<open>The row of the current user, also for the index before the first.\<close>

definition user_row :: "'z acc_st_scheme \<Rightarrow> byte list" where
  "user_row s =
     (if lt_userIdx s = -1 then le32 (lt_fd s) @ le32 (lt_userIdx s) @ le32 (lt_userCnt s)
      else if 0 \<le> lt_userIdx s \<and> lt_userIdx s < int MAX_USER then lt_usernames s ! nat (lt_userIdx s)
      else [])"

text \<open>The result is \<^verbatim>\<open>dst\<close> as \<^verbatim>\<open>whoami\<close> leaves it.\<close>

definition whoami :: "byte list \<Rightarrow> ('z acc_st_scheme, byte list) kernel" where
  "whoami dst =
     kbind (kget lt_userCnt) (\<lambda>c.
     kbind (if c = 0 then kret (str ''root'' @ [0]) else kget user_row) (\<lambda>src.
     kbind (if c = 0 then kret 4 else kopt (strlen src)) (\<lambda>len.
     kbind (kopt (strncpy dst src len)) (\<lambda>d.
     if len < length d then kret (d[len := 0]) else kfault))))"

definition mode_bits :: "nat \<Rightarrow> nat \<Rightarrow> nat \<Rightarrow> nat \<Rightarrow> nat" where
  "mode_bits perm r w x =
     (if perm AND r \<noteq> 0 then R_OK else 0) OR (if perm AND w \<noteq> 0 then W_OK else 0) OR (if perm AND x \<noteq> 0 then X_OK else 0)"

definition checkmod :: "stat \<Rightarrow> ('z acc_st_scheme, nat) kernel" where
  "checkmod st =
     (if st_type st = T_DEV then kret (R_OK OR W_OK OR X_OK)
      else kbind (whoami (replicate (MAX_LEN + 1) 0)) (\<lambda>username.
           kbind (kopt (equals (st_owner st) username)) (\<lambda>own.
           kbind (if own then kret True else kopt (equals (str ''root'' @ [0]) username)) (\<lambda>usr.
           kret (if usr then mode_bits (st_perm st) MODE_RUSR MODE_WUSR MODE_XUSR
                 else mode_bits (st_perm st) MODE_ROTH MODE_WOTH MODE_XOTH)))))"

text \<open>The mode string that \<^verbatim>\<open>printstat\<close> prints.\<close>

definition perm_string :: "nat \<Rightarrow> string" where
  "perm_string p =
     [if p AND MODE_RUSR \<noteq> 0 then CHR ''r'' else CHR ''-'', if p AND MODE_WUSR \<noteq> 0 then CHR ''w'' else CHR ''-'',
      if p AND MODE_XUSR \<noteq> 0 then CHR ''x'' else CHR ''-'', if p AND MODE_ROTH \<noteq> 0 then CHR ''r'' else CHR ''-'',
      if p AND MODE_WOTH \<noteq> 0 then CHR ''w'' else CHR ''-'', if p AND MODE_XOTH \<noteq> 0 then CHR ''x'' else CHR ''-'']"

section \<open>The current user\<close>

definition current_user :: "'z acc_st_scheme \<Rightarrow> byte list" where
  "current_user s = (if lt_userCnt s = 0 then str ''root'' else cstr (user_row s))"

text \<open>A login table in use: names and passwords are terminated within their rows.\<close>

definition acc_ok :: "'z acc_st_scheme \<Rightarrow> bool" where
  "acc_ok s \<longleftrightarrow> 0 \<le> lt_userCnt s \<and> lt_userCnt s \<le> int MAX_USER
     \<and> length (lt_usernames s) = MAX_USER \<and> length (lt_passwords s) = MAX_USER
     \<and> (\<forall>r \<in> set (lt_usernames s) \<union> set (lt_passwords s). length r = MAX_LEN + 1 \<and> terminated r)
     \<and> -1 \<le> lt_userIdx s \<and> lt_userIdx s < int MAX_USER"

lemma cstr_shorter: "terminated s \<Longrightarrow> length (cstr s) < length s"
  by (induction s) auto

lemma user_row_ok:
  assumes "acc_ok s"
  shows "terminated (user_row s)" "length (cstr (user_row s)) \<le> MAX_LEN"
proof -
  show t: "terminated (user_row s)"
  proof (cases "lt_userIdx s = -1")
    case True
    have "word_of_int (lt_userCnt s div 256 ^ 1) = (0 :: byte)" using assms by (simp add: acc_ok_def MAX_USER_def)
    then have "0 \<in> set (le32 (lt_userCnt s))" unfolding le32_def set_map by (intro image_eqI [of _ _ 1]) simp_all
    then show ?thesis using True by (simp add: user_row_def terminated_def)
  next
    case False
    then show ?thesis using assms by (auto simp: user_row_def acc_ok_def)
  qed
  show "length (cstr (user_row s)) \<le> MAX_LEN"
  proof (cases "lt_userIdx s = -1")
    case True
    then have "length (user_row s) = 12" by (simp add: user_row_def le32_def)
    then show ?thesis using cstr_shorter [OF t] by (simp add: MAX_LEN_def)
  next
    case False
    then have "length (user_row s) = MAX_LEN + 1" using assms by (auto simp: user_row_def acc_ok_def)
    then show ?thesis using cstr_shorter [OF t] by simp
  qed
qed

lemma cstr_nonzero: "0 \<notin> set (cstr s)"
  by (auto simp: cstr_def dest: set_takeWhileD)

lemma whoami_run:
  assumes "acc_ok s" and "length dst = MAX_LEN + 1"
  shows "\<exists>d. whoami dst s = Ret d s \<and> length d = MAX_LEN + 1 \<and> terminated d \<and> cstr d = current_user s"
proof -
  let ?src = "if lt_userCnt s = 0 then str ''root'' @ [0] else user_row s"
  let ?u = "current_user s"
  have root: "cstr (str ''root'' @ [0]) = str ''root''" "length (str ''root'') = 4" by (simp_all add: str_def)
  have src: "terminated ?src" "cstr ?src = ?u" "length ?u \<le> MAX_LEN"
    using user_row_ok [OF assms(1)] root by (auto simp: current_user_def MAX_LEN_def)
  have len: "(if lt_userCnt s = 0 then Some 4 else strlen ?src) = Some (length ?u)"
    using src(1,2) root by (auto simp: current_user_def strlen_cstr)
  have cp: "strncpy dst ?src (length ?u) = Some (?u @ drop (length ?u) dst)"
    using strncpy_run [of "length ?u" dst ?src] src assms(2) by simp
  let ?d = "(?u @ drop (length ?u) dst)[length ?u := 0]"
  have d: "?d = ?u @ 0 # drop (Suc (length ?u)) dst"
    using src(3) assms(2) by (simp add: list_update_append Cons_nth_drop_Suc [symmetric])
  have "0 \<notin> set ?u" using cstr_nonzero by (auto simp: current_user_def str_def)
  then have "cstr ?d = ?u" unfolding d by (rule cstr_str)
  moreover have "terminated ?d" unfolding d by simp
  moreover have "length ?d = MAX_LEN + 1" using src(3) assms(2) by simp
  moreover have "whoami dst s = Ret ?d s"
    using len cp src(3) assms(2) by (cases "lt_userCnt s = 0") (simp_all add: whoami_def kernel_simps)
  ultimately show ?thesis by blast
qed

section \<open>Permission checks\<close>

lemma mode_bits_test:
  "mode_bits p r w x AND R_OK = 0 \<longleftrightarrow> p AND r = 0" "mode_bits p r w x AND W_OK = 0 \<longleftrightarrow> p AND w = 0"
  "mode_bits p r w x AND X_OK = 0 \<longleftrightarrow> p AND x = 0"
  by (auto simp: mode_bits_def R_OK_def W_OK_def X_OK_def)


text \<open>A login table over a given disk, one user per pair of name and password.\<close>

definition user_cell :: "string \<Rightarrow> byte list" where
  "user_cell w = str w @ replicate (MAX_LEN + 1 - length w) 0"

definition acc_ex :: "(string \<times> string) list \<Rightarrow> int \<Rightarrow> (nat \<times> block) list \<Rightarrow> block list \<Rightarrow> acc_st" where
  "acc_ex us idx ws disk = wal_st.extend (wal_ex ws disk) (acc_st.fields 0 idx (int (length us)) None
     (map (\<lambda>u. user_cell (fst u)) us @ replicate (MAX_USER - length us) (user_cell []))
     (map (\<lambda>u. user_cell (snd u)) us @ replicate (MAX_USER - length us) (user_cell [])))"

lemma user_cell_row: "length w \<le> MAX_LEN \<Longrightarrow> length (user_cell w) = MAX_LEN + 1 \<and> terminated (user_cell w)"
  by (auto simp: user_cell_def str_def terminated_def)

lemma cstr_replicate [simp]: "cstr (replicate n 0) = []" "terminated (replicate n 0) \<longleftrightarrow> 0 < n"
  by (cases n; simp add: terminated_def)+

lemma acc_ex_ok:
  assumes "length us \<le> MAX_USER" and "\<forall>u \<in> set us. length (fst u) \<le> MAX_LEN \<and> length (snd u) \<le> MAX_LEN"
    and "-1 \<le> idx" and "idx < int MAX_USER"
  shows "acc_ok (acc_ex us idx ws disk)"
  using assms user_cell_row by (auto simp: acc_ok_def acc_ex_def wal_st.defs acc_st.defs)


end
