(* ===== verification/Wal_Txn.thy ===== *)
theory Wal_Txn
  imports Perm
begin

text \<open>
  Transactions: what \<^verbatim>\<open>log_write\<close> does to the cache and to the log, the block store that the file system
  sees inside a transaction, and the transaction brackets \<^verbatim>\<open>begin_op\<close> and \<^verbatim>\<open>end_op\<close>.
\<close>

section \<open>Entering a block into the log\<close>

definition wst :: "'z wal_st_scheme \<Rightarrow> bool" where
  "wst s \<longleftrightarrow> bst s \<and> log_ok s \<and> pinned s = set (logged s) \<and> 1 \<le> lg_outstanding s"

definition lg_space :: "'z wal_st_scheme \<Rightarrow> nat \<Rightarrow> bool" where
  "lg_space s k \<longleftrightarrow> lh_n s + int k < lg_size s \<and> lh_n s + int k < int LOGSIZE"

definition lg_blk :: "'z wal_st_scheme \<Rightarrow> nat \<Rightarrow> bool" where
  "lg_blk s bn \<longleftrightarrow> bn < length (memdisk s) \<and> bn \<notin> log_area s"

definition log_frame :: "'z wal_st_scheme \<Rightarrow> 'z wal_st_scheme \<Rightarrow> bool" where
  "log_frame s t \<longleftrightarrow> (\<exists>n w. bio_frame (s\<lparr>lh_n := n, lh_block := w\<rparr>) t)"

lemma bio_frame_lh: "bio_frame s t \<Longrightarrow> bio_frame (s\<lparr>lh_n := n, lh_block := w\<rparr>) (t\<lparr>lh_n := n, lh_block := w\<rparr>)"
proof -
  assume "bio_frame s t"
  then obtain A B N P where t: "t = s\<lparr>slocks := A, bufs := B, bnext := N, bprev := P\<rparr>"
    and i: "\<forall>i. A (SL_inode i) = slocks s (SL_inode i)" by (auto simp: bio_frame_def)
  show ?thesis unfolding bio_frame_def t
    by (rule exI [of _ A], rule exI [of _ B], rule exI [of _ N], rule exI [of _ P]) (simp add: i)
qed

lemma log_frame_bio: "bio_frame s t \<Longrightarrow> log_frame s t"
  unfolding log_frame_def by (rule exI [of _ "lh_n s"], rule exI [of _ "lh_block s"]) simp

lemma log_frame_trans: "log_frame s t \<Longrightarrow> log_frame t u \<Longrightarrow> log_frame s u"
proof -
  assume "log_frame s t" "log_frame t u"
  then obtain n w n' w' where st: "bio_frame (s\<lparr>lh_n := n, lh_block := w\<rparr>) t" and tu: "bio_frame (t\<lparr>lh_n := n', lh_block := w'\<rparr>) u"
    by (auto simp: log_frame_def)
  from bio_frame_lh [OF st, where n = n' and w = w'] have "bio_frame (s\<lparr>lh_n := n', lh_block := w'\<rparr>) (t\<lparr>lh_n := n', lh_block := w'\<rparr>)" by simp
  then show ?thesis using bio_frame_trans tu unfolding log_frame_def by blast
qed

lemma log_frame_sel:
  "log_frame s t \<Longrightarrow> lg_start t = lg_start s" "log_frame s t \<Longrightarrow> lg_size t = lg_size s" "log_frame s t \<Longrightarrow> memdisk t = memdisk s"
  "log_frame s t \<Longrightarrow> dwrites t = dwrites s" "log_frame s t \<Longrightarrow> lg_outstanding t = lg_outstanding s" "log_frame s t \<Longrightarrow> lk t = lk s"
  "log_frame s t \<Longrightarrow> lg_dev t = lg_dev s"
  "log_frame s t \<Longrightarrow> procs t = procs s" "log_frame s t \<Longrightarrow> cpu_proc t = cpu_proc s" "log_frame s t \<Longrightarrow> slocks t (SL_inode i) = slocks s (SL_inode i)"
  by (auto simp: log_frame_def bio_frame_def)

lemma log_frame_blk: "log_frame s t \<Longrightarrow> lg_blk t = lg_blk s"
  by (simp add: fun_eq_iff lg_blk_def log_area_def log_frame_sel)

lemma lh_slot_cases:
  assumes "0 \<le> n" and "nat n \<le> length bs"
  shows "lh_slot bn n bs = nat n \<and> bn \<notin> set (take (nat n) bs)
    \<or> lh_slot bn n bs < nat n \<and> bs ! lh_slot bn n bs = bn"
proof (cases "find (\<lambda>i. bs ! i = bn) [0..<nat n]")
  case None
  then have "lh_slot bn n bs = nat n" "\<forall>i < nat n. bs ! i \<noteq> bn" by (simp_all add: lh_slot_def) (auto simp: find_None_iff)
  then show ?thesis using assms by (auto simp: in_set_conv_nth)
next
  case (Some i)
  then have "i < nat n" "bs ! i = bn" by (auto simp: find_Some_iff)
  then show ?thesis using Some by (simp add: lh_slot_def)
qed

text \<open>The state with a block in its log.\<close>

definition with_logged :: "nat \<Rightarrow> 'z wal_st_scheme \<Rightarrow> 'z wal_st_scheme" where
  "with_logged bn s = (let i = lh_slot bn (lh_n s) (lh_block s)
     in s\<lparr>lh_n := (if int i = lh_n s then lh_n s + 1 else lh_n s), lh_block := (lh_block s)[i := bn]\<rparr>)"

lemma with_logged_run:
  assumes "log_ok s" and "lg_space s (Suc k)" and "lg_blk s bn"
  shows "log_ok (with_logged bn s)" "set (logged (with_logged bn s)) = insert bn (set (logged s))" "lg_space (with_logged bn s) k"
proof -
  let ?n = "lh_n s" and ?bs = "lh_block s"
  have n: "0 \<le> ?n" "nat ?n < LOGSIZE" "length ?bs = LOGSIZE" "?n + 1 < int LOGSIZE" "?n + 1 < lg_size s"
    using assms(1,2) by (auto simp: log_ok_def lg_space_def)
  show sp: "lg_space (with_logged bn s) k" using assms(2) by (simp add: lg_space_def with_logged_def Let_def)
  consider "lh_slot bn ?n ?bs = nat ?n" "bn \<notin> set (logged s)"
    | "lh_slot bn ?n ?bs < nat ?n" "?bs ! lh_slot bn ?n ?bs = bn" "bn \<in> set (logged s)"
    using lh_slot_cases [of ?n ?bs bn] n by (fastforce simp: logged_def in_set_conv_nth)
  then have "log_ok (with_logged bn s) \<and> set (logged (with_logged bn s)) = insert bn (set (logged s))"
  proof cases
    case 1
    have m: "nat (?n + 1) = Suc (nat ?n)" using n(1) by simp
    have l: "logged (with_logged bn s) = logged s @ [bn]"
      using 1(1) n(1-3) m by (simp add: logged_def with_logged_def take_Suc_conv_app_nth)
    have "log_area (with_logged bn s) = log_area s" by (simp add: log_area_def with_logged_def Let_def)
    then show ?thesis
      using l 1 n assms(1,3) by (auto simp: log_ok_def lg_blk_def) (simp_all add: with_logged_def Let_def)
  next
    case 2
    have "?bs[lh_slot bn ?n ?bs := bn] = ?bs" using 2(2) by (metis list_update_id)
    then have "with_logged bn s = s" using 2(1) n(1) by (simp add: with_logged_def Let_def)
    then show ?thesis using assms(1) 2(3) by (simp add: insert_absorb)
  qed
  then show "log_ok (with_logged bn s)" "set (logged (with_logged bn s)) = insert bn (set (logged s))" by simp_all
qed

lemma with_logged_views:
  "cached (with_logged bn s) = cached s" "bview (with_logged bn s) = bview s" "held (with_logged bn s) = held s"
  "pinned (with_logged bn s) = pinned s" "holds (with_logged bn s) = holds s" "bst (with_logged bn s) = bst s"
  unfolding with_logged_def Let_def by (rule lhb_views)+

lemma log_write_run:
  fixes s :: "'z wal_st_scheme"
  assumes "bst s" and "log_ok s" and "1 \<le> lg_outstanding s" and "holds s bn b" and "lg_space s 1"
  shows "\<exists>t. log_write b s = Ret () t \<and> bst t \<and> bio_frame (with_logged bn s) t
    \<and> bview t = bview s \<and> held t = held s \<and> pinned t = insert bn (pinned s) \<and> holds t = holds s"
proof -
  note b = holds_buf [OF assms(1,4)]
  have q: "quiet (lk s)" using assms(1) by (simp add: bst_def calm_def)
  let ?w = "with_logged bn s" let ?i = "lh_slot bn (lh_n s) (lh_block s)"
  have "bst ?w" "holds ?w bn b" using assms(1,4) by (simp_all add: with_logged_views)
  then obtain t where t: "bset b (b_dirty_update (\<lambda>_. True)) ?w = Ret () t" "bst t" "bio_frame ?w t"
      "bview t = bview s" "held t = held s" "pinned t = insert bn (pinned s)" "holds t = holds s"
    using bdirty_law [of ?w bn b] by (auto simp: with_logged_views)
  let ?x = "(bufs s)[b := (bufs s ! b)\<lparr>b_dirty := True\<rparr>]"
  let ?n = "if int ?i = lh_n s then lh_n s + 1 else lh_n s" let ?bl = "(lh_block s)[?i := bn]"
  have te: "t = s\<lparr>lh_n := ?n, lh_block := ?bl, bufs := ?x\<rparr>"
    using t(1) by (simp add: bset_def kernel_simps with_logged_def Let_def)
  have rel: "release L_log (s\<lparr>lk := lk_acq L_log (lk s), lh_block := ?bl, lh_n := ?n, bufs := ?x\<rparr>) = Ret () t"
    unfolding te using q by (subst release_acq [of "lk s"]) (auto simp: lock_simps intro!: wal_st.equality)
  have "log_write b s = Ret () t"
    using assms(2,3,5) q b rel by (auto simp: log_write_def kernel_simps acquire_quiet bset_def lg_space_def split: if_splits)
  then show ?thesis using t by blast
qed

interpretation lg: block_store wst bview held holds clean lg_blk lg_blk lg_space cache_frame log_frame
  "bread 1" "\<lambda>s b. b_data (bufs s ! b)" "\<lambda>b f. bset b (b_data_update f)" log_write brelse
proof
  show "cache_frame s t \<Longrightarrow> cache_frame t u \<Longrightarrow> cache_frame s u" for s t u :: "'z wal_st_scheme" by (rule cache_frame_trans)
  show "cache_frame s t \<Longrightarrow> log_frame s t" for s t :: "'z wal_st_scheme" by (simp add: cache_frame_def log_frame_bio)
  show "log_frame s t \<Longrightarrow> lg_blk t = lg_blk s \<and> lg_blk t = lg_blk s" for s t :: "'z wal_st_scheme" by (simp add: log_frame_blk)
  show "log_frame s t \<Longrightarrow> log_frame t u \<Longrightarrow> log_frame s u" for s t u :: "'z wal_st_scheme" by (rule log_frame_trans)
  have fr: "lh_n t = lh_n s \<and> lg_size t = lg_size s \<and> lg_outstanding t = lg_outstanding s \<and> log_ok t = log_ok s \<and> logged t = logged s"
    if "cache_frame s t" for s t :: "'z wal_st_scheme"
    using that wframe_log [OF wframe_frame, of s t] log_ok_frame [OF wframe_frame, of s t] by (simp add: cache_frame_def logged_def)
  show "cache_frame s t \<Longrightarrow> lg_space t = lg_space s" for s t :: "'z wal_st_scheme"
    using fr [of s t] by (simp add: fun_eq_iff lg_space_def)
  fix s :: "'z wal_st_scheme" and bn b :: nat
  assume s: "wst s"
  have bs: "bst s" using s by (simp add: wst_def)
  have keep: "wst t" if "cache_frame s t" "bst t" for t
    using s that fr [OF that(1)] by (simp add: wst_def cache_frame_def)
  show "\<exists>b t. bread 1 bn s = Ret b t \<and> wst t \<and> cache_frame s t \<and> holds t bn b \<and> clean t bn
        \<and> bview t = bview s \<and> held t = insert bn (held s) \<and> (\<forall>n c. holds s n c \<longrightarrow> holds t n c)
        \<and> (\<forall>n. clean s n \<longrightarrow> clean t n)" if h: "lg_blk s bn" "bn \<notin> held s" "lg_space s k" "card (held s) \<le> k" for k
  proof -
    have "card (pinned s) = nat (lh_n s)"
      using s by (auto simp: wst_def log_ok_def logged_def distinct_card)
    then have "wspace s k" using s h(3) by (auto simp: wspace_def lg_space_def wst_def log_ok_def LOGSIZE_def MAXOPBLOCKS_def NBUF_def)
    moreover have "bn < length (memdisk s)" using h(1) by (simp add: lg_blk_def)
    ultimately obtain b t where "bread 1 bn s = Ret b t" "bst t" "cache_frame s t" "holds t bn b" "clean t bn"
        "bview t = bview s" "held t = insert bn (held s)" "\<forall>n c. holds s n c \<longrightarrow> holds t n c" "\<forall>n. clean s n \<longrightarrow> clean t n"
      using wt.rd_law [OF bs _ h(2) _ h(4)] by blast
    then show ?thesis using keep by blast
  qed
  assume b: "holds s bn b"
  show "b_data (bufs s ! b) = bview s bn \<and> length (bview s bn) = BSIZE" by (rule wt.data_law [OF bs b])
  show "\<exists>t. bset b (b_data_update f) s = Ret () t \<and> wst t \<and> cache_frame s t \<and> holds t = holds s \<and> bview t = (bview s)(bn := f (bview s bn))
        \<and> held t = held s \<and> (\<forall>n. n \<noteq> bn \<longrightarrow> clean s n \<longrightarrow> clean t n)" if len: "length (f (bview s bn)) = BSIZE" for f
    using wt.put_law [of s bn b f] bs b len keep by blast
  show "\<exists>t. log_write b s = Ret () t \<and> wst t \<and> log_frame s t \<and> holds t = holds s \<and> bview t = bview s \<and> held t = held s
        \<and> clean t bn \<and> (\<forall>n. clean s n \<longrightarrow> clean t n) \<and> lg_space t k" if sp: "lg_blk s bn" "lg_space s (Suc k)" for k
  proof -
    have ok: "log_ok s" "1 \<le> lg_outstanding s" "pinned s = set (logged s)" using s by (simp_all add: wst_def)
    have "lg_space s 1" using sp(2) by (simp add: lg_space_def)
    then obtain t where t: "log_write b s = Ret () t" "bst t" "bio_frame (with_logged bn s) t"
        "bview t = bview s" "held t = held s" "pinned t = insert bn (pinned s)" "holds t = holds s"
      using log_write_run [OF bs ok(1,2) b] by blast
    note w = with_logged_run [OF ok(1) sp(2,1)]
    note f = wframe_log [OF wframe_frame [OF t(3)]]
    have d: "memdisk t = memdisk s" using bio_frame_sel [OF t(3)] by (simp add: with_logged_def Let_def)
    have "log_ok t" using log_ok_frame [OF wframe_frame [OF t(3)]] w(1) by simp
    moreover have "set (logged t) = insert bn (set (logged s))" using w(2) f by (simp add: logged_def)
    moreover have "lg_outstanding t = lg_outstanding s" using f by (simp add: with_logged_def Let_def)
    ultimately have "wst t" using t(2,6) ok by (simp add: wst_def)
    moreover have "log_frame s t" using t(3) unfolding log_frame_def with_logged_def Let_def by blast
    moreover have "lg_space t k" using w(3) f by (simp add: lg_space_def)
    moreover have "clean t bn" "\<forall>n. clean s n \<longrightarrow> clean t n" using t(4,6) d by (auto simp: clean_def)
    ultimately show ?thesis using t by blast
  qed
  show "\<exists>t. brelse b s = Ret () t \<and> wst t \<and> cache_frame s t \<and> bview t = bview s \<and> held t = held s - {bn}
        \<and> (\<forall>n c. n \<noteq> bn \<longrightarrow> holds s n c \<longrightarrow> holds t n c) \<and> (\<forall>n. clean s n \<longrightarrow> clean t n)" if cl: "clean s bn"
    using wt.rel_law [OF bs b cl] keep by blast
qed

section \<open>Transactions\<close>

text \<open>A critical section of the log's lock that changes the counters.\<close>

lemma release_log:
  fixes s :: "'z wal_st_scheme"
  assumes "quiet (lk s)"
  shows "release L_log (s\<lparr>lk := lk_acq L_log (lk s), lg_outstanding := n, lg_committing := c\<rparr>) = Ret () (s\<lparr>lg_outstanding := n, lg_committing := c\<rparr>)"
  using assms by (subst release_acq [of "lk s"]) (auto simp: lock_simps intro!: wal_st.equality)

lemma log_counters_agree:
  "bio_agree s (s\<lparr>lg_outstanding := n, lg_committing := c\<rparr>)" by (simp add: bio_agree_def)

lemmas log_counters_views = bio_agree_views [OF log_counters_agree]

lemma log_counters_ok: "log_ok (s\<lparr>lg_outstanding := n, lg_committing := c\<rparr>) = log_ok s"
  "logged (s\<lparr>lg_outstanding := n, lg_committing := c\<rparr>) = logged s" "log_area (s\<lparr>lg_outstanding := n, lg_committing := c\<rparr>) = log_area s"
  by (simp_all add: log_ok_def logged_def log_area_def)

lemma begin_op_run:
  fixes s :: "'z wal_st_scheme"
  assumes "quiet (lk s)" and "\<not> lg_committing s" and "lh_n s + (lg_outstanding s + 1) * int MAXOPBLOCKS \<le> int LOGSIZE"
  shows "begin_op s = Ret () (s\<lparr>lg_outstanding := lg_outstanding s + 1\<rparr>)"
proof -
  have "release L_log (s\<lparr>lk := lk_acq L_log (lk s), lg_outstanding := lg_outstanding s + 1\<rparr>) = Ret () (s\<lparr>lg_outstanding := lg_outstanding s + 1\<rparr>)"
    using release_log [OF assms(1), where n = "lg_outstanding s + 1" and c = "lg_committing s"] by simp
  then show ?thesis using assms by (simp add: begin_op_def kernel_simps acquire_quiet)
qed

lemma wakeup_log:
  fixes s :: "'z wal_st_scheme"
  assumes "calm s"
  shows "wakeup (Some C_log) (s\<lparr>lk := lk_acq L_log (lk s), lg_outstanding := n, lg_committing := c\<rparr>)
    = Ret () (s\<lparr>lk := lk_acq L_log (lk s), lg_outstanding := n, lg_committing := c\<rparr>)"
  using assms woken_calm [OF assms, of "Some C_log"]
  by (subst wakeup_run) (simp_all add: calm_def lock_simps fs_chan_def)

lemma end_op_more:
  fixes s :: "'z wal_st_scheme"
  assumes "calm s" and "\<not> lg_committing s" and "lg_outstanding s \<noteq> 1"
  shows "end_op s = Ret () (s\<lparr>lg_outstanding := lg_outstanding s - 1\<rparr>)"
proof -
  have q: "quiet (lk s)" using assms(1) by (simp add: calm_def)
  let ?n = "lg_outstanding s - 1"
  have "wakeup (Some C_log) (s\<lparr>lk := lk_acq L_log (lk s), lg_outstanding := ?n\<rparr>) = Ret () (s\<lparr>lk := lk_acq L_log (lk s), lg_outstanding := ?n\<rparr>)"
    using wakeup_log [OF assms(1), where n = ?n and c = "lg_committing s"] by simp
  moreover have "release L_log (s\<lparr>lk := lk_acq L_log (lk s), lg_outstanding := ?n\<rparr>) = Ret () (s\<lparr>lg_outstanding := ?n\<rparr>)"
    using release_log [OF q, where n = ?n and c = "lg_committing s"] by simp
  ultimately show ?thesis using q assms by (simp add: end_op_def kernel_simps acquire_quiet)
qed

text \<open>What the caller of the last \<^verbatim>\<open>end_op\<close> finds afterwards.\<close>

definition settled :: "'z wal_st_scheme \<Rightarrow> bool" where
  "settled s \<longleftrightarrow> bst s \<and> log_ok s \<and> held s = {} \<and> pinned s = {} \<and> lh_n s = 0 \<and> lg_outstanding s = 0 \<and> \<not> lg_committing s"

lemma settled_disk: "settled s \<Longrightarrow> bview s n = memdisk s ! n"
  using unheld_clean [of s n] by (auto simp: settled_def)

lemma commit_any:
  fixes s :: "'z wal_st_scheme"
  assumes "bst s" and "log_ok s" and "held s = {}" and "pinned s = set (logged s)"
  shows "\<exists>t ws. commit s = Ret () t \<and> bst t \<and> log_ok t \<and> held t = {} \<and> pinned t = {} \<and> lh_n t = 0
    \<and> wframe (s\<lparr>lh_n := 0\<rparr>) ws t \<and> (\<forall>n. n \<notin> log_area s \<longrightarrow> bview t n = bview s n)"
proof (cases "lh_n s > 0")
  case True
  obtain t where t: "commit s = Ret () t" "bst t" "held t = {}" "pinned t = {}" "lh_n t = 0"
      "wframe (s\<lparr>lh_n := 0\<rparr>) (commit_writes s) t" "\<forall>n. n \<notin> log_area s \<longrightarrow> bview t n = bview s n"
    using commit_run [OF assms True] by blast
  have "log_ok (s\<lparr>lh_n := 0\<rparr>)" using assms(2) by (auto simp: log_ok_def logged_def)
  then show ?thesis using t log_ok_frame [OF t(6)] by blast
next
  case False
  then have z: "lh_n s = 0" using assms(2) by (auto simp: log_ok_def)
  then have e: "s\<lparr>lh_n := 0\<rparr> = s" by (intro wal_st.equality) simp_all
  have "wframe (s\<lparr>lh_n := 0\<rparr>) [] s" unfolding e by (rule wframe_frame [OF bio_frame_refl])
  moreover have "commit s = Ret () s" using z by (simp add: commit_def kernel_simps)
  moreover have "pinned s = {}" using assms(4) z by (simp add: logged_def)
  ultimately show ?thesis using assms z by blast
qed

lemma end_op_run:
  fixes s :: "'z wal_st_scheme"
  assumes "wst s" and "held s = {}" and "lg_outstanding s = 1" and "\<not> lg_committing s"
  shows "\<exists>t ws. end_op s = Ret () t \<and> settled t \<and> wframe (s\<lparr>lh_n := 0, lg_outstanding := 0\<rparr>) ws t
    \<and> (\<forall>n. n \<notin> log_area s \<longrightarrow> bview t n = bview s n)"
proof -
  have s: "bst s" "log_ok s" "pinned s = set (logged s)" and c: "calm s" and q: "quiet (lk s)"
    using assms(1) by (simp_all add: wst_def bst_def calm_def)
  let ?s = "s\<lparr>lg_outstanding := 0, lg_committing := True\<rparr>"
  obtain t ws where t: "commit ?s = Ret () t" "bst t" "log_ok t" "held t = {}" "pinned t = {}" "lh_n t = 0"
      "wframe (?s\<lparr>lh_n := 0\<rparr>) ws t" "\<forall>n. n \<notin> log_area s \<longrightarrow> bview t n = bview s n"
    using commit_any [of ?s] s assms(2) by (auto simp: log_counters_views log_counters_ok)
  let ?t = "t\<lparr>lg_outstanding := 0, lg_committing := False\<rparr>"
  have out: "lg_outstanding t = 0" using wframe_log(6) [OF t(7)] by simp
  have ct: "calm t" and qt: "quiet (lk t)" using t(2) by (simp_all add: bst_def calm_def)
  have te: "t\<lparr>lk := lk_acq L_log (lk t), lg_committing := False\<rparr> = t\<lparr>lk := lk_acq L_log (lk t), lg_outstanding := 0, lg_committing := False\<rparr>"
    using out by (intro wal_st.equality) simp_all
  have "end_op s = Ret () ?t"
    using assms(3,4) q qt t(1) release_log [OF q, where n = 0 and c = True] release_log [OF qt, where n = 0 and c = False] wakeup_log [OF ct, where n = 0 and c = False]
    by (simp add: end_op_def kernel_simps acquire_quiet te)
  moreover have "settled ?t" using t by (simp add: settled_def log_counters_views log_counters_ok)
  moreover have "wframe (s\<lparr>lh_n := 0, lg_outstanding := 0\<rparr>) ws ?t"
  proof -
    obtain A B N P where e: "t = s\<lparr>lg_outstanding := 0, lg_committing := True, lh_n := 0, memdisk := apply_writes ws (memdisk s), dwrites := dwrites s @ ws,
         slocks := A, bufs := B, bnext := N, bprev := P\<rparr>" and i: "\<forall>i. A (SL_inode i) = slocks s (SL_inode i)"
      using t(7) by (auto simp: wframe_def bio_frame_def)
    have "?t = s\<lparr>lh_n := 0, lg_outstanding := 0, memdisk := apply_writes ws (memdisk s), dwrites := dwrites s @ ws,
         slocks := A, bufs := B, bnext := N, bprev := P\<rparr>"
      unfolding e using assms(4) by (intro wal_st.equality) simp_all
    then show ?thesis unfolding wframe_def bio_frame_def using i
      by (intro exI [of _ A] exI [of _ B] exI [of _ N] exI [of _ P]) simp
  qed
  ultimately show ?thesis using t(8) by (auto simp: log_counters_views)
qed

text \<open>
  C4. When the last transaction in progress ends, every block outside the log area has on the disk the content
  that the transaction saw in the cache, and nothing is left in the log; a transaction that ends while
  others go on writes nothing.
\<close>

theorem end_op_durable:
  fixes s :: "'z wal_st_scheme"
  assumes "wst s" and "held s = {}" and "\<not> lg_committing s"
  shows "if lg_outstanding s = 1
    then \<exists>t. end_op s = Ret () t \<and> settled t \<and> (\<forall>n. n \<notin> log_area s \<longrightarrow> memdisk t ! n = bview s n)
    else end_op s = Ret () (s\<lparr>lg_outstanding := lg_outstanding s - 1\<rparr>)"
proof (cases "lg_outstanding s = 1")
  case True
  then show ?thesis using end_op_run [OF assms(1,2) _ assms(3)] settled_disk by (metis (no_types, lifting))
next
  case False
  then show ?thesis using assms end_op_more [of s] by (simp add: wst_def bst_def)
qed

theorem end_op_durable_witness:
  "\<exists>t. end_op (wal_ex [(8, replicate BSIZE 7)] tiny_disk\<lparr>lg_outstanding := 1\<rparr>) = Ret () t \<and> settled t
     \<and> memdisk t ! 8 = replicate BSIZE 7"
proof -
  let ?ws = "[(8 :: nat, replicate BSIZE 7 :: block)]" and ?w = "wal_ex [(8, replicate BSIZE 7)] tiny_disk"
  let ?s = "?w\<lparr>lg_outstanding := 1\<rparr>"
  have len: "length tiny_disk = 10" by (simp add: tiny_disk_def)
  have "length ?ws \<le> NBUF" "distinct (map fst ?ws)" "\<forall>w \<in> set ?ws. fst w < length tiny_disk \<and> length (snd w) = BSIZE"
    by (simp_all add: NBUF_def len)
  note b = solo_bst [OF wal_ex_sel(10) this tiny_disk_ok]
  have "?s = ?w\<lparr>lg_outstanding := 1, lg_committing := False\<rparr>" by (rule wal_st.equality) (simp_all add: wal_ex_def)
  note v = log_counters_views [where s = ?w and n = 1 and c = False, folded this] log_counters_ok [where s = ?w and n = 1 and c = False, folded this]
  have "log_ok ?w" by (simp add: log_ok_def len LOGSIZE_def MAXOPBLOCKS_def)
  then have "wst ?s" "held ?s = {}" "\<not> lg_committing ?s" using b(1-3) v by (simp_all add: wst_def) (simp add: wal_ex_def)
  from end_op_durable [OF this] obtain t where t: "end_op ?s = Ret () t" "settled t" "\<forall>n. n \<notin> log_area ?s \<longrightarrow> memdisk t ! n = bview ?s n"
    by auto
  have "bview ?s 8 = replicate BSIZE 7" "8 \<notin> log_area ?s" using b(4) [of 8] unfolding v by simp_all
  with t show ?thesis by auto
qed

end
