(* ===== verification/Fs.thy ===== *)
theory Fs
  imports Wal_Txn
begin

text \<open>
  The file system layers of \<^verbatim>\<open>fs.c\<close>: block allocation, inodes, file content, directories and path
  names. The inode cache \<^verbatim>\<open>icache\<close> and the super block \<^verbatim>\<open>sb\<close> are part of the state. A
  \<^verbatim>\<open>struct inode *\<close> is an index into the cache; where the code tests for the null pointer, an option.

  The device table \<^verbatim>\<open>devsw\<close> is an argument \<open>dv\<close> of the routines that look into it: the drivers are
  registered at run time and use the inode locks defined here. Buffers that a routine fills or
  copies from are lists of bytes; leaving them is a fault. \<^verbatim>\<open>cprintf\<close> only prints and is left out.
\<close>

section \<open>State\<close>

definition NINODE :: nat where "NINODE = 50"
definition NDEV :: nat where "NDEV = 10"
definition ROOTDEV :: nat where "ROOTDEV = 1"
definition ROOTINO :: nat where "ROOTINO = 1"

text \<open>The fields from \<^verbatim>\<open>type\<close> to \<^verbatim>\<open>addrs\<close>, the copy of the disk inode, are \<open>i_di\<close>.\<close>

record inode =
  i_dev :: nat
  i_inum :: nat
  i_ref :: int
  i_valid :: bool
  i_di :: dinode

record fs_st = acc_st +
  inodes :: "inode list"
  sb :: superblock

type_synonym 's devsw =
  "nat \<Rightarrow> (nat \<Rightarrow> int \<Rightarrow> ('s, int \<times> byte list) kernel) option \<times> (nat \<Rightarrow> byte list \<Rightarrow> int \<Rightarrow> ('s, int) kernel) option"

abbreviation ifld :: "nat \<Rightarrow> (inode \<Rightarrow> 'a) \<Rightarrow> ('z fs_st_scheme, 'a) kernel" where
  "ifld ip f \<equiv> kget (\<lambda>s. f (inodes s ! ip))"

definition iset :: "nat \<Rightarrow> (inode \<Rightarrow> inode) \<Rightarrow> ('z fs_st_scheme, unit) kernel" where
  "iset ip g = kmod (\<lambda>s. s\<lparr>inodes := (inodes s)[ip := g (inodes s ! ip)]\<rparr>)"

abbreviation diset :: "nat \<Rightarrow> (dinode \<Rightarrow> dinode) \<Rightarrow> ('z fs_st_scheme, unit) kernel" where
  "diset ip g \<equiv> iset ip (i_di_update g)"

section \<open>Blocks\<close>

definition bzero :: "nat \<Rightarrow> nat \<Rightarrow> ('z fs_st_scheme, unit) kernel" where
  "bzero dev bno =
     kbind (bread dev bno) (\<lambda>bp.
     kthen (bset bp (b_data_update (\<lambda>_. replicate BSIZE 0)))
    (kthen (log_write bp)
    (brelse bp)))"

text \<open>The bit of a block in its bitmap block, and setting and clearing it.\<close>

definition bm_used :: "nat \<Rightarrow> block \<Rightarrow> bool" where
  "bm_used bi d \<longleftrightarrow> d ! (bi div 8) AND push_bit (bi mod 8) 1 \<noteq> 0"

definition bm_set :: "nat \<Rightarrow> block \<Rightarrow> block" where
  "bm_set bi d = d[bi div 8 := d ! (bi div 8) OR push_bit (bi mod 8) 1]"

definition bm_clear :: "nat \<Rightarrow> block \<Rightarrow> block" where
  "bm_clear bi d = d[bi div 8 := d ! (bi div 8) AND NOT (push_bit (bi mod 8) 1)]"

text \<open>One round of the outer loop: the blocks of one bitmap block, from \<^verbatim>\<open>b\<close> on.\<close>

definition balloc_in :: "nat \<Rightarrow> nat \<Rightarrow> ('z fs_st_scheme, nat option) kernel" where
  "balloc_in dev b =
     kbind (kget sb) (\<lambda>sb.
     kbind (bread dev (BBLOCK b sb)) (\<lambda>bp.
     kbind (bfld bp (\<lambda>x. find (\<lambda>bi. \<not> bm_used bi (b_data x)) [0..<min BPB (sb_size sb - b)])) (\<lambda>found.
     case found of
       Some bi \<Rightarrow>
         kthen (bset bp (b_data_update (bm_set bi)))
        (kthen (log_write bp)
        (kthen (brelse bp)
        (kthen (bzero dev (b + bi))
        (kret (Some (b + bi))))))
     | None \<Rightarrow> kthen (brelse bp) (kret None))))"

text \<open>The outer loop counts in an \<^verbatim>\<open>int\<close>, which is enough for a disk of less than \<open>2 ^ 31\<close> blocks.\<close>

definition balloc :: "nat \<Rightarrow> ('z fs_st_scheme, nat) kernel" where
  "balloc dev =
     kbind (kget (\<lambda>s. sb_size (sb s))) (\<lambda>size.
     kbind (kfind (map (\<lambda>k. k * BPB) [0..<(size + BPB - 1) div BPB]) (balloc_in dev)) (\<lambda>r.
     case r of None \<Rightarrow> kpanic ''balloc: out of blocks'' | Some a \<Rightarrow> kret a))"

definition bfree :: "nat \<Rightarrow> nat \<Rightarrow> ('z fs_st_scheme, unit) kernel" where
  "bfree dev b =
     kbind (kget sb) (\<lambda>sb.
     kbind (bread dev (BBLOCK b sb)) (\<lambda>bp.
     kbind (bfld bp (\<lambda>x. bm_used (b mod BPB) (b_data x))) (\<lambda>used.
     if \<not> used then kpanic ''freeing free block''
     else
       kthen (bset bp (b_data_update (bm_clear (b mod BPB))))
      (kthen (log_write bp)
      (brelse bp)))))"

section \<open>Inodes\<close>

definition iinit :: "nat \<Rightarrow> ('z fs_st_scheme, unit) kernel" where
  "iinit dev =
     kthen (initlock L_icache)
    (kthen (kfor [0..<NINODE] (\<lambda>i. initsleeplock (SL_inode i)))
    (kbind (readsb dev) (\<lambda>x.
     kmod (\<lambda>s. s\<lparr>sb := x\<rparr>))))"

definition iget :: "nat \<Rightarrow> nat \<Rightarrow> ('z fs_st_scheme, nat) kernel" where
  "iget dev inum =
     kthen (acquire L_icache)
    (kbind (kget (\<lambda>s. find (\<lambda>ip. i_ref (inodes s ! ip) > 0 \<and> i_dev (inodes s ! ip) = dev \<and> i_inum (inodes s ! ip) = inum) [0..<NINODE])) (\<lambda>hit.
     case hit of
       Some ip \<Rightarrow>
         kthen (iset ip (i_ref_update (\<lambda>r. r + 1)))
        (kthen (release L_icache)
        (kret ip))
     | None \<Rightarrow>
         kbind (kget (\<lambda>s. find (\<lambda>ip. i_ref (inodes s ! ip) = 0) [0..<NINODE])) (\<lambda>empty.
         case empty of
           None \<Rightarrow> kpanic ''iget: no inodes''
         | Some ip \<Rightarrow>
             kthen (iset ip (\<lambda>x. x\<lparr>i_dev := dev, i_inum := inum, i_ref := 1, i_valid := False\<rparr>))
            (kthen (release L_icache)
            (kret ip)))))"

text \<open>The structure \<^verbatim>\<open>dip\<close> points to lies at this offset of its block.\<close>

definition di_off :: "nat \<Rightarrow> nat" where
  "di_off inum = 64 * (inum mod IPB)"

definition ialloc_at :: "nat \<Rightarrow> int \<Rightarrow> nat \<Rightarrow> ('z fs_st_scheme, nat option) kernel" where
  "ialloc_at dev ty inum =
     kbind (kget sb) (\<lambda>sb.
     kbind (bread dev (IBLOCK inum sb)) (\<lambda>bp.
     kbind (bfld bp (\<lambda>x. getS (b_data x) (di_off inum))) (\<lambda>t.
     if t = 0 then
       kthen (bset bp (b_data_update (\<lambda>d. putS (di_off inum) ty (overlay (di_off inum) (replicate 64 0) d))))
      (kthen (log_write bp)
      (kthen (brelse bp)
      (kbind (iget dev inum) (\<lambda>ip. kret (Some ip)))))
     else kthen (brelse bp) (kret None))))"

definition ialloc :: "nat \<Rightarrow> int \<Rightarrow> ('z fs_st_scheme, nat) kernel" where
  "ialloc dev ty =
     kbind (kget (\<lambda>s. sb_ninodes (sb s))) (\<lambda>n.
     kbind (kfind [1..<n] (ialloc_at dev ty)) (\<lambda>r.
     case r of None \<Rightarrow> kpanic ''ialloc: no inodes'' | Some ip \<Rightarrow> kret ip))"

definition iupdate :: "nat \<Rightarrow> ('z fs_st_scheme, unit) kernel" where
  "iupdate ip =
     kbind (ifld ip id) (\<lambda>x.
     kbind (kget (\<lambda>s. IBLOCK (i_inum x) (sb s))) (\<lambda>bn.
     kbind (bread (i_dev x) bn) (\<lambda>bp.
     kbind (bfld bp (\<lambda>y. put_dinode (di_off (i_inum x)) (i_di x) (b_data y))) (\<lambda>d.
     kbind (kopt d) (\<lambda>d.
     kthen (bset bp (b_data_update (\<lambda>_. d)))
    (kthen (log_write bp)
    (brelse bp)))))))"

definition idup :: "nat \<Rightarrow> ('z fs_st_scheme, nat) kernel" where
  "idup ip =
     kthen (acquire L_icache)
    (kthen (iset ip (i_ref_update (\<lambda>r. r + 1)))
    (kthen (release L_icache)
    (kret ip)))"

text \<open>The part of \<^verbatim>\<open>ilock\<close> that reads the inode.\<close>

definition iload :: "nat \<Rightarrow> ('z fs_st_scheme, unit) kernel" where
  "iload ip =
     kbind (ifld ip id) (\<lambda>x.
     kbind (kget (\<lambda>s. IBLOCK (i_inum x) (sb s))) (\<lambda>bn.
     kbind (bread (i_dev x) bn) (\<lambda>bp.
     kbind (bfld bp (\<lambda>y. dinode_at (di_off (i_inum x)) (b_data y))) (\<lambda>d.
     kbind (kopt (strncpy (di_owner (i_di x)) (di_owner d) MAX_LEN)) (\<lambda>ow.
     kthen (diset ip (\<lambda>_. d\<lparr>di_owner := ow\<rparr>))
    (kthen (brelse bp)
    (kthen (iset ip (i_valid_update (\<lambda>_. True)))
    (if di_type d = 0 then kpanic ''ilock: no type'' else kret ()))))))))"

definition ilock :: "nat option \<Rightarrow> ('z fs_st_scheme, unit) kernel" where
  "ilock ptr =
     (case ptr of None \<Rightarrow> kpanic ''ilock'' | Some ip \<Rightarrow>
     kbind (ifld ip i_ref) (\<lambda>r.
     if r < 1 then kpanic ''ilock''
     else
       kthen (acquiresleep (SL_inode ip))
      (kbind (ifld ip i_valid) (\<lambda>v.
       kwhen (\<not> v) (iload ip)))))"

definition iunlock :: "nat option \<Rightarrow> ('z fs_st_scheme, unit) kernel" where
  "iunlock ptr =
     (case ptr of None \<Rightarrow> kpanic ''iunlock'' | Some ip \<Rightarrow>
     kbind (holdingsleep (SL_inode ip)) (\<lambda>h.
     kbind (ifld ip i_ref) (\<lambda>r.
     if \<not> h \<or> r < 1 then kpanic ''iunlock''
     else releasesleep (SL_inode ip))))"

section \<open>Inode content\<close>

text \<open>\<^verbatim>\<open>a[j]\<close> of an indirect block.\<close>

abbreviation ind_get :: "nat \<Rightarrow> nat \<Rightarrow> ('z fs_st_scheme, nat) kernel" where
  "ind_get bp j \<equiv> bfld bp (\<lambda>x. get32 (b_data x) (4 * j))"

definition bmap_direct :: "nat \<Rightarrow> nat \<Rightarrow> ('z fs_st_scheme, nat) kernel" where
  "bmap_direct ip i =
     kbind (ifld ip (\<lambda>x. di_addrs (i_di x) ! i)) (\<lambda>addr.
     if addr = 0 then
       kbind (ifld ip i_dev) (\<lambda>dev.
       kbind (balloc dev) (\<lambda>addr.
       kthen (diset ip (di_addrs_update (\<lambda>as. as[i := addr])))
      (kret addr)))
     else kret addr)"

definition bmap :: "nat \<Rightarrow> nat \<Rightarrow> ('z fs_st_scheme, nat) kernel" where
  "bmap ip bn =
     (if bn < NDIRECT then bmap_direct ip bn
      else if bn - NDIRECT < NINDIRECT then
        kbind (bmap_direct ip NDIRECT) (\<lambda>addr.
        kbind (ifld ip i_dev) (\<lambda>dev.
        kbind (bread dev addr) (\<lambda>bp.
        kbind (ind_get bp (bn - NDIRECT)) (\<lambda>addr.
        kbind
          (if addr = 0 then
             kbind (balloc dev) (\<lambda>addr.
             kthen (bset bp (b_data_update (put32 (4 * (bn - NDIRECT)) addr)))
            (kthen (log_write bp)
            (kret addr)))
           else kret addr) (\<lambda>addr.
        kthen (brelse bp)
       (kret addr))))))
      else kpanic ''bmap: out of range'')"

definition itrunc :: "nat \<Rightarrow> ('z fs_st_scheme, unit) kernel" where
  "itrunc ip =
     kthen (kfor [0..<NDIRECT] (\<lambda>i.
       kbind (ifld ip (\<lambda>x. (i_dev x, di_addrs (i_di x) ! i))) (\<lambda>(dev, a).
       kwhen (a \<noteq> 0)
        (kthen (bfree dev a)
        (diset ip (di_addrs_update (\<lambda>as. as[i := 0])))))))
    (kthen
      (kbind (ifld ip (\<lambda>x. (i_dev x, di_addrs (i_di x) ! NDIRECT))) (\<lambda>(dev, ind).
       kwhen (ind \<noteq> 0)
        (kbind (bread dev ind) (\<lambda>bp.
         kthen (kfor [0..<NINDIRECT] (\<lambda>j.
           kbind (ind_get bp j) (\<lambda>a.
           kwhen (a \<noteq> 0) (bfree dev a))))
        (kthen (brelse bp)
        (kthen (bfree dev ind)
        (diset ip (di_addrs_update (\<lambda>as. as[NDIRECT := 0])))))))))
    (kthen (diset ip (di_size_update (\<lambda>_. 0)))
    (iupdate ip)))"

definition iput :: "nat \<Rightarrow> ('z fs_st_scheme, unit) kernel" where
  "iput ip =
     kthen (acquiresleep (SL_inode ip))
    (kthen
      (kbind (ifld ip (\<lambda>x. i_valid x \<and> di_nlink (i_di x) = 0)) (\<lambda>c.
       kwhen c
        (kthen (acquire L_icache)
        (kbind (ifld ip i_ref) (\<lambda>r.
         kthen (release L_icache)
        (kwhen (r = 1)
          (kthen (itrunc ip)
          (kthen (diset ip (di_type_update (\<lambda>_. 0)))
          (kthen (iupdate ip)
          (iset ip (i_valid_update (\<lambda>_. False)))))))))))) 
    (kthen (releasesleep (SL_inode ip))
    (kthen (acquire L_icache)
    (kthen (iset ip (i_ref_update (\<lambda>r. r - 1)))
    (release L_icache)))))"

definition iunlockput :: "nat \<Rightarrow> ('z fs_st_scheme, unit) kernel" where
  "iunlockput ip = kthen (iunlock (Some ip)) (iput ip)"

text \<open>\<^verbatim>\<open>strncpy\<close> fills the whole field \<^verbatim>\<open>owner\<close>, whatever \<^verbatim>\<open>st\<close> held before.\<close>

definition stati :: "nat \<Rightarrow> ('z fs_st_scheme, stat) kernel" where
  "stati ip =
     kbind (ifld ip id) (\<lambda>x.
     kbind (kopt (strncpy (replicate (MAX_LEN + 1) 0) (di_owner (i_di x)) (MAX_LEN + 1))) (\<lambda>ow.
     kret \<lparr>st_type = di_type (i_di x), st_dev = i_dev x, st_ino = i_inum x, st_nlink = di_nlink (i_di x),
           st_size = di_size (i_di x), st_perm = di_perm (i_di x), st_owner = ow\<rparr>))"

text \<open>The number of bytes a round of the three loops below handles, \<^verbatim>\<open>min(n - tot, BSIZE - off%BSIZE)\<close>.\<close>

definition chunk :: "nat \<Rightarrow> nat \<Rightarrow> nat \<Rightarrow> nat" where
  "chunk n tot off = min (n - tot) (BSIZE - off mod BSIZE)"

lemma chunk_pos: "tot < n \<Longrightarrow> 0 < chunk n tot off"
  by (simp add: chunk_def BSIZE_def)

lemma chunk_less: "tot < n \<Longrightarrow> n - (tot + chunk n tot off) < n - tot"
  using chunk_pos [of tot n off] by linarith

function readi_loop :: "nat \<Rightarrow> nat \<Rightarrow> nat \<Rightarrow> nat \<Rightarrow> ('z fs_st_scheme, byte list) kernel" where
  "readi_loop ip n tot off =
     (if tot < n then
        kbind (bmap ip (off div BSIZE)) (\<lambda>addr.
        kbind (ifld ip i_dev) (\<lambda>dev.
        kbind (bread dev addr) (\<lambda>bp.
        kbind (bfld bp (\<lambda>x. take (chunk n tot off) (drop (off mod BSIZE) (b_data x)))) (\<lambda>d.
        kthen (brelse bp)
       (kbind (readi_loop ip n (tot + chunk n tot off) (off + chunk n tot off)) (\<lambda>r.
        kret (d @ r)))))))
      else kret [])"
  by auto
termination
  by (relation "measure (\<lambda>(ip, n, tot, off). n - tot)") (use chunk_less in auto)

text \<open>Reading gives the return value and the bytes stored from \<^verbatim>\<open>dst\<close> on; \<^verbatim>\<open>off + n\<close> is computed in 32 bits.\<close>

definition readi :: "'z fs_st_scheme devsw \<Rightarrow> nat \<Rightarrow> nat \<Rightarrow> nat \<Rightarrow> ('z fs_st_scheme, int \<times> byte list) kernel" where
  "readi dv ip off n =
     kbind (ifld ip i_di) (\<lambda>x.
     if di_type x = T_DEV then
       (if di_major x < 0 \<or> di_major x \<ge> int NDEV then kret (-1, [])
        else case fst (dv (nat (di_major x))) of None \<Rightarrow> kret (-1, []) | Some rd \<Rightarrow> rd ip (int_of (int n)))
     else if off > di_size x \<or> (off + n) mod 2 ^ 32 < off then kret (-1, [])
     else
       (let n = (if (off + n) mod 2 ^ 32 > di_size x then di_size x - off else n) in
        kbind (readi_loop ip n 0 off) (\<lambda>d.
        kret (int_of (int n), d))))"

text \<open>The loop of \<^verbatim>\<open>writei\<close> gives back the last value of \<^verbatim>\<open>off\<close>.\<close>

function writei_loop :: "nat \<Rightarrow> byte list \<Rightarrow> nat \<Rightarrow> nat \<Rightarrow> nat \<Rightarrow> ('z fs_st_scheme, nat) kernel" where
  "writei_loop ip src n tot off =
     (if tot < n then
        kbind (bmap ip (off div BSIZE)) (\<lambda>addr.
        kbind (ifld ip i_dev) (\<lambda>dev.
        kbind (bread dev addr) (\<lambda>bp.
        if tot + chunk n tot off > length src then kfault
        else
          kthen (bset bp (b_data_update (overlay (off mod BSIZE) (take (chunk n tot off) (drop tot src)))))
         (kthen (log_write bp)
         (kthen (brelse bp)
         (writei_loop ip src n (tot + chunk n tot off) (off + chunk n tot off)))))))
      else kret off)"
  by auto
termination
  by (relation "measure (\<lambda>(ip, src, n, tot, off). n - tot)") (use chunk_less in auto)

definition writei :: "'z fs_st_scheme devsw \<Rightarrow> nat \<Rightarrow> byte list \<Rightarrow> nat \<Rightarrow> nat \<Rightarrow> ('z fs_st_scheme, int) kernel" where
  "writei dv ip src off n =
     kbind (ifld ip i_di) (\<lambda>x.
     if di_type x = T_DEV then
       (if di_major x < 0 \<or> di_major x \<ge> int NDEV then kret (-1)
        else case snd (dv (nat (di_major x))) of None \<Rightarrow> kret (-1) | Some wr \<Rightarrow> wr ip src (int_of (int n)))
     else if off > di_size x \<or> (off + n) mod 2 ^ 32 < off then kret (-1)
     else if (off + n) mod 2 ^ 32 > MAXFILE * BSIZE then kret (-1)
     else
       kbind (writei_loop ip src n 0 off) (\<lambda>off.
       kbind (ifld ip (\<lambda>x. di_size (i_di x))) (\<lambda>size.
       kthen (kwhen (n > 0 \<and> off > size)
        (kthen (diset ip (di_size_update (\<lambda>_. off)))
        (iupdate ip)))
      (kret (int_of (int n))))))"

function cleari_loop :: "nat \<Rightarrow> nat \<Rightarrow> nat \<Rightarrow> nat \<Rightarrow> ('z fs_st_scheme, unit) kernel" where
  "cleari_loop ip n tot off =
     (if tot < n then
        kbind (bmap ip (off div BSIZE)) (\<lambda>addr.
        kbind (ifld ip i_dev) (\<lambda>dev.
        kbind (bread dev addr) (\<lambda>bp.
        kthen (bset bp (b_data_update (overlay (off mod BSIZE) (replicate (chunk n tot off) 0))))
       (kthen (log_write bp)
       (kthen (brelse bp)
       (cleari_loop ip n (tot + chunk n tot off) (off + chunk n tot off)))))))
      else kret ())"
  by auto
termination
  by (relation "measure (\<lambda>(ip, n, tot, off). n - tot)") (use chunk_less in auto)

definition cleari :: "nat \<Rightarrow> ('z fs_st_scheme, int) kernel" where
  "cleari ip =
     kbind (ifld ip i_di) (\<lambda>x.
     if di_type x = T_DEV then kret (-1)
     else if di_size x > MAXFILE * BSIZE then kret (-1)
     else
       kthen (cleari_loop ip (di_size x) 0 0)
      (kthen (iupdate ip)
      (kret 0)))"

declare readi_loop.simps [simp del] writei_loop.simps [simp del] cleari_loop.simps [simp del]

section \<open>Directories\<close>

definition namecmp :: "byte list \<Rightarrow> byte list \<Rightarrow> int option" where
  "namecmp s t = strncmp s t DIRSIZ"

text \<open>The offsets the loops over a directory visit; \<^verbatim>\<open>dp->size\<close> does not change while they run.\<close>

definition dir_offs :: "nat \<Rightarrow> nat list" where
  "dir_offs sz = map (\<lambda>k. 16 * k) [0..<(sz + 15) div 16]"

definition read_dirent :: "'z fs_st_scheme devsw \<Rightarrow> nat \<Rightarrow> nat \<Rightarrow> string \<Rightarrow> ('z fs_st_scheme, dirent) kernel" where
  "read_dirent dv dp off msg =
     kbind (readi dv dp off 16) (\<lambda>(r, d).
     if r \<noteq> 16 then kpanic msg else kret (dirent_of d))"

text \<open>The result pairs the inode with the offset that is stored through \<^verbatim>\<open>poff\<close>.\<close>

definition dirlookup :: "'z fs_st_scheme devsw \<Rightarrow> nat \<Rightarrow> byte list \<Rightarrow> ('z fs_st_scheme, (nat \<times> nat) option) kernel" where
  "dirlookup dv dp name =
     kbind (ifld dp i_di) (\<lambda>x.
     if di_type x \<noteq> T_DIR then kpanic ''dirlookup not DIR''
     else kfind (dir_offs (di_size x)) (\<lambda>off.
       kbind (read_dirent dv dp off ''dirlookup read'') (\<lambda>de.
       if de_inum de = 0 then kret None
       else kbind (kopt (namecmp name (de_name de))) (\<lambda>c.
         if c = 0 then
           kbind (ifld dp i_dev) (\<lambda>dev.
           kbind (iget dev (de_inum de)) (\<lambda>ip.
           kret (Some (ip, off))))
         else kret None))))"

definition dirlink :: "'z fs_st_scheme devsw \<Rightarrow> nat \<Rightarrow> byte list \<Rightarrow> nat \<Rightarrow> ('z fs_st_scheme, int) kernel" where
  "dirlink dv dp name inum =
     kbind (dirlookup dv dp name) (\<lambda>hit.
     case hit of
       Some (ip, _) \<Rightarrow> kthen (iput ip) (kret (-1))
     | None \<Rightarrow>
         kbind (ifld dp (\<lambda>x. di_size (i_di x))) (\<lambda>size.
         kbind (kfind (dir_offs size) (\<lambda>off.
           kbind (read_dirent dv dp off ''dirlink read'') (\<lambda>de.
           kret (if de_inum de = 0 then Some off else None)))) (\<lambda>free.
         kbind (kopt (strncpy (replicate DIRSIZ 0) name DIRSIZ)) (\<lambda>nm.
         kbind (writei dv dp (bytes_of_dirent \<lparr>de_inum = inum mod 2 ^ 16, de_name = nm\<rparr>)
             (case free of Some off \<Rightarrow> off | None \<Rightarrow> 16 * ((size + 15) div 16)) 16) (\<lambda>r.
         if r \<noteq> 16 then kpanic ''dirlink'' else kret 0)))))"

section \<open>Paths\<close>

text \<open>
  \<^verbatim>\<open>skipelem\<close> gives \<open>None\<close> if it runs past the end of \<^verbatim>\<open>path\<close>, \<open>Some None\<close> for the null pointer and
  otherwise the rest of the path with the new content of \<^verbatim>\<open>name\<close>.
\<close>

definition skipelem :: "byte list \<Rightarrow> byte list \<Rightarrow> (byte list \<times> byte list) option option" where
  "skipelem path name =
     (let p = dropWhile (\<lambda>c. c = 47) path in
      if p = [] then None
      else if hd p = 0 then Some None
      else
        (let e = takeWhile (\<lambda>c. c \<noteq> 47 \<and> c \<noteq> 0) p;
             q = dropWhile (\<lambda>c. c \<noteq> 47 \<and> c \<noteq> 0) p;
             name = (if length e \<ge> DIRSIZ then overlay 0 (take DIRSIZ e) name else overlay 0 (e @ [0]) name);
             r = dropWhile (\<lambda>c. c = 47) q in
         if r = [] then None else Some (Some (r, name))))"

lemma skipelem_shorter: "skipelem path name = Some (Some (r, n)) \<Longrightarrow> length r < length path"
proof -
  assume s: "skipelem path name = Some (Some (r, n))"
  let ?f = "\<lambda>c :: byte. c \<noteq> 47 \<and> c \<noteq> 0"
  define p where "p = dropWhile (\<lambda>c. c = 47) path"
  define q where "q = dropWhile (\<lambda>c. c = 47) (dropWhile ?f p)"
  define nm where "nm = (if length (takeWhile ?f p) \<ge> DIRSIZ then overlay 0 (take DIRSIZ (takeWhile ?f p)) name
    else overlay 0 (takeWhile ?f p @ [0]) name)"
  have "skipelem path name = (if p = [] then None else if hd p = 0 then Some None else if q = [] then None else Some (Some (q, nm)))"
    by (simp only: skipelem_def Let_def p_def q_def nm_def)
  with s have p: "p \<noteq> []" "hd p \<noteq> 0" and r: "r = q" by (simp_all split: if_splits)
  have "hd p \<noteq> 47" using hd_dropWhile [of "\<lambda>c. c = 47" path] p(1) unfolding p_def by simp
  then have "dropWhile ?f p = dropWhile ?f (tl p)" using p by (cases p) simp_all
  then have "length r \<le> length (tl p)"
    unfolding r q_def using length_dropWhile_le [of "\<lambda>c. c = 47" "dropWhile ?f (tl p)"] length_dropWhile_le [of ?f "tl p"] by simp
  moreover have "length p \<le> length path" unfolding p_def by (rule length_dropWhile_le)
  ultimately show ?thesis using p(1) by (cases p) simp_all
qed

text \<open>The loop of \<^verbatim>\<open>namex\<close>, with the inode it has reached.\<close>

function namex_loop :: "'z fs_st_scheme devsw \<Rightarrow> nat \<Rightarrow> byte list \<Rightarrow> bool \<Rightarrow> byte list \<Rightarrow> ('z fs_st_scheme, nat option \<times> byte list) kernel" where
  "namex_loop dv ip path parent name =
     (case skipelem path name of
        None \<Rightarrow> kfault
      | Some None \<Rightarrow>
          if parent then kthen (iput ip) (kret (None, name))
          else kret (Some ip, name)
      | Some (Some (path, name)) \<Rightarrow>
          kthen (ilock (Some ip))
         (kbind (ifld ip (\<lambda>x. di_type (i_di x))) (\<lambda>ty.
          if ty \<noteq> T_DIR then kthen (iunlockput ip) (kret (None, name))
          else
            kbind (with_myproc (\<lambda>p. pfld p p_pid)) (\<lambda>pid.
            kbind (if pid > 2 then kbind (stati ip) (\<lambda>st. kbind (checkmod st) (\<lambda>m. kret (m AND X_OK \<noteq> 0)))
                   else kret True) (\<lambda>allowed.
            if \<not> allowed then kthen (iunlockput ip) (kret (None, name))
            else if parent \<and> hd path = 0 then kthen (iunlock (Some ip)) (kret (Some ip, name))
            else
              kbind (dirlookup dv ip name) (\<lambda>next.
              case next of
                None \<Rightarrow> kthen (iunlockput ip) (kret (None, name))
              | Some (nx, _) \<Rightarrow>
                  kthen (iunlockput ip)
                 (namex_loop dv nx path parent name)))))))"
  by pat_completeness auto
termination
  by (relation "measure (\<lambda>(dv, ip, path, parent, name). length path)") (auto dest: skipelem_shorter)

declare namex_loop.simps [simp del]

definition namex :: "'z fs_st_scheme devsw \<Rightarrow> byte list \<Rightarrow> bool \<Rightarrow> byte list \<Rightarrow> ('z fs_st_scheme, nat option \<times> byte list) kernel" where
  "namex dv path parent name =
     (if path = [] then kfault
      else
        kbind (if hd path = 47 then iget ROOTDEV ROOTINO
               else with_myproc (\<lambda>p. kbind (pfld p p_cwd) (\<lambda>c. deref c idup))) (\<lambda>ip.
        namex_loop dv ip path parent name))"

definition namei :: "'z fs_st_scheme devsw \<Rightarrow> byte list \<Rightarrow> ('z fs_st_scheme, nat option) kernel" where
  "namei dv path = kbind (namex dv path False (replicate DIRSIZ 0)) (\<lambda>(ip, _). kret ip)"

definition nameiparent :: "'z fs_st_scheme devsw \<Rightarrow> byte list \<Rightarrow> byte list \<Rightarrow> ('z fs_st_scheme, nat option \<times> byte list) kernel" where
  "nameiparent dv path name = namex dv path True name"

section \<open>States to start with\<close>

definition fs_ex :: "inode list \<Rightarrow> superblock \<Rightarrow> acc_st \<Rightarrow> fs_st" where
  "fs_ex is x a = acc_st.extend a (fs_st.fields is x)"

end
