(* ===== verification/Pipe.thy ===== *)
theory Pipe
  imports Fs
begin

text \<open>
  Pipes (\<^verbatim>\<open>pipe.c\<close>): a ring of \<open>PIPESIZE\<close> bytes with two 32-bit counters that wrap around. A pipe lies in
  a page of its own; \<open>pipes\<close> maps the address of the page to the structure in it. Its lock and the
  channels \<^verbatim>\<open>&p->nread\<close> and \<^verbatim>\<open>&p->nwrite\<close> are numbered by that address. Bytes go to and come from lists.
  \<^verbatim>\<open>pipealloc\<close>, which also makes two files, is in \<^verbatim>\<open>File\<close>.
\<close>

section \<open>Operations\<close>

definition PIPESIZE :: u32 where "PIPESIZE = 512"

record pipe =
  pi_data :: "byte list"
  pi_nread :: u32
  pi_nwrite :: u32
  pi_readopen :: bool
  pi_writeopen :: bool

record pipe_st = fs_st +
  pipes :: "u32 \<Rightarrow> pipe"

abbreviation pifld :: "u32 \<Rightarrow> (pipe \<Rightarrow> 'a) \<Rightarrow> ('z pipe_st_scheme, 'a) kernel" where
  "pifld p f \<equiv> kget (\<lambda>s. f (pipes s p))"

definition piset :: "u32 \<Rightarrow> (pipe \<Rightarrow> pipe) \<Rightarrow> ('z pipe_st_scheme, unit) kernel" where
  "piset p g = kmod (\<lambda>s. s\<lparr>pipes := (pipes s)(p := g (pipes s p))\<rparr>)"

abbreviation pi_lock :: "u32 \<Rightarrow> lockid" where "pi_lock p \<equiv> L_pipe (unat p)"
abbreviation pi_rchan :: "u32 \<Rightarrow> chan" where "pi_rchan p \<equiv> C_nread (unat p)"
abbreviation pi_wchan :: "u32 \<Rightarrow> chan" where "pi_wchan p \<equiv> C_nwrite (unat p)"

definition pipeclose :: "u32 \<Rightarrow> bool \<Rightarrow> ('z pipe_st_scheme, unit) kernel" where
  "pipeclose p writable =
     kthen (acquire (pi_lock p))
    (kthen
      (if writable then
         kthen (piset p (pi_writeopen_update (\<lambda>_. False)))
        (wakeup (Some (pi_rchan p)))
       else
         kthen (piset p (pi_readopen_update (\<lambda>_. False)))
        (wakeup (Some (pi_wchan p))))
    (kbind (pifld p (\<lambda>x. \<not> pi_readopen x \<and> \<not> pi_writeopen x)) (\<lambda>both.
     if both then
       kthen (release (pi_lock p))
      (kfree p)
     else release (pi_lock p))))"

text \<open>The ring: whether it is full or empty, the byte that goes in, the byte that comes out.\<close>

definition pi_full :: "pipe \<Rightarrow> bool" where
  "pi_full x \<longleftrightarrow> pi_nwrite x = pi_nread x + PIPESIZE"

definition pi_empty :: "pipe \<Rightarrow> bool" where
  "pi_empty x \<longleftrightarrow> pi_nread x = pi_nwrite x"

definition pi_put :: "byte \<Rightarrow> pipe \<Rightarrow> pipe" where
  "pi_put c x = x\<lparr>pi_data := (pi_data x)[unat (pi_nwrite x mod PIPESIZE) := c], pi_nwrite := pi_nwrite x + 1\<rparr>"

definition pi_get :: "pipe \<Rightarrow> byte" where
  "pi_get x = pi_data x ! unat (pi_nread x mod PIPESIZE)"

definition pi_skip :: "pipe \<Rightarrow> pipe" where
  "pi_skip x = x\<lparr>pi_nread := pi_nread x + 1\<rparr>"

definition killed :: "('z ptable_st_scheme, bool) kernel" where
  "killed = with_myproc (\<lambda>p. pfld p p_killed)"

text \<open>The inner loop of \<^verbatim>\<open>pipewrite\<close>: \<open>False\<close> when it returns \<open>-1\<close>, with the lock released.\<close>

primrec pipewrite_wait :: "nat \<Rightarrow> u32 \<Rightarrow> ('z pipe_st_scheme, bool) kernel" where
  "pipewrite_wait 0 p = kstuck"
| "pipewrite_wait (Suc k) p =
     kbind (pifld p pi_full) (\<lambda>full.
     if full then
       kbind (kbind (pifld p pi_readopen) (\<lambda>open. if \<not> open then kret True else killed)) (\<lambda>stop.
       if stop then kthen (release (pi_lock p)) (kret False)
       else
         kthen (wakeup (Some (pi_rchan p)))
        (kthen (sleep (Some (pi_wchan p)) (Some (pi_lock p)))
        (pipewrite_wait k p)))
     else kret True)"

primrec pipewrite_loop :: "u32 \<Rightarrow> byte list \<Rightarrow> ('z pipe_st_scheme, bool) kernel" where
  "pipewrite_loop p [] = kret True"
| "pipewrite_loop p (c # cs) =
     kbind (kget wakes) (\<lambda>k.
     kbind (pipewrite_wait (Suc k) p) (\<lambda>ok.
     if \<not> ok then kret False
     else
       kthen (piset p (pi_put c))
      (pipewrite_loop p cs)))"

definition pipewrite :: "u32 \<Rightarrow> byte list \<Rightarrow> int \<Rightarrow> ('z pipe_st_scheme, int) kernel" where
  "pipewrite p addr n =
     (if int (length addr) < n then kfault
      else
        kthen (acquire (pi_lock p))
       (kbind (pipewrite_loop p (take (nat n) addr)) (\<lambda>ok.
        if \<not> ok then kret (-1)
        else
          kthen (wakeup (Some (pi_rchan p)))
         (kthen (release (pi_lock p))
         (kret n)))))"

primrec piperead_wait :: "nat \<Rightarrow> u32 \<Rightarrow> ('z pipe_st_scheme, bool) kernel" where
  "piperead_wait 0 p = kstuck"
| "piperead_wait (Suc k) p =
     kbind (pifld p (\<lambda>x. pi_empty x \<and> pi_writeopen x)) (\<lambda>wait.
     if wait then
       kbind killed (\<lambda>stop.
       if stop then kthen (release (pi_lock p)) (kret False)
       else
         kthen (sleep (Some (pi_rchan p)) (Some (pi_lock p)))
        (piperead_wait k p))
     else kret True)"

primrec piperead_loop :: "nat \<Rightarrow> u32 \<Rightarrow> ('z pipe_st_scheme, byte list) kernel" where
  "piperead_loop 0 p = kret []"
| "piperead_loop (Suc n) p =
     kbind (pifld p pi_empty) (\<lambda>e.
     if e then kret []
     else
       kbind (pifld p pi_get) (\<lambda>c.
       kthen (piset p pi_skip)
      (kbind (piperead_loop n p) (\<lambda>cs.
       kret (c # cs)))))"

definition piperead :: "u32 \<Rightarrow> int \<Rightarrow> ('z pipe_st_scheme, int \<times> byte list) kernel" where
  "piperead p n =
     kthen (acquire (pi_lock p))
    (kbind (kget wakes) (\<lambda>k.
     kbind (piperead_wait (Suc k) p) (\<lambda>ok.
     if \<not> ok then kret (-1, [])
     else
       kbind (piperead_loop (nat n) p) (\<lambda>cs.
       kthen (wakeup (Some (pi_wchan p)))
      (kthen (release (pi_lock p))
      (kret (int (length cs), cs)))))))"

end
