(* ===== verification/Uaccess.thy ===== *)
theory Uaccess
  imports Proc
begin

text \<open>
  Access to user memory and the fetching of system call arguments (\<^verbatim>\<open>syscall.c\<close>). User addresses go
  through the page table that \<open>cr3\<close> points to, as the processor translates them; an access to a page
  that is not present, or a write to one that is not writable, is a fault.

  A fetched string is the list of its bytes with the terminating zero.
\<close>

section \<open>Translation\<close>

text \<open>The entry of the page of \<open>va\<close>, if both levels are present.\<close>

definition mmu_pte :: "'z vm_st_scheme \<Rightarrow> u32 \<Rightarrow> u32 option" where
  "mmu_pte s va =
     (let e = load32 (mem s) (P2V (cr3 s) + 4 * PDX va) in
      if e AND PTE_P = 0 then None
      else
        (let p = load32 (mem s) (P2V (PTE_ADDR e) + 4 * PTX va) in
         if p AND PTE_P = 0 then None else Some p))"

definition mmu_read :: "'z vm_st_scheme \<Rightarrow> u32 \<Rightarrow> u32 option" where
  "mmu_read s va = map_option (\<lambda>p. P2V (PTE_ADDR p) + (va AND 0xFFF)) (mmu_pte s va)"

definition mmu_write :: "'z vm_st_scheme \<Rightarrow> u32 \<Rightarrow> u32 option" where
  "mmu_write s va =
     (case mmu_pte s va of None \<Rightarrow> None
      | Some p \<Rightarrow> if p AND PTE_W = 0 then None else Some (P2V (PTE_ADDR p) + (va AND 0xFFF)))"

definition ubyte :: "u32 \<Rightarrow> ('z vm_st_scheme, byte) kernel" where
  "ubyte va = kbind (kget (\<lambda>s. map_option (mem s) (mmu_read s va))) kopt"

definition ustore :: "u32 \<Rightarrow> byte \<Rightarrow> ('z vm_st_scheme, unit) kernel" where
  "ustore va c =
     kbind (kget (\<lambda>s. mmu_write s va)) (\<lambda>r.
     kbind (kopt r) (\<lambda>a.
     kmod (\<lambda>s. s\<lparr>mem := (mem s)(a := c)\<rparr>)))"

definition uword :: "u32 \<Rightarrow> ('z vm_st_scheme, u32) kernel" where
  "uword va =
     kbind (ubyte va) (\<lambda>a.
     kbind (ubyte (va + 1)) (\<lambda>b.
     kbind (ubyte (va + 2)) (\<lambda>c.
     kbind (ubyte (va + 3)) (\<lambda>d.
     kret (ucast a OR push_bit 8 (ucast b) OR push_bit 16 (ucast c) OR push_bit 24 (ucast d))))))"

text \<open>A user buffer read and written byte by byte.\<close>

primrec ubytes :: "u32 \<Rightarrow> nat \<Rightarrow> ('z vm_st_scheme, byte list) kernel" where
  "ubytes va 0 = kret []"
| "ubytes va (Suc n) = kbind (ubyte va) (\<lambda>c. kbind (ubytes (va + 1) n) (\<lambda>cs. kret (c # cs)))"

primrec uput :: "u32 \<Rightarrow> byte list \<Rightarrow> ('z vm_st_scheme, unit) kernel" where
  "uput va [] = kret ()"
| "uput va (c # cs) = kthen (ustore va c) (uput (va + 1) cs)"

section \<open>Arguments\<close>

definition fetchint :: "u32 \<Rightarrow> ('z ptable_st_scheme, u32 option) kernel" where
  "fetchint addr =
     with_myproc (\<lambda>curproc.
     kbind (pfld curproc p_sz) (\<lambda>sz.
     if addr \<ge> sz \<or> addr + 4 > sz then kret None
     else kbind (uword addr) (\<lambda>v. kret (Some v))))"

function fetchstr_loop :: "u32 \<Rightarrow> u32 \<Rightarrow> byte list \<Rightarrow> ('z ptable_st_scheme, byte list option) kernel" where
  "fetchstr_loop s ep acc =
     (if s < ep then
        kbind (ubyte s) (\<lambda>c.
        if c = 0 then kret (Some (rev (c # acc))) else fetchstr_loop (s + 1) ep (c # acc))
      else kret None)"
  by pat_completeness auto
termination
proof (relation "measure (\<lambda>(s, ep, acc). unat ep - unat s)", simp, simp)
  fix s ep :: u32
  assume "s < ep"
  then have "unat s < unat ep" by (simp add: word_less_nat_alt)
  moreover have "unat ep < 2 ^ 32" using unsigned_less [of ep] by simp
  ultimately have "unat (s + 1) = unat s + 1" "unat s < unat ep" by (simp_all add: unat_word_ariths)
  then show "unat ep - unat (s + 1) < unat ep - unat s" by simp
qed

declare fetchstr_loop.simps [simp del]

definition fetchstr :: "u32 \<Rightarrow> ('z ptable_st_scheme, byte list option) kernel" where
  "fetchstr addr =
     with_myproc (\<lambda>curproc.
     kbind (pfld curproc p_sz) (\<lambda>sz.
     if addr \<ge> sz then kret None else fetchstr_loop addr sz []))"

definition argint :: "nat \<Rightarrow> ('z ptable_st_scheme, u32 option) kernel" where
  "argint n =
     with_myproc (\<lambda>p.
     kbind (kget (\<lambda>s. load32 (mem s) (p_tf (procs s ! p) + tf_esp))) (\<lambda>esp.
     fetchint (esp + 4 + 4 * of_nat n)))"

definition argptr :: "nat \<Rightarrow> int \<Rightarrow> ('z ptable_st_scheme, u32 option) kernel" where
  "argptr n size' =
     with_myproc (\<lambda>curproc.
     kbind (argint n) (\<lambda>r.
     case r of None \<Rightarrow> kret None
     | Some i \<Rightarrow>
         kbind (pfld curproc p_sz) (\<lambda>sz.
         if size' < 0 \<or> i \<ge> sz \<or> i + of_int size' > sz then kret None else kret (Some i))))"

definition argstr :: "nat \<Rightarrow> ('z ptable_st_scheme, byte list option) kernel" where
  "argstr n =
     kbind (argint n) (\<lambda>r.
     case r of None \<Rightarrow> kret None | Some addr \<Rightarrow> fetchstr addr)"

end
