(* ===== verification/File.thy ===== *)
theory File
  imports Pipe Uaccess
begin

text \<open>
  Open files (\<^verbatim>\<open>file.c\<close>, \<^verbatim>\<open>file.h\<close>) and \<^verbatim>\<open>pipealloc\<close> of \<^verbatim>\<open>pipe.c\<close>. A \<^verbatim>\<open>struct file *\<close> is an index into
  \<^verbatim>\<open>ftable\<close>. The content that is read or written is a list of bytes; copying it from and to user
  memory is done by the system calls.
\<close>

section \<open>State\<close>

definition NFILE :: nat where "NFILE = 100"

datatype fdtype = FD_NONE | FD_PIPE | FD_INODE

record file_struct =
  f_type :: fdtype
  f_ref :: int
  f_readable :: bool
  f_writable :: bool
  f_pipe :: u32
  f_ip :: "nat option"
  f_off :: nat

record file_st = pipe_st +
  files :: "file_struct list"

abbreviation ffld :: "nat \<Rightarrow> (file_struct \<Rightarrow> 'a) \<Rightarrow> ('z file_st_scheme, 'a) kernel" where
  "ffld f g \<equiv> kget (\<lambda>s. g (files s ! f))"

definition fset :: "nat \<Rightarrow> (file_struct \<Rightarrow> file_struct) \<Rightarrow> ('z file_st_scheme, unit) kernel" where
  "fset f g = kmod (\<lambda>s. s\<lparr>files := (files s)[f := g (files s ! f)]\<rparr>)"

section \<open>Operations\<close>

definition fileinit :: "('z file_st_scheme, unit) kernel" where
  "fileinit = initlock L_ftable"

definition filealloc :: "('z file_st_scheme, nat option) kernel" where
  "filealloc =
     kthen (acquire L_ftable)
    (kbind (kget (\<lambda>s. find (\<lambda>f. f_ref (files s ! f) = 0) [0..<NFILE])) (\<lambda>free.
     case free of
       Some f \<Rightarrow>
         kthen (fset f (f_ref_update (\<lambda>_. 1)))
        (kthen (release L_ftable)
        (kret (Some f)))
     | None \<Rightarrow> kthen (release L_ftable) (kret None)))"

definition filedup :: "nat \<Rightarrow> ('z file_st_scheme, nat) kernel" where
  "filedup f =
     kthen (acquire L_ftable)
    (kbind (ffld f f_ref) (\<lambda>r.
     if r < 1 then kpanic ''filedup''
     else
       kthen (fset f (f_ref_update (\<lambda>r. r + 1)))
      (kthen (release L_ftable)
      (kret f))))"

definition fileclose :: "nat \<Rightarrow> ('z file_st_scheme, unit) kernel" where
  "fileclose f =
     kthen (acquire L_ftable)
    (kbind (ffld f f_ref) (\<lambda>r.
     if r < 1 then kpanic ''fileclose''
     else
       kthen (fset f (f_ref_update (\<lambda>r. r - 1)))
      (if r - 1 > 0 then release L_ftable
       else
         kbind (ffld f id) (\<lambda>ff.
         kthen (fset f (\<lambda>x. x\<lparr>f_ref := 0, f_type := FD_NONE\<rparr>))
        (kthen (release L_ftable)
        (if f_type ff = FD_PIPE then pipeclose (f_pipe ff) (f_writable ff)
         else if f_type ff = FD_INODE then
           kthen begin_op
          (kthen (deref (f_ip ff) iput)
          end_op)
         else kret ()))))))"

definition filestat :: "nat \<Rightarrow> ('z file_st_scheme, stat option) kernel" where
  "filestat f =
     kbind (ffld f id) (\<lambda>x.
     if f_type x = FD_INODE then
       kthen (ilock (f_ip x))
      (kbind (deref (f_ip x) stati) (\<lambda>st.
       kthen (iunlock (f_ip x))
      (kret (Some st))))
     else kret None)"

definition fileread :: "'z file_st_scheme devsw \<Rightarrow> nat \<Rightarrow> int \<Rightarrow> ('z file_st_scheme, int \<times> byte list) kernel" where
  "fileread dv f n =
     kbind (ffld f id) (\<lambda>x.
     if \<not> f_readable x then kret (-1, [])
     else if f_type x = FD_PIPE then piperead (f_pipe x) n
     else if f_type x = FD_INODE then
       kthen (ilock (f_ip x))
      (kbind (deref (f_ip x) (\<lambda>ip. readi dv ip (f_off x) (uint_of n))) (\<lambda>(r, d).
       kthen (kwhen (r > 0) (fset f (f_off_update (\<lambda>off. uint_of (int off + r)))))
      (kthen (iunlock (f_ip x))
      (kret (r, d)))))
     else kpanic ''fileread'')"

text \<open>At most \<open>max_write\<close> bytes go into one transaction.\<close>

definition max_write :: int where
  "max_write = ((int MAXOPBLOCKS - 1 - 1 - 2) div 2) * 512"

definition filewrite_part :: "'z file_st_scheme devsw \<Rightarrow> nat \<Rightarrow> byte list \<Rightarrow> int \<Rightarrow> ('z file_st_scheme, int) kernel" where
  "filewrite_part dv f src n1 =
     kthen begin_op
    (kbind (ffld f f_ip) (\<lambda>ip.
     kthen (ilock ip)
    (kbind (ffld f f_off) (\<lambda>off.
     kbind (deref ip (\<lambda>ip. writei dv ip src off (uint_of n1))) (\<lambda>r.
     kthen (kwhen (r > 0) (fset f (f_off_update (\<lambda>off. uint_of (int off + r)))))
    (kthen (iunlock ip)
    (kthen end_op
    (kret r))))))))"

function filewrite_loop :: "'z file_st_scheme devsw \<Rightarrow> nat \<Rightarrow> byte list \<Rightarrow> int \<Rightarrow> int \<Rightarrow> ('z file_st_scheme, int) kernel" where
  "filewrite_loop dv f addr n i =
     (if i < n then
        (let n1 = min (n - i) max_write in
         kbind (filewrite_part dv f (drop (nat i) addr) n1) (\<lambda>r.
         if r < 0 then kret i
         else if r \<noteq> n1 then kpanic ''short filewrite''
         else filewrite_loop dv f addr n (i + n1)))
      else kret i)"
  by pat_completeness auto
termination
  by (relation "measure (\<lambda>(dv, f, addr, n, i). nat (n - i))") (auto simp: max_write_def MAXOPBLOCKS_def)

declare filewrite_loop.simps [simp del]

definition filewrite :: "'z file_st_scheme devsw \<Rightarrow> nat \<Rightarrow> byte list \<Rightarrow> int \<Rightarrow> ('z file_st_scheme, int) kernel" where
  "filewrite dv f addr n =
     kbind (ffld f id) (\<lambda>x.
     if \<not> f_writable x then kret (-1)
     else if f_type x = FD_PIPE then pipewrite (f_pipe x) addr n
     else if f_type x = FD_INODE then
       kbind (filewrite_loop dv f addr n 0) (\<lambda>i.
       kret (if i = n then n else -1))
     else kpanic ''filewrite'')"

text \<open>The clean-up of \<^verbatim>\<open>pipealloc\<close> at \<^verbatim>\<open>bad\<close>; no path reaches it with a page in hand.\<close>

definition pipealloc_bad :: "nat option \<Rightarrow> nat option \<Rightarrow> u32 \<Rightarrow> ('z file_st_scheme, (nat \<times> nat) option) kernel" where
  "pipealloc_bad f0 f1 p =
     kthen (kwhen (p \<noteq> 0) (kfree p))
    (kthen (case f0 of None \<Rightarrow> kret () | Some f \<Rightarrow> fileclose f)
    (kthen (case f1 of None \<Rightarrow> kret () | Some f \<Rightarrow> fileclose f)
    (kret None)))"

definition pipealloc :: "('z file_st_scheme, (nat \<times> nat) option) kernel" where
  "pipealloc =
     kbind filealloc (\<lambda>r0.
     case r0 of None \<Rightarrow> pipealloc_bad None None 0
     | Some f0 \<Rightarrow>
     kbind filealloc (\<lambda>r1.
     case r1 of None \<Rightarrow> pipealloc_bad (Some f0) None 0
     | Some f1 \<Rightarrow>
     kbind kalloc (\<lambda>p.
     if p = 0 then pipealloc_bad (Some f0) (Some f1) 0
     else
       kthen (piset p (\<lambda>x. x\<lparr>pi_readopen := True, pi_writeopen := True, pi_nwrite := 0, pi_nread := 0\<rparr>))
      (kthen (initlock (pi_lock p))
      (kthen (fset f0 (\<lambda>x. x\<lparr>f_type := FD_PIPE, f_readable := True, f_writable := False, f_pipe := p\<rparr>))
      (kthen (fset f1 (\<lambda>x. x\<lparr>f_type := FD_PIPE, f_readable := False, f_writable := True, f_pipe := p\<rparr>))
      (kret (Some (f0, f1)))))))))"

end
