(* ===== verification/Threads.thy ===== *)
theory Threads
  imports File
begin

text \<open>
  Processes and threads of \<^verbatim>\<open>proc.c\<close>: creation, exit, waiting and joining. A thread is an entry of the
  process table with a thread number, the page table of its main thread and a stack of its own.
  The first program \<^verbatim>\<open>_binary_initcode_start\<close> is an argument of \<^verbatim>\<open>userinit\<close>; \<open>fr_first\<close> is the static variable
  of \<^verbatim>\<open>forkret\<close>. Results that the code stores through user pointers go through the page table.
\<close>

section \<open>Creation\<close>

record thr_st = file_st +
  fr_first :: bool

definition idup_ptr :: "nat option \<Rightarrow> ('z thr_st_scheme, nat option) kernel" where
  "idup_ptr c = deref c (\<lambda>ip. kbind (idup ip) (\<lambda>ip. kret (Some ip)))"

definition userinit :: "byte list \<Rightarrow> 'z thr_st_scheme devsw \<Rightarrow> ('z thr_st_scheme, unit) kernel" where
  "userinit initcode dv =
     kbind allocproc (\<lambda>ptr.
     kthen (kmod (\<lambda>s. s\<lparr>initproc := ptr\<rparr>))
    (kbind setupkvm (\<lambda>d.
     deref ptr (\<lambda>p.
     kthen (pset p (p_pgdir_update (\<lambda>_. d)))
    (if d = 0 then kpanic ''userinit: out of memory?''
     else
       kthen (inituvm d initcode)
      (kthen (pset p (p_sz_update (\<lambda>_. PGSIZE)))
      (kthen (init_tf p)
      (kbind (pfld p p_name) (\<lambda>nm.
       kbind (kopt (safestrcpy nm (str ''initcode'' @ [0]) 16)) (\<lambda>nm.
       kthen (pset p (p_name_update (\<lambda>_. nm)))
      (kbind (namei dv (str ''/'' @ [0])) (\<lambda>ip.
       kthen (pset p (p_cwd_update (\<lambda>_. ip)))
      (kthen (acquire L_ptable)
      (kthen (pset p (p_state_update (\<lambda>_. RUNNABLE)))
      (release L_ptable)))))))))))))))"

text \<open>The test \<^verbatim>\<open>np->tid != 0\<close> is on the new process, for which \<^verbatim>\<open>allocproc\<close> has set \<^verbatim>\<open>tid\<close> to 0.\<close>

definition fork_child :: "nat \<Rightarrow> nat \<Rightarrow> ('z thr_st_scheme, int) kernel" where
  "fork_child curproc np =
     kbind (pfld curproc (\<lambda>x. (p_pgdir x, p_sz x))) (\<lambda>(d, sz).
     kbind (copyuvm d sz) (\<lambda>d'.
     kthen (pset np (p_pgdir_update (\<lambda>_. d')))
    (if d' = 0 then
       kbind (pfld np p_kstack) (\<lambda>k.
       kthen (kfree k)
      (kthen (pset np (\<lambda>x. x\<lparr>p_kstack := 0, p_state := UNUSED\<rparr>))
      (kret (-1))))
     else
       kbind (pfld curproc p_sz) (\<lambda>sz'.
       kthen (pset np (p_sz_update (\<lambda>_. sz')))
      (kbind (pfld np p_tid) (\<lambda>t.
       kbind (pfld curproc p_main) (\<lambda>mn.
       kthen (pset np (p_parent_update (\<lambda>_. if t \<noteq> 0 then mn else Some curproc)))
      (kthen (tf_copy np curproc)
      (kthen (tf_set np tf_eax 0)
      (kthen (copy_files filedup idup_ptr np curproc)
      (kbind (pfld np p_pid) (\<lambda>pid.
       kthen (acquire L_ptable)
      (kthen (pset np (p_state_update (\<lambda>_. RUNNABLE)))
      (kthen (release L_ptable)
      (kret pid)))))))))))))))"

definition fork :: "('z thr_st_scheme, int) kernel" where
  "fork =
     with_myproc (\<lambda>curproc.
     kbind allocproc (\<lambda>ptr.
     case ptr of None \<Rightarrow> kret (-1) | Some np \<Rightarrow> fork_child curproc np))"

text \<open>\<^verbatim>\<open>thread_create\<close> once the stack of the new thread is mapped.\<close>

definition thread_start :: "nat \<Rightarrow> nat \<Rightarrow> u32 \<Rightarrow> u32 \<Rightarrow> u32 \<Rightarrow> u32 \<Rightarrow> u32 \<Rightarrow> ('z thr_st_scheme, int) kernel" where
  "thread_start main np pgdir sbase sz start_routine arg =
     kthen (clearpteu pgdir (sz - 2 * PGSIZE))
    (kbind (copyout pgdir (sz - 8) (le32 (-1) @ le32 (uint arg))) (\<lambda>r.
     if r \<noteq> 0 then kpanic ''create_tread''
     else
       kbind (pfld main p_sz) (\<lambda>msz.
       kthen (pset np (\<lambda>x. x\<lparr>p_pgdir := pgdir, p_sz := msz, p_sbase := sbase\<rparr>))
      (kthen (tf_copy np main)
      (kthen (tf_set np tf_eip start_routine)
      (kthen (tf_set np tf_esp (sz - 8))
      (kthen (copy_files filedup idup_ptr np main)
      (kthen (acquire L_ptable)
      (kthen (pset np (p_state_update (\<lambda>_. RUNNABLE)))
      (kthen (release L_ptable)
      (kret 0)))))))))))"

definition thread_create :: "u32 \<Rightarrow> u32 \<Rightarrow> u32 \<Rightarrow> ('z thr_st_scheme, int) kernel" where
  "thread_create thread start_routine arg =
     with_myproc (\<lambda>curproc.
     kbind (pfld curproc p_main) (\<lambda>mn.
     (let main = (case mn of None \<Rightarrow> curproc | Some q \<Rightarrow> q) in
     kbind allocproc (\<lambda>ptr.
     case ptr of None \<Rightarrow> kret (-1)
     | Some np \<Rightarrow>
     kthen (kmod (\<lambda>s. s\<lparr>nextpid := nextpid s - 1\<rparr>))
    (kbind (kget nexttid) (\<lambda>tid.
     kthen (kmod (\<lambda>s. s\<lparr>nexttid := tid + 1\<rparr>))
    (kthen (pset np (p_tid_update (\<lambda>_. tid)))
    (kthen (uput thread (le32 tid))
    (kbind (pfld main (\<lambda>x. (p_pid x, p_pgdir x, p_sz x))) (\<lambda>(pid, pgdir, sbase).
     kthen (pset np (\<lambda>x. x\<lparr>p_main := Some main, p_parent := Some main, p_pid := pid\<rparr>))
    (kthen (pset main (p_sz_update (\<lambda>z. z + 2 * PGSIZE)))
    (kbind (allocuvm pgdir sbase (sbase + 2 * PGSIZE)) (\<lambda>sz.
     if sz = 0 then
       kthen (pset np (p_state_update (\<lambda>_. UNUSED)))
      (kret (-1))
     else thread_start main np pgdir sbase sz start_routine arg)))))))))))))"

section \<open>Exit\<close>

definition thread_clear :: "nat \<Rightarrow> ('z thr_st_scheme, unit) kernel" where
  "thread_clear p =
     kbind (pfld p p_kstack) (\<lambda>k.
     kthen (kfree k)
    (pset p (\<lambda>x. x\<lparr>p_kstack := 0, p_pid := 0, p_tid := 0, p_main := None, p_parent := None,
       p_name := (p_name x)[0 := 0], p_killed := False, p_state := UNUSED\<rparr>)))"

text \<open>One pass of \<^verbatim>\<open>clear_subthreads\<close> over the table; the result counts the threads still to exit.\<close>

definition clear_one :: "nat \<Rightarrow> nat \<Rightarrow> ('z thr_st_scheme, nat) kernel" where
  "clear_one curproc p =
     kbind (kget (\<lambda>s. p_pid (procs s ! p) \<noteq> p_pid (procs s ! curproc) \<or> p = curproc)) (\<lambda>skip.
     if skip then kret 0
     else kbind (pfld p p_state) (\<lambda>st.
     if st = ZOMBIE then kthen (thread_clear p) (kret 0)
     else
       kthen (pset p (p_killed_update (\<lambda>_. True)))
      (kthen (wakeup1 (Some (C_proc p)))
      (kret 1))))"

primrec clear_pass :: "nat \<Rightarrow> nat list \<Rightarrow> ('z thr_st_scheme, nat) kernel" where
  "clear_pass curproc [] = kret 0"
| "clear_pass curproc (p # ps) =
     kbind (clear_one curproc p) (\<lambda>n.
     kbind (clear_pass curproc ps) (\<lambda>m. kret (n + m)))"

primrec clear_loop :: "nat \<Rightarrow> nat \<Rightarrow> ('z thr_st_scheme, unit) kernel" where
  "clear_loop 0 curproc = kstuck"
| "clear_loop (Suc k) curproc =
     kbind (clear_pass curproc [0..<NPROC]) (\<lambda>havethreads.
     if havethreads = 0 then release L_ptable
     else
       kthen (sleep (Some (C_proc curproc)) (Some L_ptable))
      (clear_loop k curproc))"

definition clear_subthreads :: "nat \<Rightarrow> ('z thr_st_scheme, unit) kernel" where
  "clear_subthreads curproc =
     kbind (pfld curproc p_tid) (\<lambda>t.
     kwhen (t = 0)
      (kthen (acquire L_ptable)
      (kbind (kget wakes) (\<lambda>k. clear_loop (Suc k) curproc))))"

text \<open>Passing the children of \<open>p\<close> to the first process, and closing its files.\<close>

definition abandon_children :: "nat \<Rightarrow> ('z thr_st_scheme, unit) kernel" where
  "abandon_children p =
     kfor [0..<NPROC] (\<lambda>q.
       kbind (pfld q p_parent) (\<lambda>pp.
       kwhen (pp = Some p)
        (kbind (kget initproc) (\<lambda>ip.
         kthen (pset q (p_parent_update (\<lambda>_. ip)))
        (kbind (pfld q p_state) (\<lambda>st.
         kwhen (st = ZOMBIE) (wakeup1 (map_option C_proc ip))))))))"

definition close_files :: "nat \<Rightarrow> ('z thr_st_scheme, unit) kernel" where
  "close_files p =
     kfor [0..<NOFILE] (\<lambda>fd.
       kbind (pfld p (\<lambda>x. p_ofile x ! fd)) (\<lambda>f.
       case f of None \<Rightarrow> kret ()
       | Some f \<Rightarrow>
           kthen (fileclose f)
          (pset p (p_ofile_update (\<lambda>fs. fs[fd := None])))))"

definition put_cwd :: "nat \<Rightarrow> ('z thr_st_scheme, unit) kernel" where
  "put_cwd p =
     kthen begin_op
    (kbind (pfld p p_cwd) (\<lambda>c.
     kthen (deref c iput)
    (kthen end_op
    (pset p (p_cwd_update (\<lambda>_. None))))))"

definition kill_threads_except :: "int \<Rightarrow> nat \<Rightarrow> ('z thr_st_scheme, unit) kernel" where
  "kill_threads_except pid cp =
     kthen (acquire L_ptable)
    (kthen (kfor [0..<NPROC] (\<lambda>p.
       kbind (pfld p (\<lambda>x. p_pid x \<noteq> pid \<or> p = cp)) (\<lambda>skip.
       kwhen (\<not> skip)
        (kthen (abandon_children p)
        (kthen (close_files p)
        (kthen (release L_ptable)
        (kthen (put_cwd p)
        (kthen (acquire L_ptable)
        (thread_clear p)))))))))
    (release L_ptable))"

definition exit :: "('z thr_st_scheme, 'a) kernel" where
  "exit =
     with_myproc (\<lambda>curproc.
     kbind (kget initproc) (\<lambda>ip.
     if ip = Some curproc then kpanic ''init exiting''
     else
       kthen (clear_subthreads curproc)
      (kthen (close_files curproc)
      (kthen (put_cwd curproc)
      (kthen (acquire L_ptable)
      (kbind (pfld curproc (\<lambda>x. (p_main x, p_parent x))) (\<lambda>(mn, pp).
       kthen
        (case mn of
           None \<Rightarrow> wakeup1 (map_option C_proc pp)
         | Some m \<Rightarrow>
             kthen (pset m (p_killed_update (\<lambda>_. True)))
            (wakeup1 (Some (C_proc m))))
      (kthen (abandon_children curproc)
      (kthen (pset curproc (p_state_update (\<lambda>_. ZOMBIE)))
      (kthen sched
      (kpanic ''zombie exit'')))))))))))"

definition thread_exit :: "u32 \<Rightarrow> ('z thr_st_scheme, 'a) kernel" where
  "thread_exit retval =
     with_myproc (\<lambda>curproc.
     kbind (kget initproc) (\<lambda>ip.
     if ip = Some curproc then kpanic ''init exiting''
     else
       kthen (pset curproc (p_retval_update (\<lambda>_. retval)))
      (kthen (close_files curproc)
      (kthen (put_cwd curproc)
      (kthen (acquire L_ptable)
      (kbind (pfld curproc p_main) (\<lambda>mn.
       kthen (wakeup1 (map_option C_proc mn))
      (kthen (pset curproc (p_state_update (\<lambda>_. ZOMBIE)))
      (kthen sched
      (kpanic ''zombie exit''))))))))))"

section \<open>Waiting\<close>

definition reap :: "nat \<Rightarrow> ('z thr_st_scheme, int) kernel" where
  "reap p =
     kbind (pfld p (\<lambda>x. (p_pid x, p_kstack x))) (\<lambda>(pid, k).
     kthen (kfree k)
    (kthen (pset p (p_kstack_update (\<lambda>_. 0)))
    (kbind (pfld p p_pgdir) (\<lambda>d.
     kthen (freevm d)
    (kthen (pset p (\<lambda>x. x\<lparr>p_pid := 0, p_parent := None, p_name := (p_name x)[0 := 0], p_killed := False, p_state := UNUSED\<rparr>))
    (kret pid))))))"

definition wait_scan :: "nat \<Rightarrow> ('z thr_st_scheme, int option) kernel" where
  "wait_scan curproc =
     kfind [0..<NPROC] (\<lambda>p.
       kbind (pfld p (\<lambda>x. p_parent x = Some curproc \<and> p_state x = ZOMBIE)) (\<lambda>b.
       if b then kbind (reap p) (\<lambda>pid. kret (Some pid)) else kret None))"

primrec wait_loop :: "nat \<Rightarrow> nat \<Rightarrow> ('z thr_st_scheme, int) kernel" where
  "wait_loop 0 curproc = kstuck"
| "wait_loop (Suc k) curproc =
     kbind (wait_scan curproc) (\<lambda>r.
     case r of
       Some pid \<Rightarrow> kthen (release L_ptable) (kret pid)
     | None \<Rightarrow>
         kbind (kget (\<lambda>s. list_ex (\<lambda>x. p_parent x = Some curproc) (procs s))) (\<lambda>havekids.
         kbind (pfld curproc p_killed) (\<lambda>kd.
         if \<not> havekids \<or> kd then kthen (release L_ptable) (kret (-1))
         else
           kthen (sleep (Some (C_proc curproc)) (Some L_ptable))
          (wait_loop k curproc))))"

definition wait :: "('z thr_st_scheme, int) kernel" where
  "wait =
     with_myproc (\<lambda>curproc.
     kthen (acquire L_ptable)
    (kbind (kget wakes) (\<lambda>k. wait_loop (Suc k) curproc)))"

definition join_scan :: "int \<Rightarrow> u32 \<Rightarrow> ('z thr_st_scheme, unit option) kernel" where
  "join_scan thread retval =
     kfind [0..<NPROC] (\<lambda>p.
       kbind (pfld p (\<lambda>x. p_tid x = thread \<and> p_state x = ZOMBIE)) (\<lambda>b.
       if b then
         kbind (pfld p p_retval) (\<lambda>v.
         kthen (uput retval (le32 (uint v)))
        (kthen (thread_clear p)
        (kret (Some ()))))
       else kret None))"

primrec join_loop :: "nat \<Rightarrow> nat \<Rightarrow> int \<Rightarrow> u32 \<Rightarrow> ('z thr_st_scheme, int) kernel" where
  "join_loop 0 curproc thread retval = kstuck"
| "join_loop (Suc k) curproc thread retval =
     kbind (join_scan thread retval) (\<lambda>r.
     case r of
       Some _ \<Rightarrow> kthen (release L_ptable) (kret 0)
     | None \<Rightarrow>
         kbind (kget (\<lambda>s. list_ex (\<lambda>x. p_tid x = thread) (procs s))) (\<lambda>found.
         kbind (pfld curproc p_killed) (\<lambda>kd.
         if \<not> found \<or> kd then kthen (release L_ptable) (kret (-1))
         else
           kthen (sleep (Some (C_proc curproc)) (Some L_ptable))
          (join_loop k curproc thread retval))))"

definition thread_join :: "int \<Rightarrow> u32 \<Rightarrow> ('z thr_st_scheme, int) kernel" where
  "thread_join thread retval =
     with_myproc (\<lambda>curproc.
     kthen (acquire L_ptable)
    (kbind (kget wakes) (\<lambda>k. join_loop (Suc k) curproc thread retval)))"

text \<open>What a new process does first.\<close>

definition forkret :: "('z thr_st_scheme, unit) kernel" where
  "forkret =
     kthen (release L_ptable)
    (kbind (kget fr_first) (\<lambda>first.
     kwhen first
      (kthen (kmod (\<lambda>s. s\<lparr>fr_first := False\<rparr>))
      (kthen (iinit ROOTDEV)
      (initlog ROOTDEV)))))"

end
