(* ===== verification/Sysfile.thy ===== *)
theory Sysfile
  imports File
begin

text \<open>
  The file-system system calls (\<^verbatim>\<open>sysfile.c\<close>) but for the accounts, which are in \<^verbatim>\<open>Account\<close>, and
  \<^verbatim>\<open>sys_exec\<close>, which is in \<^verbatim>\<open>Exec\<close>. A path is a list of bytes with its terminating zero; local arrays that the
  code leaves uninitialised before it fills them start as zeros here.
\<close>

section \<open>Descriptors\<close>

definition getfilebyfd :: "int \<Rightarrow> ('z file_st_scheme, (int \<times> nat) option) kernel" where
  "getfilebyfd fd =
     (if fd < 0 \<or> fd \<ge> int NOFILE then kret None
      else with_myproc (\<lambda>p.
        kbind (pfld p (\<lambda>x. p_ofile x ! nat fd)) (\<lambda>f.
        case f of None \<Rightarrow> kret None | Some f \<Rightarrow> kret (Some (fd, f)))))"

definition argfd :: "nat \<Rightarrow> ('z file_st_scheme, (int \<times> nat) option) kernel" where
  "argfd n =
     kbind (argint n) (\<lambda>r.
     case r of None \<Rightarrow> kret None | Some v \<Rightarrow> getfilebyfd (sint v))"

definition set_ofile :: "nat \<Rightarrow> nat \<Rightarrow> nat option \<Rightarrow> ('z file_st_scheme, unit) kernel" where
  "set_ofile p fd f = pset p (p_ofile_update (\<lambda>fs. fs[fd := f]))"

definition fdalloc :: "nat \<Rightarrow> ('z file_st_scheme, int) kernel" where
  "fdalloc f =
     with_myproc (\<lambda>curproc.
     kbind (pfld curproc (\<lambda>x. find (\<lambda>fd. p_ofile x ! fd = None) [0..<NOFILE])) (\<lambda>r.
     case r of
       Some fd \<Rightarrow> kthen (set_ofile curproc fd (Some f)) (kret (int fd))
     | None \<Rightarrow> kret (-1)))"

definition sys_dup :: "('z file_st_scheme, int) kernel" where
  "sys_dup =
     kbind (argfd 0) (\<lambda>r.
     case r of None \<Rightarrow> kret (-1)
     | Some (_, f) \<Rightarrow>
         kbind (fdalloc f) (\<lambda>fd.
         if fd < 0 then kret (-1)
         else kthen (filedup f) (kret fd)))"

text \<open>The arguments of \<^verbatim>\<open>read\<close> and \<^verbatim>\<open>write\<close>: file, buffer, length.\<close>

definition arg_rw :: "('z file_st_scheme, (nat \<times> u32 \<times> int) option) kernel" where
  "arg_rw =
     kbind (argfd 0) (\<lambda>r.
     case r of None \<Rightarrow> kret None
     | Some (_, f) \<Rightarrow>
     kbind (argint 2) (\<lambda>r.
     case r of None \<Rightarrow> kret None
     | Some n \<Rightarrow>
     kbind (argptr 1 (sint n)) (\<lambda>r.
     case r of None \<Rightarrow> kret None
     | Some p \<Rightarrow> kret (Some (f, p, sint n)))))"

definition sys_read :: "'z file_st_scheme devsw \<Rightarrow> ('z file_st_scheme, int) kernel" where
  "sys_read dv =
     kbind arg_rw (\<lambda>r.
     case r of None \<Rightarrow> kret (-1)
     | Some (f, p, n) \<Rightarrow>
         kbind (fileread dv f n) (\<lambda>(r, d).
         kthen (uput p d)
        (kret r)))"

definition sys_write :: "'z file_st_scheme devsw \<Rightarrow> ('z file_st_scheme, int) kernel" where
  "sys_write dv =
     kbind arg_rw (\<lambda>r.
     case r of None \<Rightarrow> kret (-1)
     | Some (f, p, n) \<Rightarrow>
         kbind (ubytes p (nat n)) (\<lambda>d.
         filewrite dv f d n))"

definition sys_close :: "('z file_st_scheme, int) kernel" where
  "sys_close =
     kbind (argfd 0) (\<lambda>r.
     case r of None \<Rightarrow> kret (-1)
     | Some (fd, f) \<Rightarrow>
         kthen (with_myproc (\<lambda>p. set_ofile p (nat fd) None))
        (kthen (fileclose f)
        (kret 0)))"

text \<open>The fields of a \<^verbatim>\<open>struct stat\<close> at their offsets.\<close>

definition put_stat :: "u32 \<Rightarrow> stat \<Rightarrow> ('z file_st_scheme, unit) kernel" where
  "put_stat a st =
     kthen (uput (a + 4) (le32 (int (st_dev st))))
    (kthen (uput (a + 8) (le32 (int (st_ino st))))
    (kthen (uput a (take 2 (le32 (st_type st))))
    (kthen (uput (a + 12) (take 2 (le32 (st_nlink st))))
    (kthen (uput (a + 16) (le32 (int (st_size st))))
    (kthen (uput (a + 20) (le32 (int (st_perm st))))
    (uput (a + 24) (st_owner st)))))))"

definition sys_fstat :: "('z file_st_scheme, int) kernel" where
  "sys_fstat =
     kbind (argfd 0) (\<lambda>r.
     case r of None \<Rightarrow> kret (-1)
     | Some (_, f) \<Rightarrow>
     kbind (argptr 1 40) (\<lambda>r.
     case r of None \<Rightarrow> kret (-1)
     | Some a \<Rightarrow>
         kbind (filestat f) (\<lambda>r.
         case r of None \<Rightarrow> kret (-1)
         | Some st \<Rightarrow> kthen (put_stat a st) (kret 0))))"

section \<open>Links\<close>

definition sys_link_bad :: "nat \<Rightarrow> ('z file_st_scheme, int) kernel" where
  "sys_link_bad ip =
     kthen (ilock (Some ip))
    (kthen (diset ip (di_nlink_update (\<lambda>n. short_of (n - 1))))
    (kthen (iupdate ip)
    (kthen (iunlockput ip)
    (kthen end_op
    (kret (-1))))))"

definition link :: "'z file_st_scheme devsw \<Rightarrow> byte list \<Rightarrow> byte list \<Rightarrow> ('z file_st_scheme, int) kernel" where
  "link dv old new =
     kthen begin_op
    (kbind (namei dv old) (\<lambda>r.
     case r of None \<Rightarrow> kthen end_op (kret (-1))
     | Some ip \<Rightarrow>
     kthen (ilock (Some ip))
    (kbind (ifld ip (\<lambda>x. di_type (i_di x))) (\<lambda>ty.
     if ty = T_DIR then
       kthen (iunlockput ip)
      (kthen end_op
      (kret (-1)))
     else
       kthen (diset ip (di_nlink_update (\<lambda>n. short_of (n + 1))))
      (kthen (iupdate ip)
      (kthen (iunlock (Some ip))
      (kbind (nameiparent dv new (replicate DIRSIZ 0)) (\<lambda>(r, name).
       case r of None \<Rightarrow> sys_link_bad ip
       | Some dp \<Rightarrow>
       kthen (ilock (Some dp))
      (kbind (ifld dp i_dev) (\<lambda>ddev.
       kbind (ifld ip (\<lambda>x. (i_dev x, i_inum x))) (\<lambda>(dev, inum).
       kbind (if ddev \<noteq> dev then kret True
              else kbind (dirlink dv dp name inum) (\<lambda>r. kret (r < 0))) (\<lambda>failed.
       if failed then kthen (iunlockput dp) (sys_link_bad ip)
       else
         kthen (iunlockput dp)
        (kthen (iput ip)
        (kthen end_op
        (kret 0)))))))))))))))"

definition sys_link :: "'z file_st_scheme devsw \<Rightarrow> ('z file_st_scheme, int) kernel" where
  "sys_link dv =
     kbind (argstr 0) (\<lambda>r.
     case r of None \<Rightarrow> kret (-1)
     | Some old \<Rightarrow>
     kbind (argstr 1) (\<lambda>r.
     case r of None \<Rightarrow> kret (-1)
     | Some new \<Rightarrow> link dv old new))"

definition isdirempty :: "'z file_st_scheme devsw \<Rightarrow> nat \<Rightarrow> ('z file_st_scheme, bool) kernel" where
  "isdirempty dv dp =
     kbind (ifld dp (\<lambda>x. di_size (i_di x))) (\<lambda>sz.
     kbind (kfind (drop 2 (dir_offs sz)) (\<lambda>off.
       kbind (read_dirent dv dp off ''isdirempty: readi'') (\<lambda>de.
       kret (if de_inum de \<noteq> 0 then Some () else None)))) (\<lambda>r.
     kret (r = None)))"

definition unlink_bad :: "nat \<Rightarrow> ('z file_st_scheme, int) kernel" where
  "unlink_bad dp =
     kthen (iunlockput dp)
    (kthen end_op
    (kret (-1)))"

text \<open>The part of \<^verbatim>\<open>sys_unlink\<close> after the entry was found.\<close>

definition unlink_entry :: "'z file_st_scheme devsw \<Rightarrow> nat \<Rightarrow> nat \<Rightarrow> nat \<Rightarrow> ('z file_st_scheme, int) kernel" where
  "unlink_entry dv dp ip off =
     kthen (ilock (Some ip))
    (kbind (ifld ip (\<lambda>x. (di_nlink (i_di x), di_type (i_di x)))) (\<lambda>(nlink, ty).
     if nlink < 1 then kpanic ''unlink: nlink < 1''
     else kbind (if ty = T_DIR then isdirempty dv ip else kret True) (\<lambda>empty.
     if ty = T_DIR \<and> \<not> empty then
       kthen (iunlockput ip)
      (unlink_bad dp)
     else
       kbind (writei dv dp (replicate 16 0) off 16) (\<lambda>r.
       if r \<noteq> 16 then kpanic ''unlink: writei''
       else
         kthen (kwhen (ty = T_DIR)
          (kthen (diset dp (di_nlink_update (\<lambda>n. short_of (n - 1))))
          (iupdate dp)))
        (kthen (iunlockput dp)
        (kthen (diset ip (di_nlink_update (\<lambda>n. short_of (n - 1))))
        (kthen (iupdate ip)
        (kthen (iunlockput ip)
        (kthen end_op
        (kret 0)))))))))) "

definition unlink :: "'z file_st_scheme devsw \<Rightarrow> byte list \<Rightarrow> ('z file_st_scheme, int) kernel" where
  "unlink dv path =
     kthen begin_op
    (kbind (nameiparent dv path (replicate DIRSIZ 0)) (\<lambda>(r, name).
     case r of None \<Rightarrow> kthen end_op (kret (-1))
     | Some dp \<Rightarrow>
     kthen (ilock (Some dp))
    (kbind (stati dp) (\<lambda>st.
     kbind (checkmod st) (\<lambda>m.
     if m AND W_OK = 0 then
       kthen (iunlock (Some dp))
      (kthen end_op
      (kret (-1)))
     else
       kbind (kopt (namecmp name (str ''.'' @ [0]))) (\<lambda>c.
       kbind (if c = 0 then kret 0 else kopt (namecmp name (str ''..'' @ [0]))) (\<lambda>c.
       if c = 0 then unlink_bad dp
       else
         kbind (dirlookup dv dp name) (\<lambda>r.
         case r of None \<Rightarrow> unlink_bad dp
         | Some (ip, off) \<Rightarrow> unlink_entry dv dp ip off))))))))"

definition sys_unlink :: "'z file_st_scheme devsw \<Rightarrow> ('z file_st_scheme, int) kernel" where
  "sys_unlink dv =
     kbind (argstr 0) (\<lambda>r.
     case r of None \<Rightarrow> kret (-1) | Some path \<Rightarrow> unlink dv path)"

section \<open>Creating and opening\<close>

text \<open>The mode bits of a new inode.\<close>

definition new_perm :: "int \<Rightarrow> nat \<Rightarrow> nat" where
  "new_perm ty old =
     (if ty = T_DIR then MODE_RUSR OR MODE_WUSR OR MODE_XUSR OR MODE_ROTH OR MODE_XOTH
      else if ty = T_FILE then MODE_RUSR OR MODE_WUSR OR MODE_ROTH else old)"

text \<open>\<^verbatim>\<open>whoami\<close> writes the same for an empty table as the branch for \<^verbatim>\<open>userCnt == 0\<close> here.\<close>

definition create_new :: "'z file_st_scheme devsw \<Rightarrow> nat \<Rightarrow> byte list \<Rightarrow> int \<Rightarrow> int \<Rightarrow> int \<Rightarrow> ('z file_st_scheme, nat option) kernel" where
  "create_new dv dp name ty major minor =
     kbind (ifld dp i_dev) (\<lambda>dev.
     kbind (ialloc dev ty) (\<lambda>ip.
     kthen (ilock (Some ip))
    (kbind (ifld ip i_di) (\<lambda>x.
     kbind (kget lt_userCnt) (\<lambda>cnt.
     kbind (if cnt = 0 then
              kbind (kopt (strncpy (di_owner x) (str ''root'' @ [0]) 4)) (\<lambda>d.
              if 4 < length d then kret (d[4 := 0]) else kfault)
            else whoami (di_owner x)) (\<lambda>ow.
     kthen (diset ip (\<lambda>x. x\<lparr>di_major := major, di_minor := minor, di_nlink := 1,
                            di_perm := new_perm (di_type x) (di_perm x), di_owner := ow\<rparr>))
    (kthen (iupdate ip)
    (kbind (ifld ip i_inum) (\<lambda>inum.
     kthen (kwhen (ty = T_DIR)
      (kthen (diset dp (di_nlink_update (\<lambda>n. short_of (n + 1))))
      (kthen (iupdate dp)
      (kbind (ifld dp i_inum) (\<lambda>dinum.
       kbind (dirlink dv ip (str ''.'' @ [0]) inum) (\<lambda>r.
       kbind (if r < 0 then kret r else dirlink dv ip (str ''..'' @ [0]) dinum) (\<lambda>r.
       if r < 0 then kpanic ''create dots'' else kret ())))))))
    (kbind (dirlink dv dp name inum) (\<lambda>r.
     if r < 0 then kpanic ''create: dirlink''
     else
       kthen (iunlockput dp)
      (kret (Some ip)))))))))))))"

definition create :: "'z file_st_scheme devsw \<Rightarrow> byte list \<Rightarrow> int \<Rightarrow> int \<Rightarrow> int \<Rightarrow> ('z file_st_scheme, nat option) kernel" where
  "create dv path ty major minor =
     kbind (nameiparent dv path (replicate DIRSIZ 0)) (\<lambda>(r, name).
     case r of None \<Rightarrow> kret None
     | Some dp \<Rightarrow>
     kthen (ilock (Some dp))
    (kbind (dirlookup dv dp name) (\<lambda>hit.
     case hit of
       Some (ip, _) \<Rightarrow>
         kthen (iunlockput dp)
        (kthen (ilock (Some ip))
        (kbind (ifld ip (\<lambda>x. di_type (i_di x))) (\<lambda>ity.
         if ty = T_FILE \<and> ity = T_FILE then
           kbind (kget lt_userCnt) (\<lambda>cnt.
           kbind (if cnt > 0 then kbind (stati ip) (\<lambda>st. kbind (checkmod st) (\<lambda>m. kret (m AND W_OK \<noteq> 0))) else kret True) (\<lambda>allowed.
           if \<not> allowed then kthen (iunlock (Some ip)) (kret None)
           else kret (Some ip)))
         else
           kthen (iunlockput ip)
          (kret None))))
     | None \<Rightarrow>
         kbind (stati dp) (\<lambda>st.
         kbind (checkmod st) (\<lambda>m.
         if m AND W_OK = 0 then kthen (iunlock (Some dp)) (kret None)
         else create_new dv dp name ty major minor)))))"

definition O_RDONLY :: int where "O_RDONLY = 0"
definition O_WRONLY :: int where "O_WRONLY = 1"
definition O_RDWR :: int where "O_RDWR = 2"
definition O_CREATE :: int where "O_CREATE = 0x200"

definition open_inode :: "'z file_st_scheme devsw \<Rightarrow> byte list \<Rightarrow> int \<Rightarrow> ('z file_st_scheme, nat option) kernel" where
  "open_inode dv path omode =
     (if omode AND O_CREATE \<noteq> 0 then create dv path T_FILE 0 0
      else
        kbind (namei dv path) (\<lambda>r.
        case r of None \<Rightarrow> kret None
        | Some ip \<Rightarrow>
        kthen (ilock (Some ip))
       (kbind (ifld ip (\<lambda>x. di_type (i_di x))) (\<lambda>ty.
        if ty = T_DIR \<and> omode \<noteq> O_RDONLY then kthen (iunlockput ip) (kret None)
        else kret (Some ip)))))"

text \<open>Whether the mode bits refuse an open mode.\<close>

definition open_denied :: "int \<Rightarrow> nat \<Rightarrow> bool" where
  "open_denied omode check \<longleftrightarrow>
     (omode = O_RDONLY \<or> omode AND O_RDWR \<noteq> 0) \<and> check AND R_OK = 0
     \<or> (omode AND O_WRONLY \<noteq> 0 \<or> omode AND O_RDWR \<noteq> 0) \<and> check AND W_OK = 0"

definition openf :: "'z file_st_scheme devsw \<Rightarrow> byte list \<Rightarrow> int \<Rightarrow> ('z file_st_scheme, int) kernel" where
  "openf dv path omode =
     kthen begin_op
    (kbind (open_inode dv path omode) (\<lambda>r.
     case r of None \<Rightarrow> kthen end_op (kret (-1))
     | Some ip \<Rightarrow>
     kbind (stati ip) (\<lambda>st.
     kbind (checkmod st) (\<lambda>check.
     if open_denied omode check then
       kthen (iunlock (Some ip))
      (kthen end_op
      (kret (-1)))
     else
       kbind filealloc (\<lambda>fr.
       kbind (case fr of None \<Rightarrow> kret (-1) | Some f \<Rightarrow> fdalloc f) (\<lambda>fd.
       if fd < 0 then
         kthen (case fr of None \<Rightarrow> kret () | Some f \<Rightarrow> fileclose f)
        (kthen (iunlockput ip)
        (kthen end_op
        (kret (-1))))
       else
         kthen (iunlock (Some ip))
        (kthen end_op
        (kthen (deref fr (\<lambda>f. fset f (\<lambda>x. x\<lparr>f_type := FD_INODE, f_ip := Some ip, f_off := 0,
            f_readable := (omode AND O_WRONLY = 0), f_writable := (omode AND O_WRONLY \<noteq> 0 \<or> omode AND O_RDWR \<noteq> 0)\<rparr>)))
        (kret fd)))))))))"

definition sys_open :: "'z file_st_scheme devsw \<Rightarrow> ('z file_st_scheme, int) kernel" where
  "sys_open dv =
     kbind (argstr 0) (\<lambda>r.
     case r of None \<Rightarrow> kret (-1)
     | Some path \<Rightarrow>
     kbind (argint 1) (\<lambda>r.
     case r of None \<Rightarrow> kret (-1)
     | Some omode \<Rightarrow> openf dv path (sint omode)))"

definition mkdir :: "'z file_st_scheme devsw \<Rightarrow> byte list \<Rightarrow> ('z file_st_scheme, int) kernel" where
  "mkdir dv path =
     kthen begin_op
    (kbind (create dv path T_DIR 0 0) (\<lambda>r.
     case r of None \<Rightarrow> kthen end_op (kret (-1))
     | Some ip \<Rightarrow>
         kthen (iunlockput ip)
        (kthen end_op
        (kret 0))))"

definition sys_mkdir :: "'z file_st_scheme devsw \<Rightarrow> ('z file_st_scheme, int) kernel" where
  "sys_mkdir dv =
     kbind (argstr 0) (\<lambda>r.
     case r of None \<Rightarrow> kret (-1) | Some path \<Rightarrow> mkdir dv path)"

definition sys_mknod :: "'z file_st_scheme devsw \<Rightarrow> ('z file_st_scheme, int) kernel" where
  "sys_mknod dv =
     kthen begin_op
    (kbind (kbind (argstr 0) (\<lambda>r.
       case r of None \<Rightarrow> kret None
       | Some path \<Rightarrow>
       kbind (argint 1) (\<lambda>r.
       case r of None \<Rightarrow> kret None
       | Some major \<Rightarrow>
       kbind (argint 2) (\<lambda>r.
       case r of None \<Rightarrow> kret None
       | Some minor \<Rightarrow> create dv path T_DEV (short_of (sint major)) (short_of (sint minor)))))) (\<lambda>r.
     case r of None \<Rightarrow> kthen end_op (kret (-1))
     | Some ip \<Rightarrow>
         kthen (iunlockput ip)
        (kthen end_op
        (kret 0))))"

definition sys_chdir :: "'z file_st_scheme devsw \<Rightarrow> ('z file_st_scheme, int) kernel" where
  "sys_chdir dv =
     with_myproc (\<lambda>curproc.
     kthen begin_op
    (kbind (kbind (argstr 0) (\<lambda>r. case r of None \<Rightarrow> kret None | Some path \<Rightarrow> namei dv path)) (\<lambda>r.
     case r of None \<Rightarrow> kthen end_op (kret (-1))
     | Some ip \<Rightarrow>
     kthen (ilock (Some ip))
    (kbind (stati ip) (\<lambda>st.
     kbind (ifld ip (\<lambda>x. di_type (i_di x))) (\<lambda>ty.
     if ty \<noteq> T_DIR then
       kthen (iunlockput ip)
      (kthen end_op
      (kret (-1)))
     else kbind (checkmod st) (\<lambda>m.
     if m AND X_OK = 0 then
       kthen (iunlock (Some ip))
      (kthen end_op
      (kret (-1)))
     else
       kthen (iunlock (Some ip))
      (kbind (pfld curproc p_cwd) (\<lambda>cwd.
       kthen (deref cwd iput)
      (kthen end_op
      (kthen (pset curproc (p_cwd_update (\<lambda>_. Some ip)))
      (kret 0))))))))))))"

definition sys_pipe :: "('z file_st_scheme, int) kernel" where
  "sys_pipe =
     kbind (argptr 0 8) (\<lambda>r.
     case r of None \<Rightarrow> kret (-1)
     | Some fd \<Rightarrow>
     kbind pipealloc (\<lambda>r.
     case r of None \<Rightarrow> kret (-1)
     | Some (rf, wfl) \<Rightarrow>
     kbind (fdalloc rf) (\<lambda>fd0.
     kbind (if fd0 < 0 then kret (-1) else fdalloc wfl) (\<lambda>fd1.
     if fd0 < 0 \<or> fd1 < 0 then
       kthen (kwhen (fd0 \<ge> 0) (with_myproc (\<lambda>p. set_ofile p (nat fd0) None)))
      (kthen (fileclose rf)
      (kthen (fileclose wfl)
      (kret (-1))))
     else
       kthen (uput fd (le32 fd0))
      (kthen (uput (fd + 4) (le32 fd1))
      (kret 0))))))"

end
