(* ===== verification/Account.thy ===== *)
theory Account
  imports Sysfile
begin

text \<open>
  User accounts (\<^verbatim>\<open>sysfile.c\<close>): the table of names and passwords, its file \<^verbatim>\<open>/passwd\<close>, logging in and
  \<^verbatim>\<open>chmod\<close>. The table is the part \<open>acc_st\<close> of the state. Messages on the console are left out.
\<close>

section \<open>The table and its file\<close>

text \<open>Storing a byte in a row of the table; leaving the row is a fault.\<close>

definition row_put :: "nat \<Rightarrow> nat \<Rightarrow> byte \<Rightarrow> byte list list \<Rightarrow> byte list list option" where
  "row_put i off c rows = (if i < length rows \<and> off < length (rows ! i) then Some (rows[i := (rows ! i)[off := c]]) else None)"

text \<open>The loop of \<^verbatim>\<open>loadUsers\<close> over the bytes of its buffer, \<open>pw\<close> while it reads a password.\<close>

fun load_loop :: "byte list \<Rightarrow> nat \<Rightarrow> bool \<Rightarrow> nat \<Rightarrow> byte list list \<Rightarrow> byte list list \<Rightarrow> (nat \<times> byte list list \<times> byte list list) option" where
  "load_loop [] idx pw off ns ps = Some (idx, ns, ps)"
| "load_loop (c # cs) idx pw off ns ps =
     (if idx = MAX_USER \<or> c = 0 then Some (idx, ns, ps)
      else if \<not> pw then
        (if c \<noteq> 45 then
           (case row_put idx off c ns of None \<Rightarrow> None | Some ns \<Rightarrow> load_loop cs idx pw (off + 1) ns ps)
         else load_loop cs idx True 0 ns ps)
      else
        (if c \<noteq> 47 then
           (case row_put idx off c ps of None \<Rightarrow> None | Some ps \<Rightarrow> load_loop cs idx pw (off + 1) ns ps)
         else load_loop cs (idx + 1) False 0 ns ps))"

definition passwd_size :: nat where
  "passwd_size = (MAX_LEN * 2 + 2) * MAX_USER + 1"

abbreviation passwd_path :: "byte list" where
  "passwd_path \<equiv> str ''/passwd'' @ [0]"

text \<open>Both \<^verbatim>\<open>loadUsers\<close> and \<^verbatim>\<open>flushUsers\<close> end by closing the file.\<close>

definition close_passwd :: "('z file_st_scheme, unit) kernel" where
  "close_passwd =
     kbind (kget (\<lambda>s. (lt_fd s, lt_f s))) (\<lambda>(fd, f).
     kthen (with_myproc (\<lambda>p. set_ofile p (nat fd) None))
    (kthen (deref f fileclose)
    (kmod (\<lambda>s. s\<lparr>lt_fd := 0, lt_f := None\<rparr>))))"

definition loadUsers :: "'z file_st_scheme devsw \<Rightarrow> ('z file_st_scheme, unit) kernel" where
  "loadUsers dv =
     kbind (openf dv passwd_path (O_RDONLY OR O_CREATE)) (\<lambda>fd.
     kthen (kmod (\<lambda>s. s\<lparr>lt_fd := fd\<rparr>))
    (if fd < 0 then kpanic ''loadUsers 1''
     else kbind (getfilebyfd fd) (\<lambda>r.
     case r of None \<Rightarrow> kpanic ''loadUsers 2''
     | Some (_, f) \<Rightarrow>
     kthen (kmod (\<lambda>s. s\<lparr>lt_f := Some f\<rparr>))
    (kbind (fileread dv f (int passwd_size)) (\<lambda>(n, d).
     kthen
      (if n > 6 then
         kbind (kget (\<lambda>s. load_loop (overlay 0 d (replicate passwd_size 0)) 0 False 0 (lt_usernames s) (lt_passwords s))) (\<lambda>r.
         kbind (kopt r) (\<lambda>(idx, ns, ps).
         kmod (\<lambda>s. s\<lparr>lt_usernames := ns, lt_passwords := ps, lt_userCnt := int idx\<rparr>)))
       else kmod (\<lambda>s. s\<lparr>lt_userCnt := 0\<rparr>))
    (if n < 0 then kpanic ''loadUsers 3'' else close_passwd))))))"

text \<open>The line of a user in the buffer of \<^verbatim>\<open>flushUsers\<close>.\<close>

definition put_at :: "nat \<Rightarrow> byte \<Rightarrow> byte list \<Rightarrow> byte list option" where
  "put_at i c d = (if i < length d then Some (d[i := c]) else None)"

definition copy_at :: "nat \<Rightarrow> byte list \<Rightarrow> byte list \<Rightarrow> byte list option" where
  "copy_at i src d =
     (case strlen src of None \<Rightarrow> None
      | Some n \<Rightarrow> map_option (\<lambda>e. take i d @ e) (strncpy (drop i d) src n))"

definition flush_line :: "byte list \<Rightarrow> byte list \<Rightarrow> byte list \<Rightarrow> byte list option" where
  "flush_line name pw buf =
     Option.bind (strlen name) (\<lambda>n.
     Option.bind (strlen pw) (\<lambda>k.
     Option.bind (copy_at 0 name buf) (\<lambda>b.
     Option.bind (put_at n 45 b) (\<lambda>b.
     Option.bind (copy_at (n + 1) pw b) (\<lambda>b.
     Option.bind (put_at (n + 1 + k) 47 b) (\<lambda>b.
     put_at (n + 1 + k + 1) 0 b))))))"

primrec flush_loop :: "'z file_st_scheme devsw \<Rightarrow> nat \<Rightarrow> nat list \<Rightarrow> byte list \<Rightarrow> ('z file_st_scheme, unit) kernel" where
  "flush_loop dv f [] buf = kret ()"
| "flush_loop dv f (i # is) buf =
     kbind (kget (\<lambda>s. flush_line (lt_usernames s ! i) (lt_passwords s ! i) buf)) (\<lambda>r.
     kbind (kopt r) (\<lambda>buf.
     kbind (kopt (strlen buf)) (\<lambda>n.
     kthen (filewrite dv f buf (int n))
    (flush_loop dv f is buf))))"

definition flushUsers :: "'z file_st_scheme devsw \<Rightarrow> ('z file_st_scheme, int) kernel" where
  "flushUsers dv =
     kbind (openf dv passwd_path O_WRONLY) (\<lambda>fd.
     kthen (kmod (\<lambda>s. s\<lparr>lt_fd := fd\<rparr>))
    (if fd < 0 then kret (-1)
     else kbind (getfilebyfd fd) (\<lambda>r.
     case r of None \<Rightarrow> kret (-1)
     | Some (_, f) \<Rightarrow>
     kthen (kmod (\<lambda>s. s\<lparr>lt_f := Some f\<rparr>))
    (kthen begin_op
    (kbind (ffld f f_ip) (\<lambda>ip.
     kthen (ilock ip)
    (kbind (deref ip cleari) (\<lambda>c.
     if c < 0 then kret (-1)
     else
       kthen (iunlock ip)
      (kthen end_op
      (kthen (fset f (f_off_update (\<lambda>_. 0)))
      (kbind (kget lt_userCnt) (\<lambda>cnt.
       kthen (flush_loop dv f [0..<nat cnt] (replicate (MAX_LEN * 2 + 2 + 1) 0))
      (kthen close_passwd
      (kret 0))))))))))))))"

section \<open>Adding and deleting users\<close>

text \<open>The first user of that name: the loops of \<^verbatim>\<open>deleteUser\<close> and \<^verbatim>\<open>sys_login\<close>.\<close>

definition find_user :: "byte list \<Rightarrow> ('z file_st_scheme, nat option) kernel" where
  "find_user username =
     kbind (kget lt_userCnt) (\<lambda>cnt.
     kfind [0..<nat cnt] (\<lambda>i.
       kbind (kget (\<lambda>s. lt_usernames s ! i)) (\<lambda>u.
       kbind (kopt (strlen u)) (\<lambda>n.
       kbind (kopt (strlen username)) (\<lambda>k.
       if n \<noteq> k then kret None
       else kbind (kopt (equals u username)) (\<lambda>e.
         kret (if e then Some i else None)))))))"

definition copy_row :: "byte list \<Rightarrow> byte list \<Rightarrow> byte list option" where
  "copy_row src dst =
     Option.bind (strlen src) (\<lambda>n.
     Option.bind (strncpy dst src n) (\<lambda>d.
     put_at n 0 d))"

definition shift_row :: "nat \<Rightarrow> ('z file_st_scheme, unit) kernel" where
  "shift_row i =
     kbind (kget (\<lambda>s. copy_row (lt_usernames s ! i) (lt_usernames s ! (i - 1)))) (\<lambda>r.
     kbind (kopt r) (\<lambda>u.
     kthen (kmod (\<lambda>s. s\<lparr>lt_usernames := (lt_usernames s)[i - 1 := u]\<rparr>))
    (kbind (kget (\<lambda>s. copy_row (lt_passwords s ! i) (lt_passwords s ! (i - 1)))) (\<lambda>r.
     kbind (kopt r) (\<lambda>w.
     kmod (\<lambda>s. s\<lparr>lt_passwords := (lt_passwords s)[i - 1 := w]\<rparr>))))))"

text \<open>The table after the entry \<open>found\<close> is taken out.\<close>

definition remove_user :: "nat \<Rightarrow> ('z file_st_scheme, unit) kernel" where
  "remove_user found =
     kbind (kget lt_userCnt) (\<lambda>cnt.
     kthen (kfor [found + 1..<nat cnt] shift_row)
    (kmod (\<lambda>s. s\<lparr>lt_userCnt := cnt - 1,
        lt_usernames := (lt_usernames s)[nat (cnt - 1) := replicate (MAX_LEN + 1) 0],
        lt_passwords := (lt_passwords s)[nat (cnt - 1) := replicate (MAX_LEN + 1) 0]\<rparr>)))"

definition deleteUser :: "'z file_st_scheme devsw \<Rightarrow> byte list \<Rightarrow> ('z file_st_scheme, int) kernel" where
  "deleteUser dv username =
     kbind (find_user username) (\<lambda>r.
     case r of None \<Rightarrow> kret (-1)
     | Some found \<Rightarrow>
         if found = 0 then kret (-1)
         else
           kthen (remove_user found)
          (kbind (flushUsers dv) (\<lambda>r.
           kret (if r < 0 then -1 else 0))))"

text \<open>Entering a user into the table: the part of \<^verbatim>\<open>addUser\<close> before the table is written to the disk.\<close>

definition enter_user :: "byte list \<Rightarrow> byte list \<Rightarrow> ('z file_st_scheme, bool) kernel" where
  "enter_user username password =
     kbind (kget lt_userCnt) (\<lambda>cnt.
     if cnt = int MAX_USER then kret False
     else
       kbind (kopt (strlen username)) (\<lambda>unlen.
       kbind (kopt (strlen password)) (\<lambda>pwlen.
       if unlen < 2 \<or> unlen > MAX_LEN \<or> pwlen < 2 \<or> pwlen > MAX_LEN then kret False
       else
         kbind (kfind [0..<nat cnt] (\<lambda>i.
           kbind (kget (\<lambda>s. equals (lt_usernames s ! i) username)) (\<lambda>r.
           kbind (kopt r) (\<lambda>e. kret (if e then Some () else None))))) (\<lambda>dup.
         if dup \<noteq> None then kret False
         else
           kbind (kget (\<lambda>s. strncpy (lt_usernames s ! nat cnt) username unlen)) (\<lambda>r.
           kbind (kopt r) (\<lambda>u.
           kbind (kget (\<lambda>s. strncpy (lt_passwords s ! nat cnt) password pwlen)) (\<lambda>r.
           kbind (kopt r) (\<lambda>w.
           kthen (kmod (\<lambda>s. s\<lparr>lt_usernames := (lt_usernames s)[nat cnt := u],
               lt_passwords := (lt_passwords s)[nat cnt := w], lt_userCnt := cnt + 1\<rparr>))
          (kret True)))))))))"

definition addUser :: "'z file_st_scheme devsw \<Rightarrow> byte list \<Rightarrow> byte list \<Rightarrow> ('z file_st_scheme, int) kernel" where
  "addUser dv username password =
     kbind (enter_user username password) (\<lambda>ok.
     if \<not> ok then kret (-1)
     else
       kbind (flushUsers dv) (\<lambda>r.
       if r < 0 then kret (-1)
       else
         kbind (kget lt_userCnt) (\<lambda>cnt.
         kthen (kwhen (cnt > 1) (kthen (mkdir dv username) (kret ())))
        (kbind (namei dv username) (\<lambda>r.
         case r of None \<Rightarrow> kret (-1)
         | Some ip \<Rightarrow>
         kthen begin_op
        (kthen (ilock (Some ip))
        (kbind (ifld ip (\<lambda>x. copy_row username (di_owner (i_di x)))) (\<lambda>r.
         kbind (kopt r) (\<lambda>ow.
         kthen (diset ip (di_owner_update (\<lambda>_. ow)))
        (kthen (iupdate ip)
        (kthen (iunlock (Some ip))
        (kthen end_op
        (kret 0)))))))))))))"

section \<open>System calls\<close>

definition sys_lbegin :: "'z file_st_scheme devsw \<Rightarrow> ('z file_st_scheme, int) kernel" where
  "sys_lbegin dv =
     kthen (loadUsers dv)
    (kbind (kget lt_userCnt) (\<lambda>cnt.
     kthen (kwhen (cnt = 0) (kthen (addUser dv (str ''root'' @ [0]) (str ''0000'' @ [0])) (kret ())))
    (kthen (kmod (\<lambda>s. s\<lparr>lt_userIdx := -1\<rparr>))
    (kret 0))))"

definition sys_addUser :: "'z file_st_scheme devsw \<Rightarrow> ('z file_st_scheme, int) kernel" where
  "sys_addUser dv =
     kbind (argstr 0) (\<lambda>r.
     case r of None \<Rightarrow> kret (-1)
     | Some username \<Rightarrow>
     kbind (argstr 1) (\<lambda>r.
     case r of None \<Rightarrow> kret (-1)
     | Some password \<Rightarrow>
     kbind (kget lt_userIdx) (\<lambda>i.
     if i > 0 then kret (-1) else addUser dv username password)))"

definition sys_deleteUser :: "'z file_st_scheme devsw \<Rightarrow> ('z file_st_scheme, int) kernel" where
  "sys_deleteUser dv =
     kbind (argstr 0) (\<lambda>r.
     case r of None \<Rightarrow> kret (-1)
     | Some username \<Rightarrow>
     kbind (kget lt_userIdx) (\<lambda>i.
     if i > 0 then kret (-1) else deleteUser dv username))"

text \<open>\<^verbatim>\<open>sys_login\<close> after its arguments are fetched.\<close>

definition login :: "byte list \<Rightarrow> byte list \<Rightarrow> ('z file_st_scheme, int) kernel" where
  "login username password =
     kbind (find_user username) (\<lambda>r.
     case r of None \<Rightarrow> kret (-1)
     | Some found \<Rightarrow>
         kbind (kget (\<lambda>s. equals (lt_passwords s ! found) password)) (\<lambda>r.
         kbind (kopt r) (\<lambda>e.
         if e then
           kthen (kmod (\<lambda>s. s\<lparr>lt_userIdx := int found\<rparr>))
          (kret 0)
         else kret (-1))))"

definition sys_login :: "('z file_st_scheme, int) kernel" where
  "sys_login =
     kbind (argstr 0) (\<lambda>r.
     case r of None \<Rightarrow> kret (-1)
     | Some username \<Rightarrow>
     kbind (argstr 1) (\<lambda>r.
     case r of None \<Rightarrow> kret (-1)
     | Some password \<Rightarrow> login username password))"

text \<open>\<^verbatim>\<open>sys_chmod\<close> from the point where the inode is locked.\<close>

definition chmod_inode :: "nat \<Rightarrow> u32 \<Rightarrow> ('z file_st_scheme, int) kernel" where
  "chmod_inode ip mode =
     kbind (stati ip) (\<lambda>st.
     kbind (whoami (replicate (MAX_LEN + 1) 0)) (\<lambda>curUser.
     if st_type st = T_DEV then
       kthen (iunlock (Some ip))
      (kthen end_op
      (kret (-1)))
     else
       kbind (kopt (equals (str ''root'' @ [0]) curUser)) (\<lambda>r.
       kbind (if r then kret True else kopt (equals (st_owner st) curUser)) (\<lambda>allowed.
       if \<not> allowed then
         kthen (iunlock (Some ip))
        (kthen end_op
        (kret (-1)))
       else
         kthen (diset ip (di_perm_update (\<lambda>_. unat mode)))
        (kthen (iupdate ip)
        (kthen (iunlock (Some ip))
        (kthen end_op
        (kret 0))))))))"

definition sys_chmod :: "'z file_st_scheme devsw \<Rightarrow> ('z file_st_scheme, int) kernel" where
  "sys_chmod dv =
     kthen begin_op
    (kbind (kbind (argstr 0) (\<lambda>r.
       case r of None \<Rightarrow> kret None
       | Some path \<Rightarrow>
       kbind (argint 1) (\<lambda>r.
       case r of None \<Rightarrow> kret None
       | Some mode \<Rightarrow>
       kbind (namei dv path) (\<lambda>r.
       case r of None \<Rightarrow> kret None | Some ip \<Rightarrow> kret (Some (ip, mode)))))) (\<lambda>r.
     case r of None \<Rightarrow> kthen end_op (kret (-1))
     | Some (ip, mode) \<Rightarrow>
         kthen (ilock (Some ip))
        (chmod_inode ip mode)))"

end
