(* ===== verification/Exec.thy ===== *)
theory Exec
  imports Threads Account
begin

text \<open>
  Program loading: \<^verbatim>\<open>exec.c\<close>, \<^verbatim>\<open>loaduvm\<close> of \<^verbatim>\<open>vm.c\<close>, the structures of \<^verbatim>\<open>elf.h\<close> and \<^verbatim>\<open>sys_exec\<close>. The argument vector is a list
  of strings, each with its terminating zero.
\<close>

section \<open>Executables\<close>

definition ELF_MAGIC :: nat where "ELF_MAGIC = 0x464C457F"
definition ELF_PROG_LOAD :: nat where "ELF_PROG_LOAD = 1"
definition MAXARG :: nat where "MAXARG = 32"

record elfhdr =
  eh_magic :: nat
  eh_entry :: u32
  eh_phoff :: nat
  eh_phnum :: nat

record proghdr =
  ph_type :: nat
  ph_off :: nat
  ph_vaddr :: u32
  ph_filesz :: u32
  ph_memsz :: u32

text \<open>The fields that are used, at their offsets.\<close>

definition elfhdr_of :: "byte list \<Rightarrow> elfhdr" where
  "elfhdr_of d = \<lparr>eh_magic = get32 d 0, eh_entry = of_nat (get32 d 24), eh_phoff = get32 d 28, eh_phnum = get16 d 44\<rparr>"

definition proghdr_of :: "byte list \<Rightarrow> proghdr" where
  "proghdr_of d = \<lparr>ph_type = get32 d 0, ph_off = get32 d 4, ph_vaddr = of_nat (get32 d 8),
     ph_filesz = of_nat (get32 d 16), ph_memsz = of_nat (get32 d 20)\<rparr>"

primrec loaduvm_loop :: "nat \<Rightarrow> 'z fs_st_scheme devsw \<Rightarrow> u32 \<Rightarrow> u32 \<Rightarrow> nat \<Rightarrow> nat \<Rightarrow> u32 \<Rightarrow> u32 \<Rightarrow> ('z fs_st_scheme, int) kernel" where
  "loaduvm_loop 0 dv pgdir addr ip off i sz = kstuck"
| "loaduvm_loop (Suc k) dv pgdir addr ip off i sz =
     (if i < sz then
        kbind (walkpgdir pgdir (addr + i) False) (\<lambda>pte.
        if pte = 0 then kpanic ''loaduvm: address should exist''
        else
          kbind (load_entry pte) (\<lambda>e.
          (let n = (if sz - i < PGSIZE then sz - i else PGSIZE) in
           kbind (readi dv ip (uint_of (int off + uint i)) (unat n)) (\<lambda>(r, d).
           kthen (put_bytes (P2V (PTE_ADDR e)) d)
          (if r \<noteq> uint n then kret (-1)
           else loaduvm_loop k dv pgdir addr ip off (i + PGSIZE) sz)))))
      else kret 0)"

definition loaduvm :: "'z fs_st_scheme devsw \<Rightarrow> u32 \<Rightarrow> u32 \<Rightarrow> nat \<Rightarrow> nat \<Rightarrow> u32 \<Rightarrow> ('z fs_st_scheme, int) kernel" where
  "loaduvm dv pgdir addr ip off sz =
     (if addr mod PGSIZE \<noteq> 0 then kpanic ''loaduvm: addr must be page aligned''
      else loaduvm_loop va_fuel dv pgdir addr ip off 0 sz)"

text \<open>The loop over the program headers: the size of the image, or \<open>None\<close> where it goes to \<^verbatim>\<open>bad\<close>.\<close>

primrec exec_segs :: "nat \<Rightarrow> 'z thr_st_scheme devsw \<Rightarrow> nat \<Rightarrow> u32 \<Rightarrow> int \<Rightarrow> u32 \<Rightarrow> ('z thr_st_scheme, u32 option) kernel" where
  "exec_segs 0 dv ip pgdir off sz = kret (Some sz)"
| "exec_segs (Suc n) dv ip pgdir off sz =
     kbind (readi dv ip (uint_of off) 32) (\<lambda>(r, d).
     if r \<noteq> 32 then kret None
     else
       (let ph = proghdr_of d in
        if ph_type ph \<noteq> ELF_PROG_LOAD then exec_segs n dv ip pgdir (off + 32) sz
        else if ph_memsz ph < ph_filesz ph then kret None
        else if ph_vaddr ph + ph_memsz ph < ph_vaddr ph then kret None
        else
          kbind (allocuvm pgdir sz (ph_vaddr ph + ph_memsz ph)) (\<lambda>sz.
          if sz = 0 then kret None
          else if ph_vaddr ph mod PGSIZE \<noteq> 0 then kret None
          else
            kbind (loaduvm dv pgdir (ph_vaddr ph) ip (ph_off ph) (ph_filesz ph)) (\<lambda>r.
            if r < 0 then kret None
            else exec_segs n dv ip pgdir (off + 32) sz))))"

text \<open>Pushing the argument strings: the stack pointer and the addresses of the strings.\<close>

primrec exec_args :: "byte list list \<Rightarrow> nat \<Rightarrow> u32 \<Rightarrow> u32 \<Rightarrow> ('z thr_st_scheme, (u32 \<times> u32 list) option) kernel" where
  "exec_args [] argc pgdir sp = kret (Some (sp, []))"
| "exec_args (a # as) argc pgdir sp =
     (if argc \<ge> MAXARG then kret None
      else
        kbind (kopt (strlen a)) (\<lambda>n.
        (let sp = (sp - (of_nat n + 1)) AND NOT 3 in
         kbind (copyout pgdir sp (take (n + 1) a)) (\<lambda>r.
         if r < 0 then kret None
         else
           kbind (exec_args as (argc + 1) pgdir sp) (\<lambda>r.
           case r of None \<Rightarrow> kret None | Some (sp', us) \<Rightarrow> kret (Some (sp', sp # us)))))))"

text \<open>The program name: the part of the path after its last slash.\<close>

definition last_elem :: "byte list \<Rightarrow> byte list" where
  "last_elem path = rev (takeWhile (\<lambda>c. c \<noteq> 47) (rev (cstr path))) @ [0]"

definition exec_bad :: "u32 \<Rightarrow> nat option \<Rightarrow> ('z thr_st_scheme, int) kernel" where
  "exec_bad pgdir ip =
     kthen (kwhen (pgdir \<noteq> 0) (freevm pgdir))
    (kthen (case ip of None \<Rightarrow> kret () | Some ip \<Rightarrow> kthen (iunlockput ip) end_op)
    (kret (-1)))"

text \<open>\<^verbatim>\<open>exec\<close> from the point where the image is loaded and the inode given back.\<close>

definition exec_commit :: "nat \<Rightarrow> byte list \<Rightarrow> byte list list \<Rightarrow> u32 \<Rightarrow> u32 \<Rightarrow> u32 \<Rightarrow> ('z thr_st_scheme, int) kernel" where
  "exec_commit curproc path argv pgdir entry sz =
     kbind (allocuvm pgdir (PGROUNDUP sz) (PGROUNDUP sz + 2 * PGSIZE)) (\<lambda>sz.
     if sz = 0 then exec_bad pgdir None
     else
       kthen (clearpteu pgdir (sz - 2 * PGSIZE))
      (kbind (exec_args argv 0 pgdir sz) (\<lambda>r.
       case r of None \<Rightarrow> exec_bad pgdir None
       | Some (sp, us) \<Rightarrow>
       (let argc = of_nat (length us);
            ustack = [0xffffffff, argc, sp - (argc + 1) * 4] @ us @ [0];
            sp = sp - (3 + argc + 1) * 4 in
        kbind (copyout pgdir sp (concat (map (\<lambda>w. le32 (uint w)) ustack))) (\<lambda>r.
        if r < 0 then exec_bad pgdir None
        else
          kbind (pfld curproc (\<lambda>x. safestrcpy (p_name x) (last_elem path) 16)) (\<lambda>nm.
          kbind (kopt nm) (\<lambda>nm.
          kthen (pset curproc (p_name_update (\<lambda>_. nm)))
         (kbind (pfld curproc p_pgdir) (\<lambda>oldpgdir.
          kthen (pset curproc (\<lambda>x. x\<lparr>p_pgdir := pgdir, p_sz := sz\<rparr>))
         (kthen (tf_set curproc tf_eip entry)
         (kthen (tf_set curproc tf_esp sp)
         (kthen (switchuvm (Some curproc))
         (kthen (freevm oldpgdir)
         (kret 0))))))))))))))"

definition exec :: "'z thr_st_scheme devsw \<Rightarrow> byte list \<Rightarrow> byte list list \<Rightarrow> ('z thr_st_scheme, int) kernel" where
  "exec dv path argv =
     with_myproc (\<lambda>curproc.
     kbind (pfld curproc (\<lambda>x. (p_tid x, p_main x))) (\<lambda>(t, mn).
     kthen (kwhen (t \<noteq> 0)
      (kthen (pset curproc (p_tid_update (\<lambda>_. 0)))
      (deref mn (\<lambda>m.
       kbind (pfld m p_parent) (\<lambda>pp.
       pset curproc (\<lambda>x. x\<lparr>p_parent := pp, p_main := None\<rparr>))))))
    (kbind (pfld curproc p_pid) (\<lambda>pid.
     kthen (kill_threads_except pid curproc)
    (kthen begin_op
    (kbind (namei dv path) (\<lambda>r.
     case r of None \<Rightarrow> kthen end_op (kret (-1))
     | Some ip \<Rightarrow>
     kthen (ilock (Some ip))
    (kbind (if pid > 2 then kbind (stati ip) (\<lambda>st. kbind (checkmod st) (\<lambda>m. kret (m AND X_OK \<noteq> 0))) else kret True) (\<lambda>allowed.
     if \<not> allowed then exec_bad 0 (Some ip)
     else
       kbind (readi dv ip 0 52) (\<lambda>(r, d).
       if r \<noteq> 52 then exec_bad 0 (Some ip)
       else if eh_magic (elfhdr_of d) \<noteq> ELF_MAGIC then exec_bad 0 (Some ip)
       else
         kbind setupkvm (\<lambda>pgdir.
         if pgdir = 0 then exec_bad 0 (Some ip)
         else
           kbind (exec_segs (eh_phnum (elfhdr_of d)) dv ip pgdir (int (eh_phoff (elfhdr_of d))) 0) (\<lambda>r.
           case r of None \<Rightarrow> exec_bad pgdir (Some ip)
           | Some sz \<Rightarrow>
               kthen (iunlockput ip)
              (kthen end_op
              (exec_commit curproc path argv pgdir (eh_entry (elfhdr_of d)) sz))))))))))))))"

section \<open>The system call\<close>

text \<open>Fetching the argument vector: at most \<open>MAXARG\<close> pointers, the last one null.\<close>

primrec fetch_argv :: "nat \<Rightarrow> u32 \<Rightarrow> ('z thr_st_scheme, byte list list option) kernel" where
  "fetch_argv 0 uargv = kret None"
| "fetch_argv (Suc n) uargv =
     kbind (fetchint uargv) (\<lambda>r.
     case r of None \<Rightarrow> kret None
     | Some uarg \<Rightarrow>
         if uarg = 0 then kret (Some [])
         else
           kbind (fetchstr uarg) (\<lambda>r.
           case r of None \<Rightarrow> kret None
           | Some a \<Rightarrow>
               kbind (fetch_argv n (uargv + 4)) (\<lambda>r.
               case r of None \<Rightarrow> kret None | Some as \<Rightarrow> kret (Some (a # as)))))"

definition sys_exec :: "'z thr_st_scheme devsw \<Rightarrow> ('z thr_st_scheme, int) kernel" where
  "sys_exec dv =
     kbind (argstr 0) (\<lambda>r.
     case r of None \<Rightarrow> kret (-1)
     | Some path \<Rightarrow>
     kbind (argint 1) (\<lambda>r.
     case r of None \<Rightarrow> kret (-1)
     | Some uargv \<Rightarrow>
     kbind (fetch_argv MAXARG uargv) (\<lambda>r.
     case r of None \<Rightarrow> kret (-1)
     | Some argv \<Rightarrow> exec dv path argv)))"

end
