(* ===== verification/Ring.thy ===== *)
theory Ring
  imports Prelude
begin

text \<open>
  Ring buffers with free-running 32-bit counters, as \<^verbatim>\<open>pipe.c\<close> and \<^verbatim>\<open>console.c\<close> use them: the counters wrap
  around and an entry lies at its counter modulo the length of the array, which divides \<open>2 ^ 32\<close>.
  \<open>ring_seq\<close> is the sequence of entries between two counters. The locale \<open>fifo\<close> is what such a buffer
  promises to the code that fills and empties it.
\<close>

section \<open>Entries between two counters\<close>

definition ring_seq :: "'a list \<Rightarrow> u32 \<Rightarrow> u32 \<Rightarrow> 'a list" where
  "ring_seq d r w = map (\<lambda>i. d ! ((unat r + i) mod length d)) [0..<unat (w - r)]"

definition ring_ok :: "nat \<Rightarrow> 'a list \<Rightarrow> u32 \<Rightarrow> u32 \<Rightarrow> bool" where
  "ring_ok n d r w \<longleftrightarrow> length d = n \<and> 0 < n \<and> n < 2 ^ 32 \<and> n dvd 2 ^ 32 \<and> unat (w - r) \<le> n"

lemma length_ring_seq [simp]: "length (ring_seq d r w) = unat (w - r)"
  by (simp add: ring_seq_def)

lemma ring_empty: "ring_seq d r w = [] \<longleftrightarrow> r = w"
  by (auto simp: ring_seq_def unat_eq_0)

lemma unat_diff_Suc:
  fixes a b :: u32
  assumes "unat (a - b) < n" and "n < 2 ^ 32"
  shows "unat (a + 1 - b) = unat (a - b) + 1"
proof -
  have "unat (x + 1) = unat x + 1" if "unat x < n" for x :: u32
    using that assms(2) by (simp add: unat_word_ariths)
  from this [OF assms(1)] show ?thesis by (simp add: algebra_simps)
qed

lemma unat_diff_pred:
  fixes a b :: u32
  assumes "a \<noteq> b"
  shows "unat (a - b) = unat (a - (b + 1)) + 1" "unat (a - b) = unat (a - 1 - b) + 1"
proof -
  have p: "0 < unat (a - b)" using assms by (simp add: unat_gt_0)
  have "unat (a - b - 1) = unat (a - b) - 1"
    using p by (simp add: unat_sub word_le_nat_alt)
  then show "unat (a - b) = unat (a - (b + 1)) + 1" "unat (a - b) = unat (a - 1 - b) + 1"
    using p by (simp_all add: diff_diff_eq add.commute)
qed

text \<open>The place of an entry is the same whether its counter has wrapped around or not.\<close>

lemma ring_index:
  fixes r k :: u32
  assumes "n dvd 2 ^ 32"
  shows "unat (r + k) mod n = (unat r + unat k) mod n"
proof -
  have "unat (r + k) = (unat r + unat k) mod 2 ^ 32" by (simp add: unat_word_ariths)
  then show ?thesis using mod_mod_cancel [OF assms] by simp
qed

lemma mod_add_inj: "0 < n \<Longrightarrow> i < k \<Longrightarrow> k < n \<Longrightarrow> (r + i) mod n \<noteq> (r + k) mod (n :: nat)"
proof
  assume n: "0 < n" "i < k" "k < n" and e: "(r + i) mod n = (r + k) mod n"
  then have "n dvd (r + k) - (r + i)" by (metis mod_eq_dvd_iff_nat add_le_cancel_left less_imp_le)
  then show False using n by (auto dest: dvd_imp_le)
qed

lemma ring_put:
  assumes "ring_ok n d r w" and "unat (w - r) < n"
  shows "ring_seq (d[unat w mod n := c]) r (w + 1) = ring_seq d r w @ [c]" "ring_ok n (d[unat w mod n := c]) r (w + 1)"
proof -
  have n: "length d = n" "0 < n" "n < 2 ^ 32" "n dvd 2 ^ 32" using assms(1) by (simp_all add: ring_ok_def)
  let ?k = "unat (w - r)"
  have k: "unat (w + 1 - r) = ?k + 1" by (rule unat_diff_Suc [OF assms(2) n(3)])
  have wi: "unat w mod n = (unat r + ?k) mod n" using ring_index [OF n(4), of r "w - r"] by simp
  have "d[unat w mod n := c] ! ((unat r + i) mod n) = d ! ((unat r + i) mod n)" if "i < ?k" for i
    using mod_add_inj [OF n(2) that assms(2), of "unat r"] wi by simp
  then show "ring_seq (d[unat w mod n := c]) r (w + 1) = ring_seq d r w @ [c]"
    using k wi n(1,2) by (simp add: ring_seq_def)
  show "ring_ok n (d[unat w mod n := c]) r (w + 1)" using assms k n by (simp add: ring_ok_def)
qed

lemma ring_get:
  assumes "ring_ok n d r w" and "r \<noteq> w"
  shows "ring_seq d r w = d ! (unat r mod n) # ring_seq d (r + 1) w" "ring_ok n d (r + 1) w"
proof -
  have n: "length d = n" "n dvd 2 ^ 32" using assms(1) by (simp_all add: ring_ok_def)
  have k: "unat (w - r) = unat (w - (r + 1)) + 1" by (rule unat_diff_pred(1)) (use assms(2) in simp)
  have i: "(unat (r + 1) + i) mod n = (unat r + Suc i) mod n" for i
  proof -
    have "(unat (r + 1) + i) mod n = (unat (r + 1) mod n + i) mod n" by (simp only: mod_add_left_eq)
    also have "\<dots> = ((unat r + 1) mod n + i) mod n" using ring_index [OF n(2), of r 1] by simp
    also have "\<dots> = (unat r + 1 + i) mod n" by (simp only: mod_add_left_eq)
    finally show ?thesis by simp
  qed
  show "ring_seq d r w = d ! (unat r mod n) # ring_seq d (r + 1) w"
    unfolding ring_seq_def k using i n(1) by (simp add: map_upt_Suc del: upt_Suc)
  show "ring_ok n d (r + 1) w" using assms(1) k by (simp add: ring_ok_def)
qed

lemma ring_unput:
  assumes "ring_ok n d r w" and "r \<noteq> w"
  shows "ring_seq d r (w - 1) = butlast (ring_seq d r w)" "ring_ok n d r (w - 1)"
    "last (ring_seq d r w) = d ! (unat (w - 1) mod n)"
proof -
  have n: "length d = n" "n dvd 2 ^ 32" using assms(1) by (simp_all add: ring_ok_def)
  have k: "unat (w - r) = unat (w - 1 - r) + 1" by (rule unat_diff_pred(2)) (use assms(2) in simp)
  have e: "ring_seq d r w = ring_seq d r (w - 1) @ [d ! ((unat r + unat (w - 1 - r)) mod n)]"
    using k n(1) by (simp add: ring_seq_def)
  show "ring_seq d r (w - 1) = butlast (ring_seq d r w)" using e by simp
  show "ring_ok n d r (w - 1)" using assms(1) k by (simp add: ring_ok_def)
  show "last (ring_seq d r w) = d ! (unat (w - 1) mod n)"
    using e ring_index [OF n(2), of r "w - 1 - r"] by simp
qed

section \<open>The interface\<close>

locale fifo =
  fixes inv :: "'q \<Rightarrow> bool" and items :: "'q \<Rightarrow> 'a list" and cap :: nat
    and full :: "'q \<Rightarrow> bool" and empty :: "'q \<Rightarrow> bool"
    and put :: "'a \<Rightarrow> 'q \<Rightarrow> 'q" and get :: "'q \<Rightarrow> 'a" and skip :: "'q \<Rightarrow> 'q"
  assumes full_law: "inv q \<Longrightarrow> full q \<longleftrightarrow> length (items q) = cap"
    and empty_law: "inv q \<Longrightarrow> empty q \<longleftrightarrow> items q = []"
    and bound_law: "inv q \<Longrightarrow> length (items q) \<le> cap"
    and put_law: "inv q \<Longrightarrow> \<not> full q \<Longrightarrow> inv (put c q) \<and> items (put c q) = items q @ [c]"
    and get_law: "inv q \<Longrightarrow> \<not> empty q \<Longrightarrow> inv (skip q) \<and> items q = get q # items (skip q)"
begin

text \<open>Filling it with a list, as long as it fits, and emptying it from the front.\<close>

lemma put_all:
  assumes "inv q" and "length (items q) + length cs \<le> cap"
  shows "inv (fold put cs q) \<and> items (fold put cs q) = items q @ cs
    \<and> (\<forall>k < length cs. \<not> full (fold put (take k cs) q))"
  using assms
proof (induction cs arbitrary: q)
  case (Cons c cs)
  have nf: "\<not> full q" using full_law [OF Cons.prems(1)] Cons.prems(2) by simp
  then have p: "inv (put c q)" "items (put c q) = items q @ [c]" using put_law [OF Cons.prems(1)] by simp_all
  have "inv (fold put cs (put c q)) \<and> items (fold put cs (put c q)) = items (put c q) @ cs
      \<and> (\<forall>k < length cs. \<not> full (fold put (take k cs) (put c q)))"
    by (rule Cons.IH [OF p(1)]) (use Cons.prems(2) p(2) in simp)
  moreover have "\<not> full (fold put (take k (c # cs)) q)" if "k < length (c # cs)" for k
    using that nf calculation by (cases k) auto
  ultimately show ?case using p(2) by simp
qed simp

lemma skip_all:
  assumes "inv q" and "n \<le> length (items q)"
  shows "inv ((skip ^^ n) q) \<and> items ((skip ^^ n) q) = drop n (items q)
    \<and> (\<forall>k < n. \<not> empty ((skip ^^ k) q) \<and> get ((skip ^^ k) q) = items q ! k)"
  using assms(2)
proof (induction n)
  case (Suc n)
  let ?q = "(skip ^^ n) q"
  have ih: "inv ?q" "items ?q = drop n (items q)" "\<forall>k < n. \<not> empty ((skip ^^ k) q) \<and> get ((skip ^^ k) q) = items q ! k"
    using Suc.IH Suc.prems by auto
  have ne: "\<not> empty ?q" using empty_law [OF ih(1)] ih(2) Suc.prems by simp
  have g: "inv (skip ?q)" "items ?q = get ?q # items (skip ?q)" using get_law [OF ih(1) ne] by simp_all
  have "drop n (items q) = items q ! n # drop (Suc n) (items q)" using Suc.prems by (simp add: Cons_nth_drop_Suc)
  then have "get ?q = items q ! n" "items (skip ?q) = drop (Suc n) (items q)" using g(2) ih(2) by simp_all
  then show ?case using ih g(1) ne by (auto simp: less_Suc_eq)
qed (simp add: assms(1))

end

end
