(* ===== verification/Stable.thy ===== *)
theory Stable
  imports Proc
begin

text \<open>
  Invariants under interleaving: \<open>kstable I m\<close> says that a routine that starts in a state with \<open>I\<close> has
  \<open>I\<close> each time it hands the processor over and when it returns, if the others give the processor
  back in states with \<open>I\<close>. The locale \<open>off_table\<close> collects the routines of the process layer that
  keep every property of the rest of the state.
\<close>

section \<open>Rules\<close>

definition kstable :: "('s \<Rightarrow> bool) \<Rightarrow> ('s, 'a) kernel \<Rightarrow> bool" where
  "kstable I m \<longleftrightarrow> (\<forall>s. I s \<longrightarrow> rg I I m (\<lambda>_. I) s)"

lemma ks_rg: "kstable I m \<Longrightarrow> I s \<Longrightarrow> rg I I m (\<lambda>_. I) s"
  by (simp add: kstable_def)

lemma ks_basic: "kstable I (kret a)" "kstable I (kget f)" "kstable I (kpanic e)" "kstable I kfault" "kstable I kstuck" "kstable I kyield"
  by (simp_all add: kstable_def rg_simps)

lemma ks_mod: "(\<And>s. I s \<Longrightarrow> I (g s)) \<Longrightarrow> kstable I (kmod g)"
  by (simp add: kstable_def rg_simps)

lemma ks_bind: "kstable I m \<Longrightarrow> (\<And>a. kstable I (f a)) \<Longrightarrow> kstable I (kbind m f)"
  by (fastforce simp: kstable_def rg_simps elim: rg_mono)

lemma ks_then: "kstable I m \<Longrightarrow> kstable I n \<Longrightarrow> kstable I (kthen m n)"
  unfolding kthen_def by (rule ks_bind)

lemma ks_when: "(b \<Longrightarrow> kstable I m) \<Longrightarrow> kstable I (kwhen b m)"
  by (simp add: kstable_def rg_simps)

lemma ks_if: "(b \<Longrightarrow> kstable I m) \<Longrightarrow> (\<not> b \<Longrightarrow> kstable I n) \<Longrightarrow> kstable I (if b then m else n)"
  by simp

lemma ks_opt: "kstable I (kopt r)"
  by (simp add: kstable_def rg_simps)

lemma ks_option:
  "(x = None \<Longrightarrow> kstable I m) \<Longrightarrow> (\<And>a. x = Some a \<Longrightarrow> kstable I (f a)) \<Longrightarrow> kstable I (case x of None \<Rightarrow> m | Some a \<Rightarrow> f a)"
  by (cases x) simp_all

lemma ks_for: "(\<And>i. i \<in> set is \<Longrightarrow> kstable I (body i)) \<Longrightarrow> kstable I (kfor is body)"
  by (induction "is") (auto intro: ks_basic ks_then)

lemma ks_frame: "kframe F m \<Longrightarrow> (\<And>s t. I s \<Longrightarrow> F s t \<Longrightarrow> I t) \<Longrightarrow> kstable I m"
  unfolding kstable_def by (blast intro: rg_frame)

lemmas ks_intros = ks_basic ks_bind ks_then ks_when ks_if ks_opt ks_option ks_for

text \<open>What follows a routine that keeps the invariant.\<close>

lemma rg_ks_then: "kstable I m \<Longrightarrow> I s \<Longrightarrow> (\<And>t. I t \<Longrightarrow> rg I I n Q t) \<Longrightarrow> rg I I (kthen m n) Q s"
  by (simp add: rg_simps) (erule rg_mono [OF ks_rg], assumption, blast)

lemma rg_ks_bind: "kstable I m \<Longrightarrow> I s \<Longrightarrow> (\<And>a t. I t \<Longrightarrow> rg I I (f a) Q t) \<Longrightarrow> rg I I (kbind m f) Q s"
  by (simp add: rg_simps) (erule rg_mono [OF ks_rg], assumption, blast)

section \<open>The process layer\<close>

locale off_table =
  fixes I :: "'z proc_st_scheme \<Rightarrow> bool"
  assumes I_lk: "I s \<Longrightarrow> I (s\<lparr>lk := x\<rparr>)" and I_procs: "I s \<Longrightarrow> I (s\<lparr>procs := ps\<rparr>)"
begin

lemma st_lk: "kframe lk_only m \<Longrightarrow> kstable I m"
  by (erule ks_frame) (auto simp: lk_only_def I_lk)

lemma st_locks: "kstable I (acquire l)" "kstable I (release l)" "kstable I pushcli" "kstable I popcli" "kstable I (holding l)"
  by (rule st_lk, rule lkf_ops)+

lemma st_pset: "kstable I (pset p g)"
  unfolding pset_def by (rule ks_mod) (rule I_procs)

lemma st_myproc: "kstable I myproc"
  unfolding myproc_def by (intro ks_intros st_locks)

lemma st_with_myproc: "(\<And>p. kstable I (f p)) \<Longrightarrow> kstable I (with_myproc f)"
  unfolding with_myproc_def deref_def by (intro ks_intros st_myproc)

lemma st_sched: "kstable I sched"
  unfolding sched_def by (intro ks_intros st_with_myproc st_locks ks_mod I_lk)

lemma st_wakeup1: "kstable I (wakeup1 ch)"
  unfolding wakeup1_def by (intro ks_intros st_pset)

lemma st_wakeup: "kstable I (wakeup ch)"
  unfolding wakeup_def by (intro ks_intros st_locks st_wakeup1)

lemma st_sleep: "kstable I (sleep ch l)"
  unfolding sleep_def by (intro ks_intros st_locks st_pset st_sched st_myproc)

lemma st_yield: "kstable I yield"
  unfolding yield_def by (intro ks_intros st_locks st_pset st_sched st_with_myproc)

lemma st_kill: "kstable I (kill pid)"
  unfolding kill_def by (intro ks_intros st_locks st_pset)

lemmas st_proc = st_locks st_pset st_myproc st_with_myproc st_sched st_wakeup1 st_wakeup st_sleep st_yield st_kill

end

end
