(* ===== verification/Pipe_Fifo.thy ===== *)
theory Pipe_Fifo
  imports Pipe Ring Stable
begin

text \<open>
  What pipes promise: the ring is a bounded queue, the counters stay within its capacity under any
  interleaving, and an uncontended \<^verbatim>\<open>pipewrite\<close> or \<^verbatim>\<open>piperead\<close> appends to or takes from the queue exactly the
  bytes it reports.
\<close>

section \<open>The ring is a queue\<close>

definition pi_seq :: "pipe \<Rightarrow> byte list" where
  "pi_seq x = ring_seq (pi_data x) (pi_nread x) (pi_nwrite x)"

definition pi_ok :: "pipe \<Rightarrow> bool" where
  "pi_ok x \<longleftrightarrow> ring_ok (unat PIPESIZE) (pi_data x) (pi_nread x) (pi_nwrite x)"

lemma unat_PIPESIZE [simp]: "unat PIPESIZE = 512"
  by (simp add: PIPESIZE_def)

lemma pi_ok_iff: "pi_ok x \<longleftrightarrow> length (pi_data x) = 512 \<and> unat (pi_nwrite x - pi_nread x) \<le> 512"
  by (auto simp: pi_ok_def ring_ok_def dvd_def)

lemma pi_full_seq: "pi_full x \<longleftrightarrow> length (pi_seq x) = 512"
proof -
  have "pi_full x \<longleftrightarrow> pi_nwrite x - pi_nread x = PIPESIZE" by (auto simp: pi_full_def algebra_simps)
  also have "\<dots> \<longleftrightarrow> unat (pi_nwrite x - pi_nread x) = unat PIPESIZE" by (simp add: word_unat_eq_iff)
  finally show ?thesis by (simp add: pi_seq_def)
qed

interpretation pq: fifo pi_ok pi_seq 512 pi_full pi_empty pi_put pi_get pi_skip
proof
  fix x :: pipe and c :: byte
  assume x: "pi_ok x"
  then have r: "ring_ok 512 (pi_data x) (pi_nread x) (pi_nwrite x)" by (simp add: pi_ok_def)
  show "pi_full x \<longleftrightarrow> length (pi_seq x) = 512" by (rule pi_full_seq)
  show "length (pi_seq x) \<le> 512" using x by (simp add: pi_seq_def pi_ok_iff)
  show e: "pi_empty x \<longleftrightarrow> pi_seq x = []" by (simp add: pi_seq_def pi_empty_def ring_empty)
  show "pi_ok (pi_put c x) \<and> pi_seq (pi_put c x) = pi_seq x @ [c]" if "\<not> pi_full x"
  proof -
    have "unat (pi_nwrite x - pi_nread x) < 512" using that x by (auto simp: pi_full_seq pi_seq_def pi_ok_iff)
    from ring_put [OF r this] show ?thesis by (simp add: pi_ok_def pi_seq_def pi_put_def unat_mod)
  qed
  show "pi_ok (pi_skip x) \<and> pi_seq x = pi_get x # pi_seq (pi_skip x)" if "\<not> pi_empty x"
    using ring_get [OF r] that by (simp add: pi_ok_def pi_seq_def pi_skip_def pi_get_def pi_empty_def unat_mod)
qed

text \<open>
  C10. The ring of a pipe implements a queue of at most 512 bytes, also across the wrap-around of its 32-bit
  counters: it is full and empty when the queue is, a byte put in goes to the end of the queue, and
  the byte taken out is its first.
\<close>

theorem pipe_ring_refines:
  assumes "pi_ok x"
  shows "(pi_full x \<longleftrightarrow> length (pi_seq x) = 512) \<and> (pi_empty x \<longleftrightarrow> pi_seq x = [])
    \<and> (\<not> pi_full x \<longrightarrow> pi_ok (pi_put c x) \<and> pi_seq (pi_put c x) = pi_seq x @ [c])
    \<and> (\<not> pi_empty x \<longrightarrow> pi_ok (pi_skip x) \<and> pi_seq x = pi_get x # pi_seq (pi_skip x))"
  using pq.full_law [OF assms] pq.empty_law [OF assms] pq.put_law [OF assms] pq.get_law [OF assms] by blast

definition ex_pipe :: pipe where
  "ex_pipe = \<lparr>pi_data = replicate 512 7, pi_nread = 0xFFFFFFFF, pi_nwrite = 0, pi_readopen = True, pi_writeopen = True\<rparr>"

lemma ex_pipe_seq: "pi_ok ex_pipe" "pi_seq ex_pipe = [7]"
  by (simp_all add: ex_pipe_def pi_ok_iff pi_seq_def ring_seq_def)

theorem pipe_ring_refines_witness:
  "pi_seq (pi_put 9 ex_pipe) = [7, 9] \<and> pi_seq ex_pipe = pi_get ex_pipe # pi_seq (pi_skip ex_pipe)"
  using pipe_ring_refines [OF ex_pipe_seq(1), of 9] ex_pipe_seq(2) by auto

section \<open>Interleaving\<close>

definition pipe_inv :: "u32 \<Rightarrow> 'z pipe_st_scheme \<Rightarrow> bool" where
  "pipe_inv p s \<longleftrightarrow> pi_ok (pipes s p)"

interpretation po: off_table "pipe_inv p" for p
  by unfold_locales (simp_all add: pipe_inv_def)

lemma po_kfree: "kstable (pipe_inv p) (kfree a)"
  by (rule ks_frame [OF kmf_kfree]) (auto simp: kmem_only_def pipe_inv_def)

lemma po_set: "(\<And>x. pi_ok x \<Longrightarrow> pi_ok (g x)) \<Longrightarrow> kstable (pipe_inv p) (piset q g)"
  unfolding piset_def by (rule ks_mod) (auto simp: pipe_inv_def)

lemma po_killed: "kstable (pipe_inv p) killed"
  unfolding killed_def by (intro po.st_proc ks_intros)

lemma rg_pipewrite_wait:
  fixes s :: "'z pipe_st_scheme"
  shows "pipe_inv p s \<Longrightarrow> rg (pipe_inv p) (pipe_inv p) (pipewrite_wait k p) (\<lambda>ok t. pipe_inv p t \<and> (ok \<longrightarrow> \<not> pi_full (pipes t p))) s"
proof (induction k arbitrary: s)
  case (Suc k)
  have stop: "kstable (pipe_inv p) (kbind (pifld p pi_readopen) (\<lambda>open. if \<not> open then kret True else killed))"
    by (intro ks_intros po_killed)
  have rel: "rg (pipe_inv p) (pipe_inv p) (kthen (release (pi_lock p)) (kret False)) (\<lambda>ok t. pipe_inv p t \<and> (ok \<longrightarrow> \<not> pi_full (pipes t p))) t"
    if "pipe_inv p t" for t :: "'z pipe_st_scheme" by (rule rg_ks_then [OF po.st_locks(2) that]) (simp add: rg_simps)
  show ?case
  proof (cases "pi_full (pipes s p)")
    case True
    have "rg (pipe_inv p) (pipe_inv p) (kthen (wakeup (Some (pi_rchan p))) (kthen (sleep (Some (pi_wchan p)) (Some (pi_lock p))) (pipewrite_wait k p)))
        (\<lambda>ok t. pipe_inv p t \<and> (ok \<longrightarrow> \<not> pi_full (pipes t p))) t" if "pipe_inv p t" for t :: "'z pipe_st_scheme"
      by (rule rg_ks_then [OF po.st_wakeup that], rule rg_ks_then [OF po.st_sleep], assumption, rule Suc.IH)
    then show ?thesis using True rel
      by (auto simp: rg_simps(2) rg_bind [of _ _ "kget _"] intro!: rg_ks_bind [OF stop Suc.prems] rg_if)
  next
    case False
    then show ?thesis using Suc.prems by (simp add: rg_simps)
  qed
qed (simp add: rg_simps)

lemma po_pipewrite_loop: "kstable (pipe_inv p) (pipewrite_loop p cs)"
proof (induction cs)
  case (Cons c cs)
  have "rg (pipe_inv p) (pipe_inv p) (pipewrite_loop p (c # cs)) (\<lambda>_. pipe_inv p) s" if s: "pipe_inv p s" for s :: "'a pipe_st_scheme"
  proof -
    have "rg (pipe_inv p) (pipe_inv p) (if \<not> ok then kret False else kthen (piset p (pi_put c)) (pipewrite_loop p cs)) (\<lambda>_. pipe_inv p) t"
      if "pipe_inv p t \<and> (ok \<longrightarrow> \<not> pi_full (pipes t p))" for ok and t :: "'a pipe_st_scheme"
    proof (rule rg_if)
      assume ok: "\<not> \<not> ok"
      have "pipe_inv p (t\<lparr>pipes := (pipes t)(p := pi_put c (pipes t p))\<rparr>)"
        using that ok pq.put_law [of "pipes t p" c] by (simp add: pipe_inv_def)
      then show "rg (pipe_inv p) (pipe_inv p) (kthen (piset p (pi_put c)) (pipewrite_loop p cs)) (\<lambda>_. pipe_inv p) t"
        using ks_rg [OF Cons.IH] by (simp add: rg_simps piset_def)
    qed (use that in \<open>simp add: rg_simps\<close>)
    then show ?thesis using rg_mono [OF rg_pipewrite_wait [OF s]] by (simp add: rg_bind rg_basic(2) del: pipewrite_wait.simps)
  qed
  then show ?case by (simp add: kstable_def)
qed (simp add: ks_basic)

lemma po_piperead_wait: "kstable (pipe_inv p) (piperead_wait k p)"
  by (induction k) (auto intro!: ks_intros po.st_proc po_killed)

lemma po_piperead_loop: "kstable (pipe_inv p) (piperead_loop n p)"
proof (induction n)
  case (Suc n)
  have "rg (pipe_inv p) (pipe_inv p) (piperead_loop (Suc n) p) (\<lambda>_. pipe_inv p) s" if s: "pipe_inv p s" for s :: "'a pipe_st_scheme"
  proof (cases "pi_empty (pipes s p)")
    case False
    then have "pipe_inv p (s\<lparr>pipes := (pipes s)(p := pi_skip (pipes s p))\<rparr>)"
      using s pq.get_law [of "pipes s p"] by (simp add: pipe_inv_def)
    from ks_rg [OF Suc.IH this] False show ?thesis by (simp add: rg_simps piset_def)
  qed (use s in \<open>simp add: rg_simps\<close>)
  then show ?case by (simp add: kstable_def)
qed (simp add: ks_basic)

text \<open>
  C11. However other processes run in between, \<^verbatim>\<open>pipewrite\<close>, \<^verbatim>\<open>piperead\<close> and \<^verbatim>\<open>pipeclose\<close> keep the counters of a pipe at most
  512 apart: they do so each time they hand over the processor and when they return, if the others
  do.
\<close>

theorem pipe_invariant:
  "kstable (\<lambda>s. length (pi_data (pipes s p)) = 512 \<and> unat (pi_nwrite (pipes s p) - pi_nread (pipes s p)) \<le> 512) (pipewrite p addr n)
    \<and> kstable (\<lambda>s. length (pi_data (pipes s p)) = 512 \<and> unat (pi_nwrite (pipes s p) - pi_nread (pipes s p)) \<le> 512) (piperead p n)
    \<and> kstable (\<lambda>s. length (pi_data (pipes s p)) = 512 \<and> unat (pi_nwrite (pipes s p) - pi_nread (pipes s p)) \<le> 512) (pipeclose p writable)"
proof -
  have inv: "(\<lambda>s. length (pi_data (pipes s p)) = 512 \<and> unat (pi_nwrite (pipes s p) - pi_nread (pipes s p)) \<le> 512) = pipe_inv p"
    by (simp add: fun_eq_iff pipe_inv_def pi_ok_iff)
  have "kstable (pipe_inv p) (pipewrite p addr n)"
    unfolding pipewrite_def by (intro ks_intros po.st_proc po_pipewrite_loop)
  moreover have "kstable (pipe_inv p) (piperead p n)"
    unfolding piperead_def by (intro ks_intros po.st_proc po_piperead_wait po_piperead_loop)
  moreover have "kstable (pipe_inv p) (pipeclose p writable)"
    unfolding pipeclose_def by (intro ks_intros po.st_proc po_set po_kfree) (simp_all add: pi_ok_iff)
  ultimately show ?thesis unfolding inv by blast
qed

section \<open>Transfers\<close>

definition with_pipe :: "u32 \<Rightarrow> pipe \<Rightarrow> 'z pipe_st_scheme \<Rightarrow> 'z pipe_st_scheme" where
  "with_pipe p x s = s\<lparr>pipes := (pipes s)(p := x)\<rparr>"

lemma with_pipe_simps [simp]:
  "pipes (with_pipe p x s) = (pipes s)(p := x)" "with_pipe p y (with_pipe p x s) = with_pipe p y s" "wakes (with_pipe p x s) = wakes s"
  "with_pipe p (pipes s p) s = s" "piset p g s = Ret () (with_pipe p (g (pipes s p)) s)"
  "lk (with_pipe p x s) = lk s" "procs (with_pipe p x s) = procs s"
  by (auto simp: with_pipe_def piset_def kernel_simps fun_eq_iff intro!: pipe_st.equality)

lemma pipewrite_loop_run:
  fixes t :: "'z pipe_st_scheme"
  assumes "pi_ok (pipes t p)" and "length (pi_seq (pipes t p)) + length cs \<le> 512"
  shows "pipewrite_loop p cs t = Ret True (with_pipe p (fold pi_put cs (pipes t p)) t)"
  using assms
proof (induction cs arbitrary: t)
  case (Cons c cs)
  let ?x = "pipes t p" let ?t = "with_pipe p (pi_put c ?x) t"
  have nf: "\<not> pi_full ?x" using pq.full_law [OF Cons.prems(1)] Cons.prems(2) by simp
  then have x: "pi_ok (pi_put c ?x)" "pi_seq (pi_put c ?x) = pi_seq ?x @ [c]" using pq.put_law [OF Cons.prems(1)] by simp_all
  then have "pipewrite_loop p cs ?t = Ret True (with_pipe p (fold pi_put cs (pipes ?t p)) ?t)"
    using Cons.prems(2) by (intro Cons.IH) simp_all
  then show ?case using nf by (simp add: kernel_simps)
qed (simp add: kernel_simps)

lemma piperead_loop_run:
  fixes t :: "'z pipe_st_scheme"
  assumes "pi_ok (pipes t p)"
  shows "\<exists>y. piperead_loop n p t = Ret (take n (pi_seq (pipes t p))) (with_pipe p y t)
    \<and> pi_ok y \<and> pi_seq y = drop n (pi_seq (pipes t p))"
  using assms
proof (induction n arbitrary: t)
  case 0
  then show ?case by (intro exI [of _ "pipes t p"]) (simp add: kernel_simps)
next
  case (Suc n)
  let ?x = "pipes t p" let ?t = "with_pipe p (pi_skip ?x) t"
  show ?case
  proof (cases "pi_empty ?x")
    case True
    then show ?thesis using pq.empty_law [OF Suc.prems] Suc.prems by (intro exI [of _ ?x]) (simp add: kernel_simps)
  next
    case False
    then have x: "pi_ok (pi_skip ?x)" "pi_seq ?x = pi_get ?x # pi_seq (pi_skip ?x)" using pq.get_law [OF Suc.prems] by simp_all
    then obtain y where "piperead_loop n p ?t = Ret (take n (pi_seq (pi_skip ?x))) (with_pipe p y ?t)"
        "pi_ok y" "pi_seq y = drop n (pi_seq (pi_skip ?x))"
      using Suc.IH [of ?t] by auto
    then show ?thesis using False x(2) by (intro exI [of _ y]) (simp add: kernel_simps)
  qed
qed

lemma wakeup_pipe:
  fixes s :: "'z pipe_st_scheme"
  assumes "quiet (lk s)" and "length (procs s) = NPROC"
  shows "kthen (wakeup ch) (kthen (release (pi_lock p)) m) (with_pipe p x (s\<lparr>lk := lk_acq (pi_lock p) (lk s)\<rparr>))
    = m (with_pipe p x (s\<lparr>procs := map (woken ch) (procs s)\<rparr>))"
proof -
  have w: "wakeup ch (with_pipe p x (s\<lparr>lk := lk_acq (pi_lock p) (lk s)\<rparr>))
      = Ret () (with_pipe p x (s\<lparr>lk := lk_acq (pi_lock p) (lk s), procs := map (woken ch) (procs s)\<rparr>))"
    using assms by (subst wakeup_run) (simp_all add: lock_simps with_pipe_def)
  have "release (pi_lock p) (with_pipe p x (s\<lparr>lk := lk_acq (pi_lock p) (lk s), procs := map (woken ch) (procs s)\<rparr>))
      = Ret () (with_pipe p x (s\<lparr>procs := map (woken ch) (procs s)\<rparr>))"
    using assms(1) by (subst release_acq [of "lk s"]) (auto simp: lock_simps with_pipe_def intro!: pipe_st.equality)
  then show ?thesis using w by (simp add: kernel_simps)
qed

text \<open>
  C12. When nobody interferes, \<^verbatim>\<open>pipewrite\<close> of bytes that fit returns their number and appends exactly them to the pipe,
  and \<^verbatim>\<open>piperead\<close> on a pipe that has bytes or no writer returns at most \<open>n\<close> of its first bytes and leaves
  the rest.
\<close>

theorem pipe_transfer:
  fixes s :: "'z pipe_st_scheme"
  assumes "quiet (lk s)" and "length (procs s) = NPROC" and "pi_ok (pipes s p)"
  shows "(length (pi_seq (pipes s p)) + length cs \<le> 512 \<longrightarrow>
      (\<exists>t. pipewrite p cs (int (length cs)) s = Ret (int (length cs)) t
        \<and> pi_ok (pipes t p) \<and> pi_seq (pipes t p) = pi_seq (pipes s p) @ cs))
    \<and> (pi_seq (pipes s p) \<noteq> [] \<or> \<not> pi_writeopen (pipes s p) \<longrightarrow>
      (\<exists>t. piperead p n s = Ret (int (length (take (nat n) (pi_seq (pipes s p)))), take (nat n) (pi_seq (pipes s p))) t
        \<and> pi_ok (pipes t p) \<and> pi_seq (pipes t p) = drop (nat n) (pi_seq (pipes s p))))"
proof (intro conjI impI)
  let ?x = "pipes s p" let ?a = "s\<lparr>lk := lk_acq (pi_lock p) (lk s)\<rparr>"
  have q: "quiet (lk s)" by (rule assms(1))
  {
    assume fit: "length (pi_seq ?x) + length cs \<le> 512"
    have "pipewrite_loop p cs ?a = Ret True (with_pipe p (fold pi_put cs ?x) ?a)"
      using pipewrite_loop_run [of ?a p cs] assms(3) fit by simp
    then have "pipewrite p cs (int (length cs)) s
        = Ret (int (length cs)) (with_pipe p (fold pi_put cs ?x) (s\<lparr>procs := map (woken (Some (pi_rchan p))) (procs s)\<rparr>))"
      unfolding pipewrite_def using q wakeup_pipe [OF assms(1,2)] by (simp add: kbind_run kthen_run [of "acquire _"] acquire_quiet kcont.simps) (simp add: kret_def)
    then show "\<exists>t. pipewrite p cs (int (length cs)) s = Ret (int (length cs)) t
        \<and> pi_ok (pipes t p) \<and> pi_seq (pipes t p) = pi_seq ?x @ cs"
      using pq.put_all [OF assms(3) fit] by simp
  next
    assume "pi_seq ?x \<noteq> [] \<or> \<not> pi_writeopen ?x"
    then have go: "\<not> (pi_empty ?x \<and> pi_writeopen ?x)" using pq.empty_law [OF assms(3)] by simp
    obtain y where y: "piperead_loop (nat n) p ?a = Ret (take (nat n) (pi_seq ?x)) (with_pipe p y ?a)"
        "pi_ok y" "pi_seq y = drop (nat n) (pi_seq ?x)"
      using piperead_loop_run [of ?a p "nat n"] assms(3) by auto
    let ?t = "with_pipe p y (s\<lparr>procs := map (woken (Some (pi_wchan p))) (procs s)\<rparr>)"
    have w: "piperead_wait (Suc k) p ?a = Ret True ?a" for k using go by (auto simp: kernel_simps)
    have "piperead p n s = Ret (int (length (take (nat n) (pi_seq ?x))), take (nat n) (pi_seq ?x)) ?t"
      unfolding piperead_def using q w y(1) wakeup_pipe [OF assms(1,2)]
      by (simp add: kbind_run kthen_run [of "acquire _"] acquire_quiet kcont.simps kget_def del: piperead_wait.simps) (simp add: kret_def)
    then show "\<exists>t. piperead p n s = Ret (int (length (take (nat n) (pi_seq ?x))), take (nat n) (pi_seq ?x)) t
        \<and> pi_ok (pipes t p) \<and> pi_seq (pipes t p) = drop (nat n) (pi_seq ?x)"
      using y by simp
  }
qed

definition pipe_ex :: "pipe \<Rightarrow> pipe_st" where
  "pipe_ex x = fs_st.extend (fs_ex [] (superblock_of zblock) (acc_ex [] 0 [] tiny_disk)) (pipe_st.fields (\<lambda>_. x))"

lemma pipe_ex_sel [simp]: "pipes (pipe_ex x) = (\<lambda>_. x)" "quiet (lk (pipe_ex x))" "length (procs (pipe_ex x)) = NPROC"
  using boot_quiet
  by (simp_all add: pipe_ex_def fs_ex_def acc_ex_def wal_ex_def fs_st.defs acc_st.defs wal_st.defs pipe_st.defs solo_procs_def)

theorem pipe_transfer_witness:
  "\<exists>t u. pipewrite 0 [1, 2, 3] 3 (pipe_ex ex_pipe) = Ret 3 t \<and> pi_seq (pipes t 0) = [7, 1, 2, 3]
     \<and> piperead 0 5 (pipe_ex ex_pipe) = Ret (1, [7]) u \<and> pi_seq (pipes u 0) = []"
  using pipe_transfer [of "pipe_ex ex_pipe" 0 "[1, 2, 3]" 5] ex_pipe_seq by auto

end
