(* ===== verification/Account_Spec.thy ===== *)
theory Account_Spec
  imports Account
begin

text \<open>
  The table of users as a list of names and passwords: logging in, entering and removing users as
  operations of that list, and the format of \<^verbatim>\<open>/passwd\<close>.
\<close>

section \<open>The users\<close>

definition users :: "'z acc_st_scheme \<Rightarrow> (byte list \<times> byte list) list" where
  "users s = map (\<lambda>i. (cstr (lt_usernames s ! i), cstr (lt_passwords s ! i))) [0..<nat (lt_userCnt s)]"

definition zero_row :: "byte list" where
  "zero_row = replicate (MAX_LEN + 1) 0"

text \<open>A table as the code keeps it: rows that are not in use are zero, and no name occurs twice.\<close>

definition acc_wf :: "'z acc_st_scheme \<Rightarrow> bool" where
  "acc_wf s \<longleftrightarrow> acc_ok s \<and> distinct (map fst (users s))
     \<and> (\<forall>i. nat (lt_userCnt s) \<le> i \<and> i < MAX_USER \<longrightarrow>
          lt_usernames s ! i = zero_row \<and> lt_passwords s ! i = zero_row)"

lemma length_users [simp]: "length (users s) = nat (lt_userCnt s)"
  by (simp add: users_def)

lemma users_nth: "i < nat (lt_userCnt s) \<Longrightarrow> users s ! i = (cstr (lt_usernames s ! i), cstr (lt_passwords s ! i))"
  by (simp add: users_def)

lemma acc_rows:
  assumes "acc_ok s" and "i < MAX_USER"
  shows "terminated (lt_usernames s ! i)" "terminated (lt_passwords s ! i)"
    "length (lt_usernames s ! i) = MAX_LEN + 1" "length (lt_passwords s ! i) = MAX_LEN + 1"
  using assms by (auto simp: acc_ok_def)

lemma kfind_pure:
  assumes "\<And>i. i \<in> set is \<Longrightarrow> body i s = Ret (if P i then Some (g i) else None) s"
  shows "kfind is body s = Ret (map_option g (find P is)) s"
  using assms by (induction "is") (auto simp: kernel_simps)

lemma find_user_run:
  assumes "acc_ok s" and "terminated u"
  shows "find_user u s = Ret (find (\<lambda>i. fst (users s ! i) = cstr u) [0..<nat (lt_userCnt s)]) s"
proof -
  let ?body = "\<lambda>i. kbind (kget (\<lambda>s. lt_usernames s ! i)) (\<lambda>w. kbind (kopt (strlen w)) (\<lambda>n. kbind (kopt (strlen u)) (\<lambda>k.
       if n \<noteq> k then kret None else kbind (kopt (equals w u)) (\<lambda>e. kret (if e then Some i else None)))))"
  have "?body i s = Ret (if fst (users s ! i) = cstr u then Some i else None) s" if "i \<in> set [0..<nat (lt_userCnt s)]" for i
  proof -
    have i: "i < nat (lt_userCnt s)" "i < MAX_USER" using that assms(1) by (auto simp: acc_ok_def)
    have t: "terminated (lt_usernames s ! i)" by (rule acc_rows(1) [OF assms(1) i(2)])
    show ?thesis using t assms(2) i(1) by (auto simp: kernel_simps strlen_cstr equals_cstr users_nth)
  qed
  then have "kfind [0..<nat (lt_userCnt s)] ?body s
      = Ret (map_option (\<lambda>i. i) (find (\<lambda>i. fst (users s ! i) = cstr u) [0..<nat (lt_userCnt s)])) s"
    by (rule kfind_pure)
  then show ?thesis by (simp only: find_user_def kbind_run kernel_run(6) kcont.simps option.map_ident)
qed

lemma find_nth_unique:
  assumes "distinct (map fst us)"
  shows "find (\<lambda>i. fst (us ! i) = u) [0..<length us] = Some i \<longleftrightarrow> i < length us \<and> fst (us ! i) = u"
proof -
  have "\<forall>j < i. fst (us ! j) \<noteq> u" if "i < length us" "fst (us ! i) = u"
    using assms that by (auto simp: distinct_conv_nth)
  then show ?thesis by (auto simp: find_Some_iff)
qed

text \<open>
  C14. Logging in succeeds exactly for a name and a password that are in the table; it makes that user the
  current one and changes nothing else, and a failed attempt changes nothing.
\<close>

theorem login_correct:
  assumes "acc_wf s" and "terminated u" and "terminated w"
  shows "if (cstr u, cstr w) \<in> set (users s)
    then \<exists>i. login u w s = Ret 0 (s\<lparr>lt_userIdx := int i\<rparr>) \<and> i < length (users s) \<and> users s ! i = (cstr u, cstr w)
      \<and> current_user (s\<lparr>lt_userIdx := int i\<rparr>) = cstr u
    else login u w s = Ret (-1) s"
proof -
  have ok: "acc_ok s" and d: "distinct (map fst (users s))" using assms(1) by (simp_all add: acc_wf_def)
  have cnt: "nat (lt_userCnt s) \<le> MAX_USER" "0 \<le> lt_userCnt s" using ok by (auto simp: acc_ok_def)
  note f = find_user_run [OF ok assms(2)]
  have run: "login u w s = (if snd (users s ! i) = cstr w then Ret 0 (s\<lparr>lt_userIdx := int i\<rparr>) else Ret (-1) s)"
    if "find (\<lambda>i. fst (users s ! i) = cstr u) [0..<length (users s)] = Some i" for i
  proof -
    have i: "i < length (users s)" using that d by (simp only: find_nth_unique)
    then have "i < MAX_USER" using cnt by simp
    note t = acc_rows(2) [OF ok this]
    show ?thesis using that f i t assms(3) by (simp add: login_def kernel_simps equals_cstr users_nth)
  qed
  show ?thesis
  proof (cases "(cstr u, cstr w) \<in> set (users s)")
    case True
    then obtain i where i: "i < length (users s)" "users s ! i = (cstr u, cstr w)" by (auto simp: in_set_conv_nth)
    then have "find (\<lambda>i. fst (users s ! i) = cstr u) [0..<length (users s)] = Some i" by (subst find_nth_unique [OF d]) simp
    from run [OF this] i(2) have l: "login u w s = Ret 0 (s\<lparr>lt_userIdx := int i\<rparr>)" by simp
    have "current_user (s\<lparr>lt_userIdx := int i\<rparr>) = cstr u"
      using i cnt by (auto simp: current_user_def user_row_def users_nth)
    then show ?thesis using True l i by auto
  next
    case False
    have "login u w s = Ret (-1) s"
    proof (cases "find (\<lambda>i. fst (users s ! i) = cstr u) [0..<length (users s)]")
      case None
      then show ?thesis using f by (simp add: login_def kernel_simps)
    next
      case (Some i)
      then have i: "i < length (users s)" "fst (users s ! i) = cstr u" using d by (simp_all only: find_nth_unique)
      have "snd (users s ! i) \<noteq> cstr w" using False i by (metis nth_mem prod.collapse)
      then show ?thesis using run [OF Some] by simp
    qed
    then show ?thesis using False by simp
  qed
qed

section \<open>Entering and removing users\<close>

definition may_enter :: "'z acc_st_scheme \<Rightarrow> byte list \<Rightarrow> byte list \<Rightarrow> bool" where
  "may_enter s u w \<longleftrightarrow> length (users s) < MAX_USER \<and> length (cstr u) \<in> {2..MAX_LEN} \<and> length (cstr w) \<in> {2..MAX_LEN}
     \<and> cstr u \<notin> fst ` set (users s)"

lemma cstr_pad: "0 \<notin> set xs \<Longrightarrow> 0 < n \<Longrightarrow> cstr (xs @ replicate n 0) = xs"
  by (cases n) (simp_all add: cstr_str)

text \<open>The row that holds a name.\<close>

definition pad_row :: "byte list \<Rightarrow> byte list" where
  "pad_row u = cstr u @ replicate (MAX_LEN + 1 - length (cstr u)) 0"

lemma pad_row_simps [simp]:
  assumes "length (cstr u) \<le> MAX_LEN"
  shows "cstr (pad_row u) = cstr u" "length (pad_row u) = MAX_LEN + 1" "terminated (pad_row u)"
  using assms by (simp_all add: pad_row_def cstr_pad cstr_nonzero del: replicate.simps)

lemma strncpy_zero:
  assumes "terminated u" and "length (cstr u) \<le> MAX_LEN"
  shows "strncpy zero_row u (length (cstr u)) = Some (pad_row u)"
  unfolding zero_row_def pad_row_def using assms by (subst strncpy_run) (simp_all del: replicate.simps add: drop_replicate)

lemma find_users:
  "find (\<lambda>i. fst (us ! i) = u) [0..<length us] = None \<longleftrightarrow> u \<notin> fst ` set us"
proof -
  have "fst ` set us = {fst (us ! i) |i. i < length us}" by (auto simp: set_conv_nth)
  then show ?thesis by (auto simp: find_None_iff)
qed

lemma ball_update: "\<forall>r \<in> set xs. P r \<Longrightarrow> P x \<Longrightarrow> \<forall>r \<in> set (xs[i := x]). P r"
  using set_update_subset_insert [of xs i x] by fastforce

definition entered :: "byte list \<Rightarrow> byte list \<Rightarrow> 'z acc_st_scheme \<Rightarrow> 'z acc_st_scheme" where
  "entered u w s = s\<lparr>lt_usernames := (lt_usernames s)[nat (lt_userCnt s) := pad_row u],
     lt_passwords := (lt_passwords s)[nat (lt_userCnt s) := pad_row w], lt_userCnt := lt_userCnt s + 1\<rparr>"

lemma entered_users:
  assumes "acc_wf s" and "may_enter s u w"
  shows "users (entered u w s) = users s @ [(cstr u, cstr w)]"
proof (rule nth_equalityI)
  let ?n = "nat (lt_userCnt s)"
  have n: "0 \<le> lt_userCnt s" "?n < length (lt_usernames s)" "?n < length (lt_passwords s)"
    and c: "cstr (pad_row u) = cstr u" "cstr (pad_row w) = cstr w"
    using assms by (auto simp: acc_wf_def acc_ok_def may_enter_def)
  show "length (users (entered u w s)) = length (users s @ [(cstr u, cstr w)])" using n by (simp add: entered_def)
  fix i assume "i < length (users (entered u w s))"
  then have "i < ?n \<or> i = ?n" "i < nat (lt_userCnt s + 1)" using n(1) by (auto simp: entered_def)
  then show "users (entered u w s) ! i = (users s @ [(cstr u, cstr w)]) ! i"
    using n c by (auto simp: users_nth nth_append entered_def)
qed

lemma entered_wf:
  assumes "acc_wf s" and "may_enter s u w"
  shows "acc_wf (entered u w s)"
proof -
  let ?n = "nat (lt_userCnt s)"
  have n: "0 \<le> lt_userCnt s" "?n < MAX_USER" and l: "length (cstr u) \<le> MAX_LEN" "length (cstr w) \<le> MAX_LEN"
    and k: "length (lt_usernames s) = MAX_USER" "length (lt_passwords s) = MAX_USER"
    and r: "\<forall>r \<in> set (lt_usernames s). length r = MAX_LEN + 1 \<and> terminated r"
      "\<forall>r \<in> set (lt_passwords s). length r = MAX_LEN + 1 \<and> terminated r"
    using assms by (auto simp: acc_wf_def acc_ok_def may_enter_def)
  have rows: "\<forall>r \<in> set ((lt_usernames s)[?n := pad_row u]). length r = MAX_LEN + 1 \<and> terminated r"
      "\<forall>r \<in> set ((lt_passwords s)[?n := pad_row w]). length r = MAX_LEN + 1 \<and> terminated r"
    by (rule ball_update [OF r(1)], use l in simp) (rule ball_update [OF r(2)], use l in simp)
  have "distinct (map fst (users (entered u w s)))"
    using assms by (simp add: entered_users acc_wf_def may_enter_def)
  moreover have "acc_ok (entered u w s)"
  proof -
    have "-1 \<le> lt_userIdx s" "lt_userIdx s < int MAX_USER" using assms(1) by (simp_all add: acc_wf_def acc_ok_def)
    moreover have "lt_userCnt s + 1 \<le> int MAX_USER" using n by linarith
    ultimately show ?thesis using n(1) k rows by (simp add: acc_ok_def entered_def ball_Un)
  qed
  moreover have "?n \<noteq> i \<and> ?n \<le> i" if "nat (lt_userCnt s + 1) \<le> i" for i using that n(1) by auto
  ultimately show ?thesis using assms(1) by (simp add: acc_wf_def) (simp add: entered_def)
qed

lemma enter_dup_run:
  assumes "acc_wf s" and "terminated u"
  shows "kfind [0..<nat (lt_userCnt s)] (\<lambda>i. kbind (kget (\<lambda>s. equals (lt_usernames s ! i) u))
      (\<lambda>r. kbind (kopt r) (\<lambda>e. kret (if e then Some () else None)))) s
    = Ret (if cstr u \<in> fst ` set (users s) then Some () else None) s"
proof -
  let ?body = "\<lambda>i. kbind (kget (\<lambda>s. equals (lt_usernames s ! i) u)) (\<lambda>r. kbind (kopt r) (\<lambda>e. kret (if e then Some () else None)))"
  have ok: "acc_ok s" "nat (lt_userCnt s) \<le> MAX_USER" using assms(1) by (auto simp: acc_wf_def acc_ok_def)
  have "?body i s = Ret (if fst (users s ! i) = cstr u then Some ((\<lambda>_. ()) i) else None) s" if "i \<in> set [0..<nat (lt_userCnt s)]" for i
    using that ok(2) acc_rows(1) [OF ok(1), of i] assms(2) by (auto simp: kernel_simps equals_cstr users_nth)
  from kfind_pure [of "[0..<nat (lt_userCnt s)]" ?body, OF this] find_users [of "users s" "cstr u"]
  show ?thesis by (cases "find (\<lambda>i. fst (users s ! i) = cstr u) [0..<nat (lt_userCnt s)]") simp_all
qed

lemma enter_user_run:
  assumes "acc_wf s" and "terminated u" and "terminated w"
  shows "enter_user u w s = (if may_enter s u w then Ret True (entered u w s) else Ret False s)"
proof -
  let ?n = "nat (lt_userCnt s)"
  have n: "?n < MAX_USER \<longleftrightarrow> lt_userCnt s \<noteq> int MAX_USER" using assms(1) by (auto simp: acc_wf_def acc_ok_def)
  have z: "lt_usernames s ! ?n = zero_row" "lt_passwords s ! ?n = zero_row" if "lt_userCnt s \<noteq> int MAX_USER"
    using assms(1) n that by (simp_all add: acc_wf_def)
  show ?thesis
    using z strncpy_zero [OF assms(2)] strncpy_zero [OF assms(3)]
    by (auto simp: enter_user_def kbind_run kernel_run kthen_run kcont.simps strlen_cstr kopt_run assms(2,3) may_enter_def n
        enter_dup_run [OF assms(1,2)] entered_def)
qed

lemma kfor_range:
  assumes "a \<le> b" and "J a s" and "\<And>i t. a \<le> i \<Longrightarrow> i < b \<Longrightarrow> J i t \<Longrightarrow> \<exists>u. body i t = Ret () u \<and> J (Suc i) u"
  shows "\<exists>u. kfor [a..<b] body s = Ret () u \<and> J b u"
  using assms
proof (induction "b - a" arbitrary: a s)
  case 0
  then show ?case by (simp add: kernel_simps)
next
  case (Suc k)
  have "a < b" using Suc.hyps(2) by simp
  then obtain u where u: "body a s = Ret () u" "J (Suc a) u" using Suc.prems(2) Suc.prems(3) [of a s] by blast
  have "\<exists>v. kfor [Suc a..<b] body u = Ret () v \<and> J b v"
    by (rule Suc.hyps(1)) (use Suc u in auto)
  moreover have "[a..<b] = a # [Suc a..<b]" using Suc.hyps(2) by (simp add: upt_conv_Cons)
  ultimately show ?case using u(1) by (simp add: kernel_simps)
qed

lemma copy_row_run:
  assumes "terminated src" and "length (cstr src) < length dst"
  shows "\<exists>d. copy_row src dst = Some d \<and> length d = length dst \<and> terminated d \<and> cstr d = cstr src"
proof -
  let ?n = "length (cstr src)"
  let ?d = "(cstr src @ drop ?n dst)[?n := 0]"
  have "?d = cstr src @ 0 # drop (Suc ?n) dst"
    using assms(2) by (simp add: list_update_append Cons_nth_drop_Suc [symmetric])
  moreover have "cstr (cstr src @ 0 # drop (Suc ?n) dst) = cstr src" by (simp add: cstr_str cstr_nonzero)
  moreover have "copy_row src dst = Some ?d"
    using assms by (simp add: copy_row_def strlen_cstr strncpy_run put_at_def)
  ultimately show ?thesis using assms(2) by (auto simp: terminated_def)
qed

text \<open>The rows of a table once the entries between \<open>f\<close> and \<open>i\<close> have moved up by one.\<close>

definition shifted :: "nat \<Rightarrow> nat \<Rightarrow> byte list list \<Rightarrow> byte list list \<Rightarrow> bool" where
  "shifted f i old new \<longleftrightarrow> length new = MAX_USER \<and> (\<forall>r \<in> set new. length r = MAX_LEN + 1 \<and> terminated r)
     \<and> (\<forall>j < MAX_USER. if f \<le> j \<and> j + 1 < i then cstr (new ! j) = cstr (old ! (j + 1)) else new ! j = old ! j)"

lemma shifted_step:
  assumes "shifted f i old new" and "f < i" and "i < MAX_USER"
  shows "\<exists>d. copy_row (new ! i) (new ! (i - 1)) = Some d \<and> shifted f (Suc i) old (new[i - 1 := d])"
proof -
  have r: "length new = MAX_USER" "\<forall>r \<in> set new. length r = MAX_LEN + 1 \<and> terminated r" and i: "new ! i = old ! i"
    using assms by (auto simp: shifted_def)
  have k: "length (new ! i) = MAX_LEN + 1" "terminated (new ! i)" "length (new ! (i - 1)) = MAX_LEN + 1"
    using r assms(3) by auto
  then have "length (cstr (new ! i)) < length (new ! (i - 1))" using cstr_shorter [OF k(2)] by simp
  then obtain d where d: "copy_row (new ! i) (new ! (i - 1)) = Some d" "length d = MAX_LEN + 1" "terminated d" "cstr d = cstr (new ! i)"
    using copy_row_run [OF k(2)] k(3) by metis
  have "\<forall>r \<in> set (new[i - 1 := d]). length r = MAX_LEN + 1 \<and> terminated r" using ball_update [OF r(2), of d "i - 1"] d by simp
  moreover have "\<forall>j < MAX_USER. if f \<le> j \<and> j + 1 < Suc i then cstr (new[i - 1 := d] ! j) = cstr (old ! (j + 1)) else new[i - 1 := d] ! j = old ! j"
  proof (intro allI impI)
    fix j assume "j < MAX_USER"
    then show "if f \<le> j \<and> j + 1 < Suc i then cstr (new[i - 1 := d] ! j) = cstr (old ! (j + 1)) else new[i - 1 := d] ! j = old ! j"
      using assms r(1) d(4) i by (cases "j = i - 1") (auto simp: shifted_def)
  qed
  ultimately have "shifted f (Suc i) old (new[i - 1 := d])" using r(1) unfolding shifted_def by simp
  then show ?thesis using d(1) by blast
qed

lemma remove_user_rows:
  assumes "acc_wf s" and "f < length (users s)"
  shows "\<exists>ns ps. kfor [f + 1..<nat (lt_userCnt s)] shift_row s = Ret () (s\<lparr>lt_usernames := ns, lt_passwords := ps\<rparr>)
    \<and> shifted f (length (users s)) (lt_usernames s) ns \<and> shifted f (length (users s)) (lt_passwords s) ps"
proof -
  let ?J = "\<lambda>i t. \<exists>ns ps. t = s\<lparr>lt_usernames := ns, lt_passwords := ps\<rparr>
    \<and> shifted f i (lt_usernames s) ns \<and> shifted f i (lt_passwords s) ps"
  have ok: "acc_ok s" and m: "nat (lt_userCnt s) \<le> MAX_USER" using assms(1) by (auto simp: acc_wf_def acc_ok_def)
  have "shifted f (f + 1) (lt_usernames s) (lt_usernames s)" "shifted f (f + 1) (lt_passwords s) (lt_passwords s)"
    using ok by (auto simp: acc_ok_def shifted_def)
  then have J0: "?J (f + 1) s" by (intro exI [of _ "lt_usernames s"] exI [of _ "lt_passwords s"]) simp
  have step: "\<exists>u. shift_row i t = Ret () u \<and> ?J (Suc i) u" if "f + 1 \<le> i" "i < nat (lt_userCnt s)" "?J i t" for i t
  proof -
    have i: "f < i" "i < MAX_USER" using that m by auto
    from that(3) obtain ns ps where t: "t = s\<lparr>lt_usernames := ns, lt_passwords := ps\<rparr>"
      and sh: "shifted f i (lt_usernames s) ns" "shifted f i (lt_passwords s) ps" by blast
    obtain d e where de: "copy_row (ns ! i) (ns ! (i - 1)) = Some d" "shifted f (Suc i) (lt_usernames s) (ns[i - 1 := d])"
        "copy_row (ps ! i) (ps ! (i - 1)) = Some e" "shifted f (Suc i) (lt_passwords s) (ps[i - 1 := e])"
      using shifted_step [OF sh(1) i] shifted_step [OF sh(2) i] by blast
    have "shift_row i t = Ret () (s\<lparr>lt_usernames := ns[i - 1 := d], lt_passwords := ps[i - 1 := e]\<rparr>)"
      using de(1,3) by (simp add: t shift_row_def kernel_simps)
    then show ?thesis using de(2,4) by blast
  qed
  have "f + 1 \<le> nat (lt_userCnt s)" using assms(2) by simp
  from kfor_range [of "f + 1" "nat (lt_userCnt s)" ?J s shift_row, OF this J0 step]
  show ?thesis unfolding length_users by blast
qed

definition removed :: "byte list list \<Rightarrow> byte list list \<Rightarrow> 'z acc_st_scheme \<Rightarrow> 'z acc_st_scheme" where
  "removed ns ps s = s\<lparr>lt_usernames := ns[nat (lt_userCnt s - 1) := zero_row],
     lt_passwords := ps[nat (lt_userCnt s - 1) := zero_row], lt_userCnt := lt_userCnt s - 1\<rparr>"

lemma removed_users:
  assumes "acc_wf s" and "f < length (users s)"
    and sh: "shifted f (length (users s)) (lt_usernames s) ns" "shifted f (length (users s)) (lt_passwords s) ps"
  shows "users (removed ns ps s) = take f (users s) @ drop (f + 1) (users s)"
proof (rule nth_equalityI)
  let ?m = "nat (lt_userCnt s - 1)"
  have n: "nat (lt_userCnt s) = Suc ?m" "?m < MAX_USER" "0 \<le> lt_userCnt s - 1"
    using assms by (auto simp: acc_wf_def acc_ok_def)
  show "length (users (removed ns ps s)) = length (take f (users s) @ drop (f + 1) (users s))"
    using n assms(2) by (simp add: removed_def)
  fix i assume "i < length (users (removed ns ps s))"
  then have i: "i < ?m" by (simp add: removed_def)
  have same: "ns[?m := zero_row] ! i = ns ! i" "ps[?m := zero_row] ! i = ps ! i" using i by simp_all
  show "users (removed ns ps s) ! i = (take f (users s) @ drop (f + 1) (users s)) ! i"
  proof (cases "i < f")
    case True
    then show ?thesis using same i n sh assms(2) by (simp add: users_nth nth_append shifted_def removed_def)
  next
    case False
    have "cstr (ns ! i) = cstr (lt_usernames s ! (i + 1))" "cstr (ps ! i) = cstr (lt_passwords s ! (i + 1))"
      using sh False i n by (auto simp: shifted_def)
    then show ?thesis using same i n False assms(2) by (simp add: users_nth nth_append removed_def)
  qed
qed

lemma removed_wf:
  assumes "acc_wf s" and "f < length (users s)"
    and sh: "shifted f (length (users s)) (lt_usernames s) ns" "shifted f (length (users s)) (lt_passwords s) ps"
  shows "acc_wf (removed ns ps s)"
proof -
  let ?m = "nat (lt_userCnt s - 1)"
  have n: "nat (lt_userCnt s) = Suc ?m" "?m < MAX_USER" "0 \<le> lt_userCnt s - 1"
    using assms by (auto simp: acc_wf_def acc_ok_def)
  have rows: "\<forall>r \<in> set ns. length r = MAX_LEN + 1 \<and> terminated r" "\<forall>r \<in> set ps. length r = MAX_LEN + 1 \<and> terminated r"
    using sh by (simp_all add: shifted_def)
  have zr: "length zero_row = MAX_LEN + 1 \<and> terminated zero_row" by (simp add: zero_row_def terminated_def)
  have "\<forall>r \<in> set (ns[?m := zero_row]). length r = MAX_LEN + 1 \<and> terminated r"
      "\<forall>r \<in> set (ps[?m := zero_row]). length r = MAX_LEN + 1 \<and> terminated r"
    by (rule ball_update [OF rows(1)], rule zr) (rule ball_update [OF rows(2)], rule zr)
  then have "acc_ok (removed ns ps s)"
    using assms(1) n(2,3) sh by (simp add: removed_def acc_ok_def acc_wf_def shifted_def ball_Un)
  moreover have "distinct (take f (map fst (users s)) @ drop (f + 1) (map fst (users s)))"
    using assms(1) by (auto simp: acc_wf_def set_take_disj_set_drop_if_distinct)
  then have "distinct (map fst (users (removed ns ps s)))"
    unfolding removed_users [OF assms] by (simp add: take_map drop_map)
  moreover have "ns[?m := zero_row] ! i = zero_row \<and> ps[?m := zero_row] ! i = zero_row" if "?m \<le> i" "i < MAX_USER" for i
  proof (cases "i = ?m")
    case True
    then show ?thesis using that(2) sh by (simp add: shifted_def)
  next
    case False
    then have "Suc ?m \<le> i" using that by simp
    then show ?thesis using False that(2) sh assms(1) n(1) by (simp add: shifted_def acc_wf_def)
  qed
  ultimately show ?thesis unfolding acc_wf_def by (simp add: removed_def)
qed

text \<open>
  C13. The table refines a list of users without repeated names. Entering a user appends to the list when
  the table has room, the name and the password have 2 to 15 bytes and the name is new, and is refused without effect
  otherwise; taking out the user at position \<open>f\<close>, which moves the later rows up one at a time and clears the last,
  deletes that element. Both keep the table well formed.
\<close>

theorem user_list_refines:
  assumes "acc_wf s" and "terminated u" and "terminated w"
  shows "(if may_enter s u w
      then \<exists>t. enter_user u w s = Ret True t \<and> users t = users s @ [(cstr u, cstr w)] \<and> acc_wf t \<and> lt_userIdx t = lt_userIdx s
      else enter_user u w s = Ret False s)
    \<and> (\<forall>f < length (users s). \<exists>t. remove_user f s = Ret () t \<and> users t = take f (users s) @ drop (f + 1) (users s)
         \<and> acc_wf t \<and> lt_userIdx t = lt_userIdx s)"
proof (intro conjI allI impI)
  show "if may_enter s u w
      then \<exists>t. enter_user u w s = Ret True t \<and> users t = users s @ [(cstr u, cstr w)] \<and> acc_wf t \<and> lt_userIdx t = lt_userIdx s
      else enter_user u w s = Ret False s"
    using enter_user_run [OF assms] entered_users [OF assms(1)] entered_wf [OF assms(1)] by (auto simp: entered_def)
  fix f assume f: "f < length (users s)"
  obtain ns ps where run: "kfor [f + 1..<nat (lt_userCnt s)] shift_row s = Ret () (s\<lparr>lt_usernames := ns, lt_passwords := ps\<rparr>)"
    and sh: "shifted f (length (users s)) (lt_usernames s) ns" "shifted f (length (users s)) (lt_passwords s) ps"
    using remove_user_rows [OF assms(1) f] by blast
  have "remove_user f s = Ret () (removed ns ps s)"
    using run by (simp add: remove_user_def removed_def kernel_simps zero_row_def del: replicate.simps)
  moreover have "lt_userIdx (removed ns ps s) = lt_userIdx s" by (simp add: removed_def)
  ultimately show "\<exists>t. remove_user f s = Ret () t \<and> users t = take f (users s) @ drop (f + 1) (users s)
      \<and> acc_wf t \<and> lt_userIdx t = lt_userIdx s"
    using removed_users [OF assms(1) f sh] removed_wf [OF assms(1) f sh] by blast
qed

section \<open>The format of the file\<close>

definition passwd_line :: "byte list \<times> byte list \<Rightarrow> byte list" where
  "passwd_line x = fst x @ [45] @ snd x @ [47]"

text \<open>A row with a string of its own, and a table whose first rows hold the strings.\<close>

definition row_of :: "byte list \<Rightarrow> byte list" where
  "row_of u = u @ replicate (MAX_LEN + 1 - length u) 0"

definition tab :: "byte list list \<Rightarrow> byte list list" where
  "tab us = map row_of us @ replicate (MAX_USER - length us) zero_row"

lemma load_name:
  assumes "0 \<notin> set xs" and "45 \<notin> set xs" and "idx < length ns" and "idx \<noteq> MAX_USER" and "length pre + length xs \<le> length (ns ! idx)"
    and "take (length pre) (ns ! idx) = pre"
  shows "load_loop (xs @ 45 # cs) idx False (length pre) ns ps
    = load_loop cs idx True 0 (ns[idx := pre @ xs @ drop (length pre + length xs) (ns ! idx)]) ps"
  using assms
proof (induction xs arbitrary: pre ns)
  case Nil
  have "pre @ drop (length pre) (ns ! idx) = ns ! idx" using Nil.prems(6) by (metis append_take_drop_id)
  then show ?case using Nil.prems by simp
next
  case (Cons x xs)
  let ?r = "ns ! idx" and ?k = "length pre"
  let ?ns = "ns[idx := ?r[?k := x]]"
  have k: "?k < length ?r" using Cons.prems(5) by simp
  have t: "take (length (pre @ [x])) (?ns ! idx) = pre @ [x]"
    using Cons.prems(3,6) k by (simp add: take_Suc_conv_app_nth)
  have "load_loop (xs @ 45 # cs) idx False (length (pre @ [x])) ?ns ps
      = load_loop cs idx True 0 (?ns[idx := (pre @ [x]) @ xs @ drop (length (pre @ [x]) + length xs) (?ns ! idx)]) ps"
    by (rule Cons.IH) (use Cons.prems k t in auto)
  then show ?case using Cons.prems k by (simp add: row_put_def drop_update_cancel)
qed

lemma load_password:
  assumes "0 \<notin> set xs" and "47 \<notin> set xs" and "idx < length ps" and "idx \<noteq> MAX_USER" and "length pre + length xs \<le> length (ps ! idx)"
    and "take (length pre) (ps ! idx) = pre"
  shows "load_loop (xs @ 47 # cs) idx True (length pre) ns ps
    = load_loop cs (idx + 1) False 0 ns (ps[idx := pre @ xs @ drop (length pre + length xs) (ps ! idx)])"
  using assms
proof (induction xs arbitrary: pre ps)
  case Nil
  have "pre @ drop (length pre) (ps ! idx) = ps ! idx" using Nil.prems(6) by (metis append_take_drop_id)
  then show ?case using Nil.prems by simp
next
  case (Cons x xs)
  let ?r = "ps ! idx" and ?k = "length pre"
  let ?ps = "ps[idx := ?r[?k := x]]"
  have k: "?k < length ?r" using Cons.prems(5) by simp
  have t: "take (length (pre @ [x])) (?ps ! idx) = pre @ [x]"
    using Cons.prems(3,6) k by (simp add: take_Suc_conv_app_nth)
  have "load_loop (xs @ 47 # cs) idx True (length (pre @ [x])) ns ?ps
      = load_loop cs (idx + 1) False 0 ns (?ps[idx := (pre @ [x]) @ xs @ drop (length (pre @ [x]) + length xs) (?ps ! idx)])"
    by (rule Cons.IH) (use Cons.prems k t in auto)
  then show ?case using Cons.prems k by (simp add: row_put_def drop_update_cancel)
qed

text \<open>What a name and a password must not hold for the file to be read back.\<close>

definition printable :: "byte list \<times> byte list \<Rightarrow> bool" where
  "printable x \<longleftrightarrow> 0 \<notin> set (fst x) \<and> 45 \<notin> set (fst x) \<and> length (fst x) \<le> MAX_LEN
     \<and> 0 \<notin> set (snd x) \<and> 47 \<notin> set (snd x) \<and> length (snd x) \<le> MAX_LEN"

lemma tab_simps [simp]: "length us \<le> MAX_USER \<Longrightarrow> length (tab us) = MAX_USER"
  by (simp add: tab_def)

lemma tab_put:
  assumes "length us < MAX_USER" and "length u \<le> MAX_LEN"
  shows "(tab us)[length us := u @ drop (length u) (tab us ! length us)] = tab (us @ [u])"
proof -
  have "replicate (MAX_USER - length us) zero_row = zero_row # replicate (MAX_USER - length (us @ [u])) zero_row"
    using assms(1) by (simp flip: replicate_Suc add: Suc_diff_Suc)
  then have "tab us = map row_of us @ zero_row # replicate (MAX_USER - length (us @ [u])) zero_row" by (simp add: tab_def)
  moreover have "u @ drop (length u) zero_row = row_of u" by (simp add: row_of_def zero_row_def del: replicate.simps)
  ultimately show ?thesis by (simp add: tab_def nth_append list_update_append)
qed

lemma tab_fresh: "length us < MAX_USER \<Longrightarrow> tab us ! length us = zero_row"
  by (simp add: tab_def nth_append)

lemma load_lines:
  assumes "\<forall>x \<in> set vs. printable x" and "length us + length vs \<le> MAX_USER"
  shows "load_loop (concat (map passwd_line vs) @ 0 # z) (length us) False 0 (tab (map fst us)) (tab (map snd us))
    = Some (length (us @ vs), tab (map fst (us @ vs)), tab (map snd (us @ vs)))"
  using assms
proof (induction vs arbitrary: us)
  case Nil
  then show ?case by simp
next
  case (Cons x vs)
  let ?n = "length us" and ?r = "concat (map passwd_line vs) @ 0 # z"
  have p: "printable x" "?n < MAX_USER" using Cons.prems by auto
  have z: "tab (map fst us) ! ?n = zero_row" "tab (map snd us) ! ?n = zero_row" "length zero_row = MAX_LEN + 1"
    using p(2) tab_fresh [of "map fst us"] tab_fresh [of "map snd us"] by (simp_all add: zero_row_def)
  have "load_loop (fst x @ 45 # snd x @ 47 # ?r) ?n False 0 (tab (map fst us)) (tab (map snd us))
      = load_loop (snd x @ 47 # ?r) ?n True 0 (tab (map fst us @ [fst x])) (tab (map snd us))"
    using load_name [of "fst x" ?n "tab (map fst us)" "[]" "snd x @ 47 # ?r" "tab (map snd us)"] p z tab_put [of "map fst us" "fst x"]
    by (simp add: printable_def)
  also have "\<dots> = load_loop ?r (?n + 1) False 0 (tab (map fst us @ [fst x])) (tab (map snd us @ [snd x]))"
    using load_password [of "snd x" ?n "tab (map snd us)" "[]" ?r "tab (map fst us @ [fst x])"] p z tab_put [of "map snd us" "snd x"]
    by (simp add: printable_def)
  also have "\<dots> = Some (length ((us @ [x]) @ vs), tab (map fst ((us @ [x]) @ vs)), tab (map snd ((us @ [x]) @ vs)))"
    using Cons.IH [of "us @ [x]"] Cons.prems by simp
  finally show ?case by (simp add: passwd_line_def [of x])
qed

text \<open>A buffer that has been overwritten from its start.\<close>

definition over :: "byte list \<Rightarrow> byte list \<Rightarrow> byte list" where
  "over xs buf = xs @ drop (length xs) buf"

lemma over_step:
  assumes "length xs + length (cstr src) \<le> length buf"
  shows "terminated src \<Longrightarrow> copy_at (length xs) src (over xs buf) = Some (over (xs @ cstr src) buf)"
    and "length xs < length buf \<Longrightarrow> put_at (length xs) c (over xs buf) = Some (over (xs @ [c]) buf)"
  using assms by (simp_all add: copy_at_def strlen_cstr strncpy_run put_at_def over_def add.commute list_update_append
      Cons_nth_drop_Suc [symmetric])

lemma flush_line_run:
  assumes "terminated name" and "terminated pw" and "length (cstr name) + length (cstr pw) + 3 \<le> length buf"
  shows "\<exists>b. flush_line name pw buf = Some b \<and> length b = length buf \<and> terminated b \<and> cstr b = passwd_line (cstr name, cstr pw)"
proof -
  let ?u = "cstr name" and ?w = "cstr pw"
  let ?l = "?u @ [45] @ ?w @ [47]"
  have "copy_at 0 name buf = Some (over ?u buf)" using over_step(1) [of "[]" name buf] assms by (simp add: over_def)
  moreover have "put_at (length ?u) 45 (over ?u buf) = Some (over (?u @ [45]) buf)"
    by (rule over_step(2) [of _ "[0]"]) (use assms in simp_all)
  moreover have "copy_at (length ?u + 1) pw (over (?u @ [45]) buf) = Some (over (?u @ [45] @ ?w) buf)"
    using over_step(1) [of "?u @ [45]" pw buf] assms by simp
  moreover have "put_at (length ?u + 1 + length ?w) 47 (over (?u @ [45] @ ?w) buf) = Some (over ?l buf)"
    using over_step(2) [of "?u @ [45] @ ?w" "[0]" buf 47] assms by simp
  moreover have "put_at (length ?u + 1 + length ?w + 1) 0 (over ?l buf) = Some (over (?l @ [0]) buf)"
    using over_step(2) [of ?l "[0]" buf 0] assms by simp
  ultimately have "flush_line name pw buf = Some (over (?l @ [0]) buf)"
    using assms(1,2) by (simp add: flush_line_def strlen_cstr)
  moreover have "0 \<notin> set ?l" using cstr_nonzero by auto
  then have "cstr (over (?l @ [0]) buf) = ?l" using cstr_str [of ?l] by (simp add: over_def)
  ultimately show ?thesis using assms(3) by (auto simp: over_def terminated_def passwd_line_def)
qed

lemma users_tab:
  assumes "length us \<le> MAX_USER" and "\<forall>x \<in> set us. printable x"
  shows "users (s\<lparr>lt_usernames := tab (map fst us), lt_passwords := tab (map snd us), lt_userCnt := int (length us)\<rparr>) = us"
proof (rule nth_equalityI)
  fix i assume "i < length (users (s\<lparr>lt_usernames := tab (map fst us), lt_passwords := tab (map snd us), lt_userCnt := int (length us)\<rparr>))"
  then have i: "i < length us" by simp
  then have "printable (us ! i)" using assms(2) by simp
  then have "cstr (row_of (fst (us ! i))) = fst (us ! i)" "cstr (row_of (snd (us ! i))) = snd (us ! i)"
    by (simp_all add: row_of_def printable_def cstr_pad del: replicate.simps)
  then show "users (s\<lparr>lt_usernames := tab (map fst us), lt_passwords := tab (map snd us), lt_userCnt := int (length us)\<rparr>) ! i = us ! i"
    using i by (simp add: users_nth tab_def nth_append)
qed simp

lemma passwd_fits:
  assumes "\<forall>x \<in> set us. printable x"
  shows "length (concat (map passwd_line us)) \<le> (MAX_LEN * 2 + 2) * length us"
  using assms by (induction us) (auto simp: passwd_line_def printable_def algebra_simps)

text \<open>
  C15. The lines that the user list is written as are read back to the same list: \<^verbatim>\<open>flushUsers\<close>
  builds, in whatever its buffer held before, one line for each user, and the loop of \<^verbatim>\<open>loadUsers\<close> over those lines in a
  zeroed buffer fills an empty table with exactly these users, if no name has a \<^verbatim>\<open>-\<close> and no password a \<^verbatim>\<open>/\<close>.
\<close>

theorem passwd_roundtrip:
  assumes "acc_wf s" and "\<forall>x \<in> set (users s). 45 \<notin> set (fst x) \<and> 47 \<notin> set (snd x)"
    and "length buf = MAX_LEN * 2 + 2 + 1"
  shows "(\<forall>i < length (users s). \<exists>b. flush_line (lt_usernames s ! i) (lt_passwords s ! i) buf = Some b
      \<and> length b = length buf \<and> strlen b = Some (length (passwd_line (users s ! i))) \<and> cstr b = passwd_line (users s ! i))
    \<and> (\<exists>ns ps. load_loop (overlay 0 (concat (map passwd_line (users s))) (replicate passwd_size 0)) 0 False 0
          (replicate MAX_USER zero_row) (replicate MAX_USER zero_row) = Some (length (users s), ns, ps)
        \<and> users (s\<lparr>lt_usernames := ns, lt_passwords := ps, lt_userCnt := int (length (users s))\<rparr>) = users s)"
proof -
  have ok: "acc_ok s" and n: "length (users s) \<le> MAX_USER" using assms(1) by (auto simp: acc_wf_def acc_ok_def)
  have row: "length (fst (users s ! i)) \<le> MAX_LEN" "length (snd (users s ! i)) \<le> MAX_LEN"
      "0 \<notin> set (fst (users s ! i))" "0 \<notin> set (snd (users s ! i))" if "i < length (users s)" for i
    using that n acc_rows [OF ok, of i] cstr_shorter [of "lt_usernames s ! i"] cstr_shorter [of "lt_passwords s ! i"]
    by (simp_all add: users_nth cstr_nonzero)
  have pr: "\<forall>x \<in> set (users s). printable x"
  proof
    fix x assume x: "x \<in> set (users s)"
    then obtain i where "i < length (users s)" "x = users s ! i" by (metis in_set_conv_nth)
    then show "printable x" using row [of i] assms(2) x by (simp add: printable_def)
  qed
  have "\<exists>b. flush_line (lt_usernames s ! i) (lt_passwords s ! i) buf = Some b
      \<and> length b = length buf \<and> strlen b = Some (length (passwd_line (users s ! i))) \<and> cstr b = passwd_line (users s ! i)"
    if i: "i < length (users s)" for i
  proof -
    have "i < MAX_USER" using i n by simp
    note t = acc_rows [OF ok this]
    show ?thesis using flush_line_run [OF t(1,2), of buf] row [OF i] i assms(3) by (auto simp: users_nth strlen_cstr)
  qed
  moreover have "length (concat (map passwd_line (users s))) < passwd_size"
    using passwd_fits [OF pr] mult_le_mono2 [OF n, of "MAX_LEN * 2 + 2"] by (simp add: passwd_size_def)
  then have "\<exists>z. overlay 0 (concat (map passwd_line (users s))) (replicate passwd_size (0 :: byte)) = concat (map passwd_line (users s)) @ 0 # z"
    by (simp add: overlay_def Suc_diff_Suc flip: replicate_Suc) (metis Suc_diff_Suc replicate_Suc)
  then have "\<exists>ns ps. load_loop (overlay 0 (concat (map passwd_line (users s))) (replicate passwd_size 0)) 0 False 0
          (replicate MAX_USER zero_row) (replicate MAX_USER zero_row) = Some (length (users s), ns, ps)
        \<and> users (s\<lparr>lt_usernames := ns, lt_passwords := ps, lt_userCnt := int (length (users s))\<rparr>) = users s"
    using load_lines [of "users s" "[]"] users_tab [OF n pr, of s] pr n by (auto simp: tab_def)
  ultimately show ?thesis by blast
qed

section \<open>A table to run the operations on\<close>

definition user_ex :: "(string \<times> string) list \<Rightarrow> int \<Rightarrow> file_st" where
  "user_ex us idx = pipe_st.extend
     (fs_st.extend (fs_ex [] (superblock_of zblock) (acc_ex us idx [] tiny_disk))
        (pipe_st.fields (\<lambda>_. \<lparr>pi_data = [], pi_nread = 0, pi_nwrite = 0, pi_readopen = False, pi_writeopen = False\<rparr>)))
     (file_st.fields [])"

lemma user_ex_sel:
  "lt_userCnt (user_ex us idx) = int (length us)" "lt_userIdx (user_ex us idx) = idx"
  "lt_usernames (user_ex us idx) = map (\<lambda>u. user_cell (fst u)) us @ replicate (MAX_USER - length us) (user_cell [])"
  "lt_passwords (user_ex us idx) = map (\<lambda>u. user_cell (snd u)) us @ replicate (MAX_USER - length us) (user_cell [])"
  by (simp_all add: user_ex_def fs_ex_def acc_ex_def wal_st.defs acc_st.defs fs_st.defs pipe_st.defs file_st.defs)

definition some_users :: file_st where
  "some_users = user_ex [(''root'', ''0000''), (''eve'', ''1234''), (''bob'', ''a-b'')] 1"

lemma some_users_list: "users some_users = [(str ''root'', str ''0000''), (str ''eve'', str ''1234''), (str ''bob'', str ''a-b'')]"
  by (simp add: users_def some_users_def user_ex_sel MAX_USER_def user_cell_def str_def MAX_LEN_def upt_rec)

lemma some_users_wf: "acc_wf some_users"
proof -
  have "acc_ok some_users" using user_cell_row by (auto simp: acc_ok_def some_users_def user_ex_sel MAX_USER_def MAX_LEN_def)
  moreover have "distinct (map fst (users some_users))" by (simp add: some_users_list str_def)
  moreover have "user_cell [] = zero_row" by (simp add: user_cell_def zero_row_def str_def)
  ultimately show ?thesis by (auto simp: acc_wf_def some_users_def user_ex_sel nth_append)
qed

theorem login_correct_witness:
  "\<exists>i. login (user_cell ''bob'') (user_cell ''a-b'') some_users = Ret 0 (some_users\<lparr>lt_userIdx := int i\<rparr>)
     \<and> current_user (some_users\<lparr>lt_userIdx := int i\<rparr>) = str ''bob''"
proof -
  have c: "cstr (user_cell ''bob'') = str ''bob''" "cstr (user_cell ''a-b'') = str ''a-b''"
    "terminated (user_cell ''bob'')" "terminated (user_cell ''a-b'')"
    by (simp_all add: user_cell_def str_def MAX_LEN_def)
  show ?thesis using login_correct [OF some_users_wf c(3,4)] by (auto simp: c(1,2) some_users_list split: if_splits)
qed

theorem user_list_refines_witness:
  "\<exists>t u. enter_user (user_cell ''ann'') (user_cell ''pw'') some_users = Ret True t
     \<and> users t = users some_users @ [(str ''ann'', str ''pw'')]
     \<and> remove_user 1 some_users = Ret () u \<and> users u = [(str ''root'', str ''0000''), (str ''bob'', str ''a-b'')]"
proof -
  have c: "cstr (user_cell ''ann'') = str ''ann''" "cstr (user_cell ''pw'') = str ''pw''"
    "terminated (user_cell ''ann'')" "terminated (user_cell ''pw'')"
    by (simp_all add: user_cell_def str_def MAX_LEN_def)
  have "may_enter some_users (user_cell ''ann'') (user_cell ''pw'')"
    unfolding may_enter_def some_users_list c by (simp add: str_def MAX_USER_def MAX_LEN_def)
  moreover have "1 < length (users some_users)" by (simp add: some_users_list del: length_users)
  ultimately show ?thesis using user_list_refines [OF some_users_wf c(3,4)] by (auto simp: c(1,2) some_users_list)
qed

theorem passwd_roundtrip_witness:
  "\<exists>ns ps. load_loop (overlay 0 (str ''root-0000/eve-1234/bob-a-b/'') (replicate passwd_size 0)) 0 False 0
      (replicate MAX_USER zero_row) (replicate MAX_USER zero_row) = Some (3, ns, ps)
    \<and> users (some_users\<lparr>lt_usernames := ns, lt_passwords := ps, lt_userCnt := 3\<rparr>) = users some_users"
proof -
  have "\<forall>x \<in> set (users some_users). 45 \<notin> set (fst x) \<and> 47 \<notin> set (snd x)" by (simp add: some_users_list str_def)
  from passwd_roundtrip [OF some_users_wf this, of "replicate (MAX_LEN * 2 + 2 + 1) 0"]
  have *: "\<exists>ns ps. load_loop (overlay 0 (concat (map passwd_line (users some_users))) (replicate passwd_size 0)) 0 False 0
          (replicate MAX_USER zero_row) (replicate MAX_USER zero_row) = Some (length (users some_users), ns, ps)
        \<and> users (some_users\<lparr>lt_usernames := ns, lt_passwords := ps, lt_userCnt := int (length (users some_users))\<rparr>) = users some_users"
    unfolding length_replicate by blast
  have "concat (map passwd_line (users some_users)) = str ''root-0000/eve-1234/bob-a-b/''" "length (users some_users) = 3"
    by (simp_all add: some_users_list passwd_line_def str_def del: length_users)
  then show ?thesis using * by simp
qed

end
