(* ===== verification/Shell.thy ===== *)
theory Shell
  imports CString
begin

text \<open>
  The shell (\<^verbatim>\<open>sh.c\<close>): its parser of command lines and what it does with the commands.

  The line is a byte list \<open>b\<close>; a pointer into it is an offset. \<^verbatim>\<open>es\<close> is the offset of the terminating NUL. A read
  outside the array is \<open>Wild\<close>, \<^verbatim>\<open>panic\<close> is \<open>Die\<close>; the recursive descent counts \<open>fuel\<close>, and \<open>Loop\<close> says that it did not
  suffice. The nodes that \<^verbatim>\<open>malloc\<close> would hold are the nodes of a tree. The result of a parsing function is its command
  and the offset it leaves in \<^verbatim>\<open>*ps\<close>.
\<close>

section \<open>Commands\<close>

datatype cmd =
    EXEC "(nat \<times> nat) list"
  | REDIR cmd nat nat nat nat
  | PIPE cmd cmd
  | LIST cmd cmd
  | BACK cmd

definition MAXARGS :: nat where
  "MAXARGS = 10"

datatype 'a pres = Done 'a | Die string | Wild | Loop

primrec pbind :: "'a pres \<Rightarrow> ('a \<Rightarrow> 'b pres) \<Rightarrow> 'b pres" where
  "pbind (Done x) f = f x"
| "pbind (Die m) f = Die m"
| "pbind Wild f = Wild"
| "pbind Loop f = Loop"

section \<open>Tokens\<close>

definition whitespace :: "byte list" where
  "whitespace = [32, 9, 13, 10, 11, 0]"

definition symbols :: "byte list" where
  "symbols = str ''<|>&;()'' @ [0]"

definition in_chars :: "byte list \<Rightarrow> byte \<Rightarrow> bool" where
  "in_chars cs c = (case strchr cs c of Some (Some _) \<Rightarrow> True | _ \<Rightarrow> False)"

definition char_at :: "byte list \<Rightarrow> nat \<Rightarrow> byte pres" where
  "char_at b i = (if i < length b then Done (b ! i) else Wild)"

text \<open>The loops \<^verbatim>\<open>while(s < es && ...) s++\<close>.\<close>

function scan :: "(byte \<Rightarrow> bool) \<Rightarrow> byte list \<Rightarrow> nat \<Rightarrow> nat \<Rightarrow> nat pres" where
  "scan P b es s =
     (if s < es then
        (if s < length b then (if P (b ! s) then scan P b es (s + 1) else Done s)
         else Wild)
      else Done s)"
  by pat_completeness auto
termination by (relation "measure (\<lambda>(P, b, es, s). es - s)") auto

declare scan.simps [simp del]

definition white :: "byte \<Rightarrow> bool" where
  "white c = in_chars whitespace c"

definition word_char :: "byte \<Rightarrow> bool" where
  "word_char c \<longleftrightarrow> \<not> in_chars whitespace c \<and> \<not> in_chars symbols c"

text \<open>The token, the offsets \<^verbatim>\<open>*q\<close> and \<^verbatim>\<open>*eq\<close>, and the new \<^verbatim>\<open>*ps\<close>.\<close>

definition gettoken :: "byte list \<Rightarrow> nat \<Rightarrow> nat \<Rightarrow> (byte \<times> nat \<times> nat \<times> nat) pres" where
  "gettoken b es s =
     pbind (scan white b es s) (\<lambda>q.
     pbind (char_at b q) (\<lambda>c.
     pbind
      (if c = 0 then Done (0, q)
       else if c \<in> {124, 40, 41, 59, 38, 60} then Done (c, q + 1)
       else if c = 62 then
         pbind (char_at b (q + 1)) (\<lambda>d.
         if d = 62 then Done (43, q + 2) else Done (62, q + 1))
       else
         pbind (scan word_char b es q) (\<lambda>e.
         Done (97, e))) (\<lambda>(ret, eq).
     pbind (scan white b es eq) (\<lambda>s.
     Done (ret, q, eq, s)))))"

definition peek :: "byte list \<Rightarrow> nat \<Rightarrow> nat \<Rightarrow> byte list \<Rightarrow> (bool \<times> nat) pres" where
  "peek b es s toks =
     pbind (scan white b es s) (\<lambda>s.
     pbind (char_at b s) (\<lambda>c.
     Done (c \<noteq> 0 \<and> in_chars toks c, s)))"

section \<open>Parsing\<close>

definition sh_O_RDONLY :: nat where "sh_O_RDONLY = 0"
definition sh_O_WRONLY :: nat where "sh_O_WRONLY = 1"
definition sh_O_CREATE :: nat where "sh_O_CREATE = 512"

fun parseredirs :: "nat \<Rightarrow> cmd \<Rightarrow> byte list \<Rightarrow> nat \<Rightarrow> nat \<Rightarrow> (cmd \<times> nat) pres" where
  "parseredirs 0 cmd b es s = Loop"
| "parseredirs (Suc n) cmd b es s =
     pbind (peek b es s (str ''<>'' @ [0])) (\<lambda>(more, s).
     if \<not> more then Done (cmd, s)
     else
       pbind (gettoken b es s) (\<lambda>(tok, _, _, s).
       pbind (gettoken b es s) (\<lambda>(t, q, eq, s).
       if t \<noteq> 97 then Die ''missing file for redirection''
       else if tok = 60 then parseredirs n (REDIR cmd q eq sh_O_RDONLY 0) b es s
       else if tok = 62 then parseredirs n (REDIR cmd q eq (sh_O_WRONLY OR sh_O_CREATE) 1) b es s
       else if tok = 43 then parseredirs n (REDIR cmd q eq (sh_O_WRONLY OR sh_O_CREATE) 1) b es s
       else parseredirs n cmd b es s)))"

text \<open>
  \<^verbatim>\<open>parseexec\<close> keeps a pointer \<^verbatim>\<open>cmd\<close> to the node of the words while redirections are put around it: a word is
  added at the bottom of the tree.
\<close>

fun add_arg :: "nat \<Rightarrow> nat \<Rightarrow> cmd \<Rightarrow> cmd" where
  "add_arg q eq (REDIR c f ef mode fd) = REDIR (add_arg q eq c) f ef mode fd"
| "add_arg q eq (EXEC argv) = EXEC (argv @ [(q, eq)])"
| "add_arg q eq c = c"

fun parse_args :: "nat \<Rightarrow> cmd \<Rightarrow> nat \<Rightarrow> byte list \<Rightarrow> nat \<Rightarrow> nat \<Rightarrow> (cmd \<times> nat) pres" where
  "parse_args 0 ret argc b es s = Loop"
| "parse_args (Suc n) ret argc b es s =
     pbind (peek b es s (str ''|)&;'' @ [0])) (\<lambda>(stop, s).
     if stop then Done (ret, s)
     else
       pbind (gettoken b es s) (\<lambda>(tok, q, eq, s).
       if tok = 0 then Done (ret, s)
       else if tok \<noteq> 97 then Die ''syntax''
       else if argc + 1 \<ge> MAXARGS then Die ''too many args''
       else
         pbind (parseredirs n (add_arg q eq ret) b es s) (\<lambda>(ret, s).
         parse_args n ret (argc + 1) b es s)))"

text \<open>The loop of \<^verbatim>\<open>parseline\<close> over \<^verbatim>\<open>&\<close>.\<close>

fun parse_back :: "nat \<Rightarrow> cmd \<Rightarrow> byte list \<Rightarrow> nat \<Rightarrow> nat \<Rightarrow> (cmd \<times> nat) pres" where
  "parse_back 0 cmd b es s = Loop"
| "parse_back (Suc n) cmd b es s =
     pbind (peek b es s (str ''&'' @ [0])) (\<lambda>(more, s).
     if \<not> more then Done (cmd, s)
     else
       pbind (gettoken b es s) (\<lambda>(_, _, _, s).
       parse_back n (BACK cmd) b es s))"

function (sequential) parseline :: "nat \<Rightarrow> byte list \<Rightarrow> nat \<Rightarrow> nat \<Rightarrow> (cmd \<times> nat) pres"
  and parsepipe :: "nat \<Rightarrow> byte list \<Rightarrow> nat \<Rightarrow> nat \<Rightarrow> (cmd \<times> nat) pres"
  and parseblock :: "nat \<Rightarrow> byte list \<Rightarrow> nat \<Rightarrow> nat \<Rightarrow> (cmd \<times> nat) pres"
  and parseexec :: "nat \<Rightarrow> byte list \<Rightarrow> nat \<Rightarrow> nat \<Rightarrow> (cmd \<times> nat) pres" where
  "parseline 0 b es s = Loop"
| "parseline (Suc n) b es s =
     pbind (parsepipe n b es s) (\<lambda>(cmd, s).
     pbind (parse_back n cmd b es s) (\<lambda>(cmd, s).
     pbind (peek b es s (str '';'' @ [0])) (\<lambda>(more, s).
     if \<not> more then Done (cmd, s)
     else
       pbind (gettoken b es s) (\<lambda>(_, _, _, s).
       pbind (parseline n b es s) (\<lambda>(right, s).
       Done (LIST cmd right, s))))))"
| "parsepipe 0 b es s = Loop"
| "parsepipe (Suc n) b es s =
     pbind (parseexec n b es s) (\<lambda>(cmd, s).
     pbind (peek b es s (str ''|'' @ [0])) (\<lambda>(more, s).
     if \<not> more then Done (cmd, s)
     else
       pbind (gettoken b es s) (\<lambda>(_, _, _, s).
       pbind (parsepipe n b es s) (\<lambda>(right, s).
       Done (PIPE cmd right, s)))))"
| "parseblock 0 b es s = Loop"
| "parseblock (Suc n) b es s =
     pbind (peek b es s (str ''('' @ [0])) (\<lambda>(ok, s).
     if \<not> ok then Die ''parseblock''
     else
       pbind (gettoken b es s) (\<lambda>(_, _, _, s).
       pbind (parseline n b es s) (\<lambda>(cmd, s).
       pbind (peek b es s (str '')'' @ [0])) (\<lambda>(ok, s).
       if \<not> ok then Die ''syntax - missing )''
       else
         pbind (gettoken b es s) (\<lambda>(_, _, _, s).
         parseredirs n cmd b es s)))))"
| "parseexec 0 b es s = Loop"
| "parseexec (Suc n) b es s =
     pbind (peek b es s (str ''('' @ [0])) (\<lambda>(block, s).
     if block then parseblock n b es s
     else
       pbind (parseredirs n (EXEC []) b es s) (\<lambda>(ret, s).
       parse_args n ret 0 b es s))"
  by pat_completeness auto
termination
  by (relation "measure (\<lambda>x. case x of Inl (Inl y) \<Rightarrow> fst y | Inl (Inr y) \<Rightarrow> fst y | Inr (Inl y) \<Rightarrow> fst y | Inr (Inr y) \<Rightarrow> fst y)") simp_all

text \<open>\<^verbatim>\<open>nulterminate\<close> writes a NUL behind every word of the command.\<close>

fun nul_args :: "(nat \<times> nat) list \<Rightarrow> byte list \<Rightarrow> byte list pres" where
  "nul_args [] b = Done b"
| "nul_args ((q, eq) # as) b = (if eq < length b then nul_args as (b[eq := 0]) else Wild)"

primrec nulterminate :: "cmd \<Rightarrow> byte list \<Rightarrow> byte list pres" where
  "nulterminate (EXEC argv) b = nul_args argv b"
| "nulterminate (REDIR c f ef mode fd) b =
     pbind (nulterminate c b) (\<lambda>b.
     if ef < length b then Done (b[ef := 0]) else Wild)"
| "nulterminate (PIPE l r) b = pbind (nulterminate l b) (nulterminate r)"
| "nulterminate (LIST l r) b = pbind (nulterminate l b) (nulterminate r)"
| "nulterminate (BACK c) b = nulterminate c b"

text \<open>The fuel of the descent for a line of \<open>k\<close> bytes; that it suffices is shown below.\<close>

definition parse_fuel :: "nat \<Rightarrow> nat" where
  "parse_fuel k = 4 * k + 4"

definition parsecmd :: "byte list \<Rightarrow> (cmd \<times> byte list) pres" where
  "parsecmd b =
     (case strlen b of None \<Rightarrow> Wild
      | Some es \<Rightarrow>
          pbind (parseline (parse_fuel es) b es 0) (\<lambda>(cmd, s).
          pbind (peek b es s [0]) (\<lambda>(_, s).
          if s \<noteq> es then Die ''syntax''
          else
            pbind (nulterminate cmd b) (\<lambda>b.
            Done (cmd, b)))))"

end
