(* ===== verification/Shell_Parse.thy ===== *)
theory Shell_Parse
  imports Shell
begin

text \<open>
  The parser of the shell always comes to an end, inside its buffer: rules for the results of parsing functions, and a
  bound on the descent.
\<close>

section \<open>Rules for the results of the parser\<close>

text \<open>\<open>phas\<close>: in bounds, in fuel, and if it does not die the result satisfies \<open>Q\<close>; \<open>pdoes\<close>: it does not die either.\<close>

definition phas :: "'a pres \<Rightarrow> ('a \<Rightarrow> bool) \<Rightarrow> bool" where
  "phas r Q = (case r of Done x \<Rightarrow> Q x | Die m \<Rightarrow> True | Wild \<Rightarrow> False | Loop \<Rightarrow> False)"

definition pdoes :: "'a pres \<Rightarrow> ('a \<Rightarrow> bool) \<Rightarrow> bool" where
  "pdoes r Q = (case r of Done x \<Rightarrow> Q x | Die m \<Rightarrow> False | Wild \<Rightarrow> False | Loop \<Rightarrow> False)"

lemma phas_simps [simp]: "phas (Done x) Q = Q x" "phas (Die m) Q = True" "phas Wild Q = False" "phas Loop Q = False"
  by (simp_all add: phas_def)

lemma pdoes_simps [simp]: "pdoes (Done x) Q = Q x" "pdoes (Die m) Q = False" "pdoes Wild Q = False" "pdoes Loop Q = False"
  by (simp_all add: pdoes_def)

lemma phas_bind [simp]: "phas (pbind r f) Q = phas r (\<lambda>x. phas (f x) Q)"
  by (cases r) simp_all

lemma pdoes_bind [simp]: "pdoes (pbind r f) Q = pdoes r (\<lambda>x. pdoes (f x) Q)"
  by (cases r) simp_all

lemma phas_mono: "phas r P \<Longrightarrow> (\<And>x. P x \<Longrightarrow> Q x) \<Longrightarrow> phas r Q"
  by (cases r) simp_all

lemma pdoes_mono: "pdoes r P \<Longrightarrow> (\<And>x. P x \<Longrightarrow> Q x) \<Longrightarrow> pdoes r Q"
  by (cases r) simp_all

lemma pdoes_Done: "pdoes r Q \<longleftrightarrow> (\<exists>x. r = Done x \<and> Q x)"
  by (cases r) simp_all

lemma pdoes_phas: "pdoes r Q \<Longrightarrow> phas r Q"
  by (cases r) simp_all

section \<open>Tokens stay in the line\<close>

text \<open>A line of \<open>es\<close> bytes in its buffer.\<close>

definition line :: "byte list \<Rightarrow> nat \<Rightarrow> bool" where
  "line b es \<longleftrightarrow> es < length b \<and> b ! es = 0 \<and> (\<forall>i < es. b ! i \<noteq> 0)"

lemma scan_run:
  assumes "es < length b" and "s \<le> es"
  shows "pdoes (scan P b es s) (\<lambda>e. s \<le> e \<and> e \<le> es \<and> (\<forall>i. s \<le> i \<longrightarrow> i < e \<longrightarrow> P (b ! i)) \<and> (e < es \<longrightarrow> \<not> P (b ! e)))"
  using assms
proof (induction P b es s rule: scan.induct)
  case (1 P b es s)
  show ?case
  proof (cases "s < es \<and> P (b ! s)")
    case True
    then have "pdoes (scan P b es (s + 1)) (\<lambda>e. s + 1 \<le> e \<and> e \<le> es \<and> (\<forall>i. s + 1 \<le> i \<longrightarrow> i < e \<longrightarrow> P (b ! i)) \<and> (e < es \<longrightarrow> \<not> P (b ! e)))"
      using 1 by simp
    then have "pdoes (scan P b es (s + 1)) (\<lambda>e. s \<le> e \<and> e \<le> es \<and> (\<forall>i. s \<le> i \<longrightarrow> i < e \<longrightarrow> P (b ! i)) \<and> (e < es \<longrightarrow> \<not> P (b ! e)))"
      by (rule pdoes_mono) (use True in \<open>auto simp: Suc_le_eq nat_less_le\<close>)
    then show ?thesis using True 1(2) by (subst scan.simps) simp
  next
    case False
    then show ?thesis using 1(2,3) by (subst scan.simps) auto
  qed
qed

lemma in_chars_list [simp]:
  "in_chars [0] c \<longleftrightarrow> False"
  "x \<noteq> 0 \<Longrightarrow> in_chars (x # xs) c \<longleftrightarrow> c = x \<or> in_chars xs c"
  by (auto simp: in_chars_def split: option.splits)

lemma white_iff: "white c \<longleftrightarrow> c = 32 \<or> c = 9 \<or> c = 13 \<or> c = 10 \<or> c = 11"
  by (simp add: white_def whitespace_def)

lemma symbol_iff: "in_chars symbols c \<longleftrightarrow> c \<in> {60, 124, 62, 38, 59, 40, 41}"
  by (simp add: symbols_def str_def)

lemma word_char_iff: "word_char c \<longleftrightarrow> \<not> white c \<and> c \<notin> {60, 124, 62, 38, 59, 40, 41}"
  by (simp add: word_char_def white_def symbol_iff)

lemma in_chars_lits:
  "in_chars (str ''<>'' @ [0]) c \<longleftrightarrow> c = 60 \<or> c = 62"
  "in_chars (str ''|)&;'' @ [0]) c \<longleftrightarrow> c = 124 \<or> c = 41 \<or> c = 38 \<or> c = 59"
  "in_chars (str ''&'' @ [0]) c \<longleftrightarrow> c = 38"
  "in_chars (str '';'' @ [0]) c \<longleftrightarrow> c = 59"
  "in_chars (str ''|'' @ [0]) c \<longleftrightarrow> c = 124"
  "in_chars (str ''('' @ [0]) c \<longleftrightarrow> c = 40"
  "in_chars (str '')'' @ [0]) c \<longleftrightarrow> c = 41"
  by (simp_all add: str_def)

lemma peek_run:
  assumes "line b es" and "s \<le> es"
  shows "pdoes (peek b es s cs) (\<lambda>(ok, s'). s \<le> s' \<and> s' \<le> es \<and> \<not> white (b ! s') \<and> (ok \<longleftrightarrow> b ! s' \<noteq> 0 \<and> in_chars cs (b ! s')))"
proof -
  have "es < length b" "\<not> white (b ! es)" using assms(1) by (auto simp: line_def white_iff)
  then show ?thesis unfolding peek_def pdoes_bind
    by (intro pdoes_mono [OF scan_run]) (use assms in \<open>auto simp: char_at_def le_less\<close>)
qed

text \<open>A token other than the end of the line takes at least one byte.\<close>

lemma gettoken_run:
  assumes "line b es" and "s \<le> es"
  shows "pdoes (gettoken b es s) (\<lambda>(t, q, e, s'). s \<le> q \<and> q \<le> e \<and> e \<le> s' \<and> s' \<le> es
    \<and> (t \<noteq> 0 \<longrightarrow> q < e) \<and> (s < es \<longrightarrow> \<not> white (b ! s) \<longrightarrow> t \<noteq> 0))"
proof -
  have l: "es < length b" "b ! es = 0" "\<And>i. i < es \<Longrightarrow> b ! i \<noteq> 0" "\<not> white (b ! es)"
    using assms(1) by (auto simp: line_def white_iff)
  let ?Q = "\<lambda>(t, q, e, s'). s \<le> q \<and> q \<le> e \<and> e \<le> s' \<and> s' \<le> es \<and> (t \<noteq> (0 :: byte) \<longrightarrow> q < e) \<and> (s < es \<longrightarrow> \<not> white (b ! s) \<longrightarrow> t \<noteq> 0)"
  have tail: "pdoes (scan white b es e) (\<lambda>s'. ?Q (t, q, e, s'))"
    if "s \<le> q" "q \<le> e" "e \<le> es" "t \<noteq> 0 \<longrightarrow> q < e" "s < es \<longrightarrow> \<not> white (b ! s) \<longrightarrow> t \<noteq> 0" for t q e
    by (rule pdoes_mono [OF scan_run]) (use l that in auto)
  show ?thesis unfolding gettoken_def pdoes_bind
  proof (rule pdoes_mono [OF scan_run [OF l(1) assms(2)]], elim conjE)
    fix q assume q: "s \<le> q" "q \<le> es" "\<forall>i. s \<le> i \<longrightarrow> i < q \<longrightarrow> white (b ! i)" "q < es \<longrightarrow> \<not> white (b ! q)"
    have q': "\<not> white (b ! q)" using q l by (cases "q = es") auto
    have eq: "q = s" if "\<not> white (b ! s)" using q(1,3) that by (metis le_less le_refl)
    have qe: "q < es" if "b ! q \<noteq> 0" using q(2) l(2) that by (cases "q = es") auto
    have word: "pdoes (scan word_char b es q) (\<lambda>e. q < e \<and> e \<le> es)"
      if "b ! q \<noteq> 0" "b ! q \<notin> {124, 40, 41, 59, 38, 60}" "b ! q \<noteq> 62"
    proof (rule pdoes_mono [OF scan_run [OF l(1) q(2)]])
      fix e assume "q \<le> e \<and> e \<le> es \<and> (\<forall>i\<ge>q. i < e \<longrightarrow> word_char (b ! i)) \<and> (e < es \<longrightarrow> \<not> word_char (b ! e))"
      moreover have "word_char (b ! q)" using that q' by (auto simp: word_char_iff)
      ultimately show "q < e \<and> e \<le> es" using qe [OF that(1)] by (cases "q = e") auto
    qed
    show "pdoes (char_at b q) (\<lambda>c. pdoes (if c = 0 then Done (0, q) else if c \<in> {124, 40, 41, 59, 38, 60} then Done (c, q + 1)
        else if c = 62 then pbind (char_at b (q + 1)) (\<lambda>d. if d = 62 then Done (43, q + 2) else Done (62, q + 1))
        else pbind (scan word_char b es q) (\<lambda>e. Done (97, e)))
        (\<lambda>x. pdoes (case x of (ret, eq) \<Rightarrow> pbind (scan white b es eq) (\<lambda>s. Done (ret, q, eq, s))) ?Q))"
    proof -
      consider "b ! q = 0" | "b ! q \<noteq> 0" "b ! q \<in> {124, 40, 41, 59, 38, 60}" | "b ! q = 62"
        | "b ! q \<noteq> 0" "b ! q \<notin> {124, 40, 41, 59, 38, 60}" "b ! q \<noteq> 62" by blast
      then show ?thesis
      proof cases
        case 1
        have "s < es \<longrightarrow> \<not> white (b ! s) \<longrightarrow> (0 :: byte) \<noteq> 0" using 1 eq l(3) by auto
        then show ?thesis using 1 q(1,2) l(1) tail [of q q 0] by (simp add: char_at_def)
      next
        case 2
        then show ?thesis using q(1,2) l(1) qe tail [of q "q + 1" "b ! q"] by (simp add: char_at_def)
      next
        case 3
        have "q + 2 \<le> es" if "b ! (q + 1) = 62" using that qe 3 l(2) by (cases "q + 1 = es") auto
        then show ?thesis
          using 3 q(1,2) l(1) qe tail [of q "q + 1" 62] tail [of q "q + 2" 43] by (simp add: char_at_def)
      next
        case 4
        then have "pdoes (scan word_char b es q) (\<lambda>e. pdoes (scan white b es e) (\<lambda>s'. ?Q (97, q, e, s')))"
          using q(1) by (intro pdoes_mono [OF word] tail) auto
        then show ?thesis using 4 q(2) l(1) by (simp add: char_at_def)
      qed
    qed
  qed
qed

section \<open>The parser comes to an end\<close>

primrec ends :: "cmd \<Rightarrow> nat list" where
  "ends (EXEC argv) = map snd argv"
| "ends (REDIR c f ef mode fd) = ends c @ [ef]"
| "ends (PIPE l r) = ends l @ ends r"
| "ends (LIST l r) = ends l @ ends r"
| "ends (BACK c) = ends c"

abbreviation inside :: "nat \<Rightarrow> cmd \<Rightarrow> bool" where
  "inside es c \<equiv> \<forall>e \<in> set (ends c). e \<le> es"

text \<open>What a parsing function leaves behind: a command with offsets in the line, and a place further on.\<close>

definition fwd :: "nat \<Rightarrow> nat \<Rightarrow> cmd \<times> nat \<Rightarrow> bool" where
  "fwd es s x \<longleftrightarrow> inside es (fst x) \<and> s \<le> snd x \<and> snd x \<le> es"

lemma fwd_pair [simp]: "fwd es s (c, s') \<longleftrightarrow> inside es c \<and> s \<le> s' \<and> s' \<le> es"
  by (simp add: fwd_def)

lemma fwd_trans: "phas r (fwd es s') \<Longrightarrow> s \<le> s' \<Longrightarrow> phas r (fwd es s)"
  by (erule phas_mono) (auto simp: fwd_def)

lemma peek_then:
  assumes "line b es" and "s \<le> es"
    and "\<And>ok s'. s \<le> s' \<Longrightarrow> s' \<le> es \<Longrightarrow> ok \<longleftrightarrow> b ! s' \<noteq> 0 \<and> in_chars cs (b ! s') \<Longrightarrow> \<not> white (b ! s') \<Longrightarrow> Q (ok, s')"
  shows "phas (peek b es s cs) Q"
  by (rule pdoes_phas, rule pdoes_mono [OF peek_run [OF assms(1,2), of cs]]) (use assms(3) in auto)

lemma token_then:
  assumes "line b es" and "s \<le> es"
    and "\<And>t q e s'. s \<le> q \<Longrightarrow> q \<le> e \<Longrightarrow> e \<le> s' \<Longrightarrow> s' \<le> es \<Longrightarrow> t \<noteq> 0 \<longrightarrow> q < e \<Longrightarrow> Q (t, q, e, s')"
  shows "phas (gettoken b es s) Q"
  by (rule pdoes_phas, rule pdoes_mono [OF gettoken_run [OF assms(1,2)]]) (use assms(3) in auto)

text \<open>A token that was peeked at is there.\<close>

lemma peeked_token_then:
  assumes "line b es" and "s \<le> es" and "b ! s \<noteq> 0" and "\<not> white (b ! s)"
    and "\<And>t q e s'. s \<le> q \<Longrightarrow> q < e \<Longrightarrow> e \<le> s' \<Longrightarrow> s' \<le> es \<Longrightarrow> Q (t, q, e, s')"
  shows "phas (gettoken b es s) Q"
proof -
  have "s < es" using assms(1-3) by (cases "s = es") (auto simp: line_def)
  then show ?thesis
    by (intro pdoes_phas, intro pdoes_mono [OF gettoken_run [OF assms(1,2)]]) (use assms(4,5) in auto)
qed

lemma phas_then:
  assumes "phas r (fwd es s)" and "\<And>c s'. inside es c \<Longrightarrow> s \<le> s' \<Longrightarrow> s' \<le> es \<Longrightarrow> Q (c, s')"
  shows "phas r Q"
  by (rule phas_mono [OF assms(1)]) (use assms(2) in \<open>auto simp: fwd_def\<close>)

lemma parseredirs_fwd:
  assumes "line b es" and "s \<le> es" and "inside es c" and "es - s < n"
  shows "phas (parseredirs n c b es s) (fwd es s)"
  using assms(2-)
proof (induction n arbitrary: c s)
  case (Suc n)
  have step: "phas (gettoken b es s2) (\<lambda>x. phas (case x of (t, q, eq, s) \<Rightarrow>
      if t \<noteq> 97 then Die ''missing file for redirection''
      else if tok = 60 then parseredirs n (REDIR c q eq sh_O_RDONLY 0) b es s
      else if tok = 62 then parseredirs n (REDIR c q eq (sh_O_WRONLY OR sh_O_CREATE) 1) b es s
      else if tok = 43 then parseredirs n (REDIR c q eq (sh_O_WRONLY OR sh_O_CREATE) 1) b es s
      else parseredirs n c b es s) (fwd es s))" if "s < s2" "s2 \<le> es" for s2 and tok :: byte
    by (rule token_then [OF assms(1) that(2)]) (use Suc.prems that in \<open>auto intro!: fwd_trans [OF Suc.IH]\<close>)
  show ?case unfolding parseredirs.simps phas_bind
  proof (rule peek_then [OF assms(1) Suc.prems(1)], unfold prod.case, split if_split, intro conjI impI, goal_cases)
    case (2 ok s1)
    then show ?case unfolding phas_bind by (intro peeked_token_then [OF assms(1)]) (auto intro: step)
  qed (use Suc.prems in simp)
qed simp

lemma ends_add_arg: "set (ends (add_arg q e c)) \<subseteq> insert e (set (ends c))"
  by (induction q e c rule: add_arg.induct) auto

lemma parse_args_fwd:
  assumes "line b es" and "s \<le> es" and "inside es c" and "es - s < n"
  shows "phas (parse_args n c argc b es s) (fwd es s)"
  using assms(2-)
proof (induction n arbitrary: c argc s)
  case (Suc n)
  have step: "phas (parseredirs n (add_arg q e c) b es s2) (\<lambda>x. phas (case x of (ret, s) \<Rightarrow> parse_args n ret (Suc argc) b es s) (fwd es s))"
    if "s < e" "e \<le> s2" "s2 \<le> es" for q e s2
  proof -
    have "inside es (add_arg q e c)" using ends_add_arg [of q e c] Suc.prems(2) that by auto
    then show ?thesis
      by (intro phas_then [OF parseredirs_fwd [OF assms(1) that(3)]])
        (use Suc.prems that in \<open>auto intro!: fwd_trans [OF Suc.IH]\<close>)
  qed
  show ?case unfolding parse_args.simps phas_bind
    by (rule peek_then [OF assms(1) Suc.prems(1)])
      (use Suc.prems step in \<open>auto intro!: token_then [OF assms(1)]\<close>)
qed simp

lemma parse_back_fwd:
  assumes "line b es" and "s \<le> es" and "inside es c" and "es - s < n"
  shows "phas (parse_back n c b es s) (fwd es s)"
  using assms(2-)
proof (induction n arbitrary: c s)
  case (Suc n)
  show ?case unfolding parse_back.simps phas_bind
    by (rule peek_then [OF assms(1) Suc.prems(1)])
      (use Suc.prems in \<open>auto intro!: peeked_token_then [OF assms(1)] fwd_trans [OF Suc.IH]\<close>)
qed simp

lemma parse_fwd:
  assumes "line b es"
  shows "(s \<le> es \<longrightarrow> 4 * (es - s) + 4 \<le> n \<longrightarrow> phas (parseline n b es s) (fwd es s))
    \<and> (s \<le> es \<longrightarrow> 4 * (es - s) + 3 \<le> n \<longrightarrow> phas (parsepipe n b es s) (fwd es s))
    \<and> (s < es \<longrightarrow> 4 * (es - s) + 1 \<le> n \<longrightarrow> phas (parseblock n b es s) (fwd es s))
    \<and> (s \<le> es \<longrightarrow> 4 * (es - s) + 2 \<le> n \<longrightarrow> phas (parseexec n b es s) (fwd es s))"
proof (induction n arbitrary: s)
  case (Suc n)
  note IHl = Suc.IH [THEN conjunct1, rule_format] and IHp = Suc.IH [THEN conjunct2, THEN conjunct1, rule_format]
    and IHb = Suc.IH [THEN conjunct2, THEN conjunct2, THEN conjunct1, rule_format]
    and IHe = Suc.IH [THEN conjunct2, THEN conjunct2, THEN conjunct2, rule_format]
  have "phas (parseline (Suc n) b es s) (fwd es s)" if s: "s \<le> es" "4 * (es - s) + 4 \<le> Suc n"
  proof -
    have IHl: "phas (parseline n b es s1) (fwd es s1)" if "s < s1" "s1 \<le> es" for s1 by (rule IHl) (use that s in auto)
    show ?thesis unfolding parseline.simps phas_bind
    by (rule phas_then [OF IHp], use s in \<open>simp, simp, unfold prod.case phas_bind\<close>,
        rule phas_then [OF parse_back_fwd [OF assms]], use s in \<open>simp, simp, simp, unfold prod.case phas_bind\<close>,
        rule peek_then [OF assms])
      (use s in \<open>auto intro!: peeked_token_then [OF assms] phas_then [OF IHl]\<close>)
  qed
  moreover have "phas (parsepipe (Suc n) b es s) (fwd es s)" if s: "s \<le> es" "4 * (es - s) + 3 \<le> Suc n"
  proof -
    have IHp: "phas (parsepipe n b es s1) (fwd es s1)" if "s < s1" "s1 \<le> es" for s1 by (rule IHp) (use that s in auto)
    show ?thesis unfolding parsepipe.simps phas_bind
    by (rule phas_then [OF IHe], use s in \<open>simp, simp, unfold prod.case phas_bind\<close>, rule peek_then [OF assms])
      (use s in \<open>auto intro!: peeked_token_then [OF assms] phas_then [OF IHp]\<close>)
  qed
  moreover have "phas (parseblock (Suc n) b es s) (fwd es s)" if s: "s < es" "4 * (es - s) + 1 \<le> Suc n"
  proof -
    have "phas (parseline n b es s1) (\<lambda>x. phas (peek b es (snd x) (str '')'' @ [0])) (\<lambda>x'.
        fst x' \<longrightarrow> phas (gettoken b es (snd x')) (\<lambda>y. phas (parseredirs n (fst x) b es (snd (snd (snd y)))) (fwd es s))))"
      if s1: "s < s1" "s1 \<le> es" for s1
      by (rule phas_then [OF IHl], use s s1 in \<open>simp, simp, unfold fst_conv snd_conv\<close>, rule peek_then [OF assms])
        (use s s1 in \<open>auto intro!: peeked_token_then [OF assms] fwd_trans [OF parseredirs_fwd [OF assms]]\<close>)
    then show ?thesis unfolding parseblock.simps phas_bind
      by (intro peek_then [OF assms]) (use s in \<open>auto intro!: peeked_token_then [OF assms] simp: case_prod_beta\<close>)
  qed
  moreover have "phas (parseexec (Suc n) b es s) (fwd es s)" if s: "s \<le> es" "4 * (es - s) + 2 \<le> Suc n"
  proof -
    have "phas (parseredirs n (EXEC []) b es s1) (\<lambda>x. phas (case x of (ret, s) \<Rightarrow> parse_args n ret 0 b es s) (fwd es s))"
      if s1: "s \<le> s1" "s1 \<le> es" for s1
      by (rule phas_then [OF parseredirs_fwd [OF assms]]) (use s s1 in \<open>auto intro!: fwd_trans [OF parse_args_fwd [OF assms]]\<close>)
    moreover have "phas (parseblock n b es s1) (fwd es s)" if s1: "s \<le> s1" "s1 \<le> es" "b ! s1 \<noteq> 0" for s1
    proof -
      have "s1 < es" using s1 assms by (cases "s1 = es") (auto simp: line_def)
      then show ?thesis using s s1 by (intro fwd_trans [OF IHb]) auto
    qed
    ultimately show ?thesis unfolding parseexec.simps phas_bind
      by (intro peek_then [OF assms]) (use s in auto)
  qed
  ultimately show ?case by blast
qed simp

lemma nul_args_run: "\<forall>a \<in> set as. snd a < length b \<Longrightarrow> nul_args as b = Done (foldl (\<lambda>b e. b[e := 0]) b (map snd as))"
  by (induction as b rule: nul_args.induct) auto

lemma length_foldl_upd [simp]: "length (foldl (\<lambda>b e. b[e := 0]) b es) = length b"
  by (induction es arbitrary: b) simp_all

lemma nulterminate_run: "\<forall>e \<in> set (ends c). e < length b \<Longrightarrow> nulterminate c b = Done (foldl (\<lambda>b e. b[e := 0]) b (ends c))"
  by (induction c arbitrary: b) (auto simp: nul_args_run)

lemma line_of:
  assumes "terminated b"
  shows "line b (length (cstr b))"
proof -
  obtain u z where "b = u @ 0 # z" "0 \<notin> set u" using assms split_list_first [of 0 b] by (auto simp: terminated_def)
  moreover have "u ! i \<noteq> 0" if "i < length u" for i using calculation(2) that by (metis nth_mem)
  ultimately show ?thesis by (simp add: line_def cstr_str nth_append)
qed

text \<open>
  C18. The recursive descent of the shell comes to an end on every line and stays inside the buffer: with a
  call depth of at most four levels for each byte of the line it yields a command or an error message, never reads or
  writes a byte outside the array, and writes its NULs at offsets in the line.
\<close>

theorem parsecmd_ends:
  assumes "terminated b"
  shows "parsecmd b \<noteq> Loop \<and> parsecmd b \<noteq> Wild
    \<and> (\<forall>c b'. parsecmd b = Done (c, b') \<longrightarrow> length b' = length b \<and> (\<forall>e \<in> set (ends c). e \<le> length (cstr b)))"
proof -
  let ?es = "length (cstr b)"
  have l: "line b ?es" by (rule line_of [OF assms])
  have p: "phas (parseline (parse_fuel ?es) b ?es 0) (fwd ?es 0)" using parse_fwd [OF l, of 0] by (simp add: parse_fuel_def)
  have "phas (parsecmd b) (\<lambda>(c, b'). length b' = length b \<and> inside ?es c)"
    unfolding parsecmd_def strlen_cstr [OF assms] option.case phas_bind
  proof (rule phas_then [OF p], unfold prod.case phas_bind, rule peek_then [OF l])
    fix c s' ok s'' assume c: "inside ?es c"
    have "nulterminate c b = Done (foldl (\<lambda>b e. b[e := 0]) b (ends c))"
      by (rule nulterminate_run) (use c l in \<open>auto simp: line_def\<close>)
    then show "phas (case (ok, s'') of (_, s) \<Rightarrow> if s \<noteq> ?es then Die ''syntax'' else pbind (nulterminate c b) (\<lambda>b. Done (c, b)))
        (\<lambda>(c, b'). length b' = length b \<and> inside ?es c)" using c by simp
  qed
  then show ?thesis by (cases "parsecmd b") auto
qed

theorem parsecmd_ends_witness:
  "parsecmd (str ''(ls ; wc) > x & '' @ [0]) \<noteq> Loop \<and> parsecmd (str ''(ls ; wc) > x & '' @ [0]) \<noteq> Wild"
  using parsecmd_ends [of "str ''(ls ; wc) > x & '' @ [0]"] by simp

end
