(* ===== verification/Shell_Grammar.thy ===== *)
theory Shell_Grammar
  imports Shell_Parse
begin

text \<open>
  The grammar of command lines, and that the parser of the shell reads back every line of it, however the tokens are
  spaced.
\<close>

section \<open>Lines as sequences of tokens\<close>

datatype tok = Word "byte list" | Sym byte | App

primrec tok_text :: "tok \<Rightarrow> byte list" where
  "tok_text (Word w) = w"
| "tok_text (Sym c) = [c]"
| "tok_text App = [62, 62]"

primrec tok_code :: "tok \<Rightarrow> byte" where
  "tok_code (Word w) = 97"
| "tok_code (Sym c) = c"
| "tok_code App = 43"

definition word_ok :: "byte list \<Rightarrow> bool" where
  "word_ok w \<longleftrightarrow> w \<noteq> [] \<and> (\<forall>c \<in> set w. word_char c \<and> c \<noteq> 0)"

primrec tok_ok :: "tok \<Rightarrow> bool" where
  "tok_ok (Word w) = word_ok w"
| "tok_ok (Sym c) = (c \<in> {60, 124, 62, 38, 59, 40, 41})"
| "tok_ok App = True"

text \<open>Where a token ends: a word must not run into another, nor one \<^verbatim>\<open>>\<close> into the next.\<close>

primrec tok_stops :: "tok \<Rightarrow> byte list \<Rightarrow> bool" where
  "tok_stops (Word w) r \<longleftrightarrow> r = [] \<or> \<not> word_char (hd r)"
| "tok_stops (Sym c) r \<longleftrightarrow> c = 62 \<longrightarrow> r = [] \<or> hd r \<noteq> 62"
| "tok_stops App r \<longleftrightarrow> True"

text \<open>A line laid out from tokens, each with the white space before it, and the white space at the end.\<close>

primrec lay :: "(byte list \<times> tok) list \<Rightarrow> byte list \<Rightarrow> byte list" where
  "lay [] tr = tr"
| "lay (x # xs) tr = fst x @ tok_text (snd x) @ lay xs tr"

primrec fits :: "(byte list \<times> tok) list \<Rightarrow> byte list \<Rightarrow> bool" where
  "fits [] tr \<longleftrightarrow> (\<forall>c \<in> set tr. white c)"
| "fits (x # xs) tr \<longleftrightarrow> (\<forall>c \<in> set (fst x). white c) \<and> tok_ok (snd x) \<and> tok_stops (snd x) (lay xs tr) \<and> fits xs tr"

text \<open>From offset \<open>s\<close> on the line holds the tokens \<open>ts\<close>.\<close>

definition holds :: "byte list \<Rightarrow> nat \<Rightarrow> nat \<Rightarrow> tok list \<Rightarrow> bool" where
  "holds b es s ts \<longleftrightarrow> s \<le> es \<and> (\<exists>xs tr. drop s (take es b) = lay xs tr \<and> fits xs tr \<and> map snd xs = ts)"

text \<open>A word of the line, and what follows it.\<close>

definition span :: "byte list \<Rightarrow> nat \<Rightarrow> nat \<Rightarrow> byte list \<Rightarrow> bool" where
  "span b q e w \<longleftrightarrow> q < e \<and> e < length b \<and> take (e - q) (drop q b) = w \<and> word_ok w \<and> (b ! e = 0 \<or> \<not> word_char (b ! e))"

lemma nth_drop_take:
  assumes "drop s (take es b) = c # r" and "es < length b"
  shows "s < es \<and> b ! s = c \<and> drop (Suc s) (take es b) = r"
proof -
  have "drop s (take es b) \<noteq> []" using assms(1) by simp
  then have "s < length (take es b)" by (simp add: not_le)
  moreover from Cons_nth_drop_Suc [OF this] assms(1)
  have "take es b ! s = c" "drop (Suc s) (take es b) = r" by simp_all
  ultimately show ?thesis by simp
qed

lemma scan_drop:
  assumes "es < length b" and "drop s (take es b) = u @ r" and "s \<le> es" and "\<forall>c \<in> set u. P c" and "r = [] \<or> \<not> P (hd r)"
  shows "scan P b es s = Done (s + length u)"
  using assms
proof (induction u arbitrary: s)
  case Nil
  show ?case
  proof (cases "s < es")
    case True
    then have "r = b ! s # drop (Suc s) (take es b)" using Nil.prems(1,2) by (simp add: Cons_nth_drop_Suc [symmetric])
    then show ?thesis using Nil.prems True by (subst scan.simps) simp
  qed (use Nil.prems in \<open>simp add: scan.simps\<close>)
next
  case (Cons c u)
  then have "s < es" "b ! s = c" "drop (Suc s) (take es b) = u @ r" using nth_drop_take [of s es b c "u @ r"] by simp_all
  then show ?case using Cons.prems Cons.IH [of "Suc s"] by (subst scan.simps) simp
qed

lemma tok_hd: "tok_ok t \<Longrightarrow> tok_text t \<noteq> [] \<and> \<not> white (hd (tok_text t)) \<and> hd (tok_text t) \<noteq> 0"
  by (cases t) (auto simp: word_ok_def word_char_iff white_iff)

text \<open>Skipping the white space in front of the tokens.\<close>

lemma skip_white:
  assumes "line b es" and "holds b es s ts"
  shows "\<exists>q xs tr. scan white b es s = Done q \<and> s \<le> q \<and> q \<le> es \<and> fits xs tr \<and> map snd xs = ts \<and> drop q (take es b) = lay xs tr
    \<and> (case xs of [] \<Rightarrow> tr = [] | x # _ \<Rightarrow> fst x = [])"
proof -
  have es: "es < length b" and s: "s \<le> es" using assms by (simp_all add: line_def holds_def)
  obtain xs tr where x: "drop s (take es b) = lay xs tr" "fits xs tr" "map snd xs = ts" using assms(2) by (auto simp: holds_def)
  have len: "length (drop s (take es b)) = es - s" using es by simp
  show ?thesis
  proof (cases xs)
    case Nil
    then have "scan white b es s = Done (s + length tr)" using x s es by (intro scan_drop [where r = "[]"]) auto
    moreover have "s + length tr = es" using x(1) Nil len s by simp
    ultimately show ?thesis using x Nil s by (intro exI [of _ es] exI [of _ "[]"]) simp
  next
    case (Cons y ys)
    let ?r = "tok_text (snd y) @ lay ys tr"
    have t: "tok_ok (snd y)" "\<forall>c \<in> set (fst y). white c" using x(2) Cons by simp_all
    then have "scan white b es s = Done (s + length (fst y))"
      using x(1) Cons s es tok_hd [OF t(1)] by (intro scan_drop [where r = ?r]) (auto simp: hd_append)
    moreover have "s + length (fst y) \<le> es" using x(1) Cons len s by (metis add.commute le_diff_conv2 le_add1 length_append lay.simps(2))
    moreover have "drop (s + length (fst y)) (take es b) = ?r"
      using x(1) Cons by (metis add.commute append_eq_conv_conj drop_drop lay.simps(2))
    ultimately show ?thesis using x Cons
      by (intro exI [of _ "s + length (fst y)"] exI [of _ "([], snd y) # ys"] exI [of _ tr]) simp
  qed
qed

definition hd_in :: "byte list \<Rightarrow> tok list \<Rightarrow> bool" where
  "hd_in cs ts = (case ts of [] \<Rightarrow> False | t # _ \<Rightarrow> in_chars cs (hd (tok_text t)))"

lemma peek_holds:
  assumes "line b es" and "holds b es s ts"
  shows "\<exists>s'. peek b es s cs = Done (hd_in cs ts, s') \<and> s \<le> s' \<and> holds b es s' ts"
proof -
  obtain q xs tr where q: "scan white b es s = Done q" "s \<le> q" "q \<le> es" "fits xs tr" "map snd xs = ts" "drop q (take es b) = lay xs tr"
      "case xs of [] \<Rightarrow> tr = [] | x # _ \<Rightarrow> fst x = []" using skip_white [OF assms] by blast
  have es: "es < length b" "b ! es = 0" using assms(1) by (auto simp: line_def)
  have h: "holds b es q ts" using q by (auto simp: holds_def)
  show ?thesis
  proof (cases xs)
    case Nil
    then have "q = es" using q(3,6,7) es by simp
    then show ?thesis using q(1,2,5) es h Nil by (auto simp: peek_def char_at_def hd_in_def)
  next
    case (Cons y ys)
    then have y: "tok_ok (snd y)" "fst y = []" "drop q (take es b) = tok_text (snd y) @ lay ys tr" using q by simp_all
    then have "b ! q = hd (tok_text (snd y))" "q < length b"
      using nth_drop_take [of q es b] tok_hd [OF y(1)] es by (cases "tok_text (snd y)"; fastforce)+
    then show ?thesis using q(1,2,5) h Cons tok_hd [OF y(1)] by (auto simp: peek_def char_at_def hd_in_def)
  qed
qed

lemma gettoken_end:
  assumes "line b es" and "holds b es s []"
  shows "\<exists>q e s'. gettoken b es s = Done (0, q, e, s') \<and> s \<le> s' \<and> holds b es s' []"
proof -
  obtain q tr where q: "scan white b es s = Done q" "s \<le> q" "q \<le> es" "drop q (take es b) = []"
    using skip_white [OF assms] by fastforce
  have es: "es < length b" "b ! es = 0" using assms(1) by (auto simp: line_def)
  have "q = es" using q es by simp
  moreover have "scan white b es es = Done es" by (simp add: scan.simps)
  moreover have "holds b es es []" by (auto simp: holds_def intro!: exI [of _ "[]"])
  ultimately show ?thesis using q es by (auto simp: gettoken_def char_at_def)
qed

lemma gettoken_holds:
  assumes "line b es" and "holds b es s (t # ts)"
  shows "\<exists>q e s'. gettoken b es s = Done (tok_code t, q, e, s') \<and> s < s' \<and> holds b es s' ts \<and> (\<forall>w. t = Word w \<longrightarrow> span b q e w)"
proof -
  obtain q xs tr where q: "scan white b es s = Done q" "s \<le> q" "q \<le> es" "fits xs tr" "map snd xs = t # ts" "drop q (take es b) = lay xs tr"
      "case xs of [] \<Rightarrow> tr = [] | x # _ \<Rightarrow> fst x = []" using skip_white [OF assms] by (elim exE conjE)
  obtain y ys where xs: "xs = y # ys" "snd y = t" "map snd ys = ts" using q(5) by auto
  let ?r = "lay ys tr" and ?e = "q + length (tok_text t)"
  have es: "es < length b" "b ! es = 0" using assms(1) by (auto simp: line_def)
  have y: "tok_ok t" "tok_stops t ?r" "fits ys tr" "drop q (take es b) = tok_text t @ ?r" using q xs by auto
  obtain c u where cu: "tok_text t = c # u" using tok_hd [OF y(1)] by (cases "tok_text t") auto
  have c: "b ! q = c" "q < es" "c \<noteq> 0" using nth_drop_take [of q es b c "u @ ?r"] y(4) cu es tok_hd [OF y(1)] by auto
  have re: "drop ?e (take es b) = ?r" using y(4) by (metis add.commute append_eq_conv_conj drop_drop)
  have e: "?e \<le> es" using arg_cong [OF y(4), of length] es c(2) by simp
  have "holds b es ?e ts" unfolding holds_def using e re y(3) xs(3) by blast
  then obtain s' where s': "scan white b es ?e = Done s'" "?e \<le> s'" "holds b es s' ts"
    using skip_white [OF assms(1)] unfolding holds_def by blast
  have stop: "?e = es \<or> ?e < es \<and> ?r \<noteq> [] \<and> b ! ?e = hd ?r"
    using e re nth_drop_take [of ?e es b "hd ?r" "tl ?r"] es by (cases "?r") auto
  have "pbind (char_at b q) (\<lambda>c. pbind
      (if c = 0 then Done (0, q) else if c \<in> {124, 40, 41, 59, 38, 60} then Done (c, q + 1)
       else if c = 62 then pbind (char_at b (q + 1)) (\<lambda>d. if d = 62 then Done (43, q + 2) else Done (62, q + 1))
       else pbind (scan word_char b es q) (\<lambda>e. Done (97, e))) (\<lambda>(ret, eq).
      pbind (scan white b es eq) (\<lambda>s. Done (ret, q, eq, s)))) = Done (tok_code t, q, ?e, s')"
  proof (cases t)
    case (Word w)
    then have w: "word_ok w" "w = c # u" using y(1) cu by simp_all
    then have "scan word_char b es q = Done (q + length w)"
      using y(2,4) Word q(3) es by (intro scan_drop [where r = ?r]) (auto simp: word_ok_def)
    moreover have "c \<notin> {124, 40, 41, 59, 38, 60, 62}" using w by (auto simp: word_ok_def word_char_iff)
    ultimately show ?thesis using c es s'(1) Word w(2) by (simp add: char_at_def)
  next
    case (Sym d)
    have "b ! (q + 1) \<noteq> 62" if "d = 62" using stop y(2) Sym that es by (auto simp: hd_conv_nth)
    then show ?thesis using Sym c cu es s'(1) y(1) by (auto simp: char_at_def)
  next
    case App
    have "b ! (q + 1) = 62"
      using nth_drop_take [of q es b 62 "62 # ?r"] nth_drop_take [of "Suc q" es b 62 "?r"] y(4) App es by simp
    moreover have "c = 62" "u = [62]" using cu App by simp_all
    ultimately show ?thesis using App c es s'(1) e by (simp add: char_at_def)
  qed
  then have g: "gettoken b es s = Done (tok_code t, q, ?e, s')" using q(1) by (simp add: gettoken_def)
  have "span b q ?e w" if "t = Word w" for w
  proof -
    have "take (length w) (drop q (take es b)) = w" using y(4) that by simp
    moreover have "min (length w) (es - q) = length w" using e that by simp
    ultimately have "take (length w) (drop q b) = w" by (simp add: drop_take)
    moreover have "b ! ?e = 0 \<or> \<not> word_char (b ! ?e)" using stop y(2) that es by (auto simp: hd_conv_nth)
    ultimately show ?thesis using y(1) that e es cu by (auto simp: span_def)
  qed
  then show ?thesis using g s'(2,3) q(2) cu by auto
qed

section \<open>The grammar of command lines\<close>

datatype gredir = RIn "byte list" | ROut "byte list" | RApp "byte list"

datatype gitem = GArg "byte list" | GRedir gredir

datatype gline = Line gpipe nat | Then gpipe nat gline
  and gpipe = One gexec | Pipe gexec gpipe
  and gexec = Simple "gitem list" | Block gline "gredir list"

primrec redir_toks :: "gredir \<Rightarrow> tok list" where
  "redir_toks (RIn w) = [Sym 60, Word w]"
| "redir_toks (ROut w) = [Sym 62, Word w]"
| "redir_toks (RApp w) = [App, Word w]"

primrec item_toks :: "gitem \<Rightarrow> tok list" where
  "item_toks (GArg w) = [Word w]"
| "item_toks (GRedir r) = redir_toks r"

primrec line_toks :: "gline \<Rightarrow> tok list"
  and pipe_toks :: "gpipe \<Rightarrow> tok list"
  and exec_toks :: "gexec \<Rightarrow> tok list" where
  "line_toks (Line p n) = pipe_toks p @ replicate n (Sym 38)"
| "line_toks (Then p n l) = pipe_toks p @ replicate n (Sym 38) @ Sym 59 # line_toks l"
| "pipe_toks (One x) = exec_toks x"
| "pipe_toks (Pipe x p) = exec_toks x @ Sym 124 # pipe_toks p"
| "exec_toks (Simple is) = concat (map item_toks is)"
| "exec_toks (Block l rs) = Sym 40 # line_toks l @ Sym 41 # concat (map redir_toks rs)"

text \<open>What a command means: words in place of offsets.\<close>

datatype vcmd = VExec "byte list list" | VRedir vcmd "byte list" nat nat | VPipe vcmd vcmd | VList vcmd vcmd | VBack vcmd

primrec redir_val :: "gredir \<Rightarrow> vcmd \<Rightarrow> vcmd" where
  "redir_val (RIn w) v = VRedir v w sh_O_RDONLY 0"
| "redir_val (ROut w) v = VRedir v w (sh_O_WRONLY OR sh_O_CREATE) 1"
| "redir_val (RApp w) v = VRedir v w (sh_O_WRONLY OR sh_O_CREATE) 1"

definition g_args :: "gitem list \<Rightarrow> byte list list" where
  "g_args is = concat (map (\<lambda>i. case i of GArg w \<Rightarrow> [w] | GRedir r \<Rightarrow> []) is)"

definition g_redirs :: "gitem list \<Rightarrow> gredir list" where
  "g_redirs is = concat (map (\<lambda>i. case i of GArg w \<Rightarrow> [] | GRedir r \<Rightarrow> [r]) is)"

primrec line_val :: "gline \<Rightarrow> vcmd"
  and pipe_val :: "gpipe \<Rightarrow> vcmd"
  and exec_val :: "gexec \<Rightarrow> vcmd" where
  "line_val (Line p n) = (VBack ^^ n) (pipe_val p)"
| "line_val (Then p n l) = VList ((VBack ^^ n) (pipe_val p)) (line_val l)"
| "pipe_val (One x) = exec_val x"
| "pipe_val (Pipe x p) = VPipe (exec_val x) (pipe_val p)"
| "exec_val (Simple is) = fold redir_val (g_redirs is) (VExec (g_args is))"
| "exec_val (Block l rs) = fold redir_val rs (line_val l)"

text \<open>The parser takes at most \<^verbatim>\<open>MAXARGS - 1\<close> words for a command.\<close>

primrec line_fits :: "gline \<Rightarrow> bool"
  and pipe_fits :: "gpipe \<Rightarrow> bool"
  and exec_fits :: "gexec \<Rightarrow> bool" where
  "line_fits (Line p n) = pipe_fits p"
| "line_fits (Then p n l) = (pipe_fits p \<and> line_fits l)"
| "pipe_fits (One x) = exec_fits x"
| "pipe_fits (Pipe x p) = (exec_fits x \<and> pipe_fits p)"
| "exec_fits (Simple is) = (length (g_args is) < MAXARGS)"
| "exec_fits (Block l rs) = line_fits l"

text \<open>A command with offsets stands for one with words.\<close>

fun reads :: "byte list \<Rightarrow> cmd \<Rightarrow> vcmd \<Rightarrow> bool" where
  "reads b (EXEC as) (VExec ws) = list_all2 (\<lambda>a w. span b (fst a) (snd a) w) as ws"
| "reads b (REDIR c q e m d) (VRedir v w m' d') = (reads b c v \<and> span b q e w \<and> m = m' \<and> d = d')"
| "reads b (PIPE l r) (VPipe v w) = (reads b l v \<and> reads b r w)"
| "reads b (LIST l r) (VList v w) = (reads b l v \<and> reads b r w)"
| "reads b (BACK c) (VBack v) = reads b c v"
| "reads b c v = False"

text \<open>Parsed to the value \<open>v\<close>, with the tokens \<open>ts\<close> left.\<close>

definition parsed :: "byte list \<Rightarrow> nat \<Rightarrow> nat \<Rightarrow> vcmd \<Rightarrow> tok list \<Rightarrow> (cmd \<times> nat) pres \<Rightarrow> bool" where
  "parsed b es s v ts r \<longleftrightarrow> (\<exists>c s'. r = Done (c, s') \<and> s \<le> s' \<and> holds b es s' ts \<and> reads b c v)"

definition redir_free :: "tok list \<Rightarrow> bool" where
  "redir_free ts \<longleftrightarrow> \<not> hd_in (str ''<>'' @ [0]) ts"

lemma holds_le: "holds b es s ts \<Longrightarrow> s \<le> es"
  by (simp add: holds_def)

lemma parsed_le: "parsed b es s' v ts r \<Longrightarrow> s \<le> s' \<Longrightarrow> parsed b es s v ts r"
  by (force simp: parsed_def)

lemma parseredirs_parsed:
  assumes "line b es" and "holds b es s (concat (map redir_toks rs) @ ts)" and "redir_free ts" and "reads b c v" and "es - s < n"
  shows "parsed b es s (fold redir_val rs v) ts (parseredirs n c b es s)"
  using assms(2,4,5)
proof (induction rs arbitrary: s c v n)
  case Nil
  obtain k where n: "n = Suc k" using Nil.prems(3) by (cases n) auto
  obtain s' where "peek b es s (str ''<>'' @ [0]) = Done (False, s')" "s \<le> s'" "holds b es s' ts"
    using peek_holds [OF assms(1), of s ts "str ''<>'' @ [0]"] Nil.prems(1) assms(3) by (auto simp: redir_free_def)
  then show ?case using n Nil.prems(2) by (auto simp: parsed_def)
next
  case (Cons r rs)
  obtain k where n: "n = Suc k" using Cons.prems(3) by (cases n) auto
  obtain t w where tw: "redir_toks r = [t, Word w]" "in_chars (str ''<>'' @ [0]) (hd (tok_text t))" by (cases r) (auto simp: in_chars_lits)
  let ?rest = "concat (map redir_toks rs) @ ts"
  have h: "holds b es s (t # Word w # ?rest)" using Cons.prems(1) tw(1) by simp
  obtain s1 where s1: "peek b es s (str ''<>'' @ [0]) = Done (True, s1)" "s \<le> s1" "holds b es s1 (t # Word w # ?rest)"
    using peek_holds [OF assms(1) h, of "str ''<>'' @ [0]"] tw(2) by (auto simp: hd_in_def)
  obtain q1 e1 s2 where s2: "gettoken b es s1 = Done (tok_code t, q1, e1, s2)" "s1 < s2" "holds b es s2 (Word w # ?rest)"
    using gettoken_holds [OF assms(1) s1(3)] by blast
  obtain q e s3 where s3: "gettoken b es s2 = Done (97, q, e, s3)" "s2 < s3" "holds b es s3 ?rest" "span b q e w"
    using gettoken_holds [OF assms(1) s2(3)] by auto
  have k: "es - s3 < k" using Cons.prems(3) n s1(2) s2(2) s3(2) holds_le [OF s3(3)] by linarith
  obtain m d where md: "redir_val r v = VRedir v w m d"
      "parseredirs n c b es s = parseredirs k (REDIR c q e m d) b es s3"
    using n s1(1) s2(1) s3(1) tw(1) by (cases r) auto
  have "parsed b es s3 (fold redir_val rs (VRedir v w m d)) ts (parseredirs k (REDIR c q e m d) b es s3)"
    by (rule Cons.IH) (use s3 Cons.prems(2) k in auto)
  then show ?case unfolding md(2) using md(1) s1(2) s2(2) s3(2) by (auto intro: parsed_le)
qed

definition follows :: "byte set \<Rightarrow> tok list \<Rightarrow> bool" where
  "follows C ts \<longleftrightarrow> (case ts of [] \<Rightarrow> True | t # _ \<Rightarrow> \<exists>c \<in> C. t = Sym c)"

lemma follows_simps [simp]: "follows C []" "follows C (t # ts) \<longleftrightarrow> (\<exists>c \<in> C. t = Sym c)"
  by (simp_all add: follows_def)

lemma hd_in_simps [simp]: "\<not> hd_in cs []" "hd_in cs (t # ts) \<longleftrightarrow> in_chars cs (hd (tok_text t))"
  by (simp_all add: hd_in_def)

lemma holds_ok: "holds b es s ts \<Longrightarrow> t \<in> set ts \<Longrightarrow> tok_ok t"
proof -
  have "tok_ok t" if "fits xs tr" "t \<in> set (map snd xs)" for xs tr using that by (induction xs) auto
  then show "holds b es s ts \<Longrightarrow> t \<in> set ts \<Longrightarrow> tok_ok t" by (auto simp: holds_def)
qed

lemma word_not_in:
  assumes "holds b es s (Word w # ts)" and "\<And>c. in_chars cs c \<Longrightarrow> in_chars symbols c"
  shows "\<not> in_chars cs (hd w)"
  using holds_ok [OF assms(1), of "Word w"] assms(2) [of "hd w"] hd_in_set [of w] by (auto simp: word_ok_def word_char_def)

lemma add_arg_reads:
  assumes "reads b c (fold redir_val rs (VExec ws))" and "span b q e w"
  shows "reads b (add_arg q e c) (fold redir_val rs (VExec (ws @ [w])))"
  using assms(1)
proof (induction rs arbitrary: c rule: rev_induct)
  case Nil
  then show ?case using assms(2) by (cases c) (auto intro: list_all2_appendI)
next
  case (snoc r rs)
  then show ?case by (cases r; cases c) auto
qed

lemma items_split:
  "\<exists>rs is'. is = map GRedir rs @ is' \<and> (is' = [] \<or> (\<exists>w is''. is' = GArg w # is''))"
proof (induction "is")
  case (Cons i "is")
  then obtain rs is' where "is = map GRedir rs @ is'" "is' = [] \<or> (\<exists>w is''. is' = GArg w # is'')" by blast
  then show ?case by (cases i) (force intro: exI [of _ "[]"], force intro: exI [of _ "_ # rs"])
qed simp

lemma item_toks_GRedir [simp]: "item_toks \<circ> GRedir = redir_toks"
  by (simp add: fun_eq_iff)

lemma item_simps [simp]:
  "g_args [] = []" "g_args (GArg w # is) = w # g_args is" "g_args (map GRedir rs @ is) = g_args is"
  "g_redirs [] = []" "g_redirs (GArg w # is) = g_redirs is" "g_redirs (map GRedir rs @ is) = rs @ g_redirs is"
  "concat (map item_toks (map GRedir rs @ is)) = concat (map redir_toks rs) @ concat (map item_toks is)"
  by (simp_all add: g_args_def g_redirs_def comp_def)

lemma parse_args_parsed:
  assumes "line b es" and "follows {124, 41, 38, 59} ts"
    and "holds b es s (concat (map item_toks is) @ ts)" and "is = [] \<or> (\<exists>w is'. is = GArg w # is')"
    and "reads b c (fold redir_val rs (VExec ws))" and "length ws + length (g_args is) < MAXARGS" and "es - s < n"
  shows "parsed b es s (fold redir_val (rs @ g_redirs is) (VExec (ws @ g_args is))) ts (parse_args n c (length ws) b es s)"
  using assms(3-)
proof (induction "length is" arbitrary: "is" s c rs ws n rule: less_induct)
  case less
  obtain k where n: "n = Suc k" using less.prems(5) by (cases n) auto
  let ?stop = "str ''|)&;'' @ [0]"
  have rf: "redir_free ts" using assms(2) by (cases ts) (auto simp: redir_free_def in_chars_lits)
  from less.prems(2) show ?case
  proof (elim disjE exE)
    assume e: "is = []"
    obtain s1 where s1: "peek b es s ?stop = Done (hd_in ?stop ts, s1)" "s \<le> s1" "holds b es s1 ts"
      using peek_holds [OF assms(1), of s ts ?stop] less.prems(1) e by auto
    show ?thesis
    proof (cases ts)
      case Nil
      then obtain q e' s2 where "gettoken b es s1 = Done (0, q, e', s2)" "s1 \<le> s2" "holds b es s2 ts"
        using gettoken_end [OF assms(1), of s1] s1(3) by auto
      then show ?thesis using s1 n e Nil less.prems(3) by (auto simp: parsed_def)
    next
      case (Cons t ts')
      then have "hd_in ?stop ts" using assms(2) by (auto simp: in_chars_lits)
      then show ?thesis using s1 n e less.prems(3) by (auto simp: parsed_def)
    qed
  next
    fix w is' assume e: "is = GArg w # is'"
    obtain rs' is'' where is': "is' = map GRedir rs' @ is''" "is'' = [] \<or> (\<exists>w i. is'' = GArg w # i)" using items_split by blast
    let ?ts = "concat (map item_toks is'') @ ts"
    let ?ts1 = "concat (map redir_toks rs') @ ?ts"
    have h: "holds b es s (Word w # ?ts1)" using less.prems(1) e is' by simp
    have "\<not> in_chars ?stop (hd w)" by (rule word_not_in [OF h]) (auto simp: in_chars_lits symbol_iff)
    then obtain s1 where s1: "peek b es s ?stop = Done (False, s1)" "s \<le> s1" "holds b es s1 (Word w # ?ts1)"
      using peek_holds [OF assms(1) h, of ?stop] by auto
    obtain q e' s2 where s2: "gettoken b es s1 = Done (97, q, e', s2)" "s1 < s2" "holds b es s2 ?ts1" "span b q e' w"
      using gettoken_holds [OF assms(1) s1(3)] by auto
    have k: "es - s2 < k" using less.prems(5) n s1(2) s2(2) holds_le [OF s2(3)] by linarith
    have "redir_free ?ts"
    proof (cases is'')
      case Nil
      then show ?thesis using rf by simp
    next
      case (Cons i l)
      then obtain v where v: "is'' = GArg v # l" using is'(2) by auto
      then have "word_ok v" using holds_ok [OF s2(3), of "Word v"] by simp
      then show ?thesis using v by (auto simp: redir_free_def in_chars_lits word_ok_def word_char_iff)
    qed
    note r = parseredirs_parsed [OF assms(1) s2(3) this add_arg_reads [OF less.prems(3) s2(4)] k]
    then obtain c' s3 where s3: "parseredirs k (add_arg q e' c) b es s2 = Done (c', s3)" "s2 \<le> s3" "holds b es s3 ?ts"
        "reads b c' (fold redir_val rs' (fold redir_val rs (VExec (ws @ [w]))))" by (auto simp: parsed_def)
    have "parsed b es s3 (fold redir_val ((rs @ rs') @ g_redirs is'') (VExec ((ws @ [w]) @ g_args is''))) ts
        (parse_args k c' (length (ws @ [w])) b es s3)"
      by (rule less.hyps) (use e is' s3 less.prems(4) k in auto)
    moreover have "parse_args n c (length ws) b es s = parse_args k c' (length (ws @ [w])) b es s3"
      using n s1(1) s2(1) s3(1) less.prems(4) e is' by simp
    ultimately show ?thesis using e is' s1(2) s2(2) s3(2) by (auto intro: parsed_le)
  qed
qed

lemma parse_back_parsed:
  assumes "line b es" and "follows {41, 59} ts" and "holds b es s (replicate k (Sym 38) @ ts)" and "reads b c v" and "es - s < n"
  shows "parsed b es s ((VBack ^^ k) v) ts (parse_back n c b es s)"
  using assms(3-)
proof (induction k arbitrary: s c v n)
  case 0
  obtain m where n: "n = Suc m" using 0(3) by (cases n) auto
  have "\<not> hd_in (str ''&'' @ [0]) ts" using assms(2) by (cases ts) (auto simp: in_chars_lits)
  then show ?case using peek_holds [OF assms(1), of s ts "str ''&'' @ [0]"] 0 n by (auto simp: parsed_def)
next
  case (Suc k)
  obtain m where n: "n = Suc m" using Suc.prems(3) by (cases n) auto
  let ?ts = "replicate k (Sym 38) @ ts"
  obtain s1 where s1: "peek b es s (str ''&'' @ [0]) = Done (True, s1)" "s \<le> s1" "holds b es s1 (Sym 38 # ?ts)"
    using peek_holds [OF assms(1), of s "Sym 38 # ?ts" "str ''&'' @ [0]"] Suc.prems(1) by (auto simp: in_chars_lits)
  obtain q e s2 where s2: "gettoken b es s1 = Done (38, q, e, s2)" "s1 < s2" "holds b es s2 ?ts"
    using gettoken_holds [OF assms(1) s1(3)] by auto
  have "es - s2 < m" using Suc.prems(3) n s1(2) s2(2) holds_le [OF s2(3)] by linarith
  then have "parsed b es s2 ((VBack ^^ k) (VBack v)) ts (parse_back m (BACK c) b es s2)"
    using s2(3) Suc.prems(2) by (intro Suc.IH) auto
  then show ?case using n s1 s2 by (auto simp: funpow_swap1 intro: parsed_le)
qed

text \<open>A symbol that the parser looks for: it is taken if it is there, and the parser stays where it is otherwise.\<close>

lemma peek_take:
  assumes "line b es" and "holds b es s (Sym c # ts)" and "in_chars cs c"
  obtains s1 q e s2 where "peek b es s cs = Done (True, s1)" "s \<le> s1" "holds b es s1 (Sym c # ts)"
    "gettoken b es s1 = Done (c, q, e, s2)" "s1 < s2" "holds b es s2 ts"
proof -
  obtain s1 where s1: "peek b es s cs = Done (True, s1)" "s \<le> s1" "holds b es s1 (Sym c # ts)"
    using peek_holds [OF assms(1,2), of cs] assms(3) by auto
  obtain q e s2 where "gettoken b es s1 = Done (c, q, e, s2)" "s1 < s2" "holds b es s2 ts"
    using gettoken_holds [OF assms(1) s1(3)] by auto
  then show thesis using that s1 by blast
qed

lemma peek_skip:
  assumes "line b es" and "holds b es s ts" and "\<not> hd_in cs ts"
  obtains s1 where "peek b es s cs = Done (False, s1)" "s \<le> s1" "holds b es s1 ts"
  using peek_holds [OF assms(1,2), of cs] assms(3) by auto

lemma parsedE:
  assumes "parsed b es s v ts r"
  obtains c s' where "r = Done (c, s')" "s \<le> s'" "holds b es s' ts" "reads b c v"
  using assms by (auto simp: parsed_def)

lemma word_hd: "word_ok w \<Longrightarrow> word_char (hd w)"
  by (cases w) (auto simp: word_ok_def)

lemma first_tok:
  assumes "ts = [] \<or> (\<exists>w t. ts = Word w # t \<and> word_ok w) \<or> (\<exists>c t. ts = Sym c # t \<and> c \<in> {124, 41, 38, 59})"
  shows "redir_free ts" "\<not> hd_in (str ''('' @ [0]) ts"
  using assms by (auto simp: redir_free_def in_chars_lits dest!: word_hd simp: word_char_iff)

lemma parse_simple:
  assumes "line b es" and "follows {124, 41, 38, 59} ts" and "holds b es s (concat (map item_toks is) @ ts)"
    and "length (g_args is) < MAXARGS" and "es - s < n"
  shows "parsed b es s (exec_val (Simple is)) ts (parseexec (Suc n) b es s)"
proof -
  obtain rs is' where i: "is = map GRedir rs @ is'" "is' = [] \<or> (\<exists>w i. is' = GArg w # i)" using items_split by blast
  let ?ts = "concat (map item_toks is') @ ts"
  have h: "holds b es s (concat (map redir_toks rs) @ ?ts)" using assms(3) i by simp
  have first: "?ts = [] \<or> (\<exists>w t. ?ts = Word w # t \<and> word_ok w) \<or> (\<exists>c t. ?ts = Sym c # t \<and> c \<in> {124, 41, 38, 59})"
    using i(2) holds_ok [OF h] assms(2) by (cases ts) (fastforce simp: holds_ok)+
  note nb = first_tok [OF first]
  have nb2: "\<not> hd_in (str ''('' @ [0]) (concat (map redir_toks rs) @ ?ts)"
  proof (cases rs)
    case Nil
    then show ?thesis using nb(2) by simp
  next
    case (Cons r l)
    then show ?thesis by (cases r) (auto simp: in_chars_lits)
  qed
  obtain s1 where s1: "peek b es s (str ''('' @ [0]) = Done (False, s1)" "s \<le> s1" "holds b es s1 (concat (map redir_toks rs) @ ?ts)"
    using peek_skip [OF assms(1) h nb2] by blast
  have "parsed b es s1 (fold redir_val rs (VExec [])) ?ts (parseredirs n (EXEC []) b es s1)"
    by (rule parseredirs_parsed [OF assms(1) s1(3) nb(1)]) (use s1(2) assms(5) in auto)
  then obtain c s2 where s2: "parseredirs n (EXEC []) b es s1 = Done (c, s2)" "s1 \<le> s2" "holds b es s2 ?ts"
      "reads b c (fold redir_val rs (VExec []))" by (rule parsedE)
  have "parsed b es s2 (fold redir_val (rs @ g_redirs is') (VExec ([] @ g_args is'))) ts (parse_args n c (length ([] :: byte list list)) b es s2)"
    by (rule parse_args_parsed [OF assms(1,2) s2(3) i(2) s2(4)]) (use assms(4,5) i s1 s2 in auto)
  then show ?thesis using s1 s2 i(1) by (auto intro: parsed_le)
qed

lemma line_head:
  assumes "line b es" and "follows {41, 59} ts" and "parsed b es s v (replicate k (Sym 38) @ ts) (parsepipe n b es s)" and "es - s < n"
  obtains c s1 c' s' where "parsepipe n b es s = Done (c, s1)" "parse_back n c b es s1 = Done (c', s')" "s \<le> s'" "holds b es s' ts"
    "reads b c' ((VBack ^^ k) v)"
proof -
  from assms(3) obtain c s1 where c: "parsepipe n b es s = Done (c, s1)" "s \<le> s1" "holds b es s1 (replicate k (Sym 38) @ ts)" "reads b c v"
    by (rule parsedE)
  have "parsed b es s1 ((VBack ^^ k) v) ts (parse_back n c b es s1)"
    by (rule parse_back_parsed [OF assms(1,2) c(3,4)]) (use assms(4) c(2) in auto)
  then obtain c' s' where "parse_back n c b es s1 = Done (c', s')" "s1 \<le> s'" "holds b es s' ts" "reads b c' ((VBack ^^ k) v)" by (rule parsedE)
  then show thesis using that c by (meson le_trans)
qed

lemma follows_back: "follows C ts \<Longrightarrow> 38 \<in> C \<Longrightarrow> follows C (replicate k (Sym 38) @ ts)"
  by (cases k) auto

lemma follows_mono: "follows C ts \<Longrightarrow> C \<subseteq> D \<Longrightarrow> follows D ts"
  by (cases ts) auto

lemma parse_parsed:
  assumes "line b es"
  shows "follows {41} ts \<Longrightarrow> holds b es s (line_toks l @ ts) \<Longrightarrow> line_fits l \<Longrightarrow> 4 * (es - s) + 4 \<le> n \<Longrightarrow>
      parsed b es s (line_val l) ts (parseline n b es s)"
    and "follows {41, 38, 59} ts \<Longrightarrow> holds b es s (pipe_toks p @ ts) \<Longrightarrow> pipe_fits p \<Longrightarrow> 4 * (es - s) + 3 \<le> n \<Longrightarrow>
      parsed b es s (pipe_val p) ts (parsepipe n b es s)"
    and "follows {124, 41, 38, 59} ts \<Longrightarrow> holds b es s (exec_toks x @ ts) \<Longrightarrow> exec_fits x \<Longrightarrow> 4 * (es - s) + 2 \<le> n \<Longrightarrow>
      parsed b es s (exec_val x) ts (parseexec n b es s)"
proof (induction l and p and x arbitrary: ts s n and ts s n and ts s n)
  case (Line p k)
  obtain m where n: "n = Suc m" using Line.prems(4) by (cases n) auto
  have f: "follows {41, 59} ts" "follows {41, 38, 59} ts" using Line.prems(1) by (auto intro: follows_mono)
  have "parsed b es s (pipe_val p) (replicate k (Sym 38) @ ts) (parsepipe m b es s)"
    by (rule Line.IH [OF follows_back [OF f(2)]]) (use Line.prems n in auto)
  then obtain c s1 c' s2 where s: "parsepipe m b es s = Done (c, s1)" "parse_back m c b es s1 = Done (c', s2)" "s \<le> s2" "holds b es s2 ts"
      "reads b c' ((VBack ^^ k) (pipe_val p))" using Line.prems(4) n by (elim line_head [OF assms f(1)]) auto
  have "\<not> hd_in (str '';'' @ [0]) ts" using Line.prems(1) by (cases ts) (auto simp: in_chars_lits)
  then obtain s3 where "peek b es s2 (str '';'' @ [0]) = Done (False, s3)" "s2 \<le> s3" "holds b es s3 ts" by (rule peek_skip [OF assms s(4)])
  then show ?case using n s by (auto simp: parsed_def)
next
  case (Then p k l)
  obtain m where n: "n = Suc m" using Then.prems(4) by (cases n) auto
  let ?ts = "Sym 59 # line_toks l @ ts"
  have "parsed b es s (pipe_val p) (replicate k (Sym 38) @ ?ts) (parsepipe m b es s)"
    by (rule Then.IH(1) [OF follows_back]) (use Then.prems n in auto)
  then obtain c s1 c' s2 where s: "parsepipe m b es s = Done (c, s1)" "parse_back m c b es s1 = Done (c', s2)" "s \<le> s2" "holds b es s2 ?ts"
      "reads b c' ((VBack ^^ k) (pipe_val p))" using Then.prems(4) n by (elim line_head [OF assms, rotated]) auto
  obtain s3 q e s4 where t: "peek b es s2 (str '';'' @ [0]) = Done (True, s3)" "s2 \<le> s3" "gettoken b es s3 = Done (59, q, e, s4)" "s3 < s4"
      "holds b es s4 (line_toks l @ ts)" by (rule peek_take [OF assms s(4)]) (auto simp: in_chars_lits)
  have "4 * (es - s4) + 4 \<le> m" using Then.prems(4) n s(3) t(2,4) holds_le [OF t(5)] by linarith
  then have "parsed b es s4 (line_val l) ts (parseline m b es s4)" using Then.IH(2) [OF Then.prems(1) t(5)] Then.prems(3) by simp
  then obtain r s5 where "parseline m b es s4 = Done (r, s5)" "s4 \<le> s5" "holds b es s5 ts" "reads b r (line_val l)" by (rule parsedE)
  then show ?case using n s t by (auto simp: parsed_def)
next
  case (One x)
  obtain m where n: "n = Suc m" using One.prems(4) by (cases n) auto
  have "parsed b es s (exec_val x) ts (parseexec m b es s)"
    by (rule One.IH [OF follows_mono [OF One.prems(1)]]) (use One.prems n in auto)
  then obtain c s1 where s: "parseexec m b es s = Done (c, s1)" "s \<le> s1" "holds b es s1 ts" "reads b c (exec_val x)" by (rule parsedE)
  have "\<not> hd_in (str ''|'' @ [0]) ts" using One.prems(1) by (cases ts) (auto simp: in_chars_lits)
  then obtain s2 where "peek b es s1 (str ''|'' @ [0]) = Done (False, s2)" "s1 \<le> s2" "holds b es s2 ts" by (rule peek_skip [OF assms s(3)])
  then show ?case using n s by (auto simp: parsed_def)
next
  case (Pipe x p)
  obtain m where n: "n = Suc m" using Pipe.prems(4) by (cases n) auto
  let ?ts = "Sym 124 # pipe_toks p @ ts"
  have "parsed b es s (exec_val x) ?ts (parseexec m b es s)" by (rule Pipe.IH(1)) (use Pipe.prems n in auto)
  then obtain c s1 where s: "parseexec m b es s = Done (c, s1)" "s \<le> s1" "holds b es s1 ?ts" "reads b c (exec_val x)" by (rule parsedE)
  obtain s2 q e s3 where t: "peek b es s1 (str ''|'' @ [0]) = Done (True, s2)" "s1 \<le> s2" "gettoken b es s2 = Done (124, q, e, s3)" "s2 < s3"
      "holds b es s3 (pipe_toks p @ ts)" by (rule peek_take [OF assms s(3)]) (auto simp: in_chars_lits)
  have "4 * (es - s3) + 3 \<le> m" using Pipe.prems(4) n s(2) t(2,4) holds_le [OF t(5)] by linarith
  then have "parsed b es s3 (pipe_val p) ts (parsepipe m b es s3)" using Pipe.IH(2) [OF Pipe.prems(1) t(5)] Pipe.prems(3) by simp
  then obtain r s4 where "parsepipe m b es s3 = Done (r, s4)" "s3 \<le> s4" "holds b es s4 ts" "reads b r (pipe_val p)" by (rule parsedE)
  then show ?case using n s t by (auto simp: parsed_def)
next
  case (Simple "is")
  obtain m where n: "n = Suc m" using Simple.prems(4) by (cases n) auto
  show ?case unfolding n by (rule parse_simple [OF assms Simple.prems(1)]) (use Simple.prems n in auto)
next
  case (Block l rs)
  obtain k where n: "n = Suc (Suc k)" using Block.prems(4) by (metis add_2_eq_Suc' Suc_le_D Suc_le_mono)
  let ?ts1 = "concat (map redir_toks rs) @ ts"
  let ?ts = "line_toks l @ Sym 41 # ?ts1"
  have h: "holds b es s (Sym 40 # ?ts)" using Block.prems(2) by simp
  obtain s1 where s1: "peek b es s (str ''('' @ [0]) = Done (True, s1)" "s \<le> s1" "holds b es s1 (Sym 40 # ?ts)"
    by (rule peek_take [OF assms h]) (auto simp: in_chars_lits)
  obtain s2 q e s3 where t: "peek b es s1 (str ''('' @ [0]) = Done (True, s2)" "s1 \<le> s2" "gettoken b es s2 = Done (40, q, e, s3)" "s2 < s3"
      "holds b es s3 ?ts" by (rule peek_take [OF assms s1(3)]) (auto simp: in_chars_lits)
  have "4 * (es - s3) + 4 \<le> k" using Block.prems(4) n s1(2) t(2,4) holds_le [OF t(5)] by linarith
  then have "parsed b es s3 (line_val l) (Sym 41 # ?ts1) (parseline k b es s3)" using Block.IH [OF _ t(5)] Block.prems(3) by simp
  then obtain c s4 where c: "parseline k b es s3 = Done (c, s4)" "s3 \<le> s4" "holds b es s4 (Sym 41 # ?ts1)" "reads b c (line_val l)" by (rule parsedE)
  obtain s5 q' e' s6 where u: "peek b es s4 (str '')'' @ [0]) = Done (True, s5)" "s4 \<le> s5" "gettoken b es s5 = Done (41, q', e', s6)" "s5 < s6"
      "holds b es s6 ?ts1" by (rule peek_take [OF assms c(3)]) (auto simp: in_chars_lits)
  have "redir_free ts" using Block.prems(1) by (cases ts) (auto simp: redir_free_def in_chars_lits)
  moreover have "es - s6 < k" using Block.prems(4) n s1(2) t(2,4) c(2) u(2,4) holds_le [OF u(5)] by linarith
  ultimately have "parsed b es s6 (fold redir_val rs (line_val l)) ts (parseredirs k c b es s6)"
    by (intro parseredirs_parsed [OF assms u(5) _ c(4)])
  then obtain r s7 where "parseredirs k c b es s6 = Done (r, s7)" "s6 \<le> s7" "holds b es s7 ts" "reads b r (fold redir_val rs (line_val l))" by (rule parsedE)
  then show ?case using n s1 t c u by (auto simp: parsed_def)
qed

section \<open>Reading the words through the NULs\<close>

primrec view :: "byte list \<Rightarrow> cmd \<Rightarrow> vcmd" where
  "view b (EXEC as) = VExec (map (\<lambda>a. cstr (drop (fst a) b)) as)"
| "view b (REDIR c f ef m d) = VRedir (view b c) (cstr (drop f b)) m d"
| "view b (PIPE l r) = VPipe (view b l) (view b r)"
| "view b (LIST l r) = VList (view b l) (view b r)"
| "view b (BACK c) = VBack (view b c)"

lemma foldl_upd_nth: "i < length b \<Longrightarrow> foldl (\<lambda>b e. b[e := 0]) b es ! i = (if i \<in> set es then 0 else b ! i)"
  by (induction es arbitrary: b) (auto simp: nth_list_update)

lemma reads_ends:
  "reads b c v \<Longrightarrow> e \<in> set (ends c) \<Longrightarrow> e < length b \<and> (b ! e = 0 \<or> \<not> word_char (b ! e))"
proof (induction b c v rule: reads.induct)
  case (1 b as ws)
  then obtain i where "i < length as" "e = snd (as ! i)" by (auto simp: in_set_conv_nth)
  then have "span b (fst (as ! i)) e (ws ! i)" using 1(1) by (auto simp: list_all2_conv_all_nth)
  then show ?case by (simp add: span_def)
qed (auto simp: span_def)

text \<open>The NULs hit no byte of a word, because no byte of a word ends one.\<close>

lemma span_view:
  assumes "span b q e w" and "e \<in> set E" and "\<forall>i \<in> set E. i < length b \<and> (b ! i = 0 \<or> \<not> word_char (b ! i))"
  shows "cstr (drop q (foldl (\<lambda>b e. b[e := 0]) b E)) = w"
proof -
  let ?b = "foldl (\<lambda>b e. b[e := 0]) b E"
  have w: "q < e" "e < length b" "take (e - q) (drop q b) = w" "word_ok w" using assms(1) by (simp_all add: span_def)
  have len: "length w = e - q" using w(2,3) by auto
  have wi: "w ! i = b ! (q + i)" if "i < e - q" for i using w(2,3) that by auto
  have "take (e - q) (drop q ?b) = w"
  proof (rule nth_equalityI)
    show "length (take (e - q) (drop q ?b)) = length w" using w(2) len by simp
    fix i assume "i < length (take (e - q) (drop q ?b))"
    then have i: "i < e - q" by simp
    then have "word_char (b ! (q + i)) \<and> b ! (q + i) \<noteq> 0" using w(4) wi [OF i] len by (metis nth_mem word_ok_def)
    then have "q + i \<notin> set E" using assms(3) by blast
    then show "take (e - q) (drop q ?b) ! i = w ! i" using i wi w(2) by (simp add: foldl_upd_nth)
  qed
  moreover have "drop q ?b = take (e - q) (drop q ?b) @ drop e ?b"
    using append_take_drop_id [of "e - q" "drop q ?b"] w(1) by (simp add: drop_drop)
  moreover have "drop e ?b = 0 # drop (Suc e) ?b" using w(2) assms(2) by (simp add: Cons_nth_drop_Suc [symmetric] foldl_upd_nth)
  ultimately have "drop q ?b = w @ 0 # drop (Suc e) ?b" by simp
  moreover have "0 \<notin> set w" using w(4) by (auto simp: word_ok_def)
  ultimately show ?thesis by (simp add: cstr_str)
qed

lemma reads_view:
  assumes "reads b c v" and "set (ends c) \<subseteq> set E" and "\<forall>i \<in> set E. i < length b \<and> (b ! i = 0 \<or> \<not> word_char (b ! i))"
  shows "view (foldl (\<lambda>b e. b[e := 0]) b E) c = v"
  using assms
proof (induction b c v rule: reads.induct)
  case (1 b as ws)
  have "map (\<lambda>a. cstr (drop (fst a) (foldl (\<lambda>b e. b[e := 0]) b E))) as = ws"
  proof (rule nth_equalityI)
    fix i assume "i < length (map (\<lambda>a. cstr (drop (fst a) (foldl (\<lambda>b e. b[e := 0]) b E))) as)"
    then have i: "i < length as" "span b (fst (as ! i)) (snd (as ! i)) (ws ! i)" "snd (as ! i) \<in> set E"
      using 1 by (auto simp: list_all2_conv_all_nth)
    then show "map (\<lambda>a. cstr (drop (fst a) (foldl (\<lambda>b e. b[e := 0]) b E))) as ! i = ws ! i"
      using span_view [OF i(2,3) 1(3)] by simp
  qed (use 1 in \<open>auto simp: list_all2_conv_all_nth\<close>)
  then show ?case by simp
qed (auto simp: span_view)

lemma shell_roundtrip_run:
  assumes "line_fits l" and "fits xs tr" and "map snd xs = line_toks l"
  shows "\<exists>c b. parsecmd (lay xs tr @ 0 # z) = Done (c, b) \<and> view b c = line_val l \<and> length b = length (lay xs tr @ 0 # z)"
proof -
  let ?b = "lay xs tr @ 0 # z" and ?es = "length (lay xs tr)"
  have nz: "0 \<notin> set (lay xs tr)" using assms(2)
  proof (induction xs)
    case (Cons x xs)
    then show ?case by (cases "snd x") (auto simp: word_ok_def white_iff)
  qed (auto simp: white_iff)
  have c: "cstr ?b = lay xs tr" "terminated ?b" using nz by (simp_all add: cstr_str)
  have l: "line ?b ?es" using line_of [OF c(2)] c(1) by simp
  have "holds ?b ?es 0 (line_toks l @ [])" using assms(2,3) by (auto simp: holds_def)
  then have "parsed ?b ?es 0 (line_val l) [] (parseline (parse_fuel ?es) ?b ?es 0)"
    by (intro parse_parsed(1) [OF l]) (use assms(1) in \<open>simp_all add: parse_fuel_def\<close>)
  then obtain c s where p: "parseline (parse_fuel ?es) ?b ?es 0 = Done (c, s)" "holds ?b ?es s []" "reads ?b c (line_val l)" by (rule parsedE)
  obtain q where q: "scan white ?b ?es s = Done q" "q = ?es" using skip_white [OF l p(2)] by fastforce
  have pk: "peek ?b ?es s [0] = Done (False, ?es)" using q by (simp add: peek_def char_at_def)
  have e: "\<forall>i \<in> set (ends c). i < length ?b \<and> (?b ! i = 0 \<or> \<not> word_char (?b ! i))" using reads_ends [OF p(3)] by blast
  have "nulterminate c ?b = Done (foldl (\<lambda>b e. b[e := 0]) ?b (ends c))" by (rule nulterminate_run) (use e in blast)
  then have "parsecmd ?b = Done (c, foldl (\<lambda>b e. b[e := 0]) ?b (ends c))" using p(1) pk c by (simp add: parsecmd_def strlen_cstr)
  moreover have "view (foldl (\<lambda>b e. b[e := 0]) ?b (ends c)) c = line_val l" by (rule reads_view [OF p(3) _ e]) simp
  ultimately show ?thesis by auto
qed

text \<open>
  C16. Every command line of the shell's grammar, with at most nine words to a command, is read back: however
  its tokens are spaced, the parser accepts the line and builds the tree of the command, and once \<^verbatim>\<open>nulterminate\<close>
  has written its NULs into the buffer each pointer of the tree leads to exactly the word it was made for. Redirections
  may stand anywhere among the words.
\<close>

theorem shell_roundtrip:
  assumes "line_fits l" and "fits xs tr" and "map snd xs = line_toks l"
  shows "\<exists>c b. parsecmd (lay xs tr @ 0 # z) = Done (c, b) \<and> view b c = line_val l \<and> length b = length (lay xs tr @ 0 # z)"
  by (rule shell_roundtrip_run [OF assms])

text \<open>\<^verbatim>\<open>(ls -l;wc)|sort <in &\<close>\<close>

definition ex_line :: gline where
  "ex_line = Line (Pipe (Block (Then (One (Simple [GArg (str ''ls''), GArg (str ''-l'')])) 0 (Line (One (Simple [GArg (str ''wc'')])) 0)) [])
     (One (Simple [GArg (str ''sort''), GRedir (RIn (str ''in''))]))) 1"

definition ex_layout :: "(byte list \<times> tok) list" where
  "ex_layout = [([], Sym 40), ([], Word (str ''ls'')), ([32], Word (str ''-l'')), ([], Sym 59), ([], Word (str ''wc'')), ([], Sym 41),
     ([], Sym 124), ([], Word (str ''sort'')), ([32], Sym 60), ([], Word (str ''in'')), ([32], Sym 38)]"

theorem shell_roundtrip_witness:
  "\<exists>c b. parsecmd (str ''(ls -l;wc)|sort <in &'' @ [0]) = Done (c, b)
     \<and> view b c = VBack (VPipe (VList (VExec [str ''ls'', str ''-l'']) (VExec [str ''wc'']))
         (VRedir (VExec [str ''sort'']) (str ''in'') sh_O_RDONLY 0))"
proof -
  have "line_fits ex_line" by (simp add: ex_line_def MAXARGS_def g_args_def)
  moreover have "fits ex_layout []"
    by (simp add: ex_layout_def str_def word_ok_def word_char_iff white_iff)
  moreover have "map snd ex_layout = line_toks ex_line" by (simp add: ex_layout_def ex_line_def)
  ultimately have "\<exists>c b. parsecmd (lay ex_layout [] @ 0 # []) = Done (c, b) \<and> view b c = line_val ex_line
      \<and> length b = length (lay ex_layout [] @ 0 # [])" by (rule shell_roundtrip)
  moreover have "lay ex_layout [] @ 0 # [] = str ''(ls -l;wc)|sort <in &'' @ [0]" by (simp add: ex_layout_def str_def)
  moreover have "line_val ex_line = VBack (VPipe (VList (VExec [str ''ls'', str ''-l'']) (VExec [str ''wc'']))
         (VRedir (VExec [str ''sort'']) (str ''in'') sh_O_RDONLY 0))"
    by (simp add: ex_line_def g_args_def g_redirs_def)
  ultimately show ?thesis by auto
qed

end
