(* ===== verification/Shell_Run.thy ===== *)
theory Shell_Run
  imports Shell_Grammar
begin

text \<open>
  What the shell does with a command (\<^verbatim>\<open>runcmd\<close> and the body of the loop of \<^verbatim>\<open>main\<close> in \<^verbatim>\<open>sh.c\<close>), as a
  program over system calls: each call with what is done for each result. \<^verbatim>\<open>fork\<close> returns twice. The messages of
  \<^verbatim>\<open>printf\<close> are calls of their own.
\<close>

section \<open>Programs\<close>

datatype sys =
    SysExec "byte list" "byte list list"
  | SysOpen "byte list" nat
  | SysClose nat
  | SysDup nat
  | SysFork
  | SysWait
  | SysChdir "byte list"
  | SysWhoami
  | SysPrint nat "byte list"

datatype prog =
    Exit
  | Crash
  | Call sys "int \<Rightarrow> prog"
  | PipeCall "int \<Rightarrow> nat \<Rightarrow> nat \<Rightarrow> prog"

definition sh_panic :: "string \<Rightarrow> prog" where
  "sh_panic m = Call (SysPrint 2 (str m @ [10])) (\<lambda>_. Exit)"

definition fork1 :: "(int \<Rightarrow> prog) \<Rightarrow> prog" where
  "fork1 k = Call SysFork (\<lambda>pid. if pid = -1 then sh_panic ''fork'' else k pid)"

definition word_at :: "byte list \<Rightarrow> nat \<Rightarrow> byte list" where
  "word_at b q = cstr (drop q b)"

primrec runcmd :: "byte list \<Rightarrow> cmd \<Rightarrow> prog" where
  "runcmd b (EXEC argv) =
     (case argv of [] \<Rightarrow> Exit
      | a # _ \<Rightarrow>
          Call (SysExec (word_at b (fst a)) (map (\<lambda>a. word_at b (fst a)) argv)) (\<lambda>_.
          Call (SysPrint 2 (str ''exec '' @ word_at b (fst a) @ str '' failed'' @ [10])) (\<lambda>_.
          Exit)))"
| "runcmd b (REDIR c file efile mode fd) =
     Call (SysClose fd) (\<lambda>_.
     Call (SysOpen (word_at b file) mode) (\<lambda>r.
     if r < 0 then
       Call (SysPrint 2 (str ''open '' @ word_at b file @ str '' failed'' @ [10])) (\<lambda>_.
       Exit)
     else runcmd b c))"
| "runcmd b (LIST left right) =
     fork1 (\<lambda>pid.
     if pid = 0 then runcmd b left
     else Call SysWait (\<lambda>_. runcmd b right))"
| "runcmd b (PIPE left right) =
     PipeCall (\<lambda>r p0 p1.
     if r < 0 then sh_panic ''pipe''
     else
       fork1 (\<lambda>pid.
       if pid = 0 then
         Call (SysClose 1) (\<lambda>_.
         Call (SysDup p1) (\<lambda>_.
         Call (SysClose p0) (\<lambda>_.
         Call (SysClose p1) (\<lambda>_.
         runcmd b left))))
       else
         fork1 (\<lambda>pid.
         if pid = 0 then
           Call (SysClose 0) (\<lambda>_.
           Call (SysDup p0) (\<lambda>_.
           Call (SysClose p0) (\<lambda>_.
           Call (SysClose p1) (\<lambda>_.
           runcmd b right))))
         else
           Call (SysClose p0) (\<lambda>_.
           Call (SysClose p1) (\<lambda>_.
           Call SysWait (\<lambda>_.
           Call SysWait (\<lambda>_.
           Exit)))))))"
| "runcmd b (BACK c) =
     fork1 (\<lambda>pid.
     if pid = 0 then runcmd b c
     else Exit)"

text \<open>\<^verbatim>\<open>parsecmd\<close> in the child, with the messages of its errors.\<close>

definition run_line :: "byte list \<Rightarrow> prog" where
  "run_line buf =
     (case parsecmd buf of Done (c, b) \<Rightarrow> runcmd b c
      | Die m \<Rightarrow> sh_panic m
      | Wild \<Rightarrow> Crash
      | Loop \<Rightarrow> Crash)"

definition begins :: "string \<Rightarrow> byte list \<Rightarrow> bool" where
  "begins w buf \<longleftrightarrow> take (length w) buf = str w"

text \<open>The body of the loop of \<^verbatim>\<open>main\<close>, \<open>k\<close> being the next turn of the loop.\<close>

definition main_line :: "byte list \<Rightarrow> prog \<Rightarrow> prog" where
  "main_line buf k =
     (if begins ''cd '' buf then
        (case strlen buf of None \<Rightarrow> Crash
         | Some n \<Rightarrow>
             Call (SysChdir (word_at (buf[n - 1 := 0]) 3)) (\<lambda>r.
             if r < 0 then Call (SysPrint 2 (str ''cannot cd '' @ word_at (buf[n - 1 := 0]) 3 @ [10])) (\<lambda>_. k)
             else k))
      else if begins ''logout'' buf then Exit
      else if begins ''whoami'' buf then
        Call SysWhoami (\<lambda>_.
        Call (SysPrint 1 [10]) (\<lambda>_.
        k))
      else
        fork1 (\<lambda>pid.
        if pid = 0 then run_line buf
        else Call SysWait (\<lambda>_. k)))"

section \<open>What a program does\<close>

text \<open>
  What is seen of a process from outside: the files it opens, the processes it starts with what is seen of them, the points
  where it waits for one of them, with the table of its descriptors there, its messages, and the program it turns into, with
  the descriptors the program is started with. A pipe is known by the place in the tree of processes where it was made.
\<close>

datatype 'r res = Inherited 'r | Opened "byte list" nat | PipeR "nat list" | PipeW "nat list"

type_synonym 'r fdt = "nat \<Rightarrow> 'r res option"

datatype 'r act =
    Opens "byte list" nat
  | Child "'r act list"
  | Await "'r fdt"
  | Says nat "byte list"
  | Start "byte list" "byte list list" "'r fdt"
  | Faulted

definition lowest :: "'r fdt \<Rightarrow> nat option" where
  "lowest f = find (\<lambda>d. f d = None) [0..<16]"

text \<open>
  Everything that may be seen of a program, as the list of all possibilities. If \<open>fl\<close> holds, each call of fork, pipe, open,
  exec and chdir may fail; a call that needs a free descriptor fails without one in any case. The argument \<open>a\<close> is the place
  of the process.
\<close>

primrec seen :: "bool \<Rightarrow> prog \<Rightarrow> 'r fdt \<Rightarrow> nat list \<Rightarrow> 'r act list list" where
  "seen fl Exit f a = [[]]"
| "seen fl Crash f a = [[Faulted]]"
| "seen fl (Call c k) f a =
     (case c of
        SysExec p as \<Rightarrow> [Start p as f] # (if fl then seen fl (k (-1)) f a else [])
      | SysOpen p m \<Rightarrow>
          (case lowest f of None \<Rightarrow> seen fl (k (-1)) f a
           | Some d \<Rightarrow> map ((#) (Opens p m)) (seen fl (k (int d)) (f(d \<mapsto> Opened p m)) a) @ (if fl then seen fl (k (-1)) f a else []))
      | SysClose d \<Rightarrow> seen fl (k 0) (f(d := None)) a
      | SysDup d \<Rightarrow>
          (case (f d, lowest f) of (Some r, Some e) \<Rightarrow> seen fl (k (int e)) (f(e \<mapsto> r)) a | _ \<Rightarrow> seen fl (k (-1)) f a)
      | SysFork \<Rightarrow>
          [Child x # y. x \<leftarrow> seen fl (k 0) f (0 # a), y \<leftarrow> seen fl (k 1) f (1 # a)] @ (if fl then seen fl (k (-1)) f a else [])
      | SysWait \<Rightarrow> map ((#) (Await f)) (seen fl (k 1) f a)
      | SysChdir p \<Rightarrow> seen fl (k 0) f a @ (if fl then seen fl (k (-1)) f a else [])
      | SysWhoami \<Rightarrow> seen fl (k 0) f a
      | SysPrint d t \<Rightarrow> map ((#) (Says d t)) (seen fl (k 0) f a))"
| "seen fl (PipeCall k) f a =
     (case lowest f of None \<Rightarrow> seen fl (k (-1) 0 0) f a
      | Some d \<Rightarrow>
          (case lowest (f(d \<mapsto> PipeR a)) of None \<Rightarrow> seen fl (k (-1) 0 0) f a
           | Some e \<Rightarrow> seen fl (k 0 d e) (f(d \<mapsto> PipeR a, e \<mapsto> PipeW a)) (2 # a) @ (if fl then seen fl (k (-1) 0 0) f a else [])))"

text \<open>
  What a command line asks for. A list waits for its left side before it goes on with the right one; the two sides of a pipe
  run at once, and the shell waits for both with no end of the pipe left open.
\<close>

primrec plan :: "vcmd \<Rightarrow> 'r fdt \<Rightarrow> nat list \<Rightarrow> 'r act list" where
  "plan (VExec ws) f a = (if ws = [] then [] else [Start (hd ws) ws f])"
| "plan (VRedir v w m d) f a = Opens w m # plan v (f(d \<mapsto> Opened w m)) a"
| "plan (VPipe l r) f a =
     [Child (plan l (f(1 \<mapsto> PipeW a)) (0 # 2 # a)), Child (plan r (f(0 \<mapsto> PipeR a)) (0 # 1 # 2 # a)), Await f, Await f]"
| "plan (VList l r) f a = Child (plan l f (0 # a)) # Await f # plan r f (1 # a)"
| "plan (VBack v) f a = [Child (plan v f (0 # a))]"

text \<open>
  \<open>ys\<close> is what remains of a plan \<open>xs\<close> when calls fail: each process follows its part of the plan, in order, to its end or up
  to a point where it says so on descriptor 2 and does nothing more.
\<close>

fun remains :: "'r act list \<Rightarrow> 'r act list \<Rightarrow> bool" where
  "remains [] ys \<longleftrightarrow> ys = []"
| "remains (x # xs) [] \<longleftrightarrow> False"
| "remains (Child x # xs) (Child y # ys) \<longleftrightarrow> remains x y \<and> remains xs ys"
| "remains (x # xs) (Says d m # ys) \<longleftrightarrow> d = 2 \<and> ys = []"
| "remains (x # xs) (y # ys) \<longleftrightarrow> x = y \<and> remains xs ys"

primrec std_redirs :: "vcmd \<Rightarrow> bool" where
  "std_redirs (VExec ws) = True"
| "std_redirs (VRedir v w m d) = (std_redirs v \<and> d \<in> {0, 1})"
| "std_redirs (VPipe l r) = (std_redirs l \<and> std_redirs r)"
| "std_redirs (VList l r) = (std_redirs l \<and> std_redirs r)"
| "std_redirs (VBack v) = std_redirs v"

definition std :: "'r fdt \<Rightarrow> bool" where
  "std f \<longleftrightarrow> dom f = {0, 1, 2}"

lemma std_iff: "std f \<Longrightarrow> f d = None \<longleftrightarrow> d \<notin> {0, 1, 2}"
  unfolding std_def by (metis domIff)

lemma sixteen: "[0..<16] = [0, 1, 2, 3, 4, 5, 6, 7, 8, 9, 10, 11, 12, 13, 14, 15 :: nat]"
  by (simp add: upt_rec)

lemma std_lowest:
  assumes "std f"
  shows "lowest f = Some 3" "lowest (f(3 \<mapsto> x)) = Some 4" "lowest (f(0 := None)) = Some 0" "lowest (f(1 := None)) = Some 1"
    "lowest (f(3 \<mapsto> x, 4 \<mapsto> y, 0 := None)) = Some 0" "lowest (f(3 \<mapsto> x, 4 \<mapsto> y, 1 := None)) = Some 1"
  using std_iff [OF assms] by (simp_all add: lowest_def sixteen)

lemma std_upd: "std f \<Longrightarrow> d \<in> {0, 1} \<Longrightarrow> std (f(d \<mapsto> x))"
  by (auto simp: std_def)

lemma child_table:
  assumes "std f" and "d \<in> {0, 1}"
  shows "f(3 \<mapsto> x, 4 \<mapsto> y, d \<mapsto> z, 3 := None, 4 := None) = f(d \<mapsto> z)"
proof (rule ext)
  fix i
  have "f 3 = None" "f 4 = None" using std_iff [OF assms(1), of 3] std_iff [OF assms(1), of 4] by simp_all
  then show "(f(3 \<mapsto> x, 4 \<mapsto> y, d \<mapsto> z, 3 := None, 4 := None)) i = (f(d \<mapsto> z)) i"
    using assms(2) by (cases "i = 3"; cases "i = 4"; cases "i = d") auto
qed

lemma fork1_seen:
  "seen fl (fork1 k) f a = [Child x # y. x \<leftarrow> seen fl (k 0) f (0 # a), y \<leftarrow> seen fl (k 1) f (1 # a)]
     @ (if fl then [[Says 2 (str ''fork'' @ [10])]] else [])"
  by (simp add: fork1_def sh_panic_def)

text \<open>The calls of the two sides of a pipe leave them with their end only, and the shell with none.\<close>

lemma pipe_seen:
  assumes "std f"
  shows "seen fl (runcmd b (PIPE l r)) f a =
    [Child x # y. x \<leftarrow> seen fl (runcmd b l) (f(1 \<mapsto> PipeW a)) (0 # 2 # a),
       y \<leftarrow> [Child u # v. u \<leftarrow> seen fl (runcmd b r) (f(0 \<mapsto> PipeR a)) (0 # 1 # 2 # a), v \<leftarrow> [[Await f, Await f]]]
         @ (if fl then [[Says 2 (str ''fork'' @ [10])]] else [])]
    @ (if fl then [[Says 2 (str ''fork'' @ [10])]] else []) @ (if fl then [[Says 2 (str ''pipe'' @ [10])]] else [])"
proof -
  have g: "f(3 := None, 4 := None) = f"
    using std_iff [OF assms, of 3] std_iff [OF assms, of 4] by (intro ext) auto
  show ?thesis
    using std_lowest [OF assms] child_table [OF assms, of 1] child_table [OF assms, of 0] g
    by (simp add: fork1_seen sh_panic_def)
qed

lemma runcmd_seen:
  fixes f :: "'r fdt"
  assumes "std f" and "std_redirs (view b c)"
  shows "seen False (runcmd b c) f a = [plan (view b c) f a]"
    and "\<forall>ys \<in> set (seen True (runcmd b c) f a). remains (plan (view b c) f a) ys"
  using assms
proof (induction c arbitrary: f a)
  case (EXEC as)
  {
    case 1
    then show ?case by (cases as) (simp_all add: word_at_def)
  next
    case 2
    then show ?case by (cases as) (auto simp: word_at_def)
  }
next
  case (REDIR c q e m d)
  {
    case 1
    then have "lowest (f(d := None)) = Some d" "std (f(d \<mapsto> Opened (word_at b q) m))"
      using std_lowest(3,4) [OF 1(1)] by (auto intro!: std_upd)
    note u = this
    have "seen False (runcmd b c) (f(d \<mapsto> Opened (word_at b q) m)) a = [plan (view b c) (f(d \<mapsto> Opened (word_at b q) m)) a]" by (rule REDIR.IH(1) [OF u(2)]) (use 1 in simp)
    then show ?case using u by (simp add: word_at_def)
  next
    case 2
    then have "lowest (f(d := None)) = Some d" "std (f(d \<mapsto> Opened (word_at b q) m))"
      using std_lowest(3,4) [OF 2(1)] by (auto intro!: std_upd)
    then show ?case using REDIR.IH(2) 2 by (auto simp: word_at_def)
  }
next
  case (PIPE l r)
  have s: "std (f(1 \<mapsto> PipeW a))" "std (f(0 \<mapsto> PipeR a))" if "std f" for f :: "'r fdt" and a using that by (auto intro: std_upd)
  {
    case 1
    have "seen False (runcmd b l) (f(1 \<mapsto> PipeW a)) (0 # 2 # a) = [plan (view b l) (f(1 \<mapsto> PipeW a)) (0 # 2 # a)]"
      by (rule PIPE.IH(1) [OF s(1) [OF 1(1)]]) (use 1 in simp)
    moreover have "seen False (runcmd b r) (f(0 \<mapsto> PipeR a)) (0 # 1 # 2 # a) = [plan (view b r) (f(0 \<mapsto> PipeR a)) (0 # 1 # 2 # a)]"
      by (rule PIPE.IH(3) [OF s(2) [OF 1(1)]]) (use 1 in simp)
    ultimately show ?case using 1(1) by (subst pipe_seen) simp_all
  next
    case 2
    have "\<forall>ys \<in> set (seen True (runcmd b l) (f(1 \<mapsto> PipeW a)) (0 # 2 # a)). remains (plan (view b l) (f(1 \<mapsto> PipeW a)) (0 # 2 # a)) ys"
      by (rule PIPE.IH(2) [OF s(1) [OF 2(1)]]) (use 2 in simp)
    moreover have "\<forall>ys \<in> set (seen True (runcmd b r) (f(0 \<mapsto> PipeR a)) (0 # 1 # 2 # a)). remains (plan (view b r) (f(0 \<mapsto> PipeR a)) (0 # 1 # 2 # a)) ys"
      by (rule PIPE.IH(4) [OF s(2) [OF 2(1)]]) (use 2 in simp)
    ultimately show ?case using 2(1) by (subst pipe_seen) auto
  }
next
  case (LIST l r)
  {
    case 1
    have "seen False (runcmd b l) f (0 # a) = [plan (view b l) f (0 # a)]" "seen False (runcmd b r) f (1 # a) = [plan (view b r) f (1 # a)]"
      by (rule LIST.IH(1,3); use 1 in simp)+
    then show ?case by (simp add: fork1_seen)
  next
    case 2
    have "\<forall>ys \<in> set (seen True (runcmd b l) f (0 # a)). remains (plan (view b l) f (0 # a)) ys"
        "\<forall>ys \<in> set (seen True (runcmd b r) f (1 # a)). remains (plan (view b r) f (1 # a)) ys"
      by (rule LIST.IH(2,4); use 2 in simp)+
    then show ?case by (auto simp: fork1_seen)
  }
next
  case (BACK c)
  {
    case 1
    then show ?case using BACK.IH(1) by (simp add: fork1_seen)
  next
    case 2
    then show ?case using BACK.IH(2) by (auto simp: fork1_seen)
  }
qed

lemma fold_redirs: "std_redirs v \<Longrightarrow> std_redirs (fold redir_val rs v)"
proof (induction rs arbitrary: v)
  case (Cons r rs)
  then show ?case by (cases r) auto
qed simp

lemma std_line_val:
  "std_redirs (line_val l)" "std_redirs (pipe_val p)" "std_redirs (exec_val x)"
proof (induction l and p and x)
  case (Line p k)
  then show ?case by (induction k) simp_all
next
  case (Then p k l)
  then show ?case by (induction k) simp_all
qed (simp_all add: fold_redirs)

text \<open>
  C17. A command line that is not one of the shell's own commands makes the shell start exactly the processes that the
  line asks for, and wait for the line. Each simple command becomes its program with its words and with the descriptors
  that the line asks for: in a pipe the left side has the writing end as descriptor 1 and the right side the reading end as
  descriptor 0, a redirection replaces descriptor 0 or 1 by the file, and no process is left with any other end of a pipe. The
  right side of a list starts only after the left side was waited for, and both sides of a pipe are waited for after the shell
  has closed the pipe. That is all that is seen if every call succeeds. Whichever calls of fork, pipe, open and exec fail, each
  process does what it was meant to do up to the failure, reports it and does nothing more: no program is ever started with
  other descriptors, or after a failure before it. The shell has descriptors 0, 1 and 2.
\<close>

theorem shell_wires:
  assumes "dom f = {0, 1, 2}" and "line_fits l" and "fits xs tr" and "map snd xs = line_toks l"
    and "\<not> begins ''cd '' (lay xs tr @ 0 # z)" and "\<not> begins ''logout'' (lay xs tr @ 0 # z)" and "\<not> begins ''whoami'' (lay xs tr @ 0 # z)"
  shows "seen False (main_line (lay xs tr @ 0 # z) Exit) f a = [[Child (plan (line_val l) f (0 # a)), Await f]]
    \<and> (\<forall>ys \<in> set (seen True (main_line (lay xs tr @ 0 # z) Exit) f a). remains [Child (plan (line_val l) f (0 # a)), Await f] ys)"
proof -
  obtain c b where p: "parsecmd (lay xs tr @ 0 # z) = Done (c, b)" "view b c = line_val l"
    using shell_roundtrip_run [OF assms(2-4)] by blast
  have m: "main_line (lay xs tr @ 0 # z) Exit = fork1 (\<lambda>pid. if pid = 0 then runcmd b c else Call SysWait (\<lambda>_. Exit))"
    using p(1) assms(5-7) by (simp add: main_line_def run_line_def fun_eq_iff cong: if_cong)
  have r: "seen False (runcmd b c) f (0 # a) = [plan (line_val l) f (0 # a)]"
      "\<forall>ys \<in> set (seen True (runcmd b c) f (0 # a)). remains (plan (line_val l) f (0 # a)) ys"
    using runcmd_seen [of f b c] assms(1) std_line_val(1) p(2) by (simp_all add: std_def)
  show ?thesis unfolding m fork1_seen using r by auto
qed

theorem shell_wires_witness:
  "seen False (main_line (str ''(ls -l;wc)|sort <in &'' @ [0]) Exit) [0 \<mapsto> Inherited ''kbd'', 1 \<mapsto> Inherited ''tty'', 2 \<mapsto> Inherited ''tty''] []
    = [[Child [Child
          [Child [Child [Start (str ''ls'') [str ''ls'', str ''-l''] [0 \<mapsto> Inherited ''kbd'', 1 \<mapsto> PipeW [0, 0], 2 \<mapsto> Inherited ''tty'']],
              Await [0 \<mapsto> Inherited ''kbd'', 1 \<mapsto> PipeW [0, 0], 2 \<mapsto> Inherited ''tty''],
              Start (str ''wc'') [str ''wc''] [0 \<mapsto> Inherited ''kbd'', 1 \<mapsto> PipeW [0, 0], 2 \<mapsto> Inherited ''tty'']],
           Child [Opens (str ''in'') sh_O_RDONLY,
              Start (str ''sort'') [str ''sort''] [0 \<mapsto> Opened (str ''in'') sh_O_RDONLY, 1 \<mapsto> Inherited ''tty'', 2 \<mapsto> Inherited ''tty'']],
           Await [0 \<mapsto> Inherited ''kbd'', 1 \<mapsto> Inherited ''tty'', 2 \<mapsto> Inherited ''tty''],
           Await [0 \<mapsto> Inherited ''kbd'', 1 \<mapsto> Inherited ''tty'', 2 \<mapsto> Inherited ''tty'']]],
        Await [0 \<mapsto> Inherited ''kbd'', 1 \<mapsto> Inherited ''tty'', 2 \<mapsto> Inherited ''tty'']]]"
proof -
  let ?f = "[0 \<mapsto> Inherited ''kbd'', 1 \<mapsto> Inherited ''tty'', 2 \<mapsto> Inherited ''tty''] :: string fdt"
  have b: "lay ex_layout [] @ 0 # [] = str ''(ls -l;wc)|sort <in &'' @ [0]" by (simp add: ex_layout_def str_def)
  have "dom ?f = {0, 1, 2}" by auto
  moreover have "line_fits ex_line" by (simp add: ex_line_def MAXARGS_def g_args_def)
  moreover have "fits ex_layout []" by (simp add: ex_layout_def str_def word_ok_def word_char_iff white_iff)
  moreover have "map snd ex_layout = line_toks ex_line" by (simp add: ex_layout_def ex_line_def)
  moreover have "\<not> begins ''cd '' (lay ex_layout [] @ 0 # [])" "\<not> begins ''logout'' (lay ex_layout [] @ 0 # [])"
      "\<not> begins ''whoami'' (lay ex_layout [] @ 0 # [])" unfolding b by (simp_all add: begins_def str_def)
  ultimately have "seen False (main_line (lay ex_layout [] @ 0 # []) Exit) ?f [] = [[Child (plan (line_val ex_line) ?f [0]), Await ?f]]"
    by (rule shell_wires [THEN conjunct1])
  then show ?thesis unfolding b by (simp add: ex_line_def g_args_def g_redirs_def fun_upd_twist)
qed

end
