(* ===== verification/Grep.thy ===== *)
theory Grep
  imports CString
begin

text \<open>
  The matcher of \<^verbatim>\<open>grep.c\<close> and the loop that feeds it. Strings are as in \<^verbatim>\<open>CString\<close>: the bytes from a pointer
  to the end of its array, \<open>None\<close> when a routine leaves the array.
\<close>

section \<open>The matcher\<close>

function matchhere :: "byte list \<Rightarrow> byte list \<Rightarrow> bool option"
  and matchstar :: "byte \<Rightarrow> byte list \<Rightarrow> byte list \<Rightarrow> bool option" where
  "matchhere re text =
     (case re of [] \<Rightarrow> None
      | c # re1 \<Rightarrow>
          if c = 0 then Some True
          else
            (case re1 of [] \<Rightarrow> None
             | d # re2 \<Rightarrow>
                 if d = 42 then matchstar c re2 text
                 else
                   (case text of [] \<Rightarrow> None
                    | t # text1 \<Rightarrow>
                        if c = 36 \<and> d = 0 then Some (t = 0)
                        else if t \<noteq> 0 \<and> (c = 46 \<or> c = t) then matchhere re1 text1
                        else Some False)))"
| "matchstar c re text =
     (case matchhere re text of None \<Rightarrow> None
      | Some True \<Rightarrow> Some True
      | Some False \<Rightarrow>
          (case text of [] \<Rightarrow> None
           | t # text1 \<Rightarrow>
               if t \<noteq> 0 \<and> (t = c \<or> c = 46) then matchstar c re text1
               else Some False))"
  by pat_completeness auto
termination
  by (relation "measure (\<lambda>x. case x of Inl (re, text) \<Rightarrow> 2 * (length re + length text)
      | Inr (c, re, text) \<Rightarrow> 2 * (length re + length text) + 1)") auto

declare matchhere.simps [simp del] matchstar.simps [simp del]

text \<open>The loop of \<^verbatim>\<open>match\<close> over the starting points, the empty rest included.\<close>

fun match_from :: "byte list \<Rightarrow> byte list \<Rightarrow> bool option" where
  "match_from re [] = None"
| "match_from re (t # text) =
     (case matchhere re (t # text) of None \<Rightarrow> None
      | Some True \<Rightarrow> Some True
      | Some False \<Rightarrow> if t \<noteq> 0 then match_from re text else Some False)"

definition match :: "byte list \<Rightarrow> byte list \<Rightarrow> bool option" where
  "match re text =
     (case re of [] \<Rightarrow> None
      | c # re1 \<Rightarrow> if c = 94 then matchhere re1 text else match_from re text)"

section \<open>What it matches\<close>

datatype item = One byte | Star byte

definition fits_char :: "byte \<Rightarrow> byte \<Rightarrow> bool" where
  "fits_char c x \<longleftrightarrow> c = 46 \<or> c = x"

fun items :: "byte list \<Rightarrow> item list" where
  "items [] = []"
| "items [c] = (if c = 36 then [] else [One c])"
| "items (c # d # re) = (if d = 42 then Star c # items re else One c # items (d # re))"

fun anchored :: "byte list \<Rightarrow> bool" where
  "anchored [] = False"
| "anchored [c] = (c = 36)"
| "anchored (c # d # re) = (if d = 42 then anchored re else anchored (d # re))"

primrec lang :: "item list \<Rightarrow> byte list set" where
  "lang [] = {[]}"
| "lang (i # is) =
     (case i of One c \<Rightarrow> {x # w |x w. fits_char c x \<and> w \<in> lang is}
      | Star c \<Rightarrow> {v @ w |v w. (\<forall>x \<in> set v. fits_char c x) \<and> w \<in> lang is})"

text \<open>A text that begins with a word of the expression, and is one if the expression ends in \<^verbatim>\<open>$\<close>.\<close>

definition begins_with :: "item list \<Rightarrow> bool \<Rightarrow> byte list \<Rightarrow> bool" where
  "begins_with is anch text \<longleftrightarrow> (\<exists>u v. text = u @ v \<and> u \<in> lang is \<and> (anch \<longrightarrow> v = []))"

definition matches :: "byte list \<Rightarrow> byte list \<Rightarrow> bool" where
  "matches re text = begins_with (items re) (anchored re) text"

lemma begins_Nil [simp]: "begins_with [] anch text \<longleftrightarrow> anch \<longrightarrow> text = []"
  by (auto simp: begins_with_def)

lemma begins_One:
  "begins_with (One c # is) anch text \<longleftrightarrow> (\<exists>t r. text = t # r \<and> fits_char c t \<and> begins_with is anch r)"
proof
  assume "begins_with (One c # is) anch text"
  then obtain x w v where "text = (x # w) @ v" "fits_char c x" "w \<in> lang is" "anch \<longrightarrow> v = []" by (force simp: begins_with_def)
  then show "\<exists>t r. text = t # r \<and> fits_char c t \<and> begins_with is anch r" unfolding begins_with_def by (metis append_Cons)
next
  assume "\<exists>t r. text = t # r \<and> fits_char c t \<and> begins_with is anch r"
  then obtain t w v where "text = t # w @ v" "fits_char c t" "w \<in> lang is" "anch \<longrightarrow> v = []" by (auto simp: begins_with_def)
  then show "begins_with (One c # is) anch text" unfolding begins_with_def by (intro exI [of _ "t # w"] exI [of _ v]) simp
qed

lemma begins_Star:
  "begins_with (Star c # is) anch text \<longleftrightarrow> (\<exists>v r. text = v @ r \<and> (\<forall>x \<in> set v. fits_char c x) \<and> begins_with is anch r)"
proof
  assume "begins_with (Star c # is) anch text"
  then obtain v w z where "text = (v @ w) @ z" "\<forall>x \<in> set v. fits_char c x" "w \<in> lang is" "anch \<longrightarrow> z = []" by (force simp: begins_with_def)
  then show "\<exists>v r. text = v @ r \<and> (\<forall>x \<in> set v. fits_char c x) \<and> begins_with is anch r" unfolding begins_with_def by (metis append.assoc)
next
  assume "\<exists>v r. text = v @ r \<and> (\<forall>x \<in> set v. fits_char c x) \<and> begins_with is anch r"
  then obtain v w z where "text = v @ w @ z" "\<forall>x \<in> set v. fits_char c x" "w \<in> lang is" "anch \<longrightarrow> z = []" by (auto simp: begins_with_def)
  then show "begins_with (Star c # is) anch text" unfolding begins_with_def by (intro exI [of _ "v @ w"] exI [of _ z]) auto
qed

lemma begins_Star_step:
  "begins_with (Star c # is) anch text \<longleftrightarrow>
     begins_with is anch text \<or> (\<exists>t r. text = t # r \<and> fits_char c t \<and> begins_with (Star c # is) anch r)"
proof
  assume "begins_with (Star c # is) anch text"
  then obtain v r where v: "text = v @ r" "\<forall>x \<in> set v. fits_char c x" "begins_with is anch r" by (auto simp: begins_Star)
  then show "begins_with is anch text \<or> (\<exists>t r. text = t # r \<and> fits_char c t \<and> begins_with (Star c # is) anch r)"
    by (cases v) (auto simp: begins_Star)
next
  assume "begins_with is anch text \<or> (\<exists>t r. text = t # r \<and> fits_char c t \<and> begins_with (Star c # is) anch r)"
  then show "begins_with (Star c # is) anch text"
  proof
    assume "begins_with is anch text"
    then show ?thesis unfolding begins_Star by (intro exI [of _ "[]"] exI [of _ "text"]) simp
  next
    assume "\<exists>t r. text = t # r \<and> fits_char c t \<and> begins_with (Star c # is) anch r"
    then obtain t v r where "text = t # v @ r" "fits_char c t" "\<forall>x \<in> set v. fits_char c x" "begins_with is anch r" by (auto simp: begins_Star)
    then show ?thesis unfolding begins_Star by (intro exI [of _ "t # v"] exI [of _ r]) auto
  qed
qed

lemma matches_simps:
  "matches [] text"
  "matches [36] text \<longleftrightarrow> text = []"
  "c \<noteq> 36 \<Longrightarrow> matches [c] text \<longleftrightarrow> (\<exists>t r. text = t # r \<and> fits_char c t)"
  "d \<noteq> 42 \<Longrightarrow> matches (c # d # re) text \<longleftrightarrow> (\<exists>t r. text = t # r \<and> fits_char c t \<and> matches (d # re) r)"
  "matches (c # 42 # re) text \<longleftrightarrow> matches re text \<or> (\<exists>t r. text = t # r \<and> fits_char c t \<and> matches (c # 42 # re) r)"
  using begins_Star_step [of c "items re" "anchored re" "text"] by (simp_all add: matches_def begins_One)

lemma matchhere_matches:
  assumes "0 \<notin> set re" and "0 \<notin> set text"
  shows "matchhere (re @ 0 # y) (text @ 0 # z) = Some (matches re text)"
  using assms
proof (induction "length re + length text" arbitrary: re "text" rule: less_induct)
  case less
  consider "re = []" | c where "re = [c]" | c re' where "re = c # 42 # re'" | c d re' where "re = c # d # re'" "d \<noteq> 42"
    by (metis list.exhaust)
  then show ?case
  proof cases
    case 1
    then show ?thesis by (simp add: matchhere.simps matches_simps)
  next
    case (2 c)
    have "matchhere (0 # y) (r @ 0 # z) = Some True" for r by (simp add: matchhere.simps)
    then show ?thesis using 2 less.prems
      by (cases "c = 36"; cases "text") (auto simp: matchhere.simps [of "_ # 0 # y"] matches_simps fits_char_def)
  next
    case (3 c re')
    have "matchstar c (re' @ 0 # y) (s @ 0 # z) = Some (matches (c # 42 # re') s)" if "length s \<le> length text" "0 \<notin> set s" for s
      using that
    proof (induction s)
      case Nil
      have "matchhere (re' @ 0 # y) ([] @ 0 # z) = Some (matches re' [])" by (rule less.hyps) (use 3 less.prems in auto)
      then show ?case by (subst matchstar.simps, subst matches_simps(5)) (auto split: bool.splits)
    next
      case (Cons t s)
      have "matchhere (re' @ 0 # y) ((t # s) @ 0 # z) = Some (matches re' (t # s))" by (rule less.hyps) (use 3 less.prems Cons.prems in auto)
      then show ?case using Cons
        by (subst matchstar.simps, subst matches_simps(5)) (auto simp: fits_char_def split: bool.splits)
    qed
    then show ?thesis using 3 less.prems by (simp add: matchhere.simps [of "c # _"])
  next
    case (4 c d re')
    show ?thesis
    proof (cases "text")
      case Nil
      then show ?thesis using 4 less.prems by (auto simp: matchhere.simps [of "c # _"] matches_simps)
    next
      case (Cons t r)
      have "matchhere ((d # re') @ 0 # y) (r @ 0 # z) = Some (matches (d # re') r)" by (rule less.hyps) (use 4 Cons less.prems in auto)
      then show ?thesis using 4 Cons less.prems by (auto simp: matchhere.simps [of "c # _"] matches_simps fits_char_def)
    qed
  qed
qed

lemma match_from_matches:
  assumes "0 \<notin> set re" and "0 \<notin> set text"
  shows "match_from (re @ 0 # y) (text @ 0 # z) = Some (\<exists>p r. text = p @ r \<and> matches re r)"
  using assms(2)
proof (induction "text")
  case Nil
  then show ?case using matchhere_matches [OF assms(1), of "[]" y z] by (auto split: bool.splits)
next
  case (Cons t "text")
  have ex: "(\<exists>p r. t # text = p @ r \<and> matches re r) \<longleftrightarrow> matches re (t # text) \<or> (\<exists>p r. text = p @ r \<and> matches re r)"
    by (auto simp: Cons_eq_append_conv)
  show ?case using Cons matchhere_matches [OF assms(1) Cons.prems, of y z] unfolding ex by (cases "matches re (t # text)") simp_all
qed

definition accepts :: "byte list \<Rightarrow> byte list \<Rightarrow> bool" where
  "accepts re text =
     (if re \<noteq> [] \<and> hd re = 94 then matches (tl re) text
      else \<exists>p r. text = p @ r \<and> matches re r)"

lemma cstr_split:
  assumes "terminated s"
  obtains z where "s = cstr s @ 0 # z" "0 \<notin> set (cstr s)"
proof -
  obtain u z where "s = u @ 0 # z" "0 \<notin> set u" using assms split_list_first [of 0 s] by (auto simp: terminated_def)
  then show thesis using that by (simp add: cstr_str)
qed

lemma match_accepts:
  assumes "terminated re" and "terminated text"
  shows "match re text = Some (accepts (cstr re) (cstr text))"
proof -
  obtain y z where y: "re = cstr re @ 0 # y" "0 \<notin> set (cstr re)" and z: "text = cstr text @ 0 # z" "0 \<notin> set (cstr text)"
    using cstr_split [OF assms(1)] cstr_split [OF assms(2)] by metis
  show ?thesis
  proof (cases "cstr re \<noteq> [] \<and> hd (cstr re) = 94")
    case True
    then obtain r where r: "cstr re = 94 # r" by (cases "cstr re") auto
    then have "match re text = matchhere (r @ 0 # y) (cstr text @ 0 # z)" using y(1) z(1) by (simp add: match_def split: list.splits)
    then show ?thesis using matchhere_matches [of r "cstr text" y z] y(2) z(2) r by (simp add: accepts_def)
  next
    case False
    have "match re text = match_from (cstr re @ 0 # y) (cstr text @ 0 # z)"
      using False y(1) z(1) by (cases "cstr re") (auto simp: match_def split: list.splits)
    then show ?thesis using match_from_matches [OF y(2) z(2), of y z] False by (auto simp: accepts_def)
  qed
qed

text \<open>
  C20. The matcher, which works on pointers without ever building the expression, accepts exactly the lines that
  the expression describes: a literal or \<^verbatim>\<open>.\<close> stands for one character, with \<^verbatim>\<open>*\<close> behind it for any number of them,
  \<^verbatim>\<open>$\<close> at the end and \<^verbatim>\<open>^\<close> at the beginning tie the match to the ends of the line. It never leaves its arrays.
\<close>

theorem match_lang:
  assumes "terminated re" and "terminated text"
  shows "match re text = Some
    (if cstr re \<noteq> [] \<and> hd (cstr re) = 94
     then \<exists>u v. cstr text = u @ v \<and> u \<in> lang (items (tl (cstr re))) \<and> (anchored (tl (cstr re)) \<longrightarrow> v = [])
     else \<exists>p u v. cstr text = p @ u @ v \<and> u \<in> lang (items (cstr re)) \<and> (anchored (cstr re) \<longrightarrow> v = []))"
  using match_accepts [OF assms] by (auto simp: accepts_def matches_def begins_with_def)

theorem match_lang_witness:
  "match (str ''^a.*d$'' @ [0]) (str ''abcd'' @ [0]) = Some True"
proof -
  have t: "terminated (str ''^a.*d$'' @ [0])" "terminated (str ''abcd'' @ [0])" by (simp_all add: terminated_def)
  have c: "cstr (str ''^a.*d$'' @ [0]) = str ''^a.*d$''" "cstr (str ''abcd'' @ [0]) = str ''abcd''" by (simp_all add: str_def)
  have l: "items (tl (str ''^a.*d$'')) = [One 97, Star 46, One 100]" "anchored (tl (str ''^a.*d$''))" by (simp_all add: str_def)
  have "[97] @ [98, 99] @ [100] \<in> lang [One 97, Star 46, One 100]" by (simp add: fits_char_def)
  then have "\<exists>u v. str ''abcd'' = u @ v \<and> u \<in> lang (items (tl (str ''^a.*d$''))) \<and> (anchored (tl (str ''^a.*d$'')) \<longrightarrow> v = [])"
    unfolding l by (intro exI [of _ "str ''abcd''"] exI [of _ "[]"]) (simp add: str_def)
  moreover have "str ''^a.*d$'' \<noteq> []" "hd (str ''^a.*d$'') = 94" by (simp_all add: str_def)
  ultimately show ?thesis using match_lang [OF t] unfolding c by simp
qed

section \<open>The loop over the input\<close>

text \<open>
  What successive \<^verbatim>\<open>read\<close>s can return: a list of pieces, of which one call gives as much as it asks for.
\<close>

fun read_piece :: "nat \<Rightarrow> byte list list \<Rightarrow> byte list \<times> byte list list" where
  "read_piece k [] = ([], [])"
| "read_piece k (c # cs) = (if length c \<le> k then (c, cs) else (take k c, drop k c # cs))"

lemma read_piece_less: "read_piece k input = (c, input') \<Longrightarrow> c \<noteq> [] \<Longrightarrow> length (concat input') < length (concat input)"
  by (cases input) (auto split: if_splits)

text \<open>The lines of the buffer, from \<^verbatim>\<open>p\<close> to the first NUL: what is written, and the new \<^verbatim>\<open>p\<close>.\<close>

function grep_lines :: "byte list \<Rightarrow> byte list \<Rightarrow> (byte list list \<times> byte list) option" where
  "grep_lines pattern p =
     (case strchr p 10 of None \<Rightarrow> None
      | Some None \<Rightarrow> Some ([], p)
      | Some (Some k) \<Rightarrow>
          (if k < length p then
             (case match pattern (p[k := 0]) of None \<Rightarrow> None
              | Some m \<Rightarrow>
                  map_option (\<lambda>(out, q). ((if m then [take (k + 1) p] else []) @ out, q)) (grep_lines pattern (drop (k + 1) p)))
           else None))"
  by pat_completeness auto
termination by (relation "measure (\<lambda>(_, p). length p)") auto

declare grep_lines.simps [simp del]

text \<open>The loop of \<^verbatim>\<open>grep\<close>; \<open>d\<close> are the first \<^verbatim>\<open>m\<close> bytes of its buffer of 1024.\<close>

function grep_loop :: "byte list \<Rightarrow> byte list \<Rightarrow> byte list list \<Rightarrow> byte list list option" where
  "grep_loop pattern d input =
     (case read_piece (1024 - length d - 1) input of (c, input') \<Rightarrow>
      if c = [] then Some []
      else
        (case grep_lines pattern (d @ c @ [0]) of None \<Rightarrow> None
         | Some (out, p) \<Rightarrow>
             map_option (\<lambda>rest. out @ rest)
               (grep_loop pattern (if length p = length (d @ c @ [0]) then [] else take (length p - 1) p) input')))"
  by pat_completeness auto
termination
  by (relation "measure (\<lambda>(_, _, input). length (concat input))") (auto dest!: read_piece_less [OF sym] simp: length_concat)

declare grep_loop.simps [simp del]

definition grep :: "byte list \<Rightarrow> byte list list \<Rightarrow> byte list list option" where
  "grep pattern input = grep_loop pattern [] input"

definition nl :: "byte list \<Rightarrow> byte list" where
  "nl l = l @ [10]"

definition plain :: "byte list \<Rightarrow> bool" where
  "plain l \<longleftrightarrow> 0 \<notin> set l \<and> 10 \<notin> set l"

lemma strchr_line: "plain l \<Longrightarrow> strchr (l @ 10 # r) 10 = Some (Some (length l))"
  by (induction l) (auto simp: plain_def)

lemma strchr_rest: "plain l \<Longrightarrow> strchr (l @ [0]) 10 = Some None"
  by (induction l) (auto simp: plain_def)

lemma grep_lines_run:
  assumes "terminated pat" and "\<forall>l \<in> set ls. plain l" and "plain r"
  shows "grep_lines pat (concat (map nl ls) @ r @ [0]) = Some (map nl (filter (accepts (cstr pat)) ls), r @ [0])"
  using assms(2)
proof (induction ls)
  case Nil
  then show ?case using strchr_rest [OF assms(3)] by (simp add: grep_lines.simps)
next
  case (Cons l ls)
  let ?p = "l @ 10 # concat (map nl ls) @ r @ [0]"
  have l: "plain l" using Cons.prems by simp
  have u: "?p[length l := 0] = l @ 0 # concat (map nl ls) @ r @ [0]" by simp
  have "match pat (?p[length l := 0]) = Some (accepts (cstr pat) l)"
    using match_accepts [OF assms(1), of "?p[length l := 0]"] l unfolding u by (simp add: plain_def cstr_str)
  then have "grep_lines pat ?p = map_option (\<lambda>(out, q). ((if accepts (cstr pat) l then [nl l] else []) @ out, q))
      (grep_lines pat (concat (map nl ls) @ r @ [0]))"
    using strchr_line [OF l] by (subst grep_lines.simps) (simp add: nl_def)
  moreover have "concat (map nl (l # ls)) @ r @ [0] = ?p" by (simp add: nl_def [of l])
  ultimately show ?case using Cons by simp
qed

text \<open>
  C21. When the reads deliver whole lines, \<^verbatim>\<open>grep\<close> writes exactly the lines that the pattern matches, each
  once and in order.
\<close>

theorem grep_whole_lines:
  assumes "terminated pat" and "\<forall>ls \<in> set input. ls \<noteq> [] \<and> (\<forall>l \<in> set ls. plain l) \<and> length (concat (map nl ls)) \<le> 1023"
  shows "grep pat (map (\<lambda>ls. concat (map nl ls)) input) = Some (map nl (filter (accepts (cstr pat)) (concat input)))"
  using assms(2)
proof (induction input)
  case Nil
  then show ?case by (simp add: grep_def grep_loop.simps)
next
  case (Cons ls input)
  have ls: "\<forall>l \<in> set ls. plain l" "length (concat (map nl ls)) \<le> 1023" "concat (map nl ls) \<noteq> []"
    using Cons.prems by (simp_all, cases ls) (auto simp: nl_def)
  have "grep_lines pat (concat (map nl ls) @ [] @ [0]) = Some (map nl (filter (accepts (cstr pat)) ls), [] @ [0])"
    by (rule grep_lines_run [OF assms(1) ls(1)]) (simp add: plain_def)
  then show ?case using Cons ls(2,3) by (auto simp: grep_def grep_loop.simps [of pat "[]" "_ # _"])
qed

theorem grep_whole_lines_witness:
  "grep (str ''b'' @ [0]) [str ''ab'' @ [10] @ str ''c'' @ [10], str ''b'' @ [10]] = Some [str ''ab'' @ [10], str ''b'' @ [10]]"
proof -
  let ?in = "[[str ''ab'', str ''c''], [str ''b'']]"
  have t: "terminated (str ''b'' @ [0])" by (simp add: terminated_def)
  have acc: "accepts (str ''b'') (str ''ab'')" "\<not> accepts (str ''b'') (str ''c'')" "accepts (str ''b'') (str ''b'')"
    using match_accepts [OF t, of "str ''ab'' @ [0]"] match_accepts [OF t, of "str ''c'' @ [0]"] match_accepts [OF t, of "str ''b'' @ [0]"]
    by (simp_all add: str_def match_def matchhere.simps)
  have "grep (str ''b'' @ [0]) (map (\<lambda>ls. concat (map nl ls)) ?in) = Some (map nl (filter (accepts (cstr (str ''b'' @ [0]))) (concat ?in)))"
    by (rule grep_whole_lines [OF t]) (auto simp: str_def plain_def nl_def)
  moreover have "cstr (str ''b'' @ [0]) = str ''b''" by (simp add: str_def)
  ultimately show ?thesis using acc by (simp add: nl_def str_def)
qed

text \<open>
  C22. A read that ends before the end of the first line in the buffer is thrown away: whatever such a read
  delivered is lost, so that a line arriving in two parts is never searched as a whole.
\<close>

theorem grep_drops_piece:
  assumes "terminated pat" and "plain c" and "c \<noteq> []" and "length c \<le> 1023"
  shows "grep pat (c # input) = grep pat input"
proof -
  have "grep_lines pat (concat (map nl []) @ c @ [0]) = Some (map nl (filter (accepts (cstr pat)) []), c @ [0])"
    by (rule grep_lines_run [OF assms(1) _ assms(2)]) simp
  then show ?thesis using assms(3,4) by (simp add: grep_def grep_loop.simps [of pat "[]" "_ # _"] map_option_idI)
qed

theorem grep_drops_piece_witness:
  "grep (str ''ab'' @ [0]) [str ''a'', str ''b'' @ [10]] = Some [] \<and> grep (str ''ab'' @ [0]) [str ''ab'' @ [10]] = Some [str ''ab'' @ [10]]"
proof -
  have t: "terminated (str ''ab'' @ [0])" by (simp add: terminated_def)
  have "grep (str ''ab'' @ [0]) [str ''a'', str ''b'' @ [10]] = grep (str ''ab'' @ [0]) [str ''b'' @ [10]]"
    by (rule grep_drops_piece [OF t]) (simp_all add: plain_def str_def)
  moreover have "grep (str ''ab'' @ [0]) [str ''b'' @ [10]] = Some []" "grep (str ''ab'' @ [0]) [str ''ab'' @ [10]] = Some [str ''ab'' @ [10]]"
    by (simp_all add: grep_def grep_loop.simps grep_lines.simps str_def match_def matchhere.simps)
  ultimately show ?thesis by simp
qed

end
