(* ===== verification/Fs_Block.thy ===== *)
theory Fs_Block
  imports Fs
begin

text \<open>
  Block allocation on the logical content of the disk: \<^verbatim>\<open>balloc\<close> takes the first free block of the bitmap and
  clears it, \<^verbatim>\<open>bfree\<close> gives one back. The lemmas are stated over what the cache and the log make of the disk,
  through the laws of the block store.
\<close>

section \<open>Steps of a transaction\<close>

text \<open>
  From \<open>s\<close> to \<open>t\<close> the content of the disk has become \<open>v\<close> and the inode cache \<open>is\<close>; the log has room for \<open>k\<close> more
  blocks, and buffers held for blocks other than those in \<open>X\<close> are held as before.
\<close>

definition tx :: "'z fs_st_scheme \<Rightarrow> inode list \<Rightarrow> (nat \<Rightarrow> block) \<Rightarrow> nat set \<Rightarrow> nat \<Rightarrow> 'z fs_st_scheme \<Rightarrow> bool" where
  "tx s is v X k t \<longleftrightarrow> wst t \<and> log_frame (s\<lparr>inodes := is\<rparr>) t \<and> bview t = v \<and> held t = held s \<and> lg_space t k
     \<and> (\<forall>n c. holds s n c \<longrightarrow> n \<notin> X \<longrightarrow> holds t n c) \<and> (\<forall>n. clean s n \<longrightarrow> n \<notin> X \<longrightarrow> clean t n)"

lemma log_frame_inodes:
  fixes s :: "'z fs_st_scheme"
  assumes "log_frame s t"
  shows "log_frame (s\<lparr>inodes := x\<rparr>) (t\<lparr>inodes := x\<rparr>)"
proof -
  obtain n w A B N P where t: "t = s\<lparr>lh_n := n, lh_block := w, slocks := A, bufs := B, bnext := N, bprev := P\<rparr>"
    and i: "\<forall>i. A (SL_inode i) = slocks s (SL_inode i)" using assms by (auto simp: log_frame_def bio_frame_def)
  show ?thesis unfolding log_frame_def bio_frame_def t
    by (rule exI [of _ n], rule exI [of _ w], rule exI [of _ A], rule exI [of _ B], rule exI [of _ N], rule exI [of _ P]) (simp add: i)
qed

lemma log_frame_fs:
  fixes s :: "'z fs_st_scheme"
  shows "log_frame s t \<Longrightarrow> inodes t = inodes s" "log_frame s t \<Longrightarrow> sb t = sb s"
  by (auto simp: log_frame_def bio_frame_def)

lemma tx_sel:
  assumes "tx s is v X k t"
  shows "wst t" "bview t = v" "held t = held s" "lg_space t k" "inodes t = is" "sb t = sb s" "lg_blk t = lg_blk s"
    "\<And>i. slocks t (SL_inode i) = slocks s (SL_inode i)" "lk t = lk s" "procs t = procs s" "cpu_proc t = cpu_proc s"
proof -
  have f: "log_frame (s\<lparr>inodes := is\<rparr>) t" using assms by (simp add: tx_def)
  show "wst t" "bview t = v" "held t = held s" "lg_space t k" using assms by (simp_all add: tx_def)
  show "inodes t = is" "sb t = sb s" using log_frame_fs [OF f] by simp_all
  show "lg_blk t = lg_blk s" using log_frame_blk [OF f] by (simp add: fun_eq_iff lg_blk_def log_area_def)
  show "slocks t (SL_inode i) = slocks s (SL_inode i)" for i using log_frame_sel(10) [OF f] by simp
  show "lk t = lk s" "procs t = procs s" "cpu_proc t = cpu_proc s" using log_frame_sel [OF f] by simp_all
qed

lemma tx_holds: "tx s is v X k t \<Longrightarrow> holds s n c \<Longrightarrow> n \<notin> X \<Longrightarrow> holds t n c"
  and tx_clean: "tx s is v X k t \<Longrightarrow> clean s n \<Longrightarrow> n \<notin> X \<Longrightarrow> clean t n"
  by (simp_all add: tx_def)

lemma tx_trans:
  assumes "tx s is v X k t" and "tx t is' w Y j u"
  shows "tx s is' w (X \<union> Y) j u"
proof -
  have "log_frame (s\<lparr>inodes := is'\<rparr>) (t\<lparr>inodes := is'\<rparr>)"
    using log_frame_inodes [of "s\<lparr>inodes := is\<rparr>" t is'] assms(1) by (simp add: tx_def)
  then have "log_frame (s\<lparr>inodes := is'\<rparr>) u" using log_frame_trans assms(2) by (auto simp: tx_def)
  then show ?thesis using assms by (auto simp: tx_def)
qed

lemma log_frame_refl: "log_frame s s"
  by (rule log_frame_bio) (rule bio_frame_refl)

lemma tx_refl: "wst s \<Longrightarrow> lg_space s k \<Longrightarrow> tx s (inodes s) (bview s) {} k s"
proof -
  have "s\<lparr>inodes := inodes s\<rparr> = s" by (intro fs_st.equality) simp_all
  then show "wst s \<Longrightarrow> lg_space s k \<Longrightarrow> tx s (inodes s) (bview s) {} k s" by (simp add: tx_def log_frame_refl)
qed

lemma tx_mono: "tx s is v X k t \<Longrightarrow> X \<subseteq> Y \<Longrightarrow> j \<le> k \<Longrightarrow> tx s is v Y j t"
  by (auto simp: tx_def lg_space_def)

text \<open>The inode cache is not part of what the block store depends on.\<close>

lemma inodes_agree: "bio_agree s (s\<lparr>inodes := x\<rparr>)"
  by (simp add: bio_agree_def)

lemmas inodes_views [simp] = bio_agree_views [OF inodes_agree]

lemma wst_inodes [simp]: "wst (s\<lparr>inodes := x\<rparr>) = wst s" "lg_space (s\<lparr>inodes := x\<rparr>) k = lg_space s k" "lg_blk (s\<lparr>inodes := x\<rparr>) n = lg_blk s n"
  by (simp_all add: wst_def log_ok_def logged_def log_area_def lg_space_def lg_blk_def)

lemma tx_inodes: "wst s \<Longrightarrow> lg_space s k \<Longrightarrow> tx s is (bview s) {} k (s\<lparr>inodes := is\<rparr>)"
  by (simp add: tx_def log_frame_refl)

lemma tx_blocks:
  assumes "wst t" "log_frame s t" "bview t = v" "held t = held s" "lg_space t k"
    "\<forall>n c. holds s n c \<longrightarrow> n \<noteq> bn \<longrightarrow> holds t n c" "\<forall>n. clean s n \<longrightarrow> n \<noteq> bn \<longrightarrow> clean t n"
  shows "tx s (inodes s) v {bn} k t"
proof -
  have "s\<lparr>inodes := inodes s\<rparr> = s" by (intro fs_st.equality) simp_all
  then show ?thesis using assms by (simp add: tx_def)
qed

lemma tx_get:
  fixes s :: "'z fs_st_scheme"
  assumes "wst s" and "lg_blk s bn" and "bn \<notin> held s" and "lg_space s k" and "card (held s) \<le> k"
  shows "\<exists>t. kbind (bread 1 bn) (\<lambda>bp. kbind (bfld bp (\<lambda>x. f (b_data x))) (\<lambda>r. kthen (brelse bp) (kret r))) s = Ret (f (bview s bn)) t
    \<and> tx s (inodes s) (bview s) {bn} k t"
proof -
  obtain t where t: "kbind (bread 1 bn) (\<lambda>bp. kbind (bfld bp (\<lambda>x. f (b_data x))) (\<lambda>r. kthen (brelse bp) (kret r))) s = Ret (f (bview s bn)) t"
      "wst t" "cache_frame s t" "bview t = bview s" "held t = held s" "\<forall>n c. holds s n c \<longrightarrow> n \<noteq> bn \<longrightarrow> holds t n c" "\<forall>n. clean s n \<longrightarrow> clean t n"
    using lg.block_get [OF assms, of f] by blast
  then show ?thesis using lg.rfr_fr [OF t(3)] lg.rfr_space [OF t(3)] assms(4) by (auto intro!: tx_blocks)
qed

lemma tx_modify:
  fixes s :: "'z fs_st_scheme"
  assumes "wst s" and "lg_blk s bn" and "bn \<notin> held s" and "lg_space s (Suc k)" and "card (held s) \<le> Suc k" and "length (f (bview s bn)) = BSIZE"
  shows "\<exists>t. kbind (bread 1 bn) (\<lambda>bp. kthen (bset bp (b_data_update f)) (kthen (log_write bp) (brelse bp))) s = Ret () t
    \<and> tx s (inodes s) ((bview s)(bn := f (bview s bn))) {bn} k t"
proof -
  obtain t where t: "kbind (bread 1 bn) (\<lambda>bp. kthen (bset bp (b_data_update f)) (kthen (log_write bp) (brelse bp))) s = Ret () t"
      "wst t" "log_frame s t" "bview t = (bview s)(bn := f (bview s bn))" "held t = held s" "lg_space t k"
      "\<forall>n c. holds s n c \<longrightarrow> n \<noteq> bn \<longrightarrow> holds t n c" "\<forall>n. clean s n \<longrightarrow> n \<noteq> bn \<longrightarrow> clean t n"
    using lg.block_modify [where f = f, OF assms(1,2,2,3,4,5,6)] by blast
  then show ?thesis by (auto intro!: tx_blocks)
qed

text \<open>A block that has been read and is still held, and the two ways to give it back.\<close>

definition opened :: "'z fs_st_scheme \<Rightarrow> nat \<Rightarrow> nat \<Rightarrow> 'z fs_st_scheme \<Rightarrow> bool" where
  "opened s bn b t \<longleftrightarrow> wst t \<and> cache_frame s t \<and> holds t bn b \<and> clean t bn \<and> bview t = bview s \<and> held t = insert bn (held s)
     \<and> (\<forall>n c. holds s n c \<longrightarrow> holds t n c) \<and> (\<forall>n. clean s n \<longrightarrow> clean t n) \<and> b_data (bufs t ! b) = bview s bn
     \<and> length (bview s bn) = BSIZE"

lemma bread_opened:
  fixes s :: "'z fs_st_scheme"
  assumes "wst s" and "lg_blk s bn" and "bn \<notin> held s" and "lg_space s k" and "card (held s) \<le> k"
  shows "\<exists>b t. bread 1 bn s = Ret b t \<and> opened s bn b t"
proof -
  obtain b t where t: "bread 1 bn s = Ret b t" "wst t" "cache_frame s t" "holds t bn b" "clean t bn" "bview t = bview s"
      "held t = insert bn (held s)" "\<forall>n c. holds s n c \<longrightarrow> holds t n c" "\<forall>n. clean s n \<longrightarrow> clean t n"
    using lg.rd_law [OF assms] by blast
  moreover have "b_data (bufs t ! b) = bview s bn \<and> length (bview s bn) = BSIZE" using lg.data_law [OF t(2,4)] t(6) by simp
  ultimately show ?thesis unfolding opened_def by blast
qed

lemma opened_tx:
  assumes "opened s bn b t" and "lg_space s k"
  shows "wst t" "holds t bn b" "bview t = bview s" "held t = insert bn (held s)" "lg_space t k" "inodes t = inodes s" "sb t = sb s"
    "lg_blk t = lg_blk s" "b_data (bufs t ! b) = bview s bn" "length (bview s bn) = BSIZE"
proof -
  have f: "log_frame s t" "lg_space t = lg_space s" using assms(1) lg.rfr_fr lg.rfr_space by (auto simp: opened_def)
  show "wst t" "holds t bn b" "bview t = bview s" "held t = insert bn (held s)" "b_data (bufs t ! b) = bview s bn" "length (bview s bn) = BSIZE"
    using assms(1) by (simp_all add: opened_def)
  show "lg_space t k" using f(2) assms(2) by simp
  show "inodes t = inodes s" "sb t = sb s" using log_frame_fs [OF f(1)] by simp_all
  show "lg_blk t = lg_blk s" by (rule log_frame_blk [OF f(1)])
qed

lemma opened_rel:
  assumes "opened s bn b t" and "bn \<notin> held s" and "lg_space s k"
  shows "\<exists>u. brelse b t = Ret () u \<and> tx s (inodes s) (bview s) {bn} k u"
proof -
  have t: "wst t" "cache_frame s t" "holds t bn b" "clean t bn" using assms(1) by (simp_all add: opened_def)
  obtain u where u: "brelse b t = Ret () u" "wst u" "cache_frame t u" "bview u = bview t" "held u = held t - {bn}"
      "\<forall>n c. n \<noteq> bn \<longrightarrow> holds t n c \<longrightarrow> holds u n c" "\<forall>n. clean t n \<longrightarrow> clean u n"
    using lg.rel_law [OF t(1,3,4)] by blast
  have f: "cache_frame s u" using cache_frame_trans t(2) u(3) by blast
  have "tx s (inodes s) (bview s) {bn} k u"
    using u assms lg.rfr_fr [OF f] lg.rfr_space [OF f] by (intro tx_blocks) (auto simp: opened_def)
  then show ?thesis using u(1) by blast
qed

lemma opened_store:
  assumes "opened s bn b t" and "bn \<notin> held s" and "lg_blk s bn" and "lg_space s (Suc k)" and "length (f (bview s bn)) = BSIZE"
  shows "\<exists>u1 u2 u. bset b (b_data_update f) t = Ret () u1 \<and> log_write b u1 = Ret () u2 \<and> brelse b u2 = Ret () u
    \<and> tx s (inodes s) ((bview s)(bn := f (bview s bn))) {bn} k u"
proof -
  have t: "wst t" "cache_frame s t" "holds t bn b" "bview t = bview s" using assms(1) by (simp_all add: opened_def)
  have t2: "lg_blk t bn" "lg_space t (Suc k)" "length (f (bview t bn)) = BSIZE"
    using opened_tx [OF assms(1,4)] assms(3,5) by simp_all
  obtain u where u: "kthen (bset b (b_data_update f)) (kthen (log_write b) (brelse b)) t = Ret () u" "wst u" "log_frame t u"
      "bview u = (bview t)(bn := f (bview t bn))" "held u = held t - {bn}" "lg_space u k"
      "\<forall>n c. holds t n c \<longrightarrow> n \<noteq> bn \<longrightarrow> holds u n c" "\<forall>n. clean t n \<longrightarrow> n \<noteq> bn \<longrightarrow> clean u n"
    using lg.block_store_held [where f = f, OF t(1,3) t2] by blast
  have "log_frame s u" using log_frame_trans [OF lg.rfr_fr [OF t(2)] u(3)] .
  then have "tx s (inodes s) ((bview s)(bn := f (bview s bn))) {bn} k u"
    using u(2,4-8) assms(1,2) t(4) by (intro tx_blocks) (auto simp: opened_def)
  then show ?thesis using u(1) by (auto simp: kthen_run kcont_eq_Ret)
qed

section \<open>The bitmap\<close>

lemma bm_used_bit: "bm_used i d \<longleftrightarrow> bit (d ! (i div 8)) (i mod 8)"
  by (simp add: bm_used_def push_bit_eq_mult and_exp_eq_0_iff_not_bit)

lemma bm_index: "i < BPB \<Longrightarrow> i div 8 < BSIZE"
  by (simp add: BPB_def)

lemma bm_set_used:
  assumes "length d = BSIZE" and "i < BPB" and "j < BPB"
  shows "bm_used i (bm_set j d) \<longleftrightarrow> i = j \<or> bm_used i d"
proof -
  have "i = j \<longleftrightarrow> i div 8 = j div 8 \<and> i mod 8 = j mod 8" by (metis div_mult_mod_eq)
  moreover have "i mod 8 < 8" by simp
  ultimately show ?thesis using assms bm_index [of i] bm_index [of j]
    by (auto simp: bm_used_bit bm_set_def nth_list_update bit_or_iff push_bit_eq_mult bit_exp_iff)
qed

lemma bm_clear_used:
  assumes "length d = BSIZE" and "i < BPB" and "j < BPB"
  shows "bm_used i (bm_clear j d) \<longleftrightarrow> i \<noteq> j \<and> bm_used i d"
proof -
  have "i = j \<longleftrightarrow> i div 8 = j div 8 \<and> i mod 8 = j mod 8" by (metis div_mult_mod_eq)
  moreover have "i mod 8 < 8" by simp
  ultimately show ?thesis using assms bm_index [of i] bm_index [of j]
    by (auto simp: bm_used_bit bm_clear_def nth_list_update bit_and_iff bit_not_iff push_bit_eq_mult bit_exp_iff)
qed

lemma bm_length [simp]: "length (bm_set i d) = length d" "length (bm_clear i d) = length d"
  by (simp_all add: bm_set_def bm_clear_def)

text \<open>A block is in use on a disk with content \<open>v\<close>; the blocks from \<open>dstart\<close> on hold data.\<close>

definition used :: "superblock \<Rightarrow> (nat \<Rightarrow> block) \<Rightarrow> nat \<Rightarrow> bool" where
  "used x v b = bm_used (b mod BPB) (v (BBLOCK b x))"

definition dstart :: "superblock \<Rightarrow> nat" where
  "dstart x = sb_bmapstart x + sb_size x div BPB + 1"

definition mark_used :: "superblock \<Rightarrow> nat \<Rightarrow> (nat \<Rightarrow> block) \<Rightarrow> nat \<Rightarrow> block" where
  "mark_used x a v = v(BBLOCK a x := bm_set (a mod BPB) (v (BBLOCK a x)))"

definition mark_free :: "superblock \<Rightarrow> nat \<Rightarrow> (nat \<Rightarrow> block) \<Rightarrow> nat \<Rightarrow> block" where
  "mark_free x a v = v(BBLOCK a x := bm_clear (a mod BPB) (v (BBLOCK a x)))"

definition geometry :: "'z fs_st_scheme \<Rightarrow> bool" where
  "geometry s \<longleftrightarrow> (\<forall>b. sb_inodestart (sb s) \<le> b \<longrightarrow> b < sb_size (sb s) \<longrightarrow> lg_blk s b)
     \<and> sb_inodestart (sb s) + sb_ninodes (sb s) div IPB < sb_bmapstart (sb s)
     \<and> dstart (sb s) \<le> sb_size (sb s) \<and> sb_size (sb s) < 2 ^ 32"

text \<open>A transaction on a file system whose bitmap has all blocks in front of the data in use.\<close>

definition fst_ok :: "'z fs_st_scheme \<Rightarrow> bool" where
  "fst_ok s \<longleftrightarrow> wst s \<and> geometry s \<and> (\<forall>b < dstart (sb s). used (sb s) (bview s) b)"

lemma bblock_range: "b < sb_size x \<Longrightarrow> sb_bmapstart x \<le> BBLOCK b x \<and> BBLOCK b x < dstart x"
  by (auto simp: BBLOCK_def dstart_def div_le_mono less_Suc_eq_le)

lemma geometry_blocks:
  assumes "geometry s" and "b < sb_size (sb s)"
  shows "lg_blk s (BBLOCK b (sb s))" "dstart (sb s) \<le> b \<Longrightarrow> lg_blk s b" "c < sb_size (sb s) \<Longrightarrow> dstart (sb s) \<le> b \<Longrightarrow> BBLOCK c (sb s) \<noteq> b"
  using assms bblock_range [OF assms(2)] bblock_range [of c "sb s"] by (auto simp: geometry_def dstart_def)

lemma wst_length: "wst s \<Longrightarrow> lg_blk s n \<Longrightarrow> length (bview s n) = BSIZE"
  by (simp add: wst_def lg_blk_def bst_len)

section \<open>Allocation\<close>

lemma bzero_run:
  assumes "wst s" and "lg_blk s bn" and "bn \<notin> held s" and "lg_space s (Suc k)" and "card (held s) \<le> Suc k"
  shows "\<exists>t. bzero 1 bn s = Ret () t \<and> tx s (inodes s) ((bview s)(bn := replicate BSIZE 0)) {bn} k t"
  using tx_modify [OF assms, of "\<lambda>_. replicate BSIZE 0"] by (simp add: bzero_def)

text \<open>The first free block of the part of the bitmap that one round looks at.\<close>

definition free_in :: "superblock \<Rightarrow> (nat \<Rightarrow> block) \<Rightarrow> nat \<Rightarrow> nat option" where
  "free_in x v b = find (\<lambda>c. \<not> used x v c) [b..<min (b + BPB) (sb_size x)]"

lemma find_map: "find P (map f xs) = map_option f (find (\<lambda>x. P (f x)) xs)"
  by (induction xs) simp_all

lemma find_append: "find P (xs @ ys) = (case find P xs of None \<Rightarrow> find P ys | Some x \<Rightarrow> Some x)"
  by (induction xs) simp_all

lemma free_in_bits:
  assumes "b = k * BPB" and "b < sb_size x"
  shows "free_in x v b = map_option (\<lambda>i. b + i) (find (\<lambda>bi. \<not> bm_used bi (v (BBLOCK b x))) [0..<min BPB (sb_size x - b)])"
proof -
  let ?n = "min BPB (sb_size x - b)"
  have "[b..<min (b + BPB) (sb_size x)] = [b..<b + ?n]" using assms(2) by (simp add: min_def)
  also have "\<dots> = map (\<lambda>i. b + i) [0..<?n]" by (simp add: map_add_upt add.commute)
  finally have l: "[b..<min (b + BPB) (sb_size x)] = map (\<lambda>i. b + i) [0..<?n]" .
  have "used x v (b + i) = bm_used i (v (BBLOCK b x))" if "i \<in> set [0..<?n]" for i
    using that assms(1) by (simp add: used_def BBLOCK_def BPB_def BSIZE_def)
  then show ?thesis unfolding free_in_def l find_map by (intro arg_cong [where f = "map_option _"] find_cong) auto
qed

lemma balloc_in_run:
  assumes "fst_ok s" and "b = j * BPB" and "b < sb_size (sb s)" and "lg_space s (Suc (Suc k))" and "card (held s) \<le> Suc k"
    and "BBLOCK b (sb s) \<notin> held s" and "\<And>a. free_in (sb s) (bview s) b = Some a \<Longrightarrow> a \<notin> held s"
  shows "case free_in (sb s) (bview s) b of
      None \<Rightarrow> \<exists>t. balloc_in 1 b s = Ret None t \<and> tx s (inodes s) (bview s) {BBLOCK b (sb s)} (Suc (Suc k)) t
    | Some a \<Rightarrow> \<exists>t. balloc_in 1 b s = Ret (Some a) t
        \<and> tx s (inodes s) ((mark_used (sb s) a (bview s))(a := replicate BSIZE 0)) {BBLOCK b (sb s), a} k t"
proof -
  let ?B = "BBLOCK b (sb s)" and ?l = "[0..<min BPB (sb_size (sb s) - b)]"
  have s: "wst s" "geometry s" using assms(1) by (simp_all add: fst_ok_def)
  note g = geometry_blocks [OF s(2) assms(3)]
  obtain c t where t: "bread 1 ?B s = Ret c t" "opened s ?B c t"
    using bread_opened [OF s(1) g(1) assms(6,4)] assms(5) by auto
  note o = opened_tx [OF t(2) assms(4)]
  show ?thesis
  proof (cases "find (\<lambda>bi. \<not> bm_used bi (bview s ?B)) ?l")
    case None
    obtain u where "brelse c t = Ret () u" "tx s (inodes s) (bview s) {?B} (Suc (Suc k)) u"
      using opened_rel [OF t(2) assms(6,4)] by blast
    then show ?thesis using t(1) None o(9) by (simp add: free_in_bits [OF assms(2,3)] balloc_in_def kernel_simps)
  next
    case (Some bi)
    then have bi: "bi < BPB" "b + bi < sb_size (sb s)" "\<not> bm_used bi (bview s ?B)" by (auto simp: find_Some_iff)
    let ?a = "b + bi"
    have m: "?a mod BPB = bi" "BBLOCK ?a (sb s) = ?B" using bi(1) assms(2) by (simp_all add: BBLOCK_def BPB_def BSIZE_def)
    have fa: "free_in (sb s) (bview s) b = Some ?a" using Some by (simp add: free_in_bits [OF assms(2,3)])
    have "\<not> used (sb s) (bview s) ?a" using bi(3) m by (simp add: used_def)
    then have da: "dstart (sb s) \<le> ?a" using assms(1) by (auto simp: fst_ok_def not_less [symmetric])
    note ga = geometry_blocks(2) [OF s(2) bi(2) da]
    have v: "(bview s)(?B := bm_set bi (bview s ?B)) = mark_used (sb s) ?a (bview s)" using m by (simp add: mark_used_def)
    obtain u1 u2 u where u: "bset c (b_data_update (bm_set bi)) t = Ret () u1" "log_write c u1 = Ret () u2" "brelse c u2 = Ret () u"
        "tx s (inodes s) ((bview s)(?B := bm_set bi (bview s ?B))) {?B} (Suc k) u"
      using opened_store [OF t(2) assms(6) g(1) assms(4), of "bm_set bi"] o(10) by auto
    note x = tx_sel [OF u(4)]
    obtain w where w: "bzero 1 ?a u = Ret () w" "tx u (inodes u) ((bview u)(?a := replicate BSIZE 0)) {?a} k w"
      using bzero_run [OF x(1), of ?a k] x ga assms(5) assms(7) [OF fa] by auto
    have "tx s (inodes s) ((mark_used (sb s) ?a (bview s))(?a := replicate BSIZE 0)) {?B, ?a} k w"
      using tx_trans [OF u(4) w(2)] x(2,5) v by (simp add: insert_commute)
    then show ?thesis using fa t(1) u(1-3) w(1) Some o(9) by (simp add: balloc_in_def kernel_simps)
  qed
qed

text \<open>The first free block at or behind \<open>b\<close>.\<close>

definition first_free :: "superblock \<Rightarrow> (nat \<Rightarrow> block) \<Rightarrow> nat \<Rightarrow> nat option" where
  "first_free x v b = find (\<lambda>c. \<not> used x v c) [b..<sb_size x]"

lemma first_free_step:
  assumes "b < sb_size x"
  shows "first_free x v b = (case free_in x v b of None \<Rightarrow> first_free x v (b + BPB) | Some a \<Rightarrow> Some a)"
proof (cases "b + BPB \<le> sb_size x")
  case True
  then have "[b..<sb_size x] = [b..<min (b + BPB) (sb_size x)] @ [b + BPB..<sb_size x]"
    by (simp add: upt_add_eq_append [symmetric] le_add_diff_inverse min_def) (metis le_add1 le_Suc_ex upt_add_eq_append)
  then show ?thesis by (simp add: first_free_def free_in_def find_append split: option.split)
next
  case False
  then show ?thesis by (simp add: first_free_def free_in_def min_def split: option.split)
qed

lemma first_free_SomeD:
  assumes "first_free x v b = Some a"
  shows "b \<le> a" "a < sb_size x" "\<not> used x v a" "\<And>c. b \<le> c \<Longrightarrow> c < a \<Longrightarrow> used x v c"
proof -
  from assms obtain i where i: "i < sb_size x - b" "\<not> used x v (b + i)" "a = b + i" "\<forall>j < i. used x v (b + j)"
    by (auto simp: first_free_def find_Some_iff)
  then show "b \<le> a" "a < sb_size x" "\<not> used x v a" by auto
  show "used x v c" if "b \<le> c" "c < a" for c using i(3,4) that by (metis add_less_cancel_left le_Suc_ex)
qed

lemma balloc_loop:
  assumes "fst_ok s" and "lg_space s (Suc (Suc k))" and "card (held s) \<le> Suc k"
    and "\<And>c. c < sb_size (sb s) \<Longrightarrow> BBLOCK c (sb s) \<notin> held s" and "\<And>a. first_free (sb s) (bview s) (j * BPB) = Some a \<Longrightarrow> a \<notin> held s"
    and "n = (sb_size (sb s) + BPB - 1) div BPB"
  shows "case first_free (sb s) (bview s) (j * BPB) of
      None \<Rightarrow> \<exists>t. kfind (map (\<lambda>k. k * BPB) [j..<n]) (balloc_in 1) s = Ret None t
    | Some a \<Rightarrow> \<exists>t. kfind (map (\<lambda>k. k * BPB) [j..<n]) (balloc_in 1) s = Ret (Some a) t
        \<and> tx s (inodes s) ((mark_used (sb s) a (bview s))(a := replicate BSIZE 0)) ({BBLOCK c (sb s) |c. c < sb_size (sb s)} \<union> {a}) k t"
  using assms
proof (induction "n - j" arbitrary: j s)
  case 0
  have "sb_size (sb s) \<le> j * BPB" using 0(1,7) by (simp add: BPB_def BSIZE_def)
  then have "first_free (sb s) (bview s) (j * BPB) = None" by (simp add: first_free_def)
  then show ?case using 0(1) by (simp add: kernel_simps)
next
  case (Suc m)
  let ?b = "j * BPB" and ?all = "{BBLOCK c (sb s) |c. c < sb_size (sb s)}"
  have j: "j < n" "[j..<n] = j # [Suc j..<n]" using Suc.hyps(2) by (simp_all add: upt_conv_Cons)
  have lt: "?b < sb_size (sb s)" using j(1) Suc.prems(6) by (simp add: BPB_def BSIZE_def)
  note step = first_free_step [OF lt, of "bview s"]
  have fr: "a \<notin> held s" if "free_in (sb s) (bview s) ?b = Some a" for a using that Suc.prems(5) step by simp
  note r = balloc_in_run [OF Suc.prems(1) refl lt Suc.prems(2,3) Suc.prems(4) [OF lt] fr]
  show ?case
  proof (cases "free_in (sb s) (bview s) ?b")
    case None
    then obtain t where t: "balloc_in 1 ?b s = Ret None t" "tx s (inodes s) (bview s) {BBLOCK ?b (sb s)} (Suc (Suc k)) t"
      using r by auto
    note x = tx_sel [OF t(2)]
    have ok: "fst_ok t" using Suc.prems(1) x by (simp add: fst_ok_def geometry_def)
    have ih: "case first_free (sb t) (bview t) (Suc j * BPB) of
        None \<Rightarrow> \<exists>u. kfind (map (\<lambda>k. k * BPB) [Suc j..<n]) (balloc_in 1) t = Ret None u
      | Some a \<Rightarrow> \<exists>u. kfind (map (\<lambda>k. k * BPB) [Suc j..<n]) (balloc_in 1) t = Ret (Some a) u
          \<and> tx t (inodes t) ((mark_used (sb t) a (bview t))(a := replicate BSIZE 0)) ({BBLOCK c (sb t) |c. c < sb_size (sb t)} \<union> {a}) k u"
      by (rule Suc.hyps(1)) (use Suc.hyps(2) Suc.prems x ok step None in \<open>auto simp: add.commute\<close>)
    have ff: "first_free (sb s) (bview s) ?b = first_free (sb t) (bview t) (Suc j * BPB)" using step None x by (simp add: add.commute)
    show ?thesis
    proof (cases "first_free (sb t) (bview t) (Suc j * BPB)")
      case None
      then show ?thesis using ih ff t(1) j(2) by (auto simp: kernel_simps)
    next
      case (Some a)
      then obtain u where u: "kfind (map (\<lambda>k. k * BPB) [Suc j..<n]) (balloc_in 1) t = Ret (Some a) u"
          "tx t (inodes t) ((mark_used (sb t) a (bview t))(a := replicate BSIZE 0)) ({BBLOCK c (sb t) |c. c < sb_size (sb t)} \<union> {a}) k u" using ih by auto
      have "{BBLOCK ?b (sb s)} \<union> (?all \<union> {a}) = ?all \<union> {a}" using lt by blast
      then have "tx s (inodes s) ((mark_used (sb s) a (bview s))(a := replicate BSIZE 0)) (?all \<union> {a}) k u"
        using tx_trans [OF t(2) u(2)] x by simp
      then show ?thesis using Some ff t(1) u(1) j(2) by (simp add: kernel_simps)
    qed
  next
    case (Some a)
    then obtain t where t: "balloc_in 1 ?b s = Ret (Some a) t"
        "tx s (inodes s) ((mark_used (sb s) a (bview s))(a := replicate BSIZE 0)) {BBLOCK ?b (sb s), a} k t" using r by auto
    have "tx s (inodes s) ((mark_used (sb s) a (bview s))(a := replicate BSIZE 0)) (?all \<union> {a}) k t"
      by (rule tx_mono [OF t(2)]) (use lt in auto)
    then show ?thesis using Some step t(1) j(2) by (simp add: kernel_simps)
  qed
qed

lemma same_bit: "b < sb_size x \<Longrightarrow> c < sb_size x \<Longrightarrow> BBLOCK b x = BBLOCK c x \<Longrightarrow> b mod BPB = c mod BPB \<longleftrightarrow> b = c"
  by (metis BBLOCK_def add_right_cancel div_mult_mod_eq)

lemma used_mark:
  assumes "length (v (BBLOCK a x)) = BSIZE" and "a < sb_size x" and "b < sb_size x"
  shows "used x (mark_used x a v) b \<longleftrightarrow> b = a \<or> used x v b"
    and "used x (mark_free x a v) b \<longleftrightarrow> b \<noteq> a \<and> used x v b"
  using assms same_bit [of b x a] bm_set_used [OF assms(1), of "b mod BPB" "a mod BPB"] bm_clear_used [OF assms(1), of "b mod BPB" "a mod BPB"]
  by (auto simp: used_def mark_used_def mark_free_def BPB_def BSIZE_def)

lemma used_data:
  assumes "dstart x \<le> a" and "b < sb_size x"
  shows "used x (v(a := d)) b = used x v b"
  using bblock_range [OF assms(2)] assms(1) by (simp add: used_def)

text \<open>The blocks of the bitmap.\<close>

definition bitmap :: "superblock \<Rightarrow> nat set" where
  "bitmap x = {BBLOCK c x |c. c < sb_size x}"

lemma bitmap_range: "b \<in> bitmap x \<Longrightarrow> sb_bmapstart x \<le> b \<and> b < dstart x"
  using bblock_range by (auto simp: bitmap_def)

lemma tx_geometry: "tx s is v X k t \<Longrightarrow> geometry s \<Longrightarrow> geometry t"
  by (frule tx_sel(6), frule tx_sel(7)) (simp add: geometry_def)

lemma tx_fst_ok:
  assumes "tx s is v X k t" and "geometry s" and "\<And>b. b < dstart (sb s) \<Longrightarrow> used (sb s) v b"
  shows "fst_ok t"
  using tx_sel [OF assms(1)] tx_geometry [OF assms(1,2)] assms(3) by (simp add: fst_ok_def)

lemma dstart_size: "geometry s \<Longrightarrow> b < dstart (sb s) \<Longrightarrow> b < sb_size (sb s)"
  by (simp add: geometry_def)

definition grabbed :: "superblock \<Rightarrow> nat \<Rightarrow> (nat \<Rightarrow> block) \<Rightarrow> nat \<Rightarrow> block" where
  "grabbed x a v = (mark_used x a v)(a := replicate BSIZE 0)"

lemma grabbed_used:
  assumes "fst_ok s" and "dstart (sb s) \<le> a" and "a < sb_size (sb s)" and "b < sb_size (sb s)"
  shows "used (sb s) (grabbed (sb s) a (bview s)) b \<longleftrightarrow> b = a \<or> used (sb s) (bview s) b"
proof -
  have "wst s" "geometry s" using assms(1) by (simp_all add: fst_ok_def)
  then have "length (bview s (BBLOCK a (sb s))) = BSIZE" using wst_length geometry_blocks(1) assms(3) by blast
  then show ?thesis unfolding grabbed_def used_data [OF assms(2,4)] using used_mark(1) assms(3,4) by blast
qed

lemma first_free_data:
  assumes "fst_ok s" and "first_free (sb s) (bview s) 0 = Some a"
  shows "dstart (sb s) \<le> a" "a < sb_size (sb s)"
  using first_free_SomeD [OF assms(2)] assms(1) by (auto simp: fst_ok_def not_less [symmetric])

lemma balloc_run:
  assumes "fst_ok s" and "lg_space s (Suc (Suc k))" and "card (held s) \<le> Suc k" and "held s \<inter> bitmap (sb s) = {}"
    and "first_free (sb s) (bview s) 0 = Some a" and "a \<notin> held s"
  shows "\<exists>t. balloc 1 s = Ret a t \<and> tx s (inodes s) (grabbed (sb s) a (bview s)) (bitmap (sb s) \<union> {a}) k t \<and> fst_ok t"
proof -
  have h: "BBLOCK c (sb s) \<notin> held s" if "c < sb_size (sb s)" for c using assms(4) that by (auto simp: bitmap_def)
  have n: "b \<notin> held s" if "first_free (sb s) (bview s) (0 * BPB) = Some b" for b using that assms(5,6) by simp
  obtain t where t: "kfind (map (\<lambda>k. k * BPB) [0..<(sb_size (sb s) + BPB - 1) div BPB]) (balloc_in 1) s = Ret (Some a) t"
      "tx s (inodes s) (grabbed (sb s) a (bview s)) (bitmap (sb s) \<union> {a}) k t"
    using balloc_loop [where j = 0, OF assms(1-3) h n refl] assms(5) by (auto simp: bitmap_def grabbed_def)
  note d = first_free_data [OF assms(1,5)]
  have "fst_ok t" using tx_fst_ok [OF t(2)] grabbed_used [OF assms(1) d] assms(1) dstart_size by (auto simp: fst_ok_def)
  then show ?thesis using t by (auto simp: balloc_def kernel_simps)
qed

lemma balloc_full:
  assumes "fst_ok s" and "lg_space s (Suc (Suc k))" and "card (held s) \<le> Suc k" and "held s \<inter> bitmap (sb s) = {}"
    and "first_free (sb s) (bview s) 0 = None"
  shows "balloc 1 s = Panic ''balloc: out of blocks''"
proof -
  have h: "BBLOCK c (sb s) \<notin> held s" if "c < sb_size (sb s)" for c using assms(4) that by (auto simp: bitmap_def)
  have n: "b \<notin> held s" if "first_free (sb s) (bview s) (0 * BPB) = Some b" for b using that assms(5) by simp
  obtain t where t: "kfind (map (\<lambda>k. k * BPB) [0..<(sb_size (sb s) + BPB - 1) div BPB]) (balloc_in 1) s = Ret None t"
    using balloc_loop [where j = 0, OF assms(1-3) h n refl] assms(5) by auto
  then show ?thesis by (simp add: balloc_def kernel_simps)
qed

lemma bfree_run:
  assumes "fst_ok s" and "lg_space s (Suc k)" and "card (held s) \<le> Suc k" and "BBLOCK b (sb s) \<notin> held s"
    and "dstart (sb s) \<le> b" and "b < sb_size (sb s)"
  shows "if used (sb s) (bview s) b
    then \<exists>t. bfree 1 b s = Ret () t \<and> tx s (inodes s) (mark_free (sb s) b (bview s)) {BBLOCK b (sb s)} k t \<and> fst_ok t
    else bfree 1 b s = Panic ''freeing free block''"
proof -
  let ?B = "BBLOCK b (sb s)"
  have s: "wst s" "geometry s" using assms(1) by (simp_all add: fst_ok_def)
  note g = geometry_blocks(1) [OF s(2) assms(6)]
  obtain c t where t: "bread 1 ?B s = Ret c t" "opened s ?B c t"
    using bread_opened [OF s(1) g assms(4,2)] assms(3) by auto
  note o = opened_tx [OF t(2) assms(2)]
  show ?thesis
  proof (cases "used (sb s) (bview s) b")
    case True
    obtain u1 u2 u where u: "bset c (b_data_update (bm_clear (b mod BPB))) t = Ret () u1" "log_write c u1 = Ret () u2" "brelse c u2 = Ret () u"
        "tx s (inodes s) ((bview s)(?B := bm_clear (b mod BPB) (bview s ?B))) {?B} k u"
      using opened_store [OF t(2) assms(4) g assms(2), of "bm_clear (b mod BPB)"] o(10) by auto
    have v: "tx s (inodes s) (mark_free (sb s) b (bview s)) {?B} k u" using u(4) by (simp add: mark_free_def)
    have "used (sb s) (mark_free (sb s) b (bview s)) c" if "c < dstart (sb s)" for c
      using used_mark(2) [where v = "bview s", OF o(10) assms(6)] that assms(1,5) dstart_size [OF s(2) that] by (auto simp: fst_ok_def)
    then have "fst_ok u" using tx_fst_ok [OF v s(2)] by blast
    then show ?thesis using True t(1) u(1-3) v o(9) by (simp add: bfree_def used_def kernel_simps)
  next
    case False
    then show ?thesis using t(1) o(9) by (simp add: bfree_def used_def kernel_simps)
  qed
qed

end
