(* ===== verification/Fs_Data.thy ===== *)
theory Fs_Data
  imports Fs_Block
begin

text \<open>
  File content: the blocks an inode refers to, directly and through its indirect block, as one array of bytes.
  \<^verbatim>\<open>bmap\<close> keeps the array while it fills a hole, \<^verbatim>\<open>readi\<close> reads a slice of it and \<^verbatim>\<open>writei\<close> replaces one.
\<close>

section \<open>The blocks of a file\<close>

text \<open>The address of block \<open>k\<close> of a file; slot \<open>MAXFILE\<close> is the indirect block. Address 0 stands for a hole.\<close>

definition slot :: "dinode \<Rightarrow> (nat \<Rightarrow> block) \<Rightarrow> nat \<Rightarrow> nat" where
  "slot x v k =
     (if k < NDIRECT then di_addrs x ! k
      else if k < MAXFILE then (if di_addrs x ! NDIRECT = 0 then 0 else get32 (v (di_addrs x ! NDIRECT)) (4 * (k - NDIRECT)))
      else if k = MAXFILE then di_addrs x ! NDIRECT
      else 0)"

definition byte_at :: "dinode \<Rightarrow> (nat \<Rightarrow> block) \<Rightarrow> nat \<Rightarrow> byte" where
  "byte_at x v p = (let a = slot x v (p div BSIZE) in if a = 0 then 0 else v a ! (p mod BSIZE))"

definition blocks :: "dinode \<Rightarrow> (nat \<Rightarrow> block) \<Rightarrow> nat set" where
  "blocks x v = {slot x v k |k. k \<le> MAXFILE \<and> slot x v k \<noteq> 0}"

text \<open>The blocks of a file are data blocks in use, and no block occurs twice.\<close>

definition slots_ok :: "superblock \<Rightarrow> (nat \<Rightarrow> block) \<Rightarrow> dinode \<Rightarrow> bool" where
  "slots_ok y v x \<longleftrightarrow> length (di_addrs x) = NDIRECT + 1
     \<and> (\<forall>k \<le> MAXFILE. slot x v k \<noteq> 0 \<longrightarrow> dstart y \<le> slot x v k \<and> slot x v k < sb_size y \<and> used y v (slot x v k)
          \<and> (\<forall>j \<le> MAXFILE. slot x v j = slot x v k \<longrightarrow> j = k))"

lemma slots_okD:
  assumes "slots_ok y v x" and "k \<le> MAXFILE" and "slot x v k \<noteq> 0"
  shows "dstart y \<le> slot x v k" "slot x v k < sb_size y" "used y v (slot x v k)" "\<And>j. j \<le> MAXFILE \<Longrightarrow> slot x v j = slot x v k \<Longrightarrow> j = k"
  using assms by (auto simp: slots_ok_def)

lemma slot_top: "slot x v MAXFILE = di_addrs x ! NDIRECT"
  by (simp add: slot_def MAXFILE_def)

lemma blocksI: "k \<le> MAXFILE \<Longrightarrow> slot x v k \<noteq> 0 \<Longrightarrow> slot x v k \<in> blocks x v"
  by (auto simp: blocks_def)

lemma blocks_ok: "slots_ok y v x \<Longrightarrow> b \<in> blocks x v \<Longrightarrow> dstart y \<le> b \<and> b < sb_size y \<and> used y v b \<and> b \<notin> bitmap y"
  using bitmap_range by (auto simp: blocks_def slots_ok_def not_less [symmetric])

text \<open>A slot that was a hole gets a cleared block that was free; the other blocks of the file are untouched.\<close>

definition fills :: "superblock \<Rightarrow> dinode \<Rightarrow> (nat \<Rightarrow> block) \<Rightarrow> nat \<Rightarrow> nat \<Rightarrow> dinode \<Rightarrow> (nat \<Rightarrow> block) \<Rightarrow> bool" where
  "fills y x v k a x' v' \<longleftrightarrow> k \<le> MAXFILE \<and> slot x v k = 0 \<and> a \<noteq> 0 \<and> slot x' v' = (slot x v)(k := a) \<and> length (di_addrs x') = NDIRECT + 1
     \<and> dstart y \<le> a \<and> a < sb_size y \<and> \<not> used y v a \<and> v' a = replicate BSIZE 0
     \<and> (\<forall>b < sb_size y. used y v' b \<longleftrightarrow> b = a \<or> used y v b) \<and> (\<forall>j < MAXFILE. slot x v j \<noteq> 0 \<longrightarrow> v' (slot x v j) = v (slot x v j))"

lemma fills_ok:
  assumes "fills y x v k a x' v'" and "slots_ok y v x"
  shows "slots_ok y v' x'"
proof -
  have f: "slot x v k = 0" "slot x' v' = (slot x v)(k := a)" "dstart y \<le> a" "a < sb_size y" "\<not> used y v a"
    "\<forall>b < sb_size y. used y v' b \<longleftrightarrow> b = a \<or> used y v b" "length (di_addrs x') = NDIRECT + 1" using assms(1) by (simp_all add: fills_def)
  have n: "slot x v j \<noteq> a" if "j \<le> MAXFILE" "slot x v j \<noteq> 0" for j using slots_okD(3) [OF assms(2) that] f(5) by auto
  have u: "used y v' b" if "b < sb_size y" "b = a \<or> used y v b" for b using f(6) that by blast
  show ?thesis unfolding slots_ok_def f(2)
  proof (intro conjI allI impI f(7))
    fix j assume j: "j \<le> MAXFILE" "((slot x v)(k := a)) j \<noteq> 0"
    show "dstart y \<le> ((slot x v)(k := a)) j" "((slot x v)(k := a)) j < sb_size y" "used y v' (((slot x v)(k := a)) j)"
      using j f(3,4) slots_okD [OF assms(2) j(1)] u by (auto split: if_splits)
    fix i assume i: "i \<le> MAXFILE" "((slot x v)(k := a)) i = ((slot x v)(k := a)) j"
    show "i = j" using i j n [OF i(1)] n [OF j(1)] f(1) slots_okD(4) [OF assms(2) j(1)] by (auto split: if_splits)
  qed
qed

lemma fills_bytes:
  assumes "fills y x v k a x' v'" and "p < MAXFILE * BSIZE"
  shows "byte_at x' v' p = byte_at x v p"
proof -
  have "p div BSIZE < MAXFILE" "p mod BSIZE < BSIZE" using assms(2) by (auto simp: less_mult_imp_div_less BSIZE_def)
  then show ?thesis using assms(1) by (auto simp: fills_def byte_at_def Let_def)
qed

lemma fills_blocks:
  assumes "fills y x v k a x' v'"
  shows "blocks x' v' = insert a (blocks x v)"
proof -
  have f: "slot x v k = 0" "slot x' v' = (slot x v)(k := a)" "k \<le> MAXFILE" "a \<noteq> 0" using assms by (simp_all add: fills_def)
  have "a \<in> blocks x' v'" using f blocksI [of k x' v'] by simp
  moreover have "slot x v j \<in> blocks x' v'" if "j \<le> MAXFILE" "slot x v j \<noteq> 0" for j
    using that f blocksI [of j x' v'] by (cases "j = k") simp_all
  moreover have "b = a \<or> b \<in> blocks x v" if "b \<in> blocks x' v'" for b using that f by (auto simp: blocks_def split: if_splits)
  ultimately show ?thesis by (auto simp: blocks_def)
qed

text \<open>The supply of free blocks.\<close>

definition avail :: "superblock \<Rightarrow> (nat \<Rightarrow> block) \<Rightarrow> nat set" where
  "avail y v = {b. b < sb_size y \<and> \<not> used y v b}"

lemma avail_finite [simp]: "finite (avail y v)"
  by (simp add: avail_def)

lemma avail_first: "0 < card (avail y v) \<Longrightarrow> \<exists>a. first_free y v 0 = Some a"
  by (auto simp: card_gt_0_iff avail_def first_free_def find_None_iff simp flip: not_None_eq)

lemma fills_avail: "fills y x v k a x' v' \<Longrightarrow> card (avail y v) = Suc (card (avail y v'))"
proof -
  assume "fills y x v k a x' v'"
  then have "a < sb_size y" "\<not> used y v a" "\<forall>b < sb_size y. used y v' b \<longleftrightarrow> b = a \<or> used y v b" unfolding fills_def by blast+
  then have "avail y v' = avail y v - {a}" "a \<in> avail y v" by (auto simp: avail_def)
  then show ?thesis using card_Suc_Diff1 [OF avail_finite] by metis
qed

text \<open>The three places an address can be entered.\<close>

lemma grabbed_other: "a < sb_size y \<Longrightarrow> b \<notin> bitmap y \<Longrightarrow> b \<noteq> a \<Longrightarrow> grabbed y a v b = v b"
  by (auto simp: grabbed_def mark_used_def bitmap_def)

lemma grabbed_same: "grabbed y a v a = replicate BSIZE 0"
  by (simp add: grabbed_def)

definition spare :: "'z fs_st_scheme \<Rightarrow> nat \<Rightarrow> bool" where
  "spare s a \<longleftrightarrow> dstart (sb s) \<le> a \<and> a < sb_size (sb s) \<and> \<not> used (sb s) (bview s) a"

lemma grab_kept:
  assumes "slots_ok (sb s) (bview s) x" and "spare s a" and "j \<le> MAXFILE" and "slot x (bview s) j \<noteq> 0"
  shows "grabbed (sb s) a (bview s) (slot x (bview s) j) = bview s (slot x (bview s) j)" "slot x (bview s) j \<noteq> a"
  using slots_okD [OF assms(1,3,4)] assms(2) blocks_ok [OF assms(1) blocksI [OF assms(3,4)]] by (auto simp: spare_def intro: grabbed_other)

lemma fills_direct:
  assumes s: "fst_ok s" and x: "slots_ok (sb s) (bview s) x" and a: "spare s a"
    and "i \<le> NDIRECT" and "di_addrs x ! i = 0"
  shows "fills (sb s) x (bview s) (if i < NDIRECT then i else MAXFILE) a (di_addrs_update (\<lambda>as. as[i := a]) x) (grabbed (sb s) a (bview s))"
proof -
  have l: "length (di_addrs x) = NDIRECT + 1" using x by (simp add: slots_ok_def)
  have top: "di_addrs x ! NDIRECT \<noteq> 0 \<Longrightarrow> grabbed (sb s) a (bview s) (di_addrs x ! NDIRECT) = bview s (di_addrs x ! NDIRECT)"
    using grab_kept(1) [OF x a, of MAXFILE] by (simp add: slot_top)
  have z: "get32 (replicate BSIZE 0) (4 * (k - NDIRECT)) = 0" if "k < MAXFILE" for k
    using that by (simp add: get32_def get16_def MAXFILE_def NINDIRECT_def NDIRECT_def BSIZE_def)
  have "slot (di_addrs_update (\<lambda>as. as[i := a]) x) (grabbed (sb s) a (bview s)) = (slot x (bview s))((if i < NDIRECT then i else MAXFILE) := a)"
  proof
    fix k
    show "slot (di_addrs_update (\<lambda>as. as[i := a]) x) (grabbed (sb s) a (bview s)) k = ((slot x (bview s))((if i < NDIRECT then i else MAXFILE) := a)) k"
      using assms(4,5) l top z [of k] grabbed_same [of "sb s" a "bview s"] by (auto simp: slot_def nth_list_update MAXFILE_def)
  qed
  moreover have "slot x (bview s) (if i < NDIRECT then i else MAXFILE) = 0" using assms(4,5) by (auto simp: slot_def MAXFILE_def)
  moreover have "\<forall>b < sb_size (sb s). used (sb s) (grabbed (sb s) a (bview s)) b \<longleftrightarrow> b = a \<or> used (sb s) (bview s) b"
    using grabbed_used [OF s] a by (simp add: spare_def)
  moreover have "a \<noteq> 0" using a by (auto simp: spare_def dstart_def)
  moreover have "\<forall>j < MAXFILE. slot x (bview s) j \<noteq> 0 \<longrightarrow> grabbed (sb s) a (bview s) (slot x (bview s) j) = bview s (slot x (bview s) j)"
    using grab_kept(1) [OF x a] by simp
  moreover have "(if i < NDIRECT then i else MAXFILE) \<le> MAXFILE" by (simp add: MAXFILE_def)
  moreover have "length (di_addrs (di_addrs_update (\<lambda>as. as[i := a]) x)) = NDIRECT + 1" using l by simp
  ultimately show ?thesis using a unfolding fills_def spare_def by (intro conjI) (assumption | rule grabbed_same | (elim conjE, assumption))+
qed

text \<open>The view with an address entered in the indirect block.\<close>

definition entered_at :: "superblock \<Rightarrow> nat \<Rightarrow> nat \<Rightarrow> nat \<Rightarrow> (nat \<Rightarrow> block) \<Rightarrow> nat \<Rightarrow> block" where
  "entered_at y i j a v = (grabbed y a v)(i := put32 (4 * j) a (v i))"

lemma fills_indirect:
  assumes s: "fst_ok s" and x: "slots_ok (sb s) (bview s) x" and a: "spare s a"
    and "k < MAXFILE" and "NDIRECT \<le> k" and "di_addrs x ! NDIRECT \<noteq> 0" and "slot x (bview s) k = 0"
  shows "fills (sb s) x (bview s) k a x (entered_at (sb s) (di_addrs x ! NDIRECT) (k - NDIRECT) a (bview s))"
proof -
  let ?i = "di_addrs x ! NDIRECT" and ?v = "entered_at (sb s) (di_addrs x ! NDIRECT) (k - NDIRECT) a (bview s)"
  have top: "slot x (bview s) MAXFILE = ?i" by (simp add: slot_top)
  have wg: "wst s" "geometry s" using s by (simp_all add: fst_ok_def)
  note d = slots_okD [OF x order.refl, unfolded top, OF assms(6)]
  have len: "length (bview s ?i) = BSIZE" using wst_length [OF wg(1)] geometry_blocks(2) [OF wg(2) d(2,1)] by blast
  have ia: "?i \<noteq> a" using d(3) a by (auto simp: spare_def)
  have a32: "a < 2 ^ 32" using a wg(2) by (simp add: spare_def geometry_def)
  have "slot x ?v = (slot x (bview s))(k := a)"
  proof
    fix n
    have "get32 (put32 (4 * (k - NDIRECT)) a (bview s ?i)) (4 * (n - NDIRECT)) = (if n = k then a else get32 (bview s ?i) (4 * (n - NDIRECT)))"
      if "NDIRECT \<le> n" "n < MAXFILE"
    proof (cases "n = k")
      case True
      then show ?thesis using get32_put32 [of "4 * (k - NDIRECT)" "bview s ?i" a] a32 len that by (simp add: MAXFILE_def NINDIRECT_def BSIZE_def NDIRECT_def)
    next
      case False
      then have "4 * (n - NDIRECT) + 4 \<le> 4 * (k - NDIRECT) \<or> 4 * (k - NDIRECT) + 4 \<le> 4 * (n - NDIRECT)" using that assms(5) by arith
      then show ?thesis using False by (simp add: get32_put32_other)
    qed
    then show "slot x ?v n = ((slot x (bview s))(k := a)) n"
      using assms(4-6) by (auto simp: slot_def entered_at_def)
  qed
  moreover have "?v (slot x (bview s) j) = bview s (slot x (bview s) j)" if "j < MAXFILE" "slot x (bview s) j \<noteq> 0" for j
  proof -
    have "slot x (bview s) j \<noteq> ?i" using d(4) [of j] that(1) by auto
    then show ?thesis using grab_kept(1) [OF x a, of j] that by (simp add: entered_at_def)
  qed
  moreover have "used (sb s) ?v b \<longleftrightarrow> b = a \<or> used (sb s) (bview s) b" if "b < sb_size (sb s)" for b
    using grabbed_used [OF s _ _ that, of a] a that d(1) used_data [OF d(1) that] by (simp add: spare_def entered_at_def)
  moreover have "a \<noteq> 0" using a by (auto simp: spare_def dstart_def)
  moreover have "?v a = replicate BSIZE 0" "k \<le> MAXFILE" "length (di_addrs x) = NDIRECT + 1"
    using ia assms(4) x by (simp_all add: entered_at_def grabbed_same slots_ok_def)
  ultimately show ?thesis using assms(7) a unfolding fills_def spare_def by (intro conjI allI impI) (assumption | (elim conjE, assumption) | blast)+
qed

section \<open>Growing a file\<close>

abbreviation di :: "'z fs_st_scheme \<Rightarrow> nat \<Rightarrow> dinode" where
  "di s ip \<equiv> i_di (inodes s ! ip)"

text \<open>An inode in the cache whose file the operations below may touch, with no buffer held.\<close>

definition ready :: "'z fs_st_scheme \<Rightarrow> nat \<Rightarrow> bool" where
  "ready s ip \<longleftrightarrow> fst_ok s \<and> ip < length (inodes s) \<and> i_dev (inodes s ! ip) = 1 \<and> slots_ok (sb s) (bview s) (di s ip) \<and> held s = {}"

text \<open>
  From \<open>s\<close> to \<open>t\<close> at most \<open>c\<close> blocks have been taken from the free blocks, all of them for the file of inode \<open>ip\<close>; of
  the inode only addresses have changed, and of the disk only blocks of the file and of the bitmap.
\<close>

definition grew :: "'z fs_st_scheme \<Rightarrow> nat \<Rightarrow> nat \<Rightarrow> nat \<Rightarrow> 'z fs_st_scheme \<Rightarrow> bool" where
  "grew s ip k c t \<longleftrightarrow> tx s ((inodes s)[ip := (inodes s ! ip)\<lparr>i_di := di t ip\<rparr>]) (bview t) UNIV k t \<and> ready t ip
     \<and> di t ip = di_addrs_update (\<lambda>_. di_addrs (di t ip)) (di s ip)
     \<and> (\<forall>j \<le> MAXFILE. slot (di s ip) (bview s) j \<noteq> 0 \<longrightarrow> slot (di t ip) (bview t) j = slot (di s ip) (bview s) j)
     \<and> (\<forall>b < sb_size (sb s). used (sb s) (bview t) b \<longleftrightarrow> used (sb s) (bview s) b \<or> b \<in> blocks (di t ip) (bview t))
     \<and> (\<forall>b \<in> blocks (di t ip) (bview t) - blocks (di s ip) (bview s). \<not> used (sb s) (bview s) b)
     \<and> (\<forall>b. b \<notin> bitmap (sb s) \<longrightarrow> b \<notin> blocks (di t ip) (bview t) \<longrightarrow> bview t b = bview s b)
     \<and> card (avail (sb s) (bview s)) \<le> card (avail (sb s) (bview t)) + c"

definition same_bytes :: "'z fs_st_scheme \<Rightarrow> nat \<Rightarrow> 'z fs_st_scheme \<Rightarrow> bool" where
  "same_bytes s ip t \<longleftrightarrow> (\<forall>p < MAXFILE * BSIZE. byte_at (di t ip) (bview t) p = byte_at (di s ip) (bview s) p)"

lemma grewD:
  assumes "grew s ip k c t"
  shows "ready t ip" "lg_space t k" "sb t = sb s" "inodes t = (inodes s)[ip := (inodes s ! ip)\<lparr>i_di := di t ip\<rparr>]"
    "di t ip = di_addrs_update (\<lambda>_. di_addrs (di t ip)) (di s ip)"
    "\<And>j. j \<le> MAXFILE \<Longrightarrow> slot (di s ip) (bview s) j \<noteq> 0 \<Longrightarrow> slot (di t ip) (bview t) j = slot (di s ip) (bview s) j"
    "\<And>b. b < sb_size (sb s) \<Longrightarrow> used (sb s) (bview t) b \<longleftrightarrow> used (sb s) (bview s) b \<or> b \<in> blocks (di t ip) (bview t)"
    "\<And>b. b \<in> blocks (di t ip) (bview t) \<Longrightarrow> b \<notin> blocks (di s ip) (bview s) \<Longrightarrow> \<not> used (sb s) (bview s) b"
    "\<And>b. b \<notin> bitmap (sb s) \<Longrightarrow> b \<notin> blocks (di t ip) (bview t) \<Longrightarrow> bview t b = bview s b"
    "card (avail (sb s) (bview s)) \<le> card (avail (sb s) (bview t)) + c"
    "tx s ((inodes s)[ip := (inodes s ! ip)\<lparr>i_di := di t ip\<rparr>]) (bview t) UNIV k t"
proof -
  note g = assms [unfolded grew_def]
  show x: "tx s ((inodes s)[ip := (inodes s ! ip)\<lparr>i_di := di t ip\<rparr>]) (bview t) UNIV k t" using g by blast
  show "lg_space t k" "sb t = sb s" "inodes t = (inodes s)[ip := (inodes s ! ip)\<lparr>i_di := di t ip\<rparr>]"
    using tx_sel [OF x] by simp_all
  show "ready t ip" "di t ip = di_addrs_update (\<lambda>_. di_addrs (di t ip)) (di s ip)"
    "\<And>j. j \<le> MAXFILE \<Longrightarrow> slot (di s ip) (bview s) j \<noteq> 0 \<Longrightarrow> slot (di t ip) (bview t) j = slot (di s ip) (bview s) j"
    "\<And>b. b < sb_size (sb s) \<Longrightarrow> used (sb s) (bview t) b \<longleftrightarrow> used (sb s) (bview s) b \<or> b \<in> blocks (di t ip) (bview t)"
    "\<And>b. b \<in> blocks (di t ip) (bview t) \<Longrightarrow> b \<notin> blocks (di s ip) (bview s) \<Longrightarrow> \<not> used (sb s) (bview s) b"
    "\<And>b. b \<notin> bitmap (sb s) \<Longrightarrow> b \<notin> blocks (di t ip) (bview t) \<Longrightarrow> bview t b = bview s b"
    "card (avail (sb s) (bview s)) \<le> card (avail (sb s) (bview t)) + c"
    using g by blast+
qed

lemma grew_blocks: "grew s ip k c t \<Longrightarrow> blocks (di s ip) (bview s) \<subseteq> blocks (di t ip) (bview t)"
proof
  fix b assume g: "grew s ip k c t" and "b \<in> blocks (di s ip) (bview s)"
  then obtain j where j: "j \<le> MAXFILE" "slot (di s ip) (bview s) j \<noteq> 0" "b = slot (di s ip) (bview s) j" by (auto simp: blocks_def)
  then show "b \<in> blocks (di t ip) (bview t)" using grewD(6) [OF g j(1,2)] blocksI [OF j(1), of "di t ip" "bview t"] by simp
qed

lemma grew_trans:
  assumes "grew s ip k c t" and "grew t ip j d u"
  shows "grew s ip j (c + d) u"
proof -
  note g = grewD [OF assms(1)] and h = grewD [OF assms(2)]
  note gb = grew_blocks [OF assms(1)] and hb = grew_blocks [OF assms(2)]
  have len: "ip < length (inodes s)" using g(1,4) by (metis length_list_update ready_def)
  have upd: "(inodes t)[ip := (inodes t ! ip)\<lparr>i_di := y\<rparr>] = (inodes s)[ip := (inodes s ! ip)\<lparr>i_di := y\<rparr>]" for y
  proof -
    obtain x where "inodes t = (inodes s)[ip := (inodes s ! ip)\<lparr>i_di := x\<rparr>]" using g(4) by blast
    then show ?thesis using len by simp
  qed
  have "tx s ((inodes t)[ip := (inodes t ! ip)\<lparr>i_di := di u ip\<rparr>]) (bview u) (UNIV \<union> UNIV) j u" by (rule tx_trans [OF g(11) h(11)])
  then have tx: "tx s ((inodes s)[ip := (inodes s ! ip)\<lparr>i_di := di u ip\<rparr>]) (bview u) UNIV j u" by (simp add: upd)
  have x: "di u ip = di_addrs_update (\<lambda>_. di_addrs (di u ip)) (di s ip)"
    by (rule trans [OF h(5)], rule trans [OF arg_cong [OF g(5)]]) simp
  have sl: "slot (di u ip) (bview u) k = slot (di s ip) (bview s) k" if "k \<le> MAXFILE" "slot (di s ip) (bview s) k \<noteq> 0" for k
    using g(6) [OF that] h(6) [OF that(1)] that(2) by simp
  have us: "used (sb s) (bview u) b \<longleftrightarrow> used (sb s) (bview s) b \<or> b \<in> blocks (di u ip) (bview u)" if "b < sb_size (sb s)" for b
    using g(7) [OF that] h(7) [of b] g(3) that hb by auto
  have nw: "\<not> used (sb s) (bview s) b" if "b \<in> blocks (di u ip) (bview u)" "b \<notin> blocks (di s ip) (bview s)" for b
  proof (cases "b \<in> blocks (di t ip) (bview t)")
    case True
    then show ?thesis using g(8) that(2) by blast
  next
    case False
    have "b < sb_size (sb u)" using blocks_ok [of "sb u" "bview u" "di u ip" b] h(1) that(1) by (simp add: ready_def)
    then show ?thesis using h(8) [OF that(1) False] g(7) [of b] g(3) h(3) by simp
  qed
  have fr: "bview u b = bview s b" if "b \<notin> bitmap (sb s)" "b \<notin> blocks (di u ip) (bview u)" for b
    using g(9) [OF that(1)] h(9) [of b] that hb g(3) by auto
  have cd: "card (avail (sb s) (bview s)) \<le> card (avail (sb s) (bview u)) + (c + d)" using g(3,10) h(10) by simp
  show ?thesis unfolding grew_def using tx h(1) x sl us nw fr cd by blast
qed

lemma same_bytes_trans: "same_bytes s ip t \<Longrightarrow> same_bytes t ip u \<Longrightarrow> same_bytes s ip u"
  by (simp add: same_bytes_def)

lemma tx_held: "tx s is v X k t \<Longrightarrow> held s = {} \<Longrightarrow> held t = {}"
  by (simp add: tx_def)

text \<open>A step that changes neither the inodes nor the content of the disk, and a step that fills a slot.\<close>

lemma grew_refl_tx:
  assumes "ready s ip" and "tx s (inodes s) (bview s) X k t"
  shows "grew s ip k 0 t" "same_bytes s ip t"
proof -
  note x = tx_sel [OF assms(2)]
  have "inodes t = inodes s" "bview t = bview s" using x by simp_all
  moreover have "(inodes s)[ip := inodes s ! ip] = inodes s" by (rule list_update_id)
  moreover have "(inodes s ! ip)\<lparr>i_di := di s ip\<rparr> = inodes s ! ip" by (rule inode.equality) simp_all
  moreover have "ready t ip" using assms(1) x tx_geometry [OF assms(2)] by (simp add: ready_def fst_ok_def)
  moreover have "used (sb s) (bview s) b" if "b \<in> blocks (di s ip) (bview s)" for b
    using assms(1) blocks_ok that by (auto simp: ready_def)
  ultimately show "grew s ip k 0 t" "same_bytes s ip t"
    using tx_mono [OF assms(2), of UNIV k] by (auto simp: grew_def same_bytes_def)
qed

lemma grew_fill:
  assumes "ready s ip" and "fills (sb s) (di s ip) (bview s) j a x v"
    and "x = di_addrs_update (\<lambda>_. di_addrs x) (di s ip)"
    and "tx s ((inodes s)[ip := (inodes s ! ip)\<lparr>i_di := x\<rparr>]) v X k t"
    and fr: "\<And>b. b \<notin> bitmap (sb s) \<Longrightarrow> b \<noteq> a \<Longrightarrow> b \<notin> blocks (di s ip) (bview s) \<Longrightarrow> v b = bview s b"
  shows "grew s ip k 1 t" "same_bytes s ip t" "slot (di t ip) (bview t) j = a" "a \<noteq> 0"
proof -
  have r: "fst_ok s" "geometry s" "ip < length (inodes s)" "i_dev (inodes s ! ip) = 1" "slots_ok (sb s) (bview s) (di s ip)" "held s = {}"
    using assms(1) by (simp_all add: ready_def fst_ok_def)
  have f: "slot (di s ip) (bview s) j = 0" "slot x v = (slot (di s ip) (bview s))(j := a)" "a \<noteq> 0" "a < sb_size (sb s)" "\<not> used (sb s) (bview s) a"
    "\<forall>b < sb_size (sb s). used (sb s) v b \<longleftrightarrow> b = a \<or> used (sb s) (bview s) b"
    using assms(2) by (simp_all add: fills_def)
  note y = tx_sel [OF assms(4)]
  have x: "di t ip = x" "bview t = v" using y(2,5) r(3) by simp_all
  note bl = fills_blocks [OF assms(2)] and ok = fills_ok [OF assms(2) r(5)]
  have "fst_ok t" by (rule tx_fst_ok [OF assms(4) r(2)]) (use f(6) r(1) dstart_size [OF r(2)] in \<open>simp add: fst_ok_def\<close>)
  then have rt: "ready t ip" using r y x ok by (simp add: ready_def)
  have u: "used (sb s) (bview s) b" if "b \<in> blocks (di s ip) (bview s)" for b using blocks_ok [OF r(5) that] by blast
  show "same_bytes s ip t" using fills_bytes [OF assms(2)] x by (simp add: same_bytes_def)
  show "slot (di t ip) (bview t) j = a" "a \<noteq> 0" using f x by simp_all
  show "grew s ip k 1 t" unfolding grew_def x bl
  proof (intro conjI)
    show "tx s ((inodes s)[ip := (inodes s ! ip)\<lparr>i_di := x\<rparr>]) v UNIV k t" by (rule tx_mono [OF assms(4)]) simp_all
    show "card (avail (sb s) (bview s)) \<le> card (avail (sb s) v) + 1" using fills_avail [OF assms(2)] by simp
    show "\<forall>b < sb_size (sb s). used (sb s) v b \<longleftrightarrow> used (sb s) (bview s) b \<or> b \<in> insert a (blocks (di s ip) (bview s))" using f(6) u by blast
    show "\<forall>b \<in> insert a (blocks (di s ip) (bview s)) - blocks (di s ip) (bview s). \<not> used (sb s) (bview s) b" using f(5) by blast
    show "\<forall>b. b \<notin> bitmap (sb s) \<longrightarrow> b \<notin> insert a (blocks (di s ip) (bview s)) \<longrightarrow> v b = bview s b" using fr by blast
    show "\<forall>k \<le> MAXFILE. slot (di s ip) (bview s) k \<noteq> 0 \<longrightarrow> slot x v k = slot (di s ip) (bview s) k" using f(1,2) by auto
  qed (use assms(3) rt in simp_all)
qed

lemma i_di_update_conv: "i_di_update f x = x\<lparr>i_di := f (i_di x)\<rparr>"
  by (rule inode.equality) simp_all

lemma bmap_direct_run:
  assumes "ready s ip" and "i \<le> NDIRECT" and "lg_space s (Suc (Suc k))" and "0 < card (avail (sb s) (bview s))"
  shows "\<exists>t a. bmap_direct ip i s = Ret a t \<and> grew s ip k 1 t \<and> same_bytes s ip t \<and> a \<noteq> 0 \<and> di_addrs (di t ip) ! i = a"
proof -
  have r: "fst_ok s" "wst s" "ip < length (inodes s)" "i_dev (inodes s ! ip) = 1" "slots_ok (sb s) (bview s) (di s ip)" "held s = {}"
    using assms(1) by (simp_all add: ready_def fst_ok_def)
  show ?thesis
  proof (cases "di_addrs (di s ip) ! i = 0")
    case False
    have "lg_space s k" using assms(3) by (simp add: lg_space_def)
    then have "tx s (inodes s) (bview s) {} k s" by (rule tx_refl [OF r(2)])
    note g = grew_refl_tx [OF assms(1) this]
    have "grew s ip k 1 s" using g(1) by (auto simp: grew_def)
    then show ?thesis using False g(2) by (simp add: bmap_direct_def kernel_simps)
  next
    case True
    obtain a where a: "first_free (sb s) (bview s) 0 = Some a" using avail_first [OF assms(4)] by blast
    have sp: "spare s a" using first_free_data [OF r(1) a] first_free_SomeD(3) [OF a] by (simp add: spare_def)
    obtain t where t: "balloc 1 s = Ret a t" "tx s (inodes s) (grabbed (sb s) a (bview s)) (bitmap (sb s) \<union> {a}) k t" "fst_ok t"
      using balloc_run [OF r(1) assms(3) _ _ a] r(6) by auto
    note x = tx_sel [OF t(2)]
    let ?x = "di_addrs_update (\<lambda>as. as[i := a]) (di s ip)"
    let ?t = "t\<lparr>inodes := (inodes s)[ip := (inodes s ! ip)\<lparr>i_di := ?x\<rparr>]\<rparr>"
    have run: "diset ip (di_addrs_update (\<lambda>as. as[i := a])) t = Ret () ?t" using x(5) by (simp add: iset_def kernel_simps i_di_update_conv [of "di_addrs_update (\<lambda>as. as[i := a])"])
    have "tx t ((inodes s)[ip := (inodes s ! ip)\<lparr>i_di := ?x\<rparr>]) (bview t) {} k ?t" by (rule tx_inodes [OF x(1,4)])
    from tx_trans [OF t(2) this]
    have tx: "tx s ((inodes s)[ip := (inodes s ! ip)\<lparr>i_di := ?x\<rparr>]) (grabbed (sb s) a (bview s)) (bitmap (sb s) \<union> {a} \<union> {}) k ?t" using x(2) by simp
    have fr: "grabbed (sb s) a (bview s) b = bview s b" if "b \<notin> bitmap (sb s)" "b \<noteq> a" for b
      using grabbed_other that sp by (simp add: spare_def)
    note g = grew_fill [OF assms(1) fills_direct [OF r(1,5) sp assms(2) True] _ tx fr]
    have "di_addrs (di ?t ip) ! i = a" using r(3,5) assms(2) by (simp add: slots_ok_def)
    then show ?thesis using g True t(1) run r(4) x(5) by (simp add: bmap_direct_def kernel_simps)
  qed
qed

text \<open>A block that is held across an allocation: the indirect block.\<close>

lemma opened_fst_ok:
  assumes "opened s bn b t" and "fst_ok s" and "lg_space s k"
  shows "fst_ok t"
  using opened_tx [OF assms(1,3)] assms(2) by (simp add: fst_ok_def geometry_def)

lemma balloc_held:
  assumes "opened s i b t" and "ready s ip" and "lg_space s (Suc (Suc (Suc k)))" and "0 < card (avail (sb s) (bview s))"
    and "i \<in> blocks (di s ip) (bview s)" and "length (f a (bview s i)) = BSIZE" and "first_free (sb s) (bview s) 0 = Some a"
  shows "\<exists>u u1 u2 u3. balloc 1 t = Ret a u \<and> bset b (b_data_update (f a)) u = Ret () u1 \<and> log_write b u1 = Ret () u2 \<and> brelse b u2 = Ret () u3
    \<and> i_dev (inodes u ! ip) = 1 \<and> tx s (inodes s) ((grabbed (sb s) a (bview s))(i := f a (bview s i))) UNIV k u3"
proof -
  have r: "fst_ok s" "wst s" "geometry s" "i_dev (inodes s ! ip) = 1" "slots_ok (sb s) (bview s) (di s ip)" "held s = {}"
    using assms(2) by (simp_all add: ready_def fst_ok_def)
  note o = opened_tx [OF assms(1,3)] and ok = opened_fst_ok [OF assms(1) r(1) assms(3)]
  have i: "dstart (sb s) \<le> i" "i < sb_size (sb s)" "used (sb s) (bview s) i" "i \<notin> bitmap (sb s)"
    using blocks_ok [OF r(5) assms(5)] by blast+
  have ia: "a \<noteq> i" using first_free_SomeD(3) [OF assms(7)] i(3) by auto
  have fa: "first_free (sb t) (bview t) 0 = Some a" using assms(7) o(3,7) by simp
  have h: "held t = {i}" using o(4) r(6) by simp
  obtain u where u: "balloc 1 t = Ret a u" "tx t (inodes t) (grabbed (sb t) a (bview t)) (bitmap (sb t) \<union> {a}) (Suc k) u"
    using balloc_run [OF ok o(5) _ _ fa] h i(4) ia o(7) by auto
  note x = tx_sel [OF u(2)]
  have hu: "holds u i b" by (rule tx_holds [OF u(2) o(2)]) (use i(4) ia o(7) in simp)
  have bi: "lg_blk u i" using geometry_blocks(2) [OF r(3) i(2,1)] x(7) o(8) by simp
  have v: "bview u i = bview s i" "bview u = grabbed (sb s) a (bview s)"
    using x(2) o(3,7) grabbed_other [of a "sb s" i "bview s"] ia i(4) first_free_SomeD(2) [OF assms(7)] by simp_all
  obtain w where w: "kthen (bset b (b_data_update (f a))) (kthen (log_write b) (brelse b)) u = Ret () w" "wst w" "log_frame u w"
      "bview w = (bview u)(i := f a (bview u i))" "held w = held u - {i}" "lg_space w k"
    using lg.block_store_held [where f = "f a", OF x(1) hu bi x(4)] assms(6) v(1) by auto
  have f0: "t\<lparr>inodes := inodes t\<rparr> = t" "s\<lparr>inodes := inodes s\<rparr> = s" by (simp_all add: fs_st.equality)
  have "log_frame t u" using u(2) f0(1) by (simp add: tx_def)
  moreover have "log_frame s t" using assms(1) lg.rfr_fr by (auto simp: opened_def)
  ultimately have fr: "log_frame s w" using w(3) log_frame_trans by blast
  have "held w = {}" using w(5) x(3) h by simp
  moreover have "\<not> holds s n c" for n c using r(6) holds_held [of s n c] by auto
  ultimately have "tx s (inodes s) ((grabbed (sb s) a (bview s))(i := f a (bview s i))) UNIV k w"
    using w(2,4,6) fr f0(2) v r(6) by (simp add: tx_def)
  moreover have "i_dev (inodes u ! ip) = 1" using x(5) o(6) r(4) by simp
  ultimately show ?thesis using u(1) w(1) by (auto simp: kthen_run kcont_eq_Ret)
qed

lemma grew_weaken: "grew s ip k c t \<Longrightarrow> j \<le> k \<Longrightarrow> c \<le> d \<Longrightarrow> grew s ip j d t"
  unfolding grew_def by (elim conjE, intro conjI) (auto intro: tx_mono)

lemma bmap_indirect_run:
  assumes "ready s ip" and "bn < MAXFILE" and "NDIRECT \<le> bn" and "lg_space s (k + 3)" and "0 < card (avail (sb s) (bview s))"
    and "di_addrs (di s ip) ! NDIRECT = i" and "i \<noteq> 0"
  shows "\<exists>t a. kbind (bread 1 i) (\<lambda>bp. kbind (ind_get bp (bn - NDIRECT)) (\<lambda>addr.
        kbind
          (if addr = 0 then
             kbind (balloc 1) (\<lambda>addr.
             kthen (bset bp (b_data_update (put32 (4 * (bn - NDIRECT)) addr)))
            (kthen (log_write bp)
            (kret addr)))
           else kret addr) (\<lambda>addr.
        kthen (brelse bp)
       (kret addr)))) s = Ret a t \<and> grew s ip k 1 t \<and> same_bytes s ip t \<and> a \<noteq> 0 \<and> slot (di t ip) (bview t) bn = a"
proof -
  have r: "fst_ok s" "wst s" "geometry s" "ip < length (inodes s)" "slots_ok (sb s) (bview s) (di s ip)" "held s = {}"
    using assms(1) by (simp_all add: ready_def fst_ok_def)
  have sp: "lg_space s (Suc (Suc (Suc k)))" using assms(4) by (simp add: numeral_3_eq_3)
  have top: "slot (di s ip) (bview s) MAXFILE = i" using assms(6) by (simp add: slot_top)
  have ib: "i \<in> blocks (di s ip) (bview s)" using blocksI [of MAXFILE "di s ip" "bview s"] top assms(7) by simp
  have i: "dstart (sb s) \<le> i" "i < sb_size (sb s)" using blocks_ok [OF r(5) ib] by blast+
  note li = geometry_blocks(2) [OF r(3) i(2,1)]
  obtain b t where t: "bread 1 i s = Ret b t" "opened s i b t" using bread_opened [OF r(2) li _ sp] r(6) by auto
  note o = opened_tx [OF t(2) sp]
  have e: "get32 (bview s i) (4 * (bn - NDIRECT)) = slot (di s ip) (bview s) bn"
    using assms(2,3,6,7) by (simp add: slot_def)
  show ?thesis
  proof (cases "slot (di s ip) (bview s) bn = 0")
    case False
    obtain u where u: "brelse b t = Ret () u" "tx s (inodes s) (bview s) {i} (Suc (Suc (Suc k))) u"
      using opened_rel [OF t(2) _ sp] r(6) by auto
    note g = grew_refl_tx [OF assms(1) u(2)]
    have "slot (di u ip) (bview u) bn = slot (di s ip) (bview s) bn" using tx_sel(2,5) [OF u(2)] by simp
    then show ?thesis using t(1) u(1) o(9) e False g(2) grew_weaken [OF g(1), of k 1] by (simp add: kernel_simps)
  next
    case True
    obtain a where a: "first_free (sb s) (bview s) 0 = Some a" using avail_first [OF assms(5)] by blast
    have ss: "spare s a" using first_free_data [OF r(1) a] first_free_SomeD(3) [OF a] by (simp add: spare_def)
    have "length (put32 (4 * (bn - NDIRECT)) a (bview s i)) = BSIZE" using o(10) by simp
    from balloc_held [where f = "put32 (4 * (bn - NDIRECT))", OF t(2) assms(1) sp assms(5) ib this a]
    obtain u u1 u2 u3 where u: "balloc 1 t = Ret a u" "bset b (b_data_update (put32 (4 * (bn - NDIRECT)) a)) u = Ret () u1"
      "log_write b u1 = Ret () u2" "brelse b u2 = Ret () u3"
      "tx s (inodes s) ((grabbed (sb s) a (bview s))(i := put32 (4 * (bn - NDIRECT)) a (bview s i))) UNIV k u3" by blast
    let ?v = "entered_at (sb s) i (bn - NDIRECT) a (bview s)"
    have id: "(inodes s)[ip := (inodes s ! ip)\<lparr>i_di := di s ip\<rparr>] = inodes s" by simp
    have tx: "tx s ((inodes s)[ip := (inodes s ! ip)\<lparr>i_di := di s ip\<rparr>]) ?v UNIV k u3" unfolding id using u(5) by (simp add: entered_at_def)
    have fr: "?v c = bview s c" if "c \<notin> bitmap (sb s)" "c \<noteq> a" "c \<notin> blocks (di s ip) (bview s)" for c
      using that ib grabbed_other [of a "sb s" c] ss by (auto simp: entered_at_def spare_def)
    have fl: "fills (sb s) (di s ip) (bview s) bn a (di s ip) ?v"
      using fills_indirect [OF r(1,5) ss assms(2,3) _ True] assms(6,7) by simp
    note g = grew_fill [OF assms(1) fl _ tx fr]
    show ?thesis using t(1) u(1-4) o(9) e True g by (simp add: kernel_simps)
  qed
qed

lemma bmap_run:
  assumes "ready s ip" and "bn < MAXFILE" and "lg_space s (k + 5)" and "2 \<le> card (avail (sb s) (bview s))"
  shows "\<exists>t a. bmap ip bn s = Ret a t \<and> grew s ip k 2 t \<and> same_bytes s ip t \<and> a \<noteq> 0 \<and> slot (di t ip) (bview t) bn = a"
proof (cases "bn < NDIRECT")
  case True
  have sp: "lg_space s (Suc (Suc k))" using assms(3) by (simp add: lg_space_def)
  obtain t a where t: "bmap_direct ip bn s = Ret a t" "grew s ip k 1 t" "same_bytes s ip t" "a \<noteq> 0" "di_addrs (di t ip) ! bn = a"
    using bmap_direct_run [OF assms(1) _ sp, of bn] True assms(4) by auto
  have "slot (di t ip) (bview t) bn = a" using t(5) True by (simp add: slot_def)
  then show ?thesis using t True grew_weaken [OF t(2), of k 2] by (simp add: bmap_def)
next
  case False
  have sp: "lg_space s (Suc (Suc (k + 3)))" using assms(3) by (simp add: lg_space_def)
  obtain t i where t: "bmap_direct ip NDIRECT s = Ret i t" "grew s ip (k + 3) 1 t" "same_bytes s ip t" "i \<noteq> 0" "di_addrs (di t ip) ! NDIRECT = i"
    using bmap_direct_run [OF assms(1) _ sp, of NDIRECT] assms(4) by auto
  note g = grewD [OF t(2)]
  have av: "0 < card (avail (sb t) (bview t))" using g(3,10) assms(4) by simp
  let ?m = "kbind (bread 1 i) (\<lambda>bp. kbind (ind_get bp (bn - NDIRECT)) (\<lambda>addr.
        kbind
          (if addr = 0 then
             kbind (balloc 1) (\<lambda>addr.
             kthen (bset bp (b_data_update (put32 (4 * (bn - NDIRECT)) addr)))
            (kthen (log_write bp)
            (kret addr)))
           else kret addr) (\<lambda>addr.
        kthen (brelse bp)
       (kret addr))))"
  obtain u a where u: "?m t = Ret a u" "grew t ip k 1 u" "same_bytes t ip u" "a \<noteq> 0" "slot (di u ip) (bview u) bn = a"
    using bmap_indirect_run [OF g(1) assms(2) _ g(2) av t(5,4)] False by auto
  have dev: "i_dev (inodes t ! ip) = 1" using g(1) by (simp add: ready_def)
  have "bmap ip bn s = ?m t" using False assms(2) t(1) dev 
    by (simp add: bmap_def kernel_run MAXFILE_def less_diff_conv2 kbind_run [of "bmap_direct ip NDIRECT"] kbind_run [of "ifld ip i_dev"] del: One_nat_def)
  then have "bmap ip bn s = Ret a u" using u(1) by simp
  then show ?thesis using u(4,5) grew_trans [OF t(2) u(2)] same_bytes_trans [OF t(3) u(3)] by (simp add: numeral_2_eq_2)
qed

section \<open>Reading\<close>

lemma bmap_lookup:
  assumes "ready s ip" and "bn < MAXFILE" and "slot (di s ip) (bview s) bn \<noteq> 0" and "lg_space s k"
  shows "\<exists>t. bmap ip bn s = Ret (slot (di s ip) (bview s) bn) t \<and> tx s (inodes s) (bview s) UNIV k t"
proof -
  have r: "wst s" "geometry s" "i_dev (inodes s ! ip) = 1" "slots_ok (sb s) (bview s) (di s ip)" "held s = {}"
    using assms(1) by (simp_all add: ready_def fst_ok_def)
  have tr: "tx s (inodes s) (bview s) UNIV k s" by (rule tx_mono [OF tx_refl [OF r(1) assms(4)]]) simp_all
  show ?thesis
  proof (cases "bn < NDIRECT")
    case True
    then show ?thesis using assms(3) tr by (simp add: bmap_def bmap_direct_def slot_def kernel_simps)
  next
    case False
    let ?i = "di_addrs (di s ip) ! NDIRECT"
    have i0: "?i \<noteq> 0" and e: "slot (di s ip) (bview s) bn = get32 (bview s ?i) (4 * (bn - NDIRECT))"
      using assms(2,3) False by (auto simp: slot_def split: if_splits)
    have "?i \<in> blocks (di s ip) (bview s)" using blocksI [of MAXFILE "di s ip" "bview s"] i0 by (simp add: slot_top)
    from blocks_ok [OF r(4) this] have li: "lg_blk s ?i" using geometry_blocks(2) [OF r(2)] by blast
    obtain t where t: "kbind (bread 1 ?i) (\<lambda>bp. kbind (ind_get bp (bn - NDIRECT)) (\<lambda>r. kthen (brelse bp) (kret r))) s
        = Ret (get32 (bview s ?i) (4 * (bn - NDIRECT))) t" "tx s (inodes s) (bview s) {?i} k t"
      using tx_get [OF r(1) li _ assms(4), of "\<lambda>d. get32 d (4 * (bn - NDIRECT))"] r(5) by auto
    from t(1) e obtain b u where u: "bread 1 ?i s = Ret b u" "get32 (b_data (bufs u ! b)) (4 * (bn - NDIRECT)) = slot (di s ip) (bview s) bn" "brelse b u = Ret () t"
      by (auto simp: kbind_run kthen_run kernel_run kcont_eq_Ret)
    have "bmap ip bn s = Ret (slot (di s ip) (bview s) bn) t"
      using False assms(2,3) u i0 r(3) by (simp add: bmap_def bmap_direct_def kernel_simps MAXFILE_def less_diff_conv2)
    then show ?thesis using tx_mono [OF t(2), of UNIV k] by auto
  qed
qed

lemma block_div_mod:
  "off mod BSIZE + i < BSIZE \<Longrightarrow> (off + i) div BSIZE = off div BSIZE \<and> (off + i) mod BSIZE = off mod BSIZE + i"
  by (metis div_mult_mod_eq div_mult_self3 div_less add.assoc add_cancel_right_right mod_less mod_mult_self3 BSIZE_def zero_neq_numeral)

lemma block_piece:
  assumes "slot x v (off div BSIZE) \<noteq> 0" and "length (v (slot x v (off div BSIZE))) = BSIZE" and "c \<le> BSIZE - off mod BSIZE"
  shows "take c (drop (off mod BSIZE) (v (slot x v (off div BSIZE)))) = map (byte_at x v) [off..<off + c]"
proof (rule nth_equalityI)
  show "length (take c (drop (off mod BSIZE) (v (slot x v (off div BSIZE))))) = length (map (byte_at x v) [off..<off + c])" using assms(2,3) by simp
  fix i assume "i < length (take c (drop (off mod BSIZE) (v (slot x v (off div BSIZE)))))"
  then have i: "i < c" "off mod BSIZE + i < BSIZE" using assms(2,3) by auto
  then show "take c (drop (off mod BSIZE) (v (slot x v (off div BSIZE)))) ! i = map (byte_at x v) [off..<off + c] ! i"
    using assms(1,2) block_div_mod [OF i(2)] by (simp add: byte_at_def)
qed

lemma slot_block:
  assumes "ready s ip" and "j \<le> MAXFILE" and "slot (di s ip) (bview s) j \<noteq> 0"
  shows "lg_blk s (slot (di s ip) (bview s) j)" "length (bview s (slot (di s ip) (bview s) j)) = BSIZE"
proof -
  have r: "wst s" "geometry s" "slots_ok (sb s) (bview s) (di s ip)" using assms(1) by (simp_all add: ready_def fst_ok_def)
  show b: "lg_blk s (slot (di s ip) (bview s) j)" using blocks_ok [OF r(3) blocksI [OF assms(2,3)]] geometry_blocks(2) [OF r(2)] by blast
  show "length (bview s (slot (di s ip) (bview s) j)) = BSIZE" using wst_length [OF r(1) b] .
qed

lemma ready_same: "ready s ip \<Longrightarrow> tx s (inodes s) (bview s) X k t \<Longrightarrow> ready t ip"
  by (drule (1) grew_refl_tx(1)) (rule grewD(1))

lemma readi_loop_run:
  assumes "ready s ip" and "off + (n - tot) \<le> MAXFILE * BSIZE" and "lg_space s k"
    and "\<And>p. off \<le> p \<Longrightarrow> p < off + (n - tot) \<Longrightarrow> slot (di s ip) (bview s) (p div BSIZE) \<noteq> 0"
  shows "\<exists>t. readi_loop ip n tot off s = Ret (map (byte_at (di s ip) (bview s)) [off..<off + (n - tot)]) t \<and> tx s (inodes s) (bview s) UNIV k t"
  using assms
proof (induction ip n tot off arbitrary: s rule: readi_loop.induct)
  case (1 ip n tot off)
  note r = 1(2)
  show ?case
  proof (cases "tot < n")
    case False
    have "tx s (inodes s) (bview s) UNIV k s" by (rule tx_mono [OF tx_refl [of s k]]) (use r 1(4) in \<open>simp_all add: ready_def fst_ok_def\<close>)
    then show ?thesis using False by (subst readi_loop.simps) (simp add: kernel_simps)
  next
    case True
    let ?bn = "off div BSIZE" and ?c = "chunk n tot off" and ?x = "di s ip" and ?v = "bview s"
    have c: "0 < ?c" "?c \<le> n - tot" "?c \<le> BSIZE - off mod BSIZE" using chunk_pos [OF True] by (simp_all add: chunk_def)
    have bn: "?bn < MAXFILE" using 1(3) True by (intro less_mult_imp_div_less) linarith
    have a0: "slot ?x ?v ?bn \<noteq> 0" using 1(5) [of off] True by simp
    note b = slot_block [OF r less_imp_le [OF bn] a0]
    obtain t where t: "bmap ip ?bn s = Ret (slot ?x ?v ?bn) t" "tx s (inodes s) (bview s) UNIV k t"
      using bmap_lookup [OF r bn a0 1(4)] by blast
    note x = tx_sel [OF t(2)] and rt = ready_same [OF r t(2)]
    have h: "held t = {}" "wst t" "i_dev (inodes t ! ip) = 1" using rt by (simp_all add: ready_def fst_ok_def)
    let ?f = "\<lambda>d. take ?c (drop (off mod BSIZE) d)"
    obtain u where u: "kbind (bread 1 (slot ?x ?v ?bn)) (\<lambda>bp. kbind (bfld bp (\<lambda>x. ?f (b_data x))) (\<lambda>r. kthen (brelse bp) (kret r))) t = Ret (?f (bview t (slot ?x ?v ?bn))) u"
        "tx t (inodes t) (bview t) {slot ?x ?v ?bn} k u"
      using tx_get [OF h(2) _ _ x(4), of "slot ?x ?v ?bn" ?f] x(7) b(1) h(1) by auto
    from u(1) obtain bp w where w: "bread 1 (slot ?x ?v ?bn) t = Ret bp w" "?f (b_data (bufs w ! bp)) = ?f (bview t (slot ?x ?v ?bn))" "brelse bp w = Ret () u"
      by (auto simp: kbind_run kthen_run kernel_run kcont_eq_Ret)
    have su: "tx s (inodes s) (bview s) UNIV k u" using tx_trans [OF t(2) u(2)] x(2,5) by simp
    note y = tx_sel [OF su] and ru = ready_same [OF r su]
    have le: "off + ?c + (n - (tot + ?c)) \<le> MAXFILE * BSIZE" using 1(3) c(2) by linarith
    obtain z where z: "readi_loop ip n (tot + ?c) (off + ?c) u = Ret (map (byte_at (di u ip) (bview u)) [off + ?c..<off + ?c + (n - (tot + ?c))]) z"
        "tx u (inodes u) (bview u) UNIV k z"
      using "1.IH" [OF True ru le] 1(5) y(2,4,5) c(2) by auto
    have sz: "tx s (inodes s) (bview s) UNIV k z" using tx_trans [OF su z(2)] y(2,5) by simp
    have p: "?f (bview t (slot ?x ?v ?bn)) = map (byte_at ?x ?v) [off..<off + ?c]" using block_piece [OF a0 b(2) c(3)] x(2) by simp
    have q: "[off..<off + (n - tot)] = [off..<off + ?c] @ [off + ?c..<off + ?c + (n - (tot + ?c))]"
    proof -
      have "off + (n - tot) = off + ?c + (n - (tot + ?c))" using c(2) by linarith
      then show ?thesis using upt_add_eq_append [of off "off + ?c" "n - (tot + ?c)"] by (simp only: le_add1)
    qed
    show ?thesis using sz t(1) w z(1) p q h(3) y(2,5) True by (subst readi_loop.simps) (simp add: kernel_simps)
  qed
qed

section \<open>Writing\<close>

text \<open>A data block of the file is replaced.\<close>

lemma put_block:
  assumes "ready s ip" and "bn < MAXFILE" and "slot (di s ip) (bview s) bn = a" and "a \<noteq> 0"
    and "tx s (inodes s) ((bview s)(a := e)) X k t"
  shows "grew s ip k 0 t"
    and "p < MAXFILE * BSIZE \<Longrightarrow> byte_at (di t ip) (bview t) p = (if p div BSIZE = bn then e ! (p mod BSIZE) else byte_at (di s ip) (bview s) p)"
    and "slot (di t ip) (bview t) = slot (di s ip) (bview s)"
proof -
  have r: "fst_ok s" "geometry s" "slots_ok (sb s) (bview s) (di s ip)" using assms(1) by (simp_all add: ready_def fst_ok_def)
  note y = tx_sel [OF assms(5)]
  have i: "inodes t = inodes s" "(inodes s)[ip := (inodes s ! ip)\<lparr>i_di := di s ip\<rparr>] = inodes s" using y(5) by simp_all
  have ab: "a \<in> blocks (di s ip) (bview s)" using blocksI [of bn "di s ip" "bview s"] assms(2-4) by simp
  have d: "dstart (sb s) \<le> a" using blocks_ok [OF r(3) ab] by blast
  have inj: "j = bn" if "j \<le> MAXFILE" "slot (di s ip) (bview s) j = a" for j
    using slots_okD(4) [OF r(3) less_imp_le [OF assms(2)], of j] assms(3,4) that by simp
  have "di_addrs (di s ip) ! NDIRECT \<noteq> a" using inj [of MAXFILE] assms(2) by (auto simp: slot_top)
  then have sl: "slot (di s ip) ((bview s)(a := e)) = slot (di s ip) (bview s)" by (simp add: fun_eq_iff slot_def)
  then show "slot (di t ip) (bview t) = slot (di s ip) (bview s)" using y(2) i(1) by simp
  have bl: "blocks (di s ip) ((bview s)(a := e)) = blocks (di s ip) (bview s)" by (simp add: blocks_def sl)
  have us: "used (sb s) ((bview s)(a := e)) b = used (sb s) (bview s) b" if "b < sb_size (sb s)" for b by (rule used_data [OF d that])
  have ok: "slots_ok (sb s) ((bview s)(a := e)) (di s ip)" using r(3) us by (simp add: slots_ok_def sl)
  have "fst_ok t" by (rule tx_fst_ok [OF assms(5) r(2)]) (use us r(1) dstart_size [OF r(2)] in \<open>simp add: fst_ok_def\<close>)
  then have rt: "ready t ip" using assms(1) y i ok by (simp add: ready_def)
  have av: "avail (sb s) ((bview s)(a := e)) = avail (sb s) (bview s)" using us by (auto simp: avail_def)
  have u: "used (sb s) (bview s) b" if "b \<in> blocks (di s ip) (bview s)" for b using blocks_ok [OF r(3) that] by blast
  show "grew s ip k 0 t" unfolding grew_def y(2) i av bl sl
    using tx_mono [OF assms(5), of UNIV k] rt u us ab i(1) by (intro conjI) auto
  show "byte_at (di t ip) (bview t) p = (if p div BSIZE = bn then e ! (p mod BSIZE) else byte_at (di s ip) (bview s) p)" if p: "p < MAXFILE * BSIZE"
  proof -
    have "p div BSIZE < MAXFILE" using p by (rule less_mult_imp_div_less)
    then have n: "slot (di s ip) (bview s) (p div BSIZE) \<noteq> a" if "p div BSIZE \<noteq> bn" using inj that less_imp_le by blast
    have "byte_at (di t ip) (bview t) p = byte_at (di s ip) ((bview s)(a := e)) p" using y(2) i(1) by simp
    also have "\<dots> = (if p div BSIZE = bn then e ! (p mod BSIZE) else byte_at (di s ip) (bview s) p)"
    proof (cases "p div BSIZE = bn")
      case True
      then show ?thesis using assms(3,4) by (simp add: byte_at_def sl)
    next
      case False
      then show ?thesis using n by (simp add: byte_at_def sl Let_def)
    qed
    finally show ?thesis .
  qed
qed

text \<open>The number of blocks that \<open>l\<close> bytes from \<open>off\<close> on touch; each round of the loop handles one of them.\<close>

definition rounds :: "nat \<Rightarrow> nat \<Rightarrow> nat" where
  "rounds l off = (if l = 0 then 0 else (off mod BSIZE + l + BSIZE - 1) div BSIZE)"

lemma rounds_step:
  assumes "tot < n"
  shows "rounds (n - tot) off = Suc (rounds (n - (tot + chunk n tot off)) (off + chunk n tot off))"
proof (cases "n - tot \<le> BSIZE - off mod BSIZE")
  case True
  have e: "off mod BSIZE + (n - tot) + BSIZE - 1 = BSIZE + (off mod BSIZE + (n - tot) - 1)" "off mod BSIZE + (n - tot) - 1 < BSIZE"
    using assms True by (simp_all add: BSIZE_def)
  have "(off mod BSIZE + (n - tot) + BSIZE - 1) div BSIZE = 1" unfolding e(1) using e(2) by (subst div_add_self1) (simp_all add: BSIZE_def)
  then show ?thesis using assms True by (simp add: rounds_def chunk_def)
next
  case False
  have l: "off mod BSIZE < BSIZE" by (simp add: BSIZE_def)
  have c: "chunk n tot off = BSIZE - off mod BSIZE" using False by (simp add: chunk_def)
  have "(off div BSIZE + 1) * BSIZE = off div BSIZE * BSIZE + BSIZE" by simp
  then have "off + (BSIZE - off mod BSIZE) = (off div BSIZE + 1) * BSIZE" using l div_mult_mod_eq [of off BSIZE] by linarith
  then have m: "(off + (BSIZE - off mod BSIZE)) mod BSIZE = 0" by simp
  have e: "off mod BSIZE + (n - tot) + BSIZE - 1 = BSIZE + (n - tot - (BSIZE - off mod BSIZE) + BSIZE - 1)" using False l by simp
  have "(off mod BSIZE + (n - tot) + BSIZE - 1) div BSIZE = Suc ((n - tot - (BSIZE - off mod BSIZE) + BSIZE - 1) div BSIZE)"
    unfolding e using l by (subst div_add_self1) simp_all
  then show ?thesis using False assms m by (simp add: rounds_def c)
qed

definition wrote :: "'z fs_st_scheme \<Rightarrow> nat \<Rightarrow> nat \<Rightarrow> byte list \<Rightarrow> 'z fs_st_scheme \<Rightarrow> bool" where
  "wrote s ip off d t \<longleftrightarrow> (\<forall>p < MAXFILE * BSIZE. byte_at (di t ip) (bview t) p =
     (if off \<le> p \<and> p < off + length d then d ! (p - off) else byte_at (di s ip) (bview s) p))
     \<and> (\<forall>p. off \<le> p \<longrightarrow> p < off + length d \<longrightarrow> slot (di t ip) (bview t) (p div BSIZE) \<noteq> 0)"

lemma wrote_append:
  assumes "wrote s ip off d t" and "wrote t ip (off + length d) e u" and "grew t ip k c u" and "off + length d \<le> MAXFILE * BSIZE"
  shows "wrote s ip off (d @ e) u"
proof -
  have "slot (di u ip) (bview u) (p div BSIZE) \<noteq> 0" if "off \<le> p" "p < off + length (d @ e)" for p
  proof (cases "p < off + length d")
    case True
    have "p div BSIZE < MAXFILE" using True assms(4) by (intro less_mult_imp_div_less) linarith
    moreover have "slot (di t ip) (bview t) (p div BSIZE) \<noteq> 0" using True that assms(1) by (simp add: wrote_def)
    ultimately show ?thesis using grewD(6) [OF assms(3), of "p div BSIZE"] by simp
  next
    case False
    then show ?thesis using that assms(2) by (simp add: wrote_def)
  qed
  moreover have "byte_at (di u ip) (bview u) p = (if off \<le> p \<and> p < off + length (d @ e) then (d @ e) ! (p - off) else byte_at (di s ip) (bview s) p)"
    if p: "p < MAXFILE * BSIZE" for p
  proof -
    have "byte_at (di u ip) (bview u) p = (if off + length d \<le> p \<and> p < off + length d + length e then e ! (p - (off + length d))
        else if off \<le> p \<and> p < off + length d then d ! (p - off) else byte_at (di s ip) (bview s) p)"
      using assms(1,2) p by (simp only: wrote_def)
    then show ?thesis by (auto simp: nth_append)
  qed
  ultimately show ?thesis unfolding wrote_def by blast
qed

lemma wrote_nil: "wrote s ip off [] s"
  by (auto simp: wrote_def)

lemma write_bytes:
  assumes "q = (if p div BSIZE = off div BSIZE then overlay (off mod BSIZE) d (v a) ! (p mod BSIZE) else byte_at x v p)"
    and "slot x v (off div BSIZE) = a" and "a \<noteq> 0" and "off mod BSIZE + length d \<le> BSIZE" and "length (v a) = BSIZE"
  shows "q = (if off \<le> p \<and> p < off + length d then d ! (p - off) else byte_at x v p)"
proof (cases "p div BSIZE = off div BSIZE")
  case True
  have e: "p = off div BSIZE * BSIZE + p mod BSIZE" "off = off div BSIZE * BSIZE + off mod BSIZE"
    using True div_mult_mod_eq [of p BSIZE] div_mult_mod_eq [of off BSIZE] by simp_all
  have i: "off \<le> p \<and> p < off + length d \<longleftrightarrow> off mod BSIZE \<le> p mod BSIZE \<and> p mod BSIZE < off mod BSIZE + length d"
    "p mod BSIZE - off mod BSIZE = p - off" using e by linarith+
  have "p mod BSIZE < length (v a)" using assms(5) by (simp add: BSIZE_def)
  then have "q = (if off \<le> p \<and> p < off + length d then d ! (p - off) else v a ! (p mod BSIZE))"
    using assms(1,4,5) True nth_overlay [of "off mod BSIZE" d "v a" "p mod BSIZE"] i by simp
  moreover have "byte_at x v p = v a ! (p mod BSIZE)" using True assms(2,3) by (simp add: byte_at_def)
  ultimately show ?thesis by simp
next
  case False
  have "p div BSIZE = off div BSIZE" if "off \<le> p" "p < off + length d"
  proof -
    have "off mod BSIZE + (p - off) < BSIZE" using that assms(4) by linarith
    then show ?thesis using block_div_mod [of off "p - off"] that(1) by simp
  qed
  then show ?thesis using False assms(1) by auto
qed

lemma writei_loop_run:
  assumes "ready s ip" and "off + (n - tot) \<le> MAXFILE * BSIZE" and "n \<le> length src"
    and "lg_space s (k + 6 * rounds (n - tot) off)" and "2 * rounds (n - tot) off \<le> card (avail (sb s) (bview s))"
  shows "\<exists>t. writei_loop ip src n tot off s = Ret (off + (n - tot)) t \<and> grew s ip k (2 * rounds (n - tot) off) t
    \<and> wrote s ip off (take (n - tot) (drop tot src)) t
    \<and> ((\<forall>p. off \<le> p \<longrightarrow> p < off + (n - tot) \<longrightarrow> slot (di s ip) (bview s) (p div BSIZE) \<noteq> 0) \<longrightarrow> inodes t = inodes s)"
  using assms
proof (induction ip src n tot off arbitrary: s rule: writei_loop.induct)
  case (1 ip src n tot off)
  note r = 1(2)
  show ?case
  proof (cases "tot < n")
    case False
    have "tx s (inodes s) (bview s) {} k s" by (rule tx_refl) (use r 1(5) False in \<open>simp_all add: ready_def fst_ok_def rounds_def\<close>)
    then show ?thesis using False grew_refl_tx(1) [OF r, of "{}" k s] by (subst writei_loop.simps) (simp add: kernel_simps wrote_nil rounds_def)
  next
    case True
    let ?bn = "off div BSIZE" and ?c = "chunk n tot off" and ?R = "rounds (n - (tot + chunk n tot off)) (off + chunk n tot off)"
    let ?d = "take (chunk n tot off) (drop tot src)"
    have c: "0 < ?c" "?c \<le> n - tot" "?c \<le> BSIZE - off mod BSIZE" using chunk_pos [OF True] by (simp_all add: chunk_def)
    have ld: "length ?d = ?c" using c(2) 1(4) by simp
    have R: "rounds (n - tot) off = Suc ?R" by (rule rounds_step [OF True])
    have bn: "?bn < MAXFILE" using 1(3) True by (intro less_mult_imp_div_less) linarith
    have sp: "lg_space s ((k + 6 * ?R + 1) + 5)" "2 \<le> card (avail (sb s) (bview s))" using 1(5,6) R by (simp_all add: lg_space_def)
    obtain t a where t: "bmap ip ?bn s = Ret a t" "grew s ip (k + 6 * ?R + 1) 2 t" "same_bytes s ip t" "a \<noteq> 0" "slot (di t ip) (bview t) ?bn = a"
      using bmap_run [OF r bn sp] by blast
    note g = grewD [OF t(2)]
    have rt: "wst t" "held t = {}" "i_dev (inodes t ! ip) = 1" using g(1) by (simp_all add: ready_def fst_ok_def)
    have b: "lg_blk t a" "length (bview t a) = BSIZE" using slot_block [OF g(1) less_imp_le [OF bn]] t(4,5) by simp_all
    let ?e = "overlay (off mod BSIZE) ?d (bview t a)"
    have "off mod BSIZE < BSIZE" by (simp add: BSIZE_def)
    then have le: "off mod BSIZE + length ?d \<le> length (bview t a)" using ld c(3) b(2) by linarith
    have "length ?e = BSIZE" using le b(2) by simp
    then obtain u where u: "kbind (bread 1 a) (\<lambda>bp. kthen (bset bp (b_data_update (overlay (off mod BSIZE) ?d))) (kthen (log_write bp) (brelse bp))) t = Ret () u"
        "tx t (inodes t) ((bview t)(a := ?e)) {a} (k + 6 * ?R) u"
      using tx_modify [where f = "overlay (off mod BSIZE) ?d", OF rt(1) b(1), of "k + 6 * ?R"] rt(2) g(2) by auto
    note pb = put_block [OF g(1) bn t(5,4) u(2)]
    note su = grew_trans [OF t(2) pb(1)] and h = grewD [OF pb(1)]
    have w: "wrote s ip off ?d u" unfolding wrote_def
    proof (intro conjI allI impI)
      fix p assume "off \<le> p" "p < off + length ?d"
      then have "p div BSIZE = ?bn" using block_div_mod [of off "p - off"] c(3) ld by simp
      then show "slot (di u ip) (bview u) (p div BSIZE) \<noteq> 0" using pb(3) t(4,5) by simp
    next
      fix p assume p: "p < MAXFILE * BSIZE"
      show "byte_at (di u ip) (bview u) p = (if off \<le> p \<and> p < off + length ?d then ?d ! (p - off) else byte_at (di s ip) (bview s) p)"
        using write_bytes [OF pb(2) [OF p] t(5,4) le [unfolded b(2)] b(2)] t(3) p by (simp add: same_bytes_def)
    qed
    have le2: "off + ?c + (n - (tot + ?c)) \<le> MAXFILE * BSIZE" "off + length ?d \<le> MAXFILE * BSIZE" using 1(3) c(2) ld by linarith+
    have sp2: "lg_space u (k + 6 * ?R)" "2 * ?R \<le> card (avail (sb u) (bview u))"
      using h(2,3) grewD(10) [OF su] g(3) 1(6) R by simp_all
    have nf: "\<not> length src < tot + ?c" using 1(4) c(2) True by linarith
    obtain z where z: "writei_loop ip src n (tot + ?c) (off + ?c) u = Ret (off + ?c + (n - (tot + ?c))) z" "grew u ip k (2 * ?R) z"
        "wrote u ip (off + ?c) (take (n - (tot + ?c)) (drop (tot + ?c) src)) z"
        "(\<forall>p. off + ?c \<le> p \<longrightarrow> p < off + ?c + (n - (tot + ?c)) \<longrightarrow> slot (di u ip) (bview u) (p div BSIZE) \<noteq> 0) \<longrightarrow> inodes z = inodes u"
      using "1.IH" [OF True nf h(1) le2(1) 1(4) sp2] by blast
    have "n - tot = ?c + (n - (tot + ?c))" using c(2) by linarith
    then have "take (n - tot) (drop tot src) = ?d @ take (n - (tot + ?c)) (drop (tot + ?c) src)"
      by (metis add.commute drop_drop take_add)
    then have wz: "wrote s ip off (take (n - tot) (drop tot src)) z" using wrote_append [OF w _ z(2) le2(2)] z(3) ld by simp
    have gz: "grew s ip k (2 * rounds (n - tot) off) z" using grew_trans [OF su z(2)] R by simp
    have "writei_loop ip src n tot off s = Ret (off + (n - tot)) z"
      using True t(1) rt(3) u(1) z(1) nf c(2) by (subst writei_loop.simps) (auto simp: kernel_simps kthen_run kcont_eq_Ret)
    moreover have "inodes z = inodes s" if s0: "\<forall>p. off \<le> p \<longrightarrow> p < off + (n - tot) \<longrightarrow> slot (di s ip) (bview s) (p div BSIZE) \<noteq> 0"
    proof -
      have "slot (di s ip) (bview s) ?bn \<noteq> 0" using s0 True by simp
      then obtain t' where "bmap ip ?bn s = Ret (slot (di s ip) (bview s) ?bn) t'" "tx s (inodes s) (bview s) UNIV (k + 6 * ?R + 1 + 5) t'"
        using bmap_lookup [OF r bn _ sp(1)] by blast
      then have "inodes u = inodes s" using t(1) tx_sel(5) [OF u(2)] tx_sel(5) by fastforce
      moreover have "slot (di u ip) (bview u) (p div BSIZE) \<noteq> 0" if "off + ?c \<le> p" "p < off + ?c + (n - (tot + ?c))" for p
      proof -
        have "p div BSIZE < MAXFILE" using that(2) le2(1) by (intro less_mult_imp_div_less) linarith
        moreover have "slot (di s ip) (bview s) (p div BSIZE) \<noteq> 0" using s0 that c(2) by simp
        ultimately show ?thesis using grewD(6) [OF su, of "p div BSIZE"] by simp
      qed
      ultimately show ?thesis using z(4) by simp
    qed
    ultimately show ?thesis using gz wz by blast
  qed
qed

end
