(* ===== verification/Fs_File.thy ===== *)
theory Fs_File
  imports Fs_Data
begin

text \<open>
  A file as an array of bytes: \<^verbatim>\<open>readi\<close> reads a slice of it, \<^verbatim>\<open>writei\<close> replaces a slice and may extend it by one
  at its end, and neither touches the bytes of another file. The inode on the disk follows the one in the cache.
\<close>

section \<open>Inodes on the disk\<close>

abbreviation inum :: "'z fs_st_scheme \<Rightarrow> nat \<Rightarrow> nat" where
  "inum s ip \<equiv> i_inum (inodes s ! ip)"

definition on_disk :: "superblock \<Rightarrow> (nat \<Rightarrow> block) \<Rightarrow> nat \<Rightarrow> dinode" where
  "on_disk y v i = dinode_at (di_off i) (v (IBLOCK i y))"

text \<open>The inode on the disk agrees with \<open>x\<close>, but for the bytes behind the name of the owner.\<close>

definition synced :: "superblock \<Rightarrow> (nat \<Rightarrow> block) \<Rightarrow> nat \<Rightarrow> dinode \<Rightarrow> bool" where
  "synced y v i x \<longleftrightarrow> on_disk y v i = x\<lparr>di_owner := di_owner (on_disk y v i)\<rparr>"

lemma di_off_range: "di_off i + 64 \<le> BSIZE"
proof -
  have "i mod IPB < IPB" by (simp add: IPB_def BSIZE_def)
  then show ?thesis by (simp add: di_off_def IPB_def BSIZE_def)
qed

lemma iblock_range: "geometry s \<Longrightarrow> i < sb_ninodes (sb s) \<Longrightarrow> sb_inodestart (sb s) \<le> IBLOCK i (sb s) \<and> IBLOCK i (sb s) < sb_bmapstart (sb s)"
  using div_le_mono [of i "sb_ninodes (sb s)" IPB] by (auto simp: geometry_def IBLOCK_def)

lemma iblock_blk:
  assumes "geometry s" and "i < sb_ninodes (sb s)"
  shows "lg_blk s (IBLOCK i (sb s))" "IBLOCK i (sb s) \<notin> bitmap (sb s)" "IBLOCK i (sb s) < dstart (sb s)"
  using iblock_range [OF assms] assms(1) bitmap_range [of "IBLOCK i (sb s)" "sb s"] by (auto simp: geometry_def dstart_def)

text \<open>Two inodes are in different blocks or do not overlap.\<close>

lemma inode_apart:
  assumes "i \<noteq> j" and "IBLOCK i y = IBLOCK j y"
  shows "di_off i + 64 \<le> di_off j \<or> di_off j + 64 \<le> di_off i"
proof -
  have "i mod IPB \<noteq> j mod IPB" using assms by (metis IBLOCK_def add_right_cancel div_mult_mod_eq)
  then show ?thesis by (auto simp: di_off_def)
qed

lemma dinode_at_cong:
  assumes "length d = length e" and "off + 64 \<le> length d" and "\<And>j. off \<le> j \<Longrightarrow> j < off + 64 \<Longrightarrow> d ! j = e ! j"
  shows "dinode_at off d = dinode_at off e"
proof -
  have g16: "get16 d k = get16 e k" if "off \<le> k" "k + 2 \<le> off + 64" for k using that assms(3) by (simp add: get16_def)
  have g32: "get32 d k = get32 e k" if "off \<le> k" "k + 4 \<le> off + 64" for k using that g16 by (simp add: get32_def)
  have b: "getB (off + 16) 16 d = getB (off + 16) 16 e" using assms by (intro nth_equalityI) (simp_all add: getB_def)
  have a: "map (\<lambda>k. get32 d (off + 32 + 4 * k)) [0..<NDIRECT + 1] = map (\<lambda>k. get32 e (off + 32 + 4 * k)) [0..<NDIRECT + 1]"
    by (rule map_cong [OF refl]) (simp add: g32 NDIRECT_def)
  show ?thesis unfolding dinode_at_def a b by (simp add: getS_def g16 g32)
qed

text \<open>What \<^verbatim>\<open>iupdate\<close> makes of the block of the inode.\<close>

lemma iupdate_run:
  assumes "ready s ip" and "dinode_ok (di s ip)" and "inum s ip < sb_ninodes (sb s)" and "lg_space s (Suc k)"
  shows "\<exists>t e. iupdate ip s = Ret () t \<and> tx s (inodes s) ((bview s)(IBLOCK (inum s ip) (sb s) := e)) UNIV k t \<and> length e = BSIZE
    \<and> dinode_at (di_off (inum s ip)) e = (di s ip)\<lparr>di_owner := take 15 (cstr (di_owner (di s ip)) @ replicate 15 0) @ [bview s (IBLOCK (inum s ip) (sb s)) ! (di_off (inum s ip) + 31)]\<rparr>
    \<and> (\<forall>j. j < di_off (inum s ip) \<or> di_off (inum s ip) + 64 \<le> j \<longrightarrow> e ! j = bview s (IBLOCK (inum s ip) (sb s)) ! j)"
proof -
  let ?B = "IBLOCK (inum s ip) (sb s)" and ?o = "di_off (inum s ip)"
  have r: "wst s" "geometry s" "i_dev (inodes s ! ip) = 1" "held s = {}" using assms(1) by (simp_all add: ready_def fst_ok_def)
  note b = iblock_blk(1) [OF r(2) assms(3)]
  have len: "length (bview s ?B) = BSIZE" by (rule wst_length [OF r(1) b])
  have "?o + 64 \<le> length (bview s ?B)" using di_off_range len by simp
  from put_dinode_run [OF assms(2) this]
  obtain e where e: "put_dinode ?o (di s ip) (bview s ?B) = Some e" "length e = length (bview s ?B)"
      "dinode_at ?o e = (di s ip)\<lparr>di_owner := take 15 (cstr (di_owner (di s ip)) @ replicate 15 0) @ [bview s ?B ! (?o + 31)]\<rparr>"
      "\<forall>j. j < ?o \<or> ?o + 64 \<le> j \<longrightarrow> e ! j = bview s ?B ! j" by blast
  obtain c t where t: "bread 1 ?B s = Ret c t" "opened s ?B c t" using bread_opened [OF r(1) b _ assms(4)] r(4) by auto
  note o = opened_tx [OF t(2) assms(4)]
  obtain u1 u2 u where u: "bset c (b_data_update (\<lambda>_. e)) t = Ret () u1" "log_write c u1 = Ret () u2" "brelse c u2 = Ret () u"
      "tx s (inodes s) ((bview s)(?B := e)) {?B} k u"
    using opened_store [where f = "\<lambda>_. e", OF t(2) _ b assms(4)] r(4) e(2) len by auto
  have "iupdate ip s = Ret () u" using t(1) u(1-3) o(9) e(1) r(3) by (simp add: iupdate_def kernel_simps)
  moreover have "tx s (inodes s) ((bview s)(?B := e)) UNIV k u" by (rule tx_mono [OF u(4)]) simp_all
  ultimately show ?thesis using e(2-4) len by (metis (no_types, lifting))
qed

lemma slot_size [simp]:
  "slot (x\<lparr>di_size := z\<rparr>) v = slot x v" "slots_ok y v (x\<lparr>di_size := z\<rparr>) = slots_ok y v x" "byte_at (x\<lparr>di_size := z\<rparr>) v = byte_at x v"
  "blocks (x\<lparr>di_size := z\<rparr>) v = blocks x v"
proof -
  show s: "slot (x\<lparr>di_size := z\<rparr>) v = slot x v" by (simp add: fun_eq_iff slot_def)
  show "slots_ok y v (x\<lparr>di_size := z\<rparr>) = slots_ok y v x" "byte_at (x\<lparr>di_size := z\<rparr>) v = byte_at x v" "blocks (x\<lparr>di_size := z\<rparr>) v = blocks x v"
    by (simp_all add: slots_ok_def fun_eq_iff byte_at_def blocks_def s)
qed

text \<open>Replacing an inode block changes no file.\<close>

lemma inode_block_frame:
  assumes "fst_ok s" and "i < sb_ninodes (sb s)"
  shows "\<And>b. b < sb_size (sb s) \<Longrightarrow> used (sb s) ((bview s)(IBLOCK i (sb s) := e)) b = used (sb s) (bview s) b"
    and "slots_ok (sb s) (bview s) x \<Longrightarrow> slot x ((bview s)(IBLOCK i (sb s) := e)) = slot x (bview s)"
    and "slots_ok (sb s) (bview s) x \<Longrightarrow> slots_ok (sb s) ((bview s)(IBLOCK i (sb s) := e)) x"
    and "slots_ok (sb s) (bview s) x \<Longrightarrow> p < MAXFILE * BSIZE \<Longrightarrow> byte_at x ((bview s)(IBLOCK i (sb s) := e)) p = byte_at x (bview s) p"
proof -
  have g: "geometry s" using assms(1) by (simp add: fst_ok_def)
  note b = iblock_blk [OF g assms(2)]
  show us: "used (sb s) ((bview s)(IBLOCK i (sb s) := e)) b = used (sb s) (bview s) b" if "b < sb_size (sb s)" for b
    using b(2) that by (auto simp: used_def bitmap_def)
  show sl: "slot x ((bview s)(IBLOCK i (sb s) := e)) = slot x (bview s)" if x: "slots_ok (sb s) (bview s) x"
  proof -
    have "di_addrs x ! NDIRECT \<noteq> IBLOCK i (sb s) \<or> di_addrs x ! NDIRECT = 0"
      using slots_okD(1) [OF x order.refl] b(3) by (metis leD slot_top)
    then show ?thesis by (auto simp: fun_eq_iff slot_def)
  qed
  show "slots_ok (sb s) ((bview s)(IBLOCK i (sb s) := e)) x" if x: "slots_ok (sb s) (bview s) x"
    using x us unfolding slots_ok_def sl [OF x] by simp
  show "byte_at x ((bview s)(IBLOCK i (sb s) := e)) p = byte_at x (bview s) p" if x: "slots_ok (sb s) (bview s) x" and p: "p < MAXFILE * BSIZE"
  proof -
    have "p div BSIZE < MAXFILE" using p by (rule less_mult_imp_div_less)
    then have "slot x (bview s) (p div BSIZE) \<noteq> 0 \<Longrightarrow> slot x (bview s) (p div BSIZE) \<noteq> IBLOCK i (sb s)"
      using slots_okD(1) [OF x, of "p div BSIZE"] b(3) by auto
    then show ?thesis by (auto simp: byte_at_def sl [OF x] Let_def)
  qed
qed

section \<open>Files\<close>

text \<open>
  A file in good order: its inode is in the cache and agrees with the disk, its blocks are its own, and there is no hole
  below its size.
\<close>

definition filled :: "dinode \<Rightarrow> (nat \<Rightarrow> block) \<Rightarrow> bool" where
  "filled x v \<longleftrightarrow> di_size x \<le> MAXFILE * BSIZE \<and> (\<forall>p < di_size x. slot x v (p div BSIZE) \<noteq> 0)"

definition file_ok :: "'z fs_st_scheme \<Rightarrow> nat \<Rightarrow> bool" where
  "file_ok s ip \<longleftrightarrow> ready s ip \<and> dinode_ok (di s ip) \<and> inum s ip < sb_ninodes (sb s) \<and> filled (di s ip) (bview s)
     \<and> synced (sb s) (bview s) (inum s ip) (di s ip) \<and> di_type (di s ip) \<noteq> T_DEV"

definition file_bytes :: "'z fs_st_scheme \<Rightarrow> nat \<Rightarrow> byte list" where
  "file_bytes s ip = map (byte_at (di s ip) (bview s)) [0..<di_size (di s ip)]"

lemma max_size: "MAXFILE * BSIZE = 69120"
  by (simp add: MAXFILE_def NDIRECT_def NINDIRECT_def BSIZE_def)

lemma readi_file:
  assumes "file_ok s ip" and "off \<le> di_size (di s ip)" and "off + n < 2 ^ 32" and "lg_space s k"
  shows "\<exists>t. readi dv ip off n s = Ret (int (length (take n (drop off (file_bytes s ip)))), take n (drop off (file_bytes s ip))) t
    \<and> tx s (inodes s) (bview s) UNIV k t"
proof -
  let ?z = "di_size (di s ip)"
  define m where "m = (if off + n > ?z then ?z - off else n)"
  have f: "ready s ip" "?z \<le> MAXFILE * BSIZE" "\<And>p. p < ?z \<Longrightarrow> slot (di s ip) (bview s) (p div BSIZE) \<noteq> 0" "di_type (di s ip) \<noteq> T_DEV"
    using assms(1) by (auto simp: file_ok_def filled_def)
  have m: "off + m \<le> ?z" "m \<le> n" "m = n \<or> off + m = ?z" using assms(2) by (auto simp: m_def)
  obtain t where t: "readi_loop ip m 0 off s = Ret (map (byte_at (di s ip) (bview s)) [off..<off + m]) t" "tx s (inodes s) (bview s) UNIV k t"
    using readi_loop_run [OF f(1) _ assms(4), of off m 0] f(2,3) m(1) by auto
  have "map (byte_at (di s ip) (bview s)) [off..<off + m] = take n (drop off (file_bytes s ip))"
    using m assms(2) by (intro nth_equalityI) (auto simp: file_bytes_def)
  moreover have "int_of (int m) = int m" using m(1) f(2) by (intro int_of_id) (simp_all add: max_size)
  moreover have "length (map (byte_at (di s ip) (bview s)) [off..<off + m]) = m" by simp
  ultimately show ?thesis using t f(4) assms(2,3)
    by (simp add: readi_def kernel_simps Let_def m_def [symmetric])
qed

lemma addrs_small:
  assumes "slots_ok y v x" and "sb_size y < 2 ^ 32" and "a \<in> set (di_addrs x)"
  shows "a < 2 ^ 32"
proof -
  obtain k where k: "k < NDIRECT + 1" "a = di_addrs x ! k" using assms(1,3) by (auto simp: in_set_conv_nth slots_ok_def)
  let ?j = "if k < NDIRECT then k else MAXFILE"
  have "a = slot x v ?j" using k by (auto simp: slot_def MAXFILE_def less_Suc_eq)
  moreover have "?j \<le> MAXFILE" by (simp add: MAXFILE_def)
  ultimately have "a = 0 \<or> a < sb_size y" using slots_okD(2) [OF assms(1)] by metis
  then show ?thesis using assms(2) by auto
qed

text \<open>The bytes behind a write.\<close>

lemma wrote_file:
  assumes "wrote s ip off d t" and "off \<le> di_size (di s ip)" and "filled (di s ip) (bview s)"
    and "off + length d \<le> MAXFILE * BSIZE" and "di_size x = max (di_size (di s ip)) (off + length d)"
    and "\<And>p. p < MAXFILE * BSIZE \<Longrightarrow> byte_at x v p = byte_at (di t ip) (bview t) p"
  shows "map (byte_at x v) [0..<di_size x] = take off (file_bytes s ip) @ d @ drop (off + length d) (file_bytes s ip)"
proof (rule nth_equalityI)
  show "length (map (byte_at x v) [0..<di_size x]) = length (take off (file_bytes s ip) @ d @ drop (off + length d) (file_bytes s ip))"
    using assms(2,5) by (simp add: file_bytes_def)
  fix p assume "p < length (map (byte_at x v) [0..<di_size x])"
  then have p: "p < di_size x" "p < MAXFILE * BSIZE" using assms(3-5) by (auto simp: filled_def)
  have "byte_at x v p = (if off \<le> p \<and> p < off + length d then d ! (p - off) else byte_at (di s ip) (bview s) p)"
    using assms(6) [OF p(2)] assms(1) p(2) by (simp add: wrote_def)
  then show "map (byte_at x v) [0..<di_size x] ! p = (take off (file_bytes s ip) @ d @ drop (off + length d) (file_bytes s ip)) ! p"
    using p(1) assms(2,5) by (auto simp: nth_append file_bytes_def)
qed

text \<open>A file with other blocks.\<close>

lemma slot_frame:
  assumes "\<And>b. b \<in> blocks x v \<Longrightarrow> w b = v b"
  shows "slot x w = slot x v" and "p < MAXFILE * BSIZE \<Longrightarrow> byte_at x w p = byte_at x v p"
proof -
  have "di_addrs x ! NDIRECT \<noteq> 0 \<Longrightarrow> w (di_addrs x ! NDIRECT) = v (di_addrs x ! NDIRECT)"
    using assms blocksI [of MAXFILE x v] by (simp add: slot_top)
  then show sl: "slot x w = slot x v" by (auto simp: fun_eq_iff slot_def)
  assume "p < MAXFILE * BSIZE"
  then have "p div BSIZE < MAXFILE" by (rule less_mult_imp_div_less)
  then show "byte_at x w p = byte_at x v p" using assms blocksI [of "p div BSIZE" x v] by (simp add: byte_at_def sl Let_def)
qed

lemma grew_other:
  assumes "grew s ip k c t" and "ready s ip" and "slots_ok (sb s) (bview s) x" and "blocks x (bview s) \<inter> blocks (di s ip) (bview s) = {}"
  shows "\<And>b. b \<in> blocks x (bview s) \<Longrightarrow> bview t b = bview s b" "slots_ok (sb s) (bview t) x"
    "blocks x (bview t) \<inter> blocks (di t ip) (bview t) = {}"
proof -
  note g = grewD [OF assms(1)]
  have n: "b \<notin> blocks (di t ip) (bview t)" if "b \<in> blocks x (bview s)" for b
    using g(8) [of b] blocks_ok [OF assms(3) that] that assms(4) by blast
  show k: "bview t b = bview s b" if "b \<in> blocks x (bview s)" for b using g(9) n [OF that] blocks_ok [OF assms(3) that] by blast
  have sl: "slot x (bview t) = slot x (bview s)" by (rule slot_frame(1)) (rule k)
  show "blocks x (bview t) \<inter> blocks (di t ip) (bview t) = {}" 
  proof -
    have "blocks x (bview t) = blocks x (bview s)" by (simp add: blocks_def sl)
    then show ?thesis using n by blast
  qed
  show "slots_ok (sb s) (bview t) x" using assms(3) g(7) by (auto simp: slots_ok_def sl)
qed

lemma grew_inode_block:
  assumes "grew s ip k c t" and "ready s ip" and "i < sb_ninodes (sb s)"
  shows "bview t (IBLOCK i (sb s)) = bview s (IBLOCK i (sb s))"
proof -
  have g: "geometry s" "slots_ok (sb t) (bview t) (di t ip)" using assms(2) grewD(1) [OF assms(1)] by (simp_all add: ready_def fst_ok_def)
  note b = iblock_blk [OF g(1) assms(3)]
  have "IBLOCK i (sb s) \<notin> blocks (di t ip) (bview t)" using blocks_ok [OF g(2)] b(3) grewD(3) [OF assms(1)] by (metis leD)
  then show ?thesis using grewD(9) [OF assms(1) b(2)] by blast
qed

definition disjoint_files :: "'z fs_st_scheme \<Rightarrow> nat \<Rightarrow> nat \<Rightarrow> bool" where
  "disjoint_files s ip jp \<longleftrightarrow> ip \<noteq> jp \<and> inum s ip \<noteq> inum s jp \<and> blocks (di s jp) (bview s) \<inter> blocks (di s ip) (bview s) = {}"

text \<open>The last part of \<^verbatim>\<open>writei\<close>: the size and the inode on the disk.\<close>

lemma new_size_run:
  assumes "ready s ip" and "dinode_ok (di s ip)" and "inum s ip < sb_ninodes (sb s)" and "lg_space s (Suc k)" and "z < 2 ^ 32"
  shows "\<exists>t e. kthen (diset ip (di_size_update (\<lambda>_. z))) (iupdate ip) s = Ret () t
    \<and> tx s ((inodes s)[ip := (inodes s ! ip)\<lparr>i_di := (di s ip)\<lparr>di_size := z\<rparr>\<rparr>]) ((bview s)(IBLOCK (inum s ip) (sb s) := e)) UNIV k t
    \<and> length e = BSIZE \<and> dinode_at (di_off (inum s ip)) e = ((di s ip)\<lparr>di_size := z\<rparr>)\<lparr>di_owner := di_owner (dinode_at (di_off (inum s ip)) e)\<rparr>
    \<and> (\<forall>j. j < di_off (inum s ip) \<or> di_off (inum s ip) + 64 \<le> j \<longrightarrow> e ! j = bview s (IBLOCK (inum s ip) (sb s)) ! j)"
proof -
  let ?x = "(di s ip)\<lparr>di_size := z\<rparr>" and ?i = "inodes s ! ip"
  let ?u = "s\<lparr>inodes := (inodes s)[ip := ?i\<lparr>i_di := (di s ip)\<lparr>di_size := z\<rparr>\<rparr>]\<rparr>"
  have r: "wst s" "ip < length (inodes s)" using assms(1) by (simp_all add: ready_def fst_ok_def)
  have run: "diset ip (di_size_update (\<lambda>_. z)) s = Ret () ?u"
    by (simp add: iset_def kernel_simps i_di_update_conv [of "di_size_update (\<lambda>_. z)"])
  have tu: "tx s (inodes ?u) (bview s) {} (Suc k) ?u" using tx_inodes [OF r(1) assms(4), of "inodes ?u"] by simp
  note x = tx_sel [OF tu]
  have du: "di ?u ip = ?x" "inum ?u ip = inum s ip" using r(2) by simp_all
  have "ready ?u ip" using assms(1) x tx_geometry [OF tu] r(2) by (simp add: ready_def fst_ok_def)
  moreover have "dinode_ok (di ?u ip)" unfolding du using assms(2,5) by (simp add: dinode_ok_def)
  ultimately obtain t e where t: "iupdate ip ?u = Ret () t" "tx ?u (inodes ?u) ((bview ?u)(IBLOCK (inum ?u ip) (sb ?u) := e)) UNIV k t" "length e = BSIZE"
      "dinode_at (di_off (inum ?u ip)) e = (di ?u ip)\<lparr>di_owner := take 15 (cstr (di_owner (di ?u ip)) @ replicate 15 0) @ [bview ?u (IBLOCK (inum ?u ip) (sb ?u)) ! (di_off (inum ?u ip) + 31)]\<rparr>"
      "\<forall>j. j < di_off (inum ?u ip) \<or> di_off (inum ?u ip) + 64 \<le> j \<longrightarrow> e ! j = bview ?u (IBLOCK (inum ?u ip) (sb ?u)) ! j"
    using iupdate_run [of ?u ip k] assms(3) x(4,6) du(2) by auto
  have "dinode_at (di_off (inum s ip)) e = ?x\<lparr>di_owner := di_owner (dinode_at (di_off (inum s ip)) e)\<rparr>" using t(4) unfolding du by simp
  moreover have "tx s (inodes ?u) ((bview s)(IBLOCK (inum s ip) (sb s) := e)) UNIV k t" using tx_trans [OF tu t(2)] x(2,6) du(2) by simp
  ultimately show ?thesis using run t(1,3,5) du(2) x(2,6) by (simp add: kernel_simps) blast
qed

lemma grew_dinode_ok: "grew s ip k c t \<Longrightarrow> dinode_ok (di s ip) \<Longrightarrow> dinode_ok (di t ip)"
proof -
  assume g: "grew s ip k c t" and d: "dinode_ok (di s ip)"
  have r: "slots_ok (sb t) (bview t) (di t ip)" "sb_size (sb t) < 2 ^ 32" using grewD(1) [OF g] by (simp_all add: ready_def fst_ok_def geometry_def)
  obtain as where x: "di t ip = (di s ip)\<lparr>di_addrs := as\<rparr>" using grewD(5) [OF g] by blast
  have "length as = NDIRECT + 1" "\<forall>a \<in> set as. a < 2 ^ 32" using r addrs_small [OF r] unfolding x slots_ok_def by simp_all
  then show ?thesis using d unfolding x dinode_ok_def by simp
qed

lemma grew_fields:
  assumes "grew s ip k c t" and "ready s ip"
  shows "di_size (di t ip) = di_size (di s ip)" "di_type (di t ip) = di_type (di s ip)" "inum t ip = inum s ip"
    "jp \<noteq> ip \<Longrightarrow> inodes t ! jp = inodes s ! jp" "length (inodes t) = length (inodes s)"
proof -
  obtain x where x: "inodes t = (inodes s)[ip := (inodes s ! ip)\<lparr>i_di := x\<rparr>]" using grewD(4) [OF assms(1)] by blast
  obtain as where d: "di t ip = (di s ip)\<lparr>di_addrs := as\<rparr>" using grewD(5) [OF assms(1)] by blast
  show "di_size (di t ip) = di_size (di s ip)" "di_type (di t ip) = di_type (di s ip)" unfolding d by simp_all
  show "inum t ip = inum s ip" "jp \<noteq> ip \<Longrightarrow> inodes t ! jp = inodes s ! jp" "length (inodes t) = length (inodes s)"
    unfolding x using assms(2) by (simp_all add: ready_def)
qed

text \<open>Another file, while blocks are added to the file of \<open>ip\<close> and while its inode is written.\<close>

definition kept :: "'z fs_st_scheme \<Rightarrow> nat \<Rightarrow> nat \<Rightarrow> 'z fs_st_scheme \<Rightarrow> bool" where
  "kept s ip jp t \<longleftrightarrow> file_ok t jp \<and> file_bytes t jp = file_bytes s jp \<and> disjoint_files t ip jp"

lemma grew_kept:
  assumes "grew s ip k c t" and "ready s ip" and "file_ok s jp" and "disjoint_files s ip jp"
  shows "kept s ip jp t"
proof -
  have j: "ready s jp" "inum s jp < sb_ninodes (sb s)" "filled (di s jp) (bview s)" using assms(3) by (simp_all add: file_ok_def)
  have ne: "jp \<noteq> ip" and dis: "blocks (di s jp) (bview s) \<inter> blocks (di s ip) (bview s) = {}" using assms(4) by (auto simp: disjoint_files_def)
  have so: "slots_ok (sb s) (bview s) (di s jp)" using j(1) by (simp add: ready_def)
  note o = grew_other [OF assms(1,2) so dis] and f = grew_fields [OF assms(1,2)] and g = grewD [OF assms(1)]
  note i = f(4) [OF ne]
  have sl: "slot (di s jp) (bview t) = slot (di s jp) (bview s)" by (rule slot_frame(1)) (rule o(1))
  have byt: "byte_at (di s jp) (bview t) p = byte_at (di s jp) (bview s) p" if "p < MAXFILE * BSIZE" for p
    by (rule slot_frame(2)) (use o(1) that in auto)
  have "ready t jp" using g(1,3) j(1) i f(5) o(2) by (simp add: ready_def)
  moreover have "filled (di s jp) (bview t)" using j(3) by (simp add: filled_def sl)
  moreover have "synced (sb t) (bview t) (inum s jp) (di s jp)"
    using assms(3) g(3) grew_inode_block [OF assms(1,2) j(2)] by (simp add: file_ok_def synced_def on_disk_def)
  ultimately have "file_ok t jp" using assms(3) i g(3) by (simp add: file_ok_def)
  moreover have "file_bytes t jp = file_bytes s jp" using byt j(3) i by (simp add: file_bytes_def filled_def)
  moreover have "disjoint_files t ip jp" using assms(4) i f(3) o(3) by (simp add: disjoint_files_def)
  ultimately show ?thesis by (simp add: kept_def)
qed

lemma inode_kept:
  assumes "ready s ip" and "inum s ip < sb_ninodes (sb s)"
    and "tx s ((inodes s)[ip := (inodes s ! ip)\<lparr>i_di := (di s ip)\<lparr>di_size := z\<rparr>\<rparr>]) ((bview s)(IBLOCK (inum s ip) (sb s) := e)) UNIV k t"
    and "length e = BSIZE" and "\<forall>j. j < di_off (inum s ip) \<or> di_off (inum s ip) + 64 \<le> j \<longrightarrow> e ! j = bview s (IBLOCK (inum s ip) (sb s)) ! j"
    and "file_ok s jp" and "disjoint_files s ip jp"
  shows "kept s ip jp t"
proof -
  let ?B = "IBLOCK (inum s ip) (sb s)"
  have j: "ready s jp" "filled (di s jp) (bview s)" "inum s jp < sb_ninodes (sb s)" using assms(6) by (simp_all add: file_ok_def)
  have r: "fst_ok s" "geometry s" "slots_ok (sb s) (bview s) (di s jp)" "slots_ok (sb s) (bview s) (di s ip)" "ip < length (inodes s)"
    using assms(1) j(1) by (simp_all add: ready_def fst_ok_def)
  have ne: "jp \<noteq> ip" "inum s ip \<noteq> inum s jp" using assms(7) by (auto simp: disjoint_files_def)
  note x = tx_sel [OF assms(3)] and fr = inode_block_frame [OF r(1) assms(2), where e = e]
  have i: "inodes t ! jp = inodes s ! jp" "length (inodes t) = length (inodes s)" "di t ip = (di s ip)\<lparr>di_size := z\<rparr>" "inum t ip = inum s ip"
    using x(5) ne(1) r(5) by simp_all
  have "fst_ok t" by (rule tx_fst_ok [OF assms(3) r(2)]) (use fr(1) r(1) dstart_size [OF r(2)] in \<open>simp add: fst_ok_def\<close>)
  then have "ready t jp" using j(1) x i fr(3) [OF r(3)] by (simp add: ready_def)
  moreover have "filled (di s jp) (bview t)" using j(2) x(2) by (simp add: filled_def fr(2) [OF r(3)])
  moreover have "on_disk (sb t) (bview t) (inum s jp) = on_disk (sb s) (bview s) (inum s jp)"
  proof (cases "IBLOCK (inum s jp) (sb s) = ?B")
    case True
    have "length (bview s ?B) = BSIZE" using wst_length [of s ?B] iblock_blk(1) [OF r(2) assms(2)] r(1) by (simp add: fst_ok_def)
    then have "dinode_at (di_off (inum s jp)) e = dinode_at (di_off (inum s jp)) (bview s ?B)"
      using assms(4,5) di_off_range inode_apart [OF ne(2) True [symmetric]] by (intro dinode_at_cong) auto
    then show ?thesis using True x(2,6) by (simp add: on_disk_def)
  qed (use x(2,6) in \<open>simp add: on_disk_def\<close>)
  ultimately have "file_ok t jp" using assms(6) i(1) x(6) by (simp add: file_ok_def synced_def)
  moreover have "file_bytes t jp = file_bytes s jp" using i(1) x(2) j(2) fr(4) [OF r(3)] by (simp add: file_bytes_def filled_def)
  moreover have "disjoint_files t ip jp" using assms(7) i x(2) unfolding disjoint_files_def by (simp add: blocks_def fr(2) [OF r(3)] fr(2) [OF r(4)])
  ultimately show ?thesis by (simp add: kept_def)
qed

lemma kept_trans: "kept s ip jp t \<Longrightarrow> kept t ip jp u \<Longrightarrow> kept s ip jp u"
  by (simp add: kept_def)

lemma writei_run:
  assumes "file_ok s ip" and "off \<le> di_size (di s ip)" and "n \<le> length src" and "off + n \<le> MAXFILE * BSIZE"
    and "lg_space s (Suc k + 6 * rounds n off)" and "2 * rounds n off \<le> card (avail (sb s) (bview s))"
  shows "\<exists>t. writei dv ip src off n s = Ret (int n) t \<and> file_ok t ip \<and> lg_space t k
    \<and> file_bytes t ip = take off (file_bytes s ip) @ take n src @ drop (off + n) (file_bytes s ip)
    \<and> (\<forall>jp. file_ok s jp \<longrightarrow> disjoint_files s ip jp \<longrightarrow> kept s ip jp t)"
proof -
  let ?z = "di_size (di s ip)"
  have f: "ready s ip" "dinode_ok (di s ip)" "inum s ip < sb_ninodes (sb s)" "filled (di s ip) (bview s)" "di_type (di s ip) \<noteq> T_DEV"
    "synced (sb s) (bview s) (inum s ip) (di s ip)" using assms(1) by (simp_all add: file_ok_def)
  have ln: "length (take n src) = n" using assms(3) by simp
  obtain u where u: "writei_loop ip src n 0 off s = Ret (off + n) u" "grew s ip (Suc k) (2 * rounds n off) u" "wrote s ip off (take n src) u"
      "(\<forall>p. off \<le> p \<longrightarrow> p < off + n \<longrightarrow> slot (di s ip) (bview s) (p div BSIZE) \<noteq> 0) \<longrightarrow> inodes u = inodes s"
    using writei_loop_run [OF f(1), of off n 0 src "Suc k"] assms(3-6) by auto
  note g = grewD [OF u(2)] and gf = grew_fields [OF u(2) f(1)]
  have start: "writei dv ip src off n s = kthen (kwhen (n > 0 \<and> off + n > ?z) (kthen (diset ip (di_size_update (\<lambda>_. off + n))) (iupdate ip))) (kret (int n)) u"
    using f(5) assms(2,4) u(1) gf(1) int_of_id [of "int n"] by (simp add: writei_def kernel_simps max_size)
  have fl: "slot (di u ip) (bview u) (p div BSIZE) \<noteq> 0" if "p < max ?z (off + n)" for p
  proof (cases "p < ?z")
    case True
    have "p div BSIZE < MAXFILE" using True f(4) by (intro less_mult_imp_div_less) (simp add: filled_def)
    then show ?thesis using g(6) [of "p div BSIZE"] True f(4) by (simp add: filled_def)
  next
    case False
    then show ?thesis using that assms(2) u(3) ln by (simp add: wrote_def)
  qed
  show ?thesis
  proof (cases "n > 0 \<and> off + n > ?z")
    case False
    have "inodes u = inodes s" using u(4) f(4) False by (auto simp: filled_def)
    then have i: "di u ip = di s ip" "inum u ip = inum s ip" by simp_all
    have m: "max ?z (off + n) = ?z" using False assms(2) by auto
    have "synced (sb u) (bview u) (inum s ip) (di s ip)" using f(6) g(3) grew_inode_block [OF u(2) f(1,3)] by (simp add: synced_def on_disk_def)
    moreover have "filled (di s ip) (bview u)" using f(4) fl m i(1) by (simp add: filled_def)
    ultimately have ok: "file_ok u ip" using f g(1,3) i by (simp add: file_ok_def)
    have "file_bytes u ip = take off (file_bytes s ip) @ take n src @ drop (off + n) (file_bytes s ip)"
      unfolding file_bytes_def [of u] using wrote_file [OF u(3) assms(2) f(4), of "di u ip" "bview u"] ln assms(4) i(1) m by simp
    moreover have "lg_space u k" using g(2) by (simp add: lg_space_def)
    moreover have "writei dv ip src off n s = Ret (int n) u" using start False by (simp add: kernel_simps)
    ultimately show ?thesis using ok grew_kept [OF u(2) f(1)] by blast
  next
    case True
    let ?i = "(inodes u ! ip)\<lparr>i_di := (di u ip)\<lparr>di_size := off + n\<rparr>\<rparr>" and ?B = "IBLOCK (inum u ip) (sb u)"
    have nu: "inum u ip < sb_ninodes (sb u)" using f(3) g(3) gf(3) by simp
    obtain t e where t: "kthen (diset ip (di_size_update (\<lambda>_. off + n))) (iupdate ip) u = Ret () t" "tx u ((inodes u)[ip := ?i]) ((bview u)(?B := e)) UNIV k t"
        "length e = BSIZE" "dinode_at (di_off (inum u ip)) e = ((di u ip)\<lparr>di_size := off + n\<rparr>)\<lparr>di_owner := di_owner (dinode_at (di_off (inum u ip)) e)\<rparr>"
        "\<forall>j. j < di_off (inum u ip) \<or> di_off (inum u ip) + 64 \<le> j \<longrightarrow> e ! j = bview u ?B ! j"
      using new_size_run [OF g(1) grew_dinode_ok [OF u(2) f(2)] nu g(2), of "off + n"] assms(4) by (auto simp: max_size)
    have k1: "kept u ip jp t" if "file_ok u jp" "disjoint_files u ip jp" for jp by (rule inode_kept [OF g(1) nu t(2,3,5) that])
    have k2: "kept s ip jp t" if "file_ok s jp" "disjoint_files s ip jp" for jp
    proof -
      have "kept s ip jp u" by (rule grew_kept [OF u(2) f(1) that])
      then show ?thesis using k1 kept_trans by (auto simp: kept_def)
    qed
    have r: "fst_ok u" "geometry u" "slots_ok (sb u) (bview u) (di u ip)" "ip < length (inodes u)" using g(1) by (simp_all add: ready_def fst_ok_def)
    note x = tx_sel [OF t(2)] and fr = inode_block_frame [OF r(1) nu, where e = e]
    have d: "di t ip = (di u ip)\<lparr>di_size := off + n\<rparr>" "inum t ip = inum u ip" "i_dev (inodes t ! ip) = i_dev (inodes u ! ip)" using x(5) r(4) by simp_all
    have sl: "slot (di t ip) (bview t) = slot (di u ip) (bview u)" unfolding d(1) x(2) by (simp add: fr(2) [OF r(3)])
    have "slots_ok (sb u) (bview t) (di t ip)" unfolding d(1) x(2) using fr(3) [OF r(3)] by simp
    moreover have "fst_ok t" by (rule tx_fst_ok [OF t(2) r(2)]) (use fr(1) r(1) dstart_size [OF r(2)] in \<open>simp add: fst_ok_def\<close>)
    ultimately have rt: "ready t ip" using g(1) x d r(4) by (simp add: ready_def)
    have "dinode_ok (di t ip)" unfolding d(1) using grew_dinode_ok [OF u(2) f(2)] assms(4) by (simp add: dinode_ok_def max_size)
    moreover have m: "di_size (di t ip) = max ?z (off + n)" using d(1) True by simp
    moreover have "filled (di t ip) (bview t)" unfolding filled_def sl using fl m f(4) assms(4) by (simp add: filled_def)
    moreover have "synced (sb t) (bview t) (inum t ip) (di t ip)" unfolding synced_def on_disk_def d x(2,6) using t(4) by simp
    moreover have "di_type (di t ip) \<noteq> T_DEV" using d(1) gf(2) f(5) by simp
    ultimately have ok: "file_ok t ip" using rt nu x(6) d(2) by (simp add: file_ok_def)
    have "byte_at (di t ip) (bview t) p = byte_at (di u ip) (bview u) p" if "p < MAXFILE * BSIZE" for p
      unfolding d(1) x(2) using fr(4) [OF r(3) that] by simp
    then have "file_bytes t ip = take off (file_bytes s ip) @ take n src @ drop (off + n) (file_bytes s ip)"
      unfolding file_bytes_def [of t] using wrote_file [OF u(3) assms(2) f(4), of "di t ip" "bview t"] ln assms(4) m by simp
    moreover have "writei dv ip src off n s = Ret (int n) t" using start True t(1) by (simp add: kthen_run kernel_run kwhen_run)
    ultimately show ?thesis using ok k2 x(4) by blast
  qed
qed

section \<open>Loading an inode\<close>

lemma clean_inodes [simp]: "clean (s\<lparr>inodes := x\<rparr>) n = clean s n"
  by (simp add: clean_def)

lemma cstr_clean: "0 \<notin> set (cstr s)"
  by (auto simp: cstr_def dest: set_takeWhileD)

lemma iload_run:
  assumes "fst_ok s" and "inum s ip < sb_ninodes (sb s)" and "lg_space s k" and "length (di_owner (di s ip)) = 16"
    and "15 \<le> length (di_owner (on_disk (sb s) (bview s) (inum s ip)))"
    and "ip < length (inodes s)" and "i_dev (inodes s ! ip) = 1" and "held s = {}"
  shows "\<exists>t. iload ip s = (if di_type (on_disk (sb s) (bview s) (inum s ip)) = 0 then Panic ''ilock: no type'' else Ret () t)
    \<and> di t ip = (on_disk (sb s) (bview s) (inum s ip))\<lparr>di_owner := take 15 (cstr (di_owner (on_disk (sb s) (bview s) (inum s ip))) @ replicate 15 0)
        @ drop 15 (di_owner (di s ip))\<rparr>
    \<and> i_valid (inodes t ! ip) \<and> bview t = bview s \<and> sb t = sb s"
proof -
  let ?B = "IBLOCK (inum s ip) (sb s)" and ?d = "on_disk (sb s) (bview s) (inum s ip)"
  let ?ow = "take 15 (cstr (di_owner ?d) @ replicate 15 0) @ drop 15 (di_owner (di s ip))"
  have r: "wst s" "geometry s" "i_dev (inodes s ! ip) = 1" "held s = {}" "ip < length (inodes s)" using assms(1,6-8) by (simp_all add: fst_ok_def)
  note b = iblock_blk(1) [OF r(2) assms(2)]
  obtain c t where t: "bread 1 ?B s = Ret c t" "opened s ?B c t" using bread_opened [OF r(1) b _ assms(3)] r(4) by auto
  note o = opened_tx [OF t(2) assms(3)]
  have d: "dinode_at (di_off (inum s ip)) (b_data (bufs t ! c)) = ?d" using o(9) by (simp add: on_disk_def)
  have sc: "strncpy (di_owner (di s ip)) (di_owner ?d) MAX_LEN = Some ?ow"
    using assms(4,5) by (subst strncpy_bounded) (simp_all add: MAX_LEN_def)
  let ?x = "?d\<lparr>di_owner := ?ow\<rparr>"
  let ?t = "t\<lparr>inodes := (inodes s)[ip := (inodes s ! ip)\<lparr>i_di := ?x\<rparr>]\<rparr>"
  have run: "diset ip (\<lambda>_. ?x) t = Ret () ?t" using o(6) by (simp add: iset_def kernel_simps)
  have "wst ?t" "holds ?t ?B c" "clean ?t ?B" using t(2) by (simp_all add: opened_def)
  from lg.rel_law [OF this] obtain u where u: "brelse c ?t = Ret () u" "cache_frame ?t u" "bview u = bview ?t" by blast
  have i: "inodes u = inodes ?t" "sb u = sb ?t" using log_frame_fs [OF lg.rfr_fr [OF u(2)]] by simp_all
  let ?u = "u\<lparr>inodes := (inodes u)[ip := (inodes u ! ip)\<lparr>i_valid := True\<rparr>]\<rparr>"
  have "iload ip s = (if di_type ?d = 0 then Panic ''ilock: no type'' else Ret () ?u)"
    using t(1) d sc run u(1) r(3) by (simp add: iload_def kernel_simps iset_def)
  moreover have "di ?u ip = ?x" "i_valid (inodes ?u ! ip)" "bview ?u = bview s" "sb ?u = sb s" using i u(3) r(5) o(3,7) by simp_all
  ultimately show ?thesis by blast
qed

text \<open>A name that was padded to 15 bytes is found again, whatever the byte behind it.\<close>

lemma padded_name:
  "take 15 (cstr (take 15 (cstr w @ replicate 15 0) @ [c]) @ replicate 15 0) = take 15 (cstr w @ replicate 15 0)"
proof (cases "length (cstr w) < 15")
  case True
  then obtain k where k: "15 - length (cstr w) = Suc k" by (cases "15 - length (cstr w)") simp_all
  have w: "take 15 (cstr w @ replicate 15 0) = cstr w @ replicate (Suc k) 0" using True k by simp
  show ?thesis unfolding w using True k by (simp add: cstr_str [OF cstr_clean])
next
  case False
  then have w: "take 15 (cstr w @ replicate 15 0) = take 15 (cstr w)" by simp
  have "0 \<notin> set (take 15 (cstr w))" using cstr_clean [of w] by (auto dest: in_set_takeD)
  moreover have "cstr (u @ [c]) = u @ (if c = 0 then [] else [c])" if "0 \<notin> set u" for u
    using that by (induction u) (auto simp: cstr_def)
  ultimately have "cstr (take 15 (cstr w) @ [c]) = take 15 (cstr w) @ (if c = 0 then [] else [c])" by blast
  then show ?thesis unfolding w using False by simp
qed

text \<open>
  C9. Writing an inode with \<^verbatim>\<open>iupdate\<close> and loading it again the way \<^verbatim>\<open>ilock\<close> does gives every field of the
  inode back, whatever the cache entry holds in between. Of the 16 bytes of the owner the first 15 come back, the name
  padded with zero bytes; the last byte is not copied by \<^verbatim>\<open>strncpy(..., MAX_LEN)\<close> and is the one the cache entry has.
\<close>

theorem inode_roundtrip:
  fixes s :: "'z fs_st_scheme"
  assumes "ready s ip" and "dinode_ok (di s ip)" and "inum s ip < sb_ninodes (sb s)" and "lg_space s 1"
    and "di_type (di s ip) \<noteq> 0" and "length (di_owner y) = 16"
  shows "\<exists>t u. iupdate ip s = Ret () t
    \<and> iload ip (t\<lparr>inodes := (inodes t)[ip := (inodes t ! ip)\<lparr>i_di := y, i_valid := False\<rparr>]\<rparr>) = Ret () u
    \<and> di u ip = (di s ip)\<lparr>di_owner := take 15 (cstr (di_owner (di s ip)) @ replicate 15 0) @ drop 15 (di_owner y)\<rparr> \<and> i_valid (inodes u ! ip)"
proof -
  let ?B = "IBLOCK (inum s ip) (sb s)" and ?o = "di_off (inum s ip)"
  let ?w = "take 15 (cstr (di_owner (di s ip)) @ replicate 15 0)"
  obtain t e where t: "iupdate ip s = Ret () t" "tx s (inodes s) ((bview s)(?B := e)) UNIV 0 t"
      "dinode_at ?o e = (di s ip)\<lparr>di_owner := ?w @ [bview s ?B ! (?o + 31)]\<rparr>"
    using iupdate_run [OF assms(1-3), of 0] assms(4) by auto
  note x = tx_sel [OF t(2)]
  have r: "fst_ok s" "geometry s" "ip < length (inodes s)" "i_dev (inodes s ! ip) = 1" "held s = {}"
    using assms(1) by (simp_all add: ready_def fst_ok_def)
  note fr = inode_block_frame [OF r(1) assms(3), where e = e]
  let ?i = "(inodes t)[ip := (inodes t ! ip)\<lparr>i_di := y, i_valid := False\<rparr>]"
  let ?t = "t\<lparr>inodes := ?i\<rparr>"
  have ft: "fst_ok t" by (rule tx_fst_ok [OF t(2) r(2)]) (use fr(1) r(1) dstart_size [OF r(2)] in \<open>simp add: fst_ok_def\<close>)
  have tt: "tx t ?i (bview t) {} 0 ?t" using tx_inodes [OF x(1,4)] by simp
  note z = tx_sel [OF tt]
  have f: "fst_ok ?t" using ft z tx_geometry [OF tt] by (simp add: fst_ok_def)
  have od: "on_disk (sb ?t) (bview ?t) (inum ?t ip) = (di s ip)\<lparr>di_owner := ?w @ [bview s ?B ! (?o + 31)]\<rparr>"
    using t(3) x(2,5,6) r(3) by (simp add: on_disk_def)
  have len: "length ?w = 15" by simp
  have "\<exists>u. iload ip ?t = (if di_type (on_disk (sb ?t) (bview ?t) (inum ?t ip)) = 0 then Panic ''ilock: no type'' else Ret () u)
    \<and> di u ip = (on_disk (sb ?t) (bview ?t) (inum ?t ip))\<lparr>di_owner := take 15 (cstr (di_owner (on_disk (sb ?t) (bview ?t) (inum ?t ip))) @ replicate 15 0)
        @ drop 15 (di_owner (di ?t ip))\<rparr>
    \<and> i_valid (inodes u ! ip) \<and> bview u = bview ?t \<and> sb u = sb ?t"
    by (rule iload_run [OF f]) (use assms(3,6) x(3-6) z r(3-5) od len in simp_all)
  then show ?thesis using t(1) od padded_name [of "di_owner (di s ip)"] assms(5) x(5) r(3) by auto
qed

section \<open>The contracts\<close>

text \<open>
  C8. \<^verbatim>\<open>balloc\<close> takes the free block with the smallest number, clears it and marks it in the bitmap, and
  changes nothing else; without a free block it panics. \<^verbatim>\<open>bfree\<close> of the block makes the bitmap what it was.
\<close>

theorem balloc_first:
  fixes s :: "'z fs_st_scheme"
  assumes "fst_ok s" and "held s = {}" and "lg_space s 3"
  shows "if \<forall>b < sb_size (sb s). used (sb s) (bview s) b then balloc 1 s = Panic ''balloc: out of blocks''
    else \<exists>a t u. balloc 1 s = Ret a t \<and> dstart (sb s) \<le> a \<and> a < sb_size (sb s)
      \<and> \<not> used (sb s) (bview s) a \<and> (\<forall>b < a. used (sb s) (bview s) b) \<and> bview t a = replicate BSIZE 0
      \<and> (\<forall>b < sb_size (sb s). used (sb s) (bview t) b \<longleftrightarrow> b = a \<or> used (sb s) (bview s) b)
      \<and> (\<forall>b. b \<notin> bitmap (sb s) \<longrightarrow> b \<noteq> a \<longrightarrow> bview t b = bview s b)
      \<and> bfree 1 a t = Ret () u \<and> (\<forall>b < sb_size (sb s). used (sb s) (bview u) b \<longleftrightarrow> used (sb s) (bview s) b)"
proof (cases "first_free (sb s) (bview s) 0")
  case None
  then have all: "\<forall>b < sb_size (sb s). used (sb s) (bview s) b" by (simp add: first_free_def find_None_iff)
  have "balloc 1 s = Panic ''balloc: out of blocks''"
    by (rule balloc_full [where k = 1, OF assms(1) _ _ _ None]) (use assms(2,3) in \<open>simp_all add: numeral_3_eq_3\<close>)
  with all show ?thesis by simp
next
  case (Some a)
  note d = first_free_data [OF assms(1) Some] and m = first_free_SomeD [OF Some]
  obtain t where t: "balloc 1 s = Ret a t" "tx s (inodes s) (grabbed (sb s) a (bview s)) (bitmap (sb s) \<union> {a}) 1 t" "fst_ok t"
    using balloc_run [where k = 1, OF assms(1) _ _ _ Some] assms(2,3) by (auto simp: numeral_3_eq_3)
  note x = tx_sel [OF t(2)] and us = grabbed_used [OF assms(1) d]
  have ua: "used (sb t) (bview t) a" using us [OF d(2)] x(2,6) by simp
  have "BBLOCK a (sb t) \<notin> held t" using x(3) assms(2) by simp
  with ua obtain u where u: "bfree 1 a t = Ret () u" "tx t (inodes t) (mark_free (sb t) a (bview t)) {BBLOCK a (sb t)} 0 u"
    using bfree_run [where k = 0, OF t(3), of a] x(3,4,6) assms(2) d by auto
  have g: "wst t" "geometry t" using t(3) by (simp_all add: fst_ok_def)
  have "length (bview t (BBLOCK a (sb s))) = BSIZE" using wst_length [OF g(1)] geometry_blocks(1) [OF g(2), of a] d(2) x(6) by simp
  then have "used (sb s) (bview u) b \<longleftrightarrow> used (sb s) (bview s) b" if "b < sb_size (sb s)" for b
    using used_mark(2) [of "bview t" a "sb s" b] us [OF that] m(3) d(2) that x(2,6) tx_sel(2) [OF u(2)] by auto
  moreover have "bview t b = bview s b" if "b \<notin> bitmap (sb s)" "b \<noteq> a" for b using grabbed_other [OF d(2) that] x(2) by simp
  moreover have "bview t a = replicate BSIZE 0" using x(2) grabbed_same by simp
  ultimately show ?thesis using t(1) u(1) d m us x(2) by auto
qed

text \<open>
  C7. Reading from a file that is in good order returns the bytes of the file from the offset on, as many as there
  are and as were asked for, and changes neither the file system nor the cache of inodes; an offset behind the end of the
  file or a length that wraps around is refused.
\<close>

theorem readi_slice:
  fixes s :: "'z fs_st_scheme"
  assumes "file_ok s ip" and "lg_space s k" and "off < 2 ^ 32" and "n < 2 ^ 32"
  shows "if off > di_size (di s ip) \<or> off + n \<ge> 2 ^ 32 then readi dv ip off n s = Ret (-1, []) s
    else \<exists>t. readi dv ip off n s = Ret (int (min n (di_size (di s ip) - off)), take n (drop off (file_bytes s ip))) t
      \<and> inodes t = inodes s \<and> bview t = bview s \<and> file_ok t ip \<and> lg_space t k"
proof (cases "off > di_size (di s ip) \<or> off + n \<ge> 2 ^ 32")
  case True
  have "off \<le> di_size (di s ip) \<Longrightarrow> (off + n) mod 2 ^ 32 < off"
  proof -
    assume "off \<le> di_size (di s ip)"
    then have h: "2 ^ 32 \<le> off + n" using True by linarith
    then have "(off + n) mod 2 ^ 32 = (off + n - 2 ^ 32) mod 2 ^ 32" by (rule le_mod_geq)
    also have "\<dots> \<le> off + n - 2 ^ 32" by (rule mod_less_eq_dividend)
    finally show ?thesis using assms(4) h by linarith
  qed
  then have "off > di_size (di s ip) \<or> (off + n) mod 2 ^ 32 < off" by linarith
  moreover have "di_type (di s ip) \<noteq> T_DEV" using assms(1) by (simp add: file_ok_def)
  ultimately show ?thesis using True by (simp add: readi_def kernel_simps)
next
  case False
  obtain t where t: "readi dv ip off n s = Ret (int (length (take n (drop off (file_bytes s ip)))), take n (drop off (file_bytes s ip))) t"
      "tx s (inodes s) (bview s) UNIV k t"
    using readi_file [OF assms(1) _ _ assms(2), of off n dv] False by auto
  note x = tx_sel [OF t(2)]
  have "ready t ip" using ready_same [OF _ t(2)] assms(1) by (simp add: file_ok_def)
  then have "file_ok t ip" using assms(1) x by (simp add: file_ok_def)
  then show ?thesis using False t(1) x by (simp add: file_bytes_def min.commute)
qed

text \<open>
  C6. Writing \<open>n\<close> bytes at an offset of a file in good order, the offset not behind its end, replaces the
  bytes there and lets the file grow if they reach behind its end; the file stays in good order, with its inode on the disk.
  Every other file in good order with blocks of its own keeps its content. There must be room in the log and enough free
  blocks for the blocks the write touches; a write that would make the file too long is refused.
\<close>

theorem writei_replaces:
  fixes s :: "'z fs_st_scheme"
  assumes "file_ok s ip" and "off \<le> di_size (di s ip)" and "n \<le> length src" and "off + n < 2 ^ 32"
    and "lg_space s (Suc k + 6 * rounds n off)" and "2 * rounds n off \<le> card (avail (sb s) (bview s))"
  shows "if off + n > MAXFILE * BSIZE then writei dv ip src off n s = Ret (-1) s
    else \<exists>t. writei dv ip src off n s = Ret (int n) t \<and> file_ok t ip \<and> lg_space t k
      \<and> file_bytes t ip = take off (file_bytes s ip) @ take n src @ drop (off + n) (file_bytes s ip)
      \<and> (\<forall>jp. file_ok s jp \<and> disjoint_files s ip jp \<longrightarrow> file_ok t jp \<and> file_bytes t jp = file_bytes s jp \<and> disjoint_files t ip jp)"
proof (cases "off + n > MAXFILE * BSIZE")
  case True
  moreover have "di_type (di s ip) \<noteq> T_DEV" using assms(1) by (simp add: file_ok_def)
  ultimately show ?thesis using assms(2,4) by (simp add: writei_def kernel_simps)
next
  case False
  then show ?thesis using writei_run [OF assms(1-3) _ assms(5,6), of dv] by (auto simp: kept_def)
qed

section \<open>An example\<close>

text \<open>
  A disk of 60 blocks: the log in blocks 2 to 31, the inodes from block 32 on, the bitmap in block 35, and two files, inodes 1
  and 2, with one data block each, 36 and 37.
\<close>

definition ex_sb :: superblock where
  "ex_sb = \<lparr>sb_size = 60, sb_nblocks = 24, sb_ninodes = 16, sb_nlog = 30, sb_logstart = 2, sb_inodestart = 32, sb_bmapstart = 35\<rparr>"

definition ex_bitmap :: block where
  "ex_bitmap = [255, 255, 255, 255, 63] @ replicate 507 0"

definition ex_file :: "nat \<Rightarrow> nat \<Rightarrow> dinode" where
  "ex_file a n = \<lparr>di_type = 2, di_major = 0, di_minor = 0, di_nlink = 1, di_size = n, di_perm = 63,
     di_owner = replicate 16 0, di_addrs = [a, 0, 0, 0, 0, 0, 0, 0]\<rparr>"

definition ex_inodes :: block where
  "ex_inodes = the (put_dinode 128 (ex_file 37 3) (the (put_dinode 64 (ex_file 36 5) zblock)))"

definition ex_disk :: "block list" where
  "ex_disk = (replicate 60 zblock)[32 := ex_inodes, 35 := ex_bitmap, 36 := [104, 101, 108, 108, 111] @ replicate 507 0]"

definition two_files :: fs_st where
  "two_files = \<lparr>lk = boot_lk, mem = (\<lambda>_. 0), freelist = 0, use_lock = True, kend = 0x80100000, kdata = 0,
     kpgdir = 0, cr3 = 0, procs = solo_procs, initproc = None, nextpid = 1, cpu_proc = (\<lambda>_. Some 0), ts_esp0 = (\<lambda>_. 0),
     ticks = 0, sym_forkret = 0, sym_trapret = 0, nexttid = 1, slocks = (\<lambda>_. \<lparr>sl_locked = False, sl_pid = 0\<rparr>), wakes = 0,
     bufs = cache_of [], bnext = ring_next, bprev = ring_prev, memdisk = ex_disk, dwrites = [], lg_start = 2, lg_size = 30,
     lg_outstanding = 1, lg_committing = False, lg_dev = 1, lh_n = 0, lh_block = replicate LOGSIZE 0,
     lt_fd = 0, lt_userIdx = 0, lt_userCnt = 0, lt_f = None, lt_usernames = [], lt_passwords = [],
     inodes = [\<lparr>i_dev = 1, i_inum = 1, i_ref = 1, i_valid = True, i_di = ex_file 36 5\<rparr>,
       \<lparr>i_dev = 1, i_inum = 2, i_ref = 1, i_valid = True, i_di = ex_file 37 3\<rparr>], sb = ex_sb\<rparr>"

lemma ex_sel [simp]:
  "di_size (ex_file a n) = n" "length (di_addrs (ex_file a n)) = 8" "di_type (ex_file a n) = 2" "sb_size ex_sb = 60" "sb_ninodes ex_sb = 16" "sb_inodestart ex_sb = 32" "sb_bmapstart ex_sb = 35" "dstart ex_sb = 36"
  by (simp_all add: ex_file_def ex_sb_def dstart_def BPB_def BSIZE_def)

lemma ex_file_ok: "a < 2 ^ 32 \<Longrightarrow> n < 2 ^ 32 \<Longrightarrow> dinode_ok (ex_file a n)"
  by (simp add: dinode_ok_def ex_file_def NDIRECT_def terminated_def)

lemma ex_inodes_at:
  shows "length ex_inodes = BSIZE" "\<exists>w. dinode_at 64 ex_inodes = (ex_file 36 5)\<lparr>di_owner := w\<rparr>" "\<exists>w. dinode_at 128 ex_inodes = (ex_file 37 3)\<lparr>di_owner := w\<rparr>"
proof -
  have z: "length zblock = BSIZE" by (simp add: zblock_def)
  obtain d where d: "put_dinode 64 (ex_file 36 5) zblock = Some d" "length d = BSIZE" "\<exists>w. dinode_at 64 d = (ex_file 36 5)\<lparr>di_owner := w\<rparr>"
    using put_dinode_run [OF ex_file_ok, of 36 5 64 zblock] z by (auto simp: BSIZE_def)
  obtain e where e: "put_dinode 128 (ex_file 37 3) d = Some e" "length e = BSIZE" "\<exists>w. dinode_at 128 e = (ex_file 37 3)\<lparr>di_owner := w\<rparr>"
      "\<forall>j. j < 128 \<or> 128 + 64 \<le> j \<longrightarrow> e ! j = d ! j"
    using put_dinode_run [OF ex_file_ok, of 37 3 128 d] d(2) by (auto simp: BSIZE_def)
  have x: "ex_inodes = e" using d(1) e(1) by (simp add: ex_inodes_def)
  show "length ex_inodes = BSIZE" "\<exists>w. dinode_at 128 ex_inodes = (ex_file 37 3)\<lparr>di_owner := w\<rparr>" using e(2,3) x by simp_all
  have "dinode_at 64 e = dinode_at 64 d" by (rule dinode_at_cong) (use d(2) e(2,4) in \<open>simp_all add: BSIZE_def\<close>)
  then show "\<exists>w. dinode_at 64 ex_inodes = (ex_file 36 5)\<lparr>di_owner := w\<rparr>" using d(3) x by simp
qed

lemma ex_disk_len: "length ex_disk = 60" "\<forall>d \<in> set ex_disk. length d = BSIZE"
proof -
  show "length ex_disk = 60" by (simp add: ex_disk_def)
  have "set ex_disk \<subseteq> {zblock, ex_inodes, ex_bitmap, [104, 101, 108, 108, 111] @ replicate 507 0}"
    unfolding ex_disk_def by (auto dest!: set_update_subset_insert [THEN subsetD] simp del: replicate.simps)
  then show "\<forall>d \<in> set ex_disk. length d = BSIZE" using ex_inodes_at(1) by (auto simp: zblock_def ex_bitmap_def BSIZE_def)
qed

lemma two_files_sel:
  "bview two_files n = ex_disk ! n" "held two_files = {}" "wst two_files" "sb two_files = ex_sb" "lg_space two_files 28"
proof -
  have "solo [] ex_disk two_files" by (simp add: solo_def two_files_def)
  note b = solo_bst [OF this _ _ _ ex_disk_len(2)]
  have "log_ok two_files" by (simp add: log_ok_def two_files_def logged_def ex_disk_len LOGSIZE_def MAXOPBLOCKS_def)
  moreover have "logged two_files = []" by (simp add: logged_def two_files_def)
  ultimately show "wst two_files" using b by (simp add: wst_def) (simp add: two_files_def)
  show "bview two_files n = ex_disk ! n" "held two_files = {}" using b by simp_all
  show "sb two_files = ex_sb" "lg_space two_files 28" by (simp_all add: two_files_def lg_space_def LOGSIZE_def MAXOPBLOCKS_def)
qed

lemma ex_bits: "b < 60 \<Longrightarrow> bm_used b ex_bitmap \<longleftrightarrow> b < 38"
proof -
  have "list_all (\<lambda>b. bm_used b ex_bitmap \<longleftrightarrow> b < 38) [0..<60]" by code_simp
  then show "b < 60 \<Longrightarrow> bm_used b ex_bitmap \<longleftrightarrow> b < 38" by (simp add: list_all_iff)
qed

lemma ex_used: "b < 60 \<Longrightarrow> used ex_sb (bview two_files) b \<longleftrightarrow> b < 38"
proof -
  assume b: "b < 60"
  then have "BBLOCK b ex_sb = 35" "b mod BPB = b" by (simp_all add: BBLOCK_def ex_sb_def BPB_def BSIZE_def)
  moreover have "ex_disk ! 35 = ex_bitmap" by (simp add: ex_disk_def)
  ultimately show ?thesis using ex_bits [OF b] by (simp add: used_def two_files_sel(1))
qed

lemma two_files_ok: "fst_ok two_files"
proof -
  have "lg_blk two_files b" if "32 \<le> b" "b < 60" for b using that by (simp add: lg_blk_def two_files_def log_area_def ex_disk_len)
  then have "geometry two_files" unfolding geometry_def two_files_sel(4) by (simp add: IPB_def BSIZE_def)
  then show ?thesis using ex_used two_files_sel(3,4) by (simp add: fst_ok_def)
qed

lemma ex_slot: "slot (ex_file a n) v k = (if k = 0 then a else 0)"
proof -
  have "k < 7 \<Longrightarrow> k \<noteq> 0 \<Longrightarrow> [a, 0, 0, 0, 0, 0, 0, 0] ! k = (0 :: nat)"
    by (auto simp: less_Suc_eq numeral_eq_Suc nth_Cons')
  then show ?thesis by (auto simp: slot_def ex_file_def NDIRECT_def MAXFILE_def)
qed

lemma ex_slots_ok: "36 \<le> a \<Longrightarrow> a < 38 \<Longrightarrow> slots_ok ex_sb (bview two_files) (ex_file a n)"
  by (simp add: slots_ok_def ex_slot ex_used NDIRECT_def)

lemma ex_blocks: "a \<noteq> 0 \<Longrightarrow> blocks (ex_file a n) v = {a}"
  by (auto simp: blocks_def ex_slot)

lemma ex_ready: "ip < 2 \<Longrightarrow> ready two_files ip"
  using two_files_ok two_files_sel(2,4) ex_slots_ok by (auto simp: ready_def less_Suc_eq numeral_2_eq_2) (simp_all add: two_files_def)

lemma ex_files: "file_ok two_files 0" "file_ok two_files 1" "disjoint_files two_files 0 1" "file_bytes two_files 0 = [104, 101, 108, 108, 111]"
    "file_bytes two_files 1 = [0, 0, 0]" "card (avail ex_sb (bview two_files)) = 22"
proof -
  have i: "inodes two_files ! 0 = \<lparr>i_dev = 1, i_inum = 1, i_ref = 1, i_valid = True, i_di = ex_file 36 5\<rparr>"
    "inodes two_files ! Suc 0 = \<lparr>i_dev = 1, i_inum = 2, i_ref = 1, i_valid = True, i_di = ex_file 37 3\<rparr>" by (simp_all add: two_files_def)
  have b: "ex_disk ! 32 = ex_inodes" "IBLOCK 1 ex_sb = 32" "IBLOCK 2 ex_sb = 32" "di_off 1 = 64" "di_off 2 = 128"
    by (simp_all add: ex_disk_def IBLOCK_def IPB_def BSIZE_def ex_sb_def di_off_def)
  have z: "p div BSIZE = 0" if "p < 5" for p using that by (simp add: BSIZE_def)
  have "synced ex_sb (bview two_files) 1 (ex_file 36 5)" "synced ex_sb (bview two_files) 2 (ex_file 37 3)"
    using ex_inodes_at(2,3) by (auto simp: synced_def on_disk_def b two_files_sel(1) simp del: One_nat_def)
  moreover have "filled (ex_file 36 5) v" "filled (ex_file 37 3) v" for v
    using z by (auto simp: filled_def ex_slot max_size)
  moreover have "di_type (ex_file a n) \<noteq> T_DEV" for a n by (simp add: T_DEV_def)
  ultimately show "file_ok two_files 0" "file_ok two_files 1"
    using ex_ready ex_file_ok by (simp_all add: file_ok_def i two_files_sel(4))
  show "disjoint_files two_files 0 1" by (simp add: disjoint_files_def i ex_blocks)
  have "byte_at (ex_file a n) (bview two_files) p = ex_disk ! a ! p" if "a \<noteq> 0" "p < BSIZE" for a n p
    using that by (simp add: byte_at_def ex_slot two_files_sel(1))
  note bt = this [unfolded BSIZE_def]
  have k: "ex_disk ! 36 = [104, 101, 108, 108, 111] @ replicate 507 0" "ex_disk ! 37 = zblock" by (simp_all add: ex_disk_def)
  show "file_bytes two_files 0 = [104, 101, 108, 108, 111]"
    by (simp add: file_bytes_def i upt_rec bt k del: replicate.simps)
  show "file_bytes two_files 1 = [0, 0, 0]"
    using i(2) by (simp add: file_bytes_def upt_rec bt k zblock_def BSIZE_def)
  have "avail ex_sb (bview two_files) = {38..<60}" using ex_used by (auto simp: avail_def)
  then show "card (avail ex_sb (bview two_files)) = 22" by simp
qed

theorem balloc_first_witness: "\<exists>t u. balloc 1 two_files = Ret 38 t \<and> bview t 38 = replicate BSIZE 0 \<and> bfree 1 38 t = Ret () u"
proof -
  have "lg_space two_files 3" using two_files_sel(5) by (simp add: lg_space_def)
  note b = balloc_first [OF two_files_ok two_files_sel(2) this, unfolded two_files_sel(4) ex_sel]
  have n: "\<not> (\<forall>b < 60. used ex_sb (bview two_files) b)" using ex_used [of 38] by (simp, intro exI [of _ 38]) simp
  obtain a t u where a: "balloc 1 two_files = Ret a t" "a < 60" "\<not> used ex_sb (bview two_files) a" "\<forall>b < a. used ex_sb (bview two_files) b"
      "bview t a = replicate BSIZE 0" "bfree 1 a t = Ret () u"
    using b unfolding if_not_P [OF n] by blast
  have "\<not> a < 38" using a(2,3) ex_used [of a] by simp
  moreover have "\<not> 38 < a" using a(4) ex_used [of 38] by auto
  ultimately have "a = 38" by simp
  with a show ?thesis by blast
qed

theorem readi_slice_witness:
  "(\<exists>t. readi (\<lambda>_. (None, None)) 0 1 3 two_files = Ret (3, [101, 108, 108]) t)
   \<and> (\<exists>t. readi (\<lambda>_. (None, None)) 0 4 100 two_files = Ret (1, [111]) t) \<and> readi (\<lambda>_. (None, None)) 0 6 1 two_files = Ret (-1, []) two_files"
proof -
  have i: "di_size (di two_files 0) = 5" by (simp add: two_files_def)
  note r = readi_slice [where dv = "\<lambda>_. (None, None)", OF ex_files(1) two_files_sel(5), unfolded i ex_files(4)]
  show ?thesis using r [of 1 3] r [of 4 100] r [of 6 1] by auto
qed

theorem writei_replaces_witness:
  "\<exists>t. writei (\<lambda>_. (None, None)) 0 [33, 34, 35] 4 3 two_files = Ret 3 t \<and> file_bytes t 0 = [104, 101, 108, 108, 33, 34, 35] \<and> file_bytes t 1 = [0, 0, 0]"
proof -
  have i: "di_size (di two_files 0) = 5" by (simp add: two_files_def)
  have r: "rounds 3 4 = 1" by (simp add: rounds_def BSIZE_def)
  have "lg_space two_files (Suc 21 + 6 * rounds 3 4)" using two_files_sel(5) r by simp
  moreover have "2 * rounds 3 4 \<le> card (avail (sb two_files) (bview two_files))" using ex_files(6) r two_files_sel(4) by simp
  ultimately obtain t where "writei (\<lambda>_. (None, None)) 0 [33, 34, 35] 4 3 two_files = Ret 3 t"
      "file_bytes t 0 = [104, 101, 108, 108, 33, 34, 35]" "\<forall>jp. file_ok two_files jp \<and> disjoint_files two_files 0 jp \<longrightarrow> file_bytes t jp = file_bytes two_files jp"
    using writei_replaces [where dv = "\<lambda>_. (None, None)" and src = "[33, 34, 35]" and off = 4 and n = 3 and k = 21, OF ex_files(1)] i ex_files(4)
    by (auto simp: max_size)
  then show ?thesis using ex_files(2,3,5) by auto
qed

theorem inode_roundtrip_witness:
  "\<exists>t u. iupdate 0 two_files = Ret () t
    \<and> iload 0 (t\<lparr>inodes := (inodes t)[0 := (inodes t ! 0)\<lparr>i_di := (ex_file 36 5)\<lparr>di_nlink := 7, di_addrs := []\<rparr>, i_valid := False\<rparr>]\<rparr>) = Ret () u \<and> di_nlink (di u 0) = 1"
proof -
  have i: "di two_files 0 = ex_file 36 5" "inum two_files 0 = 1" by (simp_all add: two_files_def)
  have l: "lg_space two_files 1" using two_files_sel(5) by (simp add: lg_space_def)
  have "\<exists>t u. iupdate 0 two_files = Ret () t
    \<and> iload 0 (t\<lparr>inodes := (inodes t)[0 := (inodes t ! 0)\<lparr>i_di := (ex_file 36 5)\<lparr>di_nlink := 7, di_addrs := []\<rparr>, i_valid := False\<rparr>]\<rparr>) = Ret () u
    \<and> di u 0 = (di two_files 0)\<lparr>di_owner := take 15 (cstr (di_owner (di two_files 0)) @ replicate 15 0) @ drop 15 (di_owner ((ex_file 36 5)\<lparr>di_nlink := 7, di_addrs := []\<rparr>))\<rparr>
    \<and> i_valid (inodes u ! 0)"
    by (rule inode_roundtrip [OF ex_ready _ _ l]) (simp_all add: i ex_file_ok two_files_sel(4), simp_all add: ex_file_def cstr_def)
  then show ?thesis unfolding i by (auto simp: ex_file_def)
qed

end
