(* ===== verification/Printf.thy ===== *)
theory Printf
  imports CString
begin

text \<open>
  Formatted output of the user library (\<^verbatim>\<open>printf.c\<close>). \<^verbatim>\<open>putc\<close> writes one byte to the descriptor, so the result
  of a call is the list of the bytes it writes, in order. The arguments are the words behind the format on the stack, the
  memory that \<^verbatim>\<open>%s\<close> reads is a function from addresses to bytes. \<open>None\<close> is a run that leaves an array or never ends.
\<close>

section \<open>Numbers\<close>

definition putc :: "byte \<Rightarrow> byte list" where
  "putc c = [c]"

definition hex_digits :: "byte list" where
  "hex_digits = str ''0123456789ABCDEF'' @ [0]"

text \<open>The loop that fills \<^verbatim>\<open>buf\<close>, which has 16 bytes.\<close>

function printint_loop :: "u32 \<Rightarrow> u32 \<Rightarrow> byte list \<Rightarrow> nat \<Rightarrow> (byte list \<times> nat) option" where
  "printint_loop x base buf i =
     (if 16 \<le> i \<or> base = 0 \<or> length hex_digits \<le> unat (x mod base) then None
      else if x div base \<noteq> 0 then printint_loop (x div base) base (buf[i := hex_digits ! unat (x mod base)]) (i + 1)
      else Some (buf[i := hex_digits ! unat (x mod base)], i + 1))"
  by auto
termination
  by (relation "measure (\<lambda>(x, base, buf, i). 16 - i)") auto

declare printint_loop.simps [simp del]

definition printint :: "u32 \<Rightarrow> u32 \<Rightarrow> bool \<Rightarrow> byte list option" where
  "printint xx base sg =
     (let neg = (sg \<and> sint xx < 0);
          x = (if neg then - xx else xx) in
      case printint_loop x base (replicate 16 0) 0 of
        None \<Rightarrow> None
      | Some (buf, i) \<Rightarrow>
          if neg then
            (if 16 \<le> i then None
             else Some (concat (map putc (rev (take (i + 1) (buf[i := 45]))))))
          else Some (concat (map putc (rev (take i buf)))))"

section \<open>Formats\<close>

text \<open>
  The bytes from address \<open>s\<close> up to a zero byte. After \<open>2 ^ 32\<close> steps the loop has seen every address and goes round
  for ever.
\<close>

fun puts_at :: "(u32 \<Rightarrow> byte) \<Rightarrow> u32 \<Rightarrow> nat \<Rightarrow> byte list option" where
  "puts_at m s 0 = None"
| "puts_at m s (Suc n) = (if m s = 0 then Some [] else map_option (\<lambda>r. putc (m s) @ r) (puts_at m (s + 1) n))"

definition append_opt :: "byte list option \<Rightarrow> byte list option \<Rightarrow> byte list option" where
  "append_opt a b = (case a of None \<Rightarrow> None | Some x \<Rightarrow> map_option (\<lambda>y. x @ y) b)"

text \<open>\<open>pct\<close> is \<^verbatim>\<open>state == '%'\<close>; \<open>ap\<close> gives the argument words from the next one on.\<close>

fun printf_loop :: "(u32 \<Rightarrow> byte) \<Rightarrow> byte list \<Rightarrow> bool \<Rightarrow> (nat \<Rightarrow> u32) \<Rightarrow> byte list option" where
  "printf_loop m [] pct ap = None"
| "printf_loop m (c # fmt) pct ap =
     (if c = 0 then Some []
      else if \<not> pct then
        (if c = 37 then printf_loop m fmt True ap
         else append_opt (Some (putc c)) (printf_loop m fmt False ap))
      else if c = 100 then append_opt (printint (ap 0) 10 True) (printf_loop m fmt False (\<lambda>k. ap (k + 1)))
      else if c = 120 \<or> c = 112 then append_opt (printint (ap 0) 16 False) (printf_loop m fmt False (\<lambda>k. ap (k + 1)))
      else if c = 115 then
        append_opt (if ap 0 = 0 then Some (str ''(null)'') else puts_at m (ap 0) (2 ^ 32)) (printf_loop m fmt False (\<lambda>k. ap (k + 1)))
      else if c = 99 then append_opt (Some (putc (ucast (ap 0)))) (printf_loop m fmt False (\<lambda>k. ap (k + 1)))
      else if c = 37 then append_opt (Some (putc c)) (printf_loop m fmt False ap)
      else append_opt (Some (putc 37 @ putc c)) (printf_loop m fmt False ap))"

definition printf :: "(u32 \<Rightarrow> byte) \<Rightarrow> byte list \<Rightarrow> (nat \<Rightarrow> u32) \<Rightarrow> byte list option" where
  "printf m fmt ap = printf_loop m fmt False ap"

section \<open>What they print\<close>

text \<open>The digits of a number to a base, most significant first, as the codes the table gives them.\<close>

fun numeral_of :: "nat \<Rightarrow> nat \<Rightarrow> byte list" where
  "numeral_of b n = (if b < 2 \<or> n < b then [hex_digits ! n] else numeral_of b (n div b) @ [hex_digits ! (n mod b)])"

declare numeral_of.simps [simp del]

lemma numeral_of_length:
  assumes "8 \<le> b" and "n < 8 ^ k" and "0 < k"
  shows "length (numeral_of b n) \<le> k"
  using assms(2,3)
proof (induction k arbitrary: n)
  case (Suc k)
  show ?case
  proof (cases "n < b")
    case False
    have "n div b \<le> n div 8" by (rule div_le_mono2) (use assms(1) in simp_all)
    then have "n div b < 8 ^ k" using Suc.prems(1) by (simp add: less_mult_imp_div_less)
    moreover have "0 < k" using False Suc.prems assms(1) by (cases k) auto
    ultimately show ?thesis using Suc.IH False by (subst numeral_of.simps) auto
  qed (subst numeral_of.simps, simp)
qed simp

lemma hex_digits_length: "length hex_digits = 17"
  by (simp add: hex_digits_def str_def)

lemma printint_loop_run:
  assumes "8 \<le> unat base" and "unat base \<le> 16" and "length buf = 16" and "i + length (numeral_of (unat base) (unat x)) \<le> 16"
  shows "\<exists>buf'. printint_loop x base buf i = Some (buf', i + length (numeral_of (unat base) (unat x))) \<and> length buf' = 16
    \<and> take (i + length (numeral_of (unat base) (unat x))) buf' = take i buf @ rev (numeral_of (unat base) (unat x))"
  using assms(3,4)
proof (induction "16 - i" arbitrary: x buf i rule: less_induct)
  case less
  let ?d = "hex_digits ! unat (x mod base)"
  have d: "unat (x div base) = unat x div unat base" "unat (x mod base) = unat x mod unat base" by (simp_all add: unat_div unat_mod)
  have "unat x mod unat base < unat base" using assms(1) by simp
  then have b: "base \<noteq> 0" "\<not> length hex_digits \<le> unat (x mod base)" "\<not> unat base < 2"
    using assms(1,2) unfolding d hex_digits_length by (auto simp del: mod_less_divisor)
  have z: "x div base = 0 \<longleftrightarrow> unat x < unat base" using assms(1) by (simp add: word_unat_eq_iff d div_eq_0_iff)
  have i: "i < 16" using less.prems(2) by (subst (asm) numeral_of.simps) (auto split: if_splits)
  show ?case
  proof (cases "unat x < unat base")
    case True
    then have "numeral_of (unat base) (unat x) = [?d]" by (subst numeral_of.simps) (simp add: d)
    then show ?thesis using True z b i less.prems(1) by (subst printint_loop.simps) (simp add: take_Suc_conv_app_nth not_le)
  next
    case False
    have n: "numeral_of (unat base) (unat x) = numeral_of (unat base) (unat (x div base)) @ [?d]"
      using False b(3) by (subst numeral_of.simps) (simp add: d)
    have less_diff: "16 - (i + 1) < 16 - i" using i by simp
    obtain e where e: "printint_loop (x div base) base (buf[i := ?d]) (i + 1) = Some (e, i + 1 + length (numeral_of (unat base) (unat (x div base))))"
        "length e = 16" "take (i + 1 + length (numeral_of (unat base) (unat (x div base)))) e = take (i + 1) (buf[i := ?d]) @ rev (numeral_of (unat base) (unat (x div base)))"
      using less.hyps [OF less_diff, of "buf[i := ?d]" "x div base"] less.prems n by auto
    then show ?thesis using False z b i n less.prems(1) by (subst printint_loop.simps) (simp add: take_Suc_conv_app_nth not_le)
  qed
qed

lemma neg_unat: "sint (x :: u32) < 0 \<Longrightarrow> unat (- x) = nat (- sint x)"
proof -
  assume n: "sint x < 0"
  have "uint (- x) = (- uint x) mod 2 ^ 32" using uint_word_ariths(4) [of x] by simp
  also have "uint x = sint x mod 2 ^ 32" by (simp add: uint_sint take_bit_eq_mod)
  also have "(- (sint x mod 2 ^ 32)) mod 2 ^ 32 = (- sint x) mod 2 ^ 32" by (rule mod_minus_eq)
  also have "\<dots> = - sint x" using n sint_greater_eq [of x] by (intro mod_pos_pos_trivial) simp_all
  finally show ?thesis by (metis nat_uint_eq)
qed

text \<open>To the base ten these are the decimal digits that \<^verbatim>\<open>atoi\<close> reads.\<close>

lemma numeral_of_decimal: "numeral_of 10 n = digits n"
proof (induction n rule: digits.induct)
  case (1 n)
  have "list_all (\<lambda>k. hex_digits ! k = (of_nat (48 + k) :: byte)) [0..<10]" by code_simp
  then have d: "hex_digits ! k = of_nat (48 + k)" if "k < 10" for k using that by (simp add: list_all_iff del: of_nat_add)
  show ?case using 1 d by (subst digits.simps, subst numeral_of.simps) (cases "n < 10"; simp del: of_nat_add)
qed

lemma printint_loop_value:
  assumes "8 \<le> unat base" and "unat base \<le> 16"
  shows "\<exists>s. printint xx base sg = Some s \<and> length s \<le> 12
    \<and> s = (if sg \<and> sint xx < 0 then 45 # numeral_of (unat base) (nat (- sint xx)) else numeral_of (unat base) (unat xx))"
proof -
  define x where "x = (if sg \<and> sint xx < 0 then - xx else xx)"
  let ?n = "numeral_of (unat base) (unat x)"
  have "unat x < 2 ^ 32" using unsigned_less [of x] by simp
  then have "unat x < 8 ^ 11" by simp
  then have l: "length ?n \<le> 11" by (intro numeral_of_length) (use assms(1) in simp_all)
  then obtain buf where b: "printint_loop x base (replicate 16 0) 0 = Some (buf, length ?n)" "length buf = 16" "take (length ?n) buf = rev ?n"
    using printint_loop_run [OF assms, of "replicate 16 0" 0 x] by (auto simp del: replicate.simps)
  have c: "concat (map putc ys) = ys" for ys by (induction ys) (simp_all add: putc_def)
  have v: "unat x = (if sg \<and> sint xx < 0 then nat (- sint xx) else unat xx)"
    using neg_unat [of xx] by (auto simp: x_def)
  show ?thesis
  proof (cases "sg \<and> sint xx < 0")
    case True
    have "take (length ?n + 1) (buf[length ?n := 45]) = rev (45 # ?n)" using b(2,3) l by (simp add: take_Suc_conv_app_nth)
    then have "printint xx base sg = Some (45 # ?n)" using True b(1) l x_def by (simp add: printint_def c Let_def putc_def)
    then show ?thesis using True v l by simp
  next
    case False
    then have "x = xx" by (auto simp: x_def)
    then have "printint xx base sg = Some ?n" using b False by (auto simp: printint_def c Let_def)
    then show ?thesis using False v l by auto
  qed
qed

text \<open>
  C36. \<^verbatim>\<open>printint\<close> never writes behind its 16 byte buffer and prints the digits of the number, to the base 8
  or more, behind a minus sign if the number is signed and negative; no number takes more than 12 characters.
\<close>

theorem printint_fits:
  assumes "8 \<le> unat base" and "unat base \<le> 16"
  shows "\<exists>s. printint xx base sg = Some s \<and> length s \<le> 12
    \<and> s = (if sg \<and> sint xx < 0 then 45 # numeral_of (unat base) (nat (- sint xx)) else numeral_of (unat base) (unat xx))"
  by (rule printint_loop_value [OF assms])

theorem printint_fits_witness: "printint 0x80000000 10 True = Some (str ''-2147483648'') \<and> printint 0xFFFFFFFF 16 False = Some (str ''FFFFFFFF'')"
proof -
  have s: "sint (0x80000000 :: u32) = - 2147483648" by simp
  show ?thesis
    using printint_fits [of 10 "0x80000000" True] printint_fits [of 16 "0xFFFFFFFF" False] s
    by (simp add: numeral_of.simps hex_digits_def str_def)
qed

text \<open>What \<^verbatim>\<open>printf\<close> prints for \<^verbatim>\<open>%d\<close> is read back by \<^verbatim>\<open>atoi\<close>.\<close>

lemma printf_decimal_atoi:
  assumes "n < 2 ^ 31" and "ap 0 = of_nat n"
  shows "\<exists>s. printf m (str ''%d'' @ [0]) ap = Some s \<and> atoi (s @ [0]) = Some (int n)"
proof -
  have u: "unat (of_nat n :: u32) = n" using assms(1) by (simp add: unat_of_nat)
  have "bit (of_nat n :: u32) 31 = bit (unat (of_nat n :: u32)) 31" by (simp only: bit_unsigned_iff) simp
  then have "\<not> bit (of_nat n :: u32) 31" unfolding u using assms(1) by (simp add: bit_iff_odd)
  then have "\<not> sint (of_nat n :: u32) < 0" using bit_last_iff [of "of_nat n :: u32"] by simp
  then have "printint (ap 0) 10 True = Some (digits n)" using printint_loop_value [of 10 "ap 0" True] assms(2) u by (simp add: numeral_of_decimal)
  then have "printf m (str ''%d'' @ [0]) ap = Some (digits n)" by (simp add: printf_def str_def append_opt_def)
  moreover have "atoi (digits n @ [0]) = Some (int n)" by (rule atoi_digits) (simp add: is_digit_def)
  ultimately show ?thesis by blast
qed

end
