(* ===== verification/Umalloc.thy ===== *)
theory Umalloc
  imports Prelude
begin

text \<open>
  The allocator of the user library (\<^verbatim>\<open>umalloc.c\<close>). A header is named by its address; its two fields are functions of
  the address, so headers do not overlap and the bytes of blocks in use are not part of the state. Sizes are counted in
  headers of 8 bytes. \<^verbatim>\<open>sbrk\<close> is the system call: an argument that says what the kernel answers to a change of the size
  of the process by so many bytes, the address and the new size, or nothing for -1. A loop that does not end is \<open>None\<close>.
\<close>

section \<open>The code\<close>

record heap =
  h_ptr :: "nat \<Rightarrow> nat"
  h_size :: "nat \<Rightarrow> nat"
  freep :: nat
  brk :: nat

type_synonym sbrk = "int \<Rightarrow> nat \<Rightarrow> (nat \<times> nat) option"

definition set_ptr :: "nat \<Rightarrow> nat \<Rightarrow> heap \<Rightarrow> heap" where
  "set_ptr p q s = s\<lparr>h_ptr := (h_ptr s)(p := q)\<rparr>"

definition set_size :: "nat \<Rightarrow> nat \<Rightarrow> heap \<Rightarrow> heap" where
  "set_size p n s = s\<lparr>h_size := (h_size s)(p := n)\<rparr>"

text \<open>The loop of \<^verbatim>\<open>free\<close> that looks for the place of a block.\<close>

partial_function (option) free_scan :: "(nat \<Rightarrow> nat) \<Rightarrow> nat \<Rightarrow> nat \<Rightarrow> nat option" where
  "free_scan ptr bp p =
     (if bp > p \<and> bp < ptr p then Some p
      else if p \<ge> ptr p \<and> (bp > p \<or> bp < ptr p) then Some p
      else free_scan ptr bp (ptr p))"

text \<open>The two joins with the neighbours.\<close>

definition join_upper :: "nat \<Rightarrow> nat \<Rightarrow> heap \<Rightarrow> heap" where
  "join_upper bp p s =
     (if (bp + 8 * h_size s bp) mod 2 ^ 32 = h_ptr s p then
        set_ptr bp (h_ptr s (h_ptr s p)) (set_size bp ((h_size s bp + h_size s (h_ptr s p)) mod 2 ^ 32) s)
      else set_ptr bp (h_ptr s p) s)"

definition join_lower :: "nat \<Rightarrow> nat \<Rightarrow> heap \<Rightarrow> heap" where
  "join_lower bp p s =
     (if (p + 8 * h_size s p) mod 2 ^ 32 = bp then
        set_ptr p (h_ptr s bp) (set_size p ((h_size s p + h_size s bp) mod 2 ^ 32) s)
      else set_ptr p bp s)"

definition free :: "nat \<Rightarrow> heap \<Rightarrow> heap option" where
  "free ap s =
     (let bp = ap - 8 in
      case free_scan (h_ptr s) bp (freep s) of
        None \<Rightarrow> None
      | Some p \<Rightarrow> Some ((join_lower bp p (join_upper bp p s))\<lparr>freep := p\<rparr>))"

text \<open>The argument of \<^verbatim>\<open>sbrk\<close> is computed in 32 bits and taken as an \<^verbatim>\<open>int\<close>.\<close>

definition int32 :: "nat \<Rightarrow> int" where
  "int32 n = (int n + 2 ^ 31) mod 2 ^ 32 - 2 ^ 31"

definition morecore :: "sbrk \<Rightarrow> nat \<Rightarrow> heap \<Rightarrow> (nat \<times> heap) option" where
  "morecore sbrk nu s =
     (let nu = (if nu < 4096 then 4096 else nu) in
      case sbrk (int32 (nu * 8 mod 2 ^ 32)) (brk s) of
        None \<Rightarrow> Some (0, s)
      | Some (p, b) \<Rightarrow>
          map_option (\<lambda>s. (freep s, s)) (free (p + 8) (set_size p nu (s\<lparr>brk := b\<rparr>))))"

definition take_block :: "nat \<Rightarrow> nat \<Rightarrow> nat \<Rightarrow> heap \<Rightarrow> nat \<times> heap" where
  "take_block nunits prevp p s =
     (if h_size s p = nunits then (p + 8, (set_ptr prevp (h_ptr s p) s)\<lparr>freep := prevp\<rparr>)
      else
        (let r = h_size s p - nunits in
         (p + 8 * r + 8, (set_size (p + 8 * r) nunits (set_size p r s))\<lparr>freep := prevp\<rparr>)))"

partial_function (option) malloc_loop :: "sbrk \<Rightarrow> nat \<Rightarrow> nat \<Rightarrow> nat \<Rightarrow> heap \<Rightarrow> (nat \<times> heap) option" where
  "malloc_loop sbrk nunits prevp p s =
     (if nunits \<le> h_size s p then Some (take_block nunits prevp p s)
      else if p = freep s then
        (case morecore sbrk nunits s of
           None \<Rightarrow> None
         | Some (q, s) \<Rightarrow> if q = 0 then Some (0, s) else malloc_loop sbrk nunits q (h_ptr s q) s)
      else malloc_loop sbrk nunits p (h_ptr s p) s)"

definition units :: "nat \<Rightarrow> nat" where
  "units nbytes = (nbytes + 8 - 1) mod 2 ^ 32 div 8 + 1"

definition malloc :: "nat \<Rightarrow> sbrk \<Rightarrow> nat \<Rightarrow> heap \<Rightarrow> (nat \<times> heap) option" where
  "malloc base sbrk nbytes s =
     (let s = (if freep s = 0 then set_size base 0 (set_ptr base base (s\<lparr>freep := base\<rparr>)) else s) in
      malloc_loop sbrk (units nbytes) (freep s) (h_ptr s (freep s)) s)"

section \<open>The list of free blocks\<close>

text \<open>\<open>xs\<close> are linked in this order, the last one to \<open>q\<close>.\<close>

fun linked :: "(nat \<Rightarrow> nat) \<Rightarrow> nat list \<Rightarrow> nat \<Rightarrow> bool" where
  "linked ptr [] q = True"
| "linked ptr (x # xs) q = (ptr x = hd (xs @ [q]) \<and> linked ptr xs q)"

definition laid :: "(nat \<Rightarrow> nat) \<Rightarrow> nat list \<Rightarrow> bool" where
  "laid sz xs \<longleftrightarrow> sorted_wrt (\<lambda>a b. a < b \<and> a + 8 * sz a \<le> b) xs"

text \<open>The free blocks form a ring in the order of their addresses, with the static header \<open>base\<close> in front.\<close>

definition heap_ok :: "nat \<Rightarrow> nat list \<Rightarrow> heap \<Rightarrow> bool" where
  "heap_ok base xs s \<longleftrightarrow> linked (h_ptr s) (base # xs) base \<and> laid (h_size s) (base # xs) \<and> freep s \<in> set (base # xs)
     \<and> h_size s base = 0 \<and> 0 < base \<and> (\<forall>x \<in> set xs. 0 < h_size s x \<and> x + 8 * h_size s x \<le> 2 ^ 32)"

definition block :: "nat \<Rightarrow> nat \<Rightarrow> nat set" where
  "block a n = {a..<a + 8 * n}"

definition cells :: "heap \<Rightarrow> nat list \<Rightarrow> nat set" where
  "cells s xs = (\<Union>x \<in> set xs. block x (h_size s x))"

lemma linked_append: "linked ptr (xs @ ys) q \<longleftrightarrow> linked ptr xs (hd (ys @ [q])) \<and> linked ptr ys q"
  by (induction xs) (auto simp: hd_append)

lemma linked_cong: "(\<And>x. x \<in> set xs \<Longrightarrow> ptr' x = ptr x) \<Longrightarrow> linked ptr' xs q = linked ptr xs q"
  by (induction xs) auto

lemma linked_upd [simp]: "x \<notin> set xs \<Longrightarrow> linked (ptr(x := y)) xs q = linked ptr xs q"
  by (rule linked_cong) auto

lemma linked_nth: "linked ptr xs q \<Longrightarrow> k < length xs \<Longrightarrow> ptr (xs ! k) = (if Suc k < length xs then xs ! Suc k else q)"
proof (induction xs arbitrary: k)
  case (Cons x xs)
  then show ?case by (cases k; cases xs) auto
qed simp

section \<open>Giving a block back\<close>

text \<open>The scan ends at the last header below the block.\<close>

lemma free_scan_ring:
  assumes l: "linked ptr (zs @ p # ys) (hd (zs @ [p]))" and lo: "\<forall>z \<in> set zs. z < p" and hi: "\<forall>y \<in> set ys. bp < y" and b: "p < bp"
    and s: "sorted_wrt (<) (zs @ p # ys)" and q: "q \<in> set (zs @ p # ys)"
  shows "free_scan ptr bp q = Some p"
proof -
  let ?xs = "zs @ p # ys" and ?i = "length zs" and ?n = "length (zs @ p # ys)"
  have nx: "ptr (?xs ! k) = (if Suc k < ?n then ?xs ! Suc k else ?xs ! 0)" if "k < ?n" for k
    using linked_nth [OF l that] by (cases zs) auto
  have srt: "?xs ! j < ?xs ! k" if "j < k" "k < ?n" for j k using sorted_wrt_nth_less [OF s that] .
  have pi: "?xs ! ?i = p" by simp
  have below: "?xs ! k \<le> p" if "k \<le> ?i" for k using srt [of k ?i] that pi by (cases "k = ?i") auto
  have above: "bp < ?xs ! k" if "?i < k" "k < ?n" for k
  proof -
    have "?xs ! k = ys ! (k - Suc ?i)" "k - Suc ?i < length ys" using that by (simp_all add: nth_append nth_Cons')
    then show ?thesis using hi by simp
  qed
  have stop: "free_scan ptr bp p = Some p"
  proof (cases "Suc ?i < ?n")
    case True
    then show ?thesis using nx [of ?i] above [of "Suc ?i"] b by (subst free_scan.simps) simp
  next
    case False
    then show ?thesis using nx [of ?i] below [of 0] b by (subst free_scan.simps) simp
  qed
  have up: "free_scan ptr bp (?xs ! k) = Some p" if "k \<le> ?i" for k
    using that
  proof (induction "?i - k" arbitrary: k)
    case 0
    then show ?case using stop pi by simp
  next
    case (Suc m)
    then have k: "k < ?i" "Suc k < ?n" by simp_all
    have "\<not> bp < ?xs ! Suc k" using below [of "Suc k"] k(1) b by simp
    moreover have "?xs ! k < ?xs ! Suc k" using srt [of k "Suc k"] k(2) by simp
    moreover have "free_scan ptr bp (?xs ! Suc k) = Some p" using Suc k by simp
    ultimately show ?case using nx [of k] k by (subst free_scan.simps) simp
  qed
  have down: "free_scan ptr bp (?xs ! k) = Some p" if "?i < k" "k < ?n" for k
    using that
  proof (induction "?n - k" arbitrary: k)
    case (Suc m)
    note a = above [OF Suc.prems]
    show ?case
    proof (cases "Suc k < ?n")
      case True
      have "?xs ! k < ?xs ! Suc k" using srt [of k "Suc k"] True by simp
      moreover have "free_scan ptr bp (?xs ! Suc k) = Some p" using Suc True by simp
      ultimately show ?thesis using nx [of k] a True Suc.prems(2) by (subst free_scan.simps) simp
    next
      case False
      have "\<not> bp < ?xs ! 0" using below [of 0] b by simp
      then show ?thesis using nx [of k] a False Suc.prems(2) up [of 0] by (subst free_scan.simps) simp
    qed
  qed simp
  obtain k where "k < ?n" "q = ?xs ! k" using q by (metis in_set_conv_nth)
  then show ?thesis using up [of k] down [of k] by (cases "k \<le> ?i") simp_all
qed

text \<open>A block below \<open>ys\<close> is joined with the first of them or put in front of them.\<close>

lemma join_upper_run:
  assumes l: "linked (h_ptr s) (p # ys) base" and lay: "laid (h_size s) ys" and up: "\<forall>y \<in> set ys. bp + 8 * h_size s bp \<le> y"
    and n: "0 < h_size s bp" and b: "base < bp" "p < bp" and mx: "\<forall>y \<in> set ys. 0 < h_size s y \<and> y + 8 * h_size s y \<le> 2 ^ 32" "bp + 8 * h_size s bp \<le> 2 ^ 32"
    and z: "0 < base"
  obtains ys' m where "join_upper bp p s = s\<lparr>h_ptr := (h_ptr s)(bp := hd (ys' @ [base])), h_size := (h_size s)(bp := m)\<rparr>"
    "\<exists>us. ys = us @ ys'" "linked (h_ptr s) ys' base" "laid ((h_size s)(bp := m)) (bp # ys')" "h_size s bp \<le> m" "bp + 8 * m \<le> 2 ^ 32"
    "block bp m \<union> cells s ys' = block bp (h_size s bp) \<union> cells s ys"
proof (cases "bp + 8 * h_size s bp = h_ptr s p")
  case True
  have lt: "h_ptr s p < 2 ^ 32" using l b mx by (cases ys) auto
  have "ys \<noteq> []" using True l b(1) by (cases ys) auto
  then obtain y zs where y: "ys = y # zs" by (cases ys) auto
  have e: "h_ptr s p = y" "h_ptr s y = hd (zs @ [base])" "linked (h_ptr s) zs base" using l y by simp_all
  let ?m = "h_size s bp + h_size s y"
  have bd: "bp + 8 * ?m = y + 8 * h_size s y" using True e(1) by simp
  then have m: "bp + 8 * ?m \<le> 2 ^ 32" "?m mod 2 ^ 32 = ?m" using mx y by auto
  have nz: "bp \<notin> set zs" using up y n by (metis add_le_same_cancel1 list.set_intros(2) mult_is_0 not_less_zero le_zero_eq zero_neq_numeral neq0_conv)
  have lz: "\<forall>z \<in> set zs. bp < z \<and> bp + 8 * ?m \<le> z" using lay y bd True e(1) n by (auto simp: laid_def)
  show thesis
  proof (rule that)
    show "join_upper bp p s = s\<lparr>h_ptr := (h_ptr s)(bp := hd (zs @ [base])), h_size := (h_size s)(bp := ?m)\<rparr>"
      using True e m(2) lt by (simp add: join_upper_def set_ptr_def set_size_def)
    show "\<exists>us. ys = us @ zs" using y by (intro exI [of _ "[y]"]) simp
    have "sorted_wrt (\<lambda>a b. a < b \<and> a + 8 * h_size s a \<le> b) zs" using lay y by (simp add: laid_def)
    then have "sorted_wrt (\<lambda>a b. a < b \<and> a + 8 * ((h_size s)(bp := ?m)) a \<le> b) zs"
      by (rule sorted_wrt_mono_rel [rotated]) (use nz in auto)
    then show "laid ((h_size s)(bp := ?m)) (bp # zs)" using lz by (simp add: laid_def)
    show "block bp ?m \<union> cells s zs = block bp (h_size s bp) \<union> cells s ys"
      using True e(1) y by (auto simp: cells_def block_def)
  qed (use e m n in simp_all)
next
  case False
  have nz: "bp \<notin> set ys" using up n by fastforce
  have ne: "(bp + 8 * h_size s bp) mod 2 ^ 32 \<noteq> h_ptr s p"
    using False mx(2) l z up n by (cases "bp + 8 * h_size s bp = 2 ^ 32"; cases ys) auto
  show thesis
  proof (rule that)
    show "join_upper bp p s = s\<lparr>h_ptr := (h_ptr s)(bp := hd (ys @ [base])), h_size := (h_size s)(bp := h_size s bp)\<rparr>"
      using ne l by (simp add: join_upper_def set_ptr_def)
    show "laid ((h_size s)(bp := h_size s bp)) (bp # ys)" using lay up n by (auto simp: laid_def)
  qed (use l n mx in simp_all)
qed

lemma laid_cong: "laid sz xs \<Longrightarrow> (\<And>x. x \<in> set xs \<Longrightarrow> sz' x = sz x) \<Longrightarrow> laid sz' xs"
  unfolding laid_def by (rule sorted_wrt_mono_rel [rotated]) auto

lemma laid_append: "laid sz (xs @ ys) \<longleftrightarrow> laid sz xs \<and> laid sz ys \<and> (\<forall>x \<in> set xs. \<forall>y \<in> set ys. x < y \<and> x + 8 * sz x \<le> y)"
  and laid_Cons: "laid sz (x # ys) \<longleftrightarrow> laid sz ys \<and> (\<forall>y \<in> set ys. x < y \<and> x + 8 * sz x \<le> y)"
  by (auto simp: laid_def sorted_wrt_append)

lemma cells_append: "cells s (xs @ ys) = cells s xs \<union> cells s ys"
  by (auto simp: cells_def)

lemma sorted_split: "sorted_wrt (<) xs \<Longrightarrow> (b :: nat) \<notin> set xs \<Longrightarrow> xs = filter (\<lambda>x. x < b) xs @ filter (\<lambda>x. b < x) xs"
proof (induction xs)
  case (Cons x xs)
  show ?case
  proof (cases "x < b")
    case False
    then have "\<forall>y \<in> set xs. b < y" "b < x" using Cons.prems by auto
    then show ?thesis by (simp add: filter_empty_conv) fastforce
  qed (use Cons in auto)
qed simp

lemma block_apart:
  assumes "block a m \<inter> block b n = {}" and "0 < m" and "0 < n"
  shows "a + 8 * m \<le> b \<or> b + 8 * n \<le> a"
proof (rule ccontr)
  assume "\<not> ?thesis"
  then have "max a b \<in> block a m \<inter> block b n" using assms(2,3) by (auto simp: block_def)
  then show False using assms(1) by blast
qed

text \<open>The ring as one list that begins with \<open>base\<close>.\<close>

lemma ring_ok:
  assumes "L \<noteq> []" "hd L = base" "linked (h_ptr s) L base" "laid (h_size s) L" "freep s \<in> set L" "h_size s base = 0" "0 < base"
    and "\<forall>x \<in> set L. x \<noteq> base \<longrightarrow> 0 < h_size s x \<and> x + 8 * h_size s x \<le> 2 ^ 32"
  shows "heap_ok base (tl L) s" "cells s (tl L) = cells s L"
proof -
  obtain xs where L: "L = base # xs" using assms(1,2) by (cases L) auto
  have "base \<notin> set xs" using assms(4) L by (auto simp: laid_def)
  then show "heap_ok base (tl L) s" using assms L by (auto simp: heap_ok_def)
  show "cells s (tl L) = cells s L" using L assms(6) by (simp add: cells_def block_def)
qed

lemma cells_cong: "(\<And>x. x \<in> set xs \<Longrightarrow> h_size t x = h_size s x) \<Longrightarrow> cells t xs = cells s xs"
  by (simp add: cells_def)

text \<open>Where the block belongs: behind \<open>p\<close>, the last header below it, and in front of \<open>ys\<close>.\<close>

lemma free_place:
  assumes ok: "heap_ok base xs s" and n: "0 < h_size s bp" and b: "base < bp" and dis: "block bp (h_size s bp) \<inter> cells s xs = {}"
  obtains zs p ys where "base # xs = zs @ p # ys" "hd (zs @ [p]) = base" "p < bp" "p + 8 * h_size s p \<le> bp" "\<forall>z \<in> set zs. z < bp"
    "\<forall>y \<in> set ys. bp < y \<and> bp + 8 * h_size s bp \<le> y \<and> y \<in> set xs" "free_scan (h_ptr s) bp (freep s) = Some p"
proof -
  have hd0: "linked (h_ptr s) (base # xs) base" "laid (h_size s) (base # xs)" "freep s \<in> set (base # xs)" "h_size s base = 0" "0 < base"
    "\<forall>x \<in> set xs. 0 < h_size s x \<and> x + 8 * h_size s x \<le> 2 ^ 32" using ok by (simp_all add: heap_ok_def)
  have srt: "sorted_wrt (<) (base # xs)" using hd0(2) unfolding laid_def by (rule sorted_wrt_mono_rel [rotated]) auto
  have ap: "bp + 8 * h_size s bp \<le> x \<or> x + 8 * h_size s x \<le> bp" if "x \<in> set xs" for x
    by (rule block_apart) (use that dis n hd0(6) in \<open>auto simp: cells_def\<close>)
  have bx: "bp \<notin> set (base # xs)" using ap [of bp] n hd0(6) b by auto
  define ys where "ys = filter (\<lambda>x. bp < x) (base # xs)"
  have sp: "base # xs = filter (\<lambda>x. x < bp) (base # xs) @ ys" unfolding ys_def by (rule sorted_split [OF srt bx])
  have "filter (\<lambda>x. x < bp) (base # xs) \<noteq> []" using b by simp
  then obtain zs p where zp: "filter (\<lambda>x. x < bp) (base # xs) = zs @ [p]" by (metis rev_exhaust)
  then have L: "base # xs = zs @ p # ys" using sp by simp
  have pb: "p < bp" "\<forall>z \<in> set zs. z < bp" using zp by (metis (mono_tags, lifting) filter_eq_Cons_iff mem_Collect_eq set_filter in_set_conv_decomp Un_iff set_append list.set_intros(1))+
  have yb: "\<forall>y \<in> set ys. bp < y \<and> y \<in> set xs" using b by (auto simp: ys_def)
  have lnk: "linked (h_ptr s) (zs @ p # ys) base" using hd0(1) L by simp
  have hd: "hd (zs @ [p]) = base" using L by (cases zs) simp_all
  have up: "\<forall>y \<in> set ys. bp + 8 * h_size s bp \<le> y"
    using ap yb by fastforce
  have pe: "p + 8 * h_size s p \<le> bp"
  proof (cases "p = base")
    case False
    have "p \<in> set (base # xs)" unfolding L by simp
    then have "p \<in> set xs" using False by simp
    then show ?thesis using ap [of p] pb(1) n by linarith
  qed (use hd0(4) b in simp)
  have sl: "sorted_wrt (<) (zs @ p # ys)" using srt L by simp
  have scan: "free_scan (h_ptr s) bp (freep s) = Some p"
  proof (rule free_scan_ring)
    show "linked (h_ptr s) (zs @ p # ys) (hd (zs @ [p]))" using lnk hd by simp
    show "\<forall>z \<in> set zs. z < p" using sl by (simp add: sorted_wrt_append)
    show "freep s \<in> set (zs @ p # ys)" using hd0(3) unfolding L .
  qed (use yb pb(1) sl in simp_all)
  have c: "\<forall>y \<in> set ys. bp < y \<and> bp + 8 * h_size s bp \<le> y \<and> y \<in> set xs" using up yb by blast
  show thesis by (rule that [OF L hd pb(1) pe pb(2) c scan])
qed

text \<open>The block, of size \<open>m\<close> by now and linked to \<open>ys'\<close>, is joined with \<open>p\<close> or put behind it.\<close>

lemma join_lower_run:
  assumes lz: "linked (h_ptr s) zs p" "linked (h_ptr s) ys' base" and ly: "laid (h_size s) (zs @ p # ys')" and hd: "hd (zs @ [p]) = base"
    and pb: "p < bp" "p + 8 * h_size s p \<le> bp" and nb: "bp \<notin> set (zs @ p # ys')" and bm: "\<forall>y \<in> set ys'. bp < y \<and> bp + 8 * m \<le> y"
    and old: "\<And>x. x \<in> set (zs @ p # ys') \<Longrightarrow> x \<noteq> base \<Longrightarrow> 0 < h_size s x \<and> x + 8 * h_size s x \<le> 2 ^ 32"
    and m: "0 < m" "bp + 8 * m \<le> 2 ^ 32" and base: "h_size s base = 0" "0 < base" "base < bp"
    and s': "s' = s\<lparr>h_ptr := (h_ptr s)(bp := hd (ys' @ [base])), h_size := (h_size s)(bp := m)\<rparr>"
  obtains L where "heap_ok base (tl L) ((join_lower bp p s')\<lparr>freep := p\<rparr>)" "brk ((join_lower bp p s')\<lparr>freep := p\<rparr>) = brk s"
    "cells ((join_lower bp p s')\<lparr>freep := p\<rparr>) (tl L) = cells s (zs @ [p]) \<union> (block bp m \<union> cells s ys')"
    "\<exists>x \<in> set (tl L). m \<le> h_size ((join_lower bp p s')\<lparr>freep := p\<rparr>) x"
    "\<And>a. a \<notin> block p (h_size s p) \<Longrightarrow> a \<noteq> bp \<Longrightarrow> h_size ((join_lower bp p s')\<lparr>freep := p\<rparr>) a = h_size s a"
proof -
  have pm: "bp \<notin> set (zs @ p # ys')" "p \<notin> set zs" "p \<notin> set ys'" "p \<noteq> bp" using nb ly by (auto simp: laid_append laid_Cons)
  show thesis
  proof (cases "p + 8 * h_size s p = bp")
    case True
    let ?k = "h_size s p + m" and ?L = "zs @ p # ys'"
    have pb0: "p \<noteq> base" using True base(1) base(3) by auto
    have lt: "bp < 2 ^ 32" using m by simp
    have "?k mod 2 ^ 32 = ?k" using True m(2) by simp
    then have t: "(join_lower bp p s')\<lparr>freep := p\<rparr> = (s\<lparr>h_ptr := (h_ptr s)(bp := hd (ys' @ [base]), p := hd (ys' @ [base])), h_size := (h_size s)(bp := m, p := ?k), freep := p\<rparr>)"
      (is "_ = ?t") using s' pm(4) True lt by (simp add: join_lower_def set_ptr_def set_size_def)
    have "linked (h_ptr ?t) zs p" "linked (h_ptr ?t) ys' base"
      using lz pm by simp_all
    then have "linked (h_ptr ?t) ?L base" by (simp add: linked_append)
    moreover have "laid (h_size ?t) ?L" unfolding laid_append laid_Cons
    proof (intro conjI)
      show "laid (h_size ?t) zs" "laid (h_size ?t) ys'" using ly pm by (auto simp: laid_append laid_Cons intro: laid_cong [of "h_size s"])
      show "\<forall>y \<in> set ys'. p < y \<and> p + 8 * h_size ?t p \<le> y" using bm True pb(1) by auto
      show "\<forall>x \<in> set zs. \<forall>y \<in> set (p # ys'). x < y \<and> x + 8 * h_size ?t x \<le> y" using ly pm by (auto simp: laid_append)
    qed
    moreover have "\<forall>x \<in> set ?L. x \<noteq> base \<longrightarrow> 0 < h_size ?t x \<and> x + 8 * h_size ?t x \<le> 2 ^ 32"
      using old pm m True by auto
    moreover have "h_size ?t base = 0" using base(1) pb0 base(3) by simp
    moreover have "hd ?L = base" using hd by (cases zs) simp_all
    ultimately have r: "heap_ok base (tl ?L) ?t" "cells ?t (tl ?L) = cells ?t ?L" using ring_ok [of ?L base ?t] base(2) by simp_all
    have "cells ?t zs = cells s zs" "cells ?t ys' = cells s ys'" using pm by (auto intro!: cells_cong)
    moreover have "cells ?t [p] = cells s [p] \<union> block bp m" using True by (auto simp: cells_def block_def)
    ultimately have "cells ?t ?L = cells s (zs @ [p]) \<union> (block bp m \<union> cells s ys')"
      using cells_append [of ?t zs "[p] @ ys'"] cells_append [of ?t "[p]" ys'] cells_append [of s zs "[p]"] by auto
    moreover have "h_size ?t a = h_size s a" if "a \<notin> block p (h_size s p)" "a \<noteq> bp" for a
      using that old [of p] pb0 by (auto simp: block_def)
    moreover have "p \<in> set (tl ?L)" using hd pb0 by (cases zs) auto
    then have "\<exists>x \<in> set (tl ?L). m \<le> h_size ?t x" by (intro bexI [of _ p]) simp_all
    ultimately show thesis using that [of ?L] r t by simp
  next
    case False
    let ?L = "zs @ p # bp # ys'"
    have t: "(join_lower bp p s')\<lparr>freep := p\<rparr> = (s\<lparr>h_ptr := (h_ptr s)(bp := hd (ys' @ [base]), p := bp), h_size := (h_size s)(bp := m), freep := p\<rparr>)"
      (is "_ = ?t") using s' pm(4) False pb(2) m by (simp add: join_lower_def set_ptr_def)
    have "linked (h_ptr ?t) zs p" "linked (h_ptr ?t) ys' base"
      using lz pm by simp_all
    then have "linked (h_ptr ?t) ?L base" using pm(4) by (simp add: linked_append)
    moreover have "laid (h_size ?t) ?L" unfolding laid_append laid_Cons
    proof (intro conjI)
      show "laid (h_size ?t) zs" "laid (h_size ?t) ys'" using ly pm by (auto simp: laid_append laid_Cons intro: laid_cong [of "h_size s"])
      show "\<forall>y \<in> set ys'. bp < y \<and> bp + 8 * h_size ?t bp \<le> y" using bm by simp
      show "\<forall>y \<in> set (bp # ys'). p < y \<and> p + 8 * h_size ?t p \<le> y" using bm pb(1,2) pm(4) by auto
      have "\<forall>x \<in> set zs. x < p \<and> x + 8 * h_size s x \<le> p" using ly by (simp add: laid_append)
      then show "\<forall>x \<in> set zs. \<forall>y \<in> set (p # bp # ys'). x < y \<and> x + 8 * h_size ?t x \<le> y" using pb(1) bm pm(1) by fastforce
    qed
    moreover have "\<forall>x \<in> set ?L. x \<noteq> base \<longrightarrow> 0 < h_size ?t x \<and> x + 8 * h_size ?t x \<le> 2 ^ 32"
      using old pm m by auto
    moreover have "h_size ?t base = 0" using base(1) base(3) by simp
    moreover have "hd ?L = base" using hd by (cases zs) simp_all
    ultimately have r: "heap_ok base (tl ?L) ?t" "cells ?t (tl ?L) = cells ?t ?L" using ring_ok [of ?L base ?t] base(2) by simp_all
    have "cells ?t (zs @ [p]) = cells s (zs @ [p])" "cells ?t ys' = cells s ys'" using pm by (auto intro!: cells_cong)
    moreover have "cells ?t [bp] = block bp m" by (simp add: cells_def)
    ultimately have "cells ?t ?L = cells s (zs @ [p]) \<union> (block bp m \<union> cells s ys')"
      using cells_append [of ?t "zs @ [p]" "[bp] @ ys'"] cells_append [of ?t "[bp]" ys'] by simp
    moreover have "bp \<in> set (tl ?L)" by (cases zs) simp_all
    then have "\<exists>x \<in> set (tl ?L). m \<le> h_size ?t x" by (intro bexI [of _ bp]) simp_all
    ultimately show thesis using that [of ?L] r t by simp
  qed
qed

lemma free_run:
  assumes ok: "heap_ok base xs s" and n: "0 < h_size s bp" "bp + 8 * h_size s bp \<le> 2 ^ 32" and b: "base < bp"
    and dis: "block bp (h_size s bp) \<inter> cells s xs = {}"
  obtains xs' t where "free (bp + 8) s = Some t" "heap_ok base xs' t" "cells t xs' = cells s xs \<union> block bp (h_size s bp)" "brk t = brk s"
    "\<exists>x \<in> set xs'. h_size s bp \<le> h_size t x"
    "\<And>a. a \<notin> cells s xs \<Longrightarrow> a \<noteq> bp \<Longrightarrow> h_size t a = h_size s a"
proof -
  have hd0: "linked (h_ptr s) (base # xs) base" "laid (h_size s) (base # xs)" "h_size s base = 0" "0 < base"
    "\<forall>x \<in> set xs. 0 < h_size s x \<and> x + 8 * h_size s x \<le> 2 ^ 32" using ok by (simp_all add: heap_ok_def)
  obtain zs p ys where L: "base # xs = zs @ p # ys" and hd: "hd (zs @ [p]) = base" and pb: "p < bp" "p + 8 * h_size s p \<le> bp" "\<forall>z \<in> set zs. z < bp"
    and yb: "\<forall>y \<in> set ys. bp < y \<and> bp + 8 * h_size s bp \<le> y \<and> y \<in> set xs" and scan: "free_scan (h_ptr s) bp (freep s) = Some p"
    by (rule free_place [OF ok n(1) b dis])
  have lay: "laid (h_size s) (zs @ p # ys)" and lnk: "linked (h_ptr s) (zs @ p # ys) base" using hd0(1,2) L by simp_all
  have sl: "sorted_wrt (<) (zs @ p # ys)" using lay unfolding laid_def by (rule sorted_wrt_mono_rel [rotated]) auto
  have ly: "laid (h_size s) ys" and lz: "linked (h_ptr s) zs p" and lp: "linked (h_ptr s) (p # ys) base"
    using lay lnk by (simp_all add: laid_def sorted_wrt_append linked_append)
  have up: "\<forall>y \<in> set ys. bp + 8 * h_size s bp \<le> y" using yb by blast
  have mxy: "\<forall>y \<in> set ys. 0 < h_size s y \<and> y + 8 * h_size s y \<le> 2 ^ 32" using yb hd0(5) by blast
  obtain ys' m where u: "join_upper bp p s = s\<lparr>h_ptr := (h_ptr s)(bp := hd (ys' @ [base])), h_size := (h_size s)(bp := m)\<rparr>"
      "\<exists>us. ys = us @ ys'" "linked (h_ptr s) ys' base" "laid ((h_size s)(bp := m)) (bp # ys')" "h_size s bp \<le> m" "bp + 8 * m \<le> 2 ^ 32"
      "block bp m \<union> cells s ys' = block bp (h_size s bp) \<union> cells s ys"
    by (rule join_upper_run [OF lp ly up n(1) b pb(1) mxy n(2) hd0(4)])
  have ysub: "set ys' \<subseteq> set ys" using u(2) by auto
  have nb: "bp \<notin> set (zs @ p # ys')" using pb(1,3) yb ysub by auto
  have old: "0 < h_size s x \<and> x + 8 * h_size s x \<le> 2 ^ 32" if "x \<in> set (zs @ p # ys')" "x \<noteq> base" for x
  proof -
    have "x \<in> set (base # xs)" unfolding L using that(1) ysub by auto
    then show ?thesis using hd0(5) that(2) by simp
  qed
  have old_laid: "laid (h_size s) (zs @ p # ys')" using lay u(2) by (auto simp: laid_def sorted_wrt_append)
  have bm: "\<forall>y \<in> set ys'. bp < y \<and> bp + 8 * m \<le> y" using u(4) by (simp add: laid_def)
  have cl: "cells s xs = cells s (zs @ [p]) \<union> cells s ys"
  proof -
    have "cells s xs = cells s (base # xs)" using hd0(3) by (simp add: cells_def block_def)
    then show ?thesis unfolding L using cells_append [of s "zs @ [p]" ys] by simp
  qed
  have m0: "0 < m" using u(5) n(1) by simp
  let ?t = "(join_lower bp p (join_upper bp p s))\<lparr>freep := p\<rparr>"
  obtain M where j: "heap_ok base (tl M) ?t" "brk ?t = brk s" "cells ?t (tl M) = cells s (zs @ [p]) \<union> (block bp m \<union> cells s ys')"
      "\<exists>x \<in> set (tl M). m \<le> h_size ?t x" "\<And>a. a \<notin> block p (h_size s p) \<Longrightarrow> a \<noteq> bp \<Longrightarrow> h_size ?t a = h_size s a"
    by (rule join_lower_run [OF lz u(3) old_laid hd pb(1,2) nb bm old m0 u(6) hd0(3,4) b u(1)]) blast+
  show thesis
  proof (rule that)
    show "free (bp + 8) s = Some ?t" using scan by (simp add: free_def)
    show "cells ?t (tl M) = cells s xs \<union> block bp (h_size s bp)" using j(3) u(7) cl by blast
    show "\<exists>x \<in> set (tl M). h_size s bp \<le> h_size ?t x" using j(4) u(5) by (metis order_trans)
    show "h_size ?t a = h_size s a" if "a \<notin> cells s xs" "a \<noteq> bp" for a
      by (rule j(5)) (use that cl in \<open>auto simp: cells_def\<close>)
  qed (use j(1,2) in simp_all)
qed

section \<open>Taking a block\<close>

text \<open>The ring seen from \<open>freep\<close>.\<close>

lemma ring_from:
  assumes "heap_ok base xs s"
  obtains ws where "linked (h_ptr s) (freep s # ws) (freep s)" "set (freep s # ws) = set (base # xs)" "freep s \<notin> set ws"
proof -
  obtain us vs where L: "base # xs = us @ freep s # vs" using assms split_list [of "freep s" "base # xs"] by (auto simp: heap_ok_def)
  have l: "linked (h_ptr s) (us @ freep s # vs) base" "laid (h_size s) (us @ freep s # vs)" using assms L by (simp_all add: heap_ok_def)
  have "hd (us @ [freep s]) = base" using L by (cases us) simp_all
  then have "linked (h_ptr s) (freep s # vs @ us) (freep s)" using l(1) by (cases us; cases vs) (auto simp: linked_append hd_append)
  moreover have "freep s \<notin> set (vs @ us)" using l(2) by (auto simp: laid_append laid_Cons)
  moreover have "set (freep s # vs @ us) = set (base # xs)" unfolding L by auto
  ultimately show thesis using that by blast
qed

text \<open>The search ends with a block that is large enough, or back at \<open>freep\<close> after it has seen every block.\<close>

lemma malloc_walk:
  assumes "linked (h_ptr s) (q # ws) (freep s)" and "freep s \<notin> set ws"
  shows "(\<exists>r p. r \<in> set (q # ws) \<and> p \<in> set (ws @ [freep s]) \<and> h_ptr s r = p \<and> n \<le> h_size s p
      \<and> malloc_loop sbrk n q (hd (ws @ [freep s])) s = Some (take_block n r p s))
    \<or> (\<forall>p \<in> set (ws @ [freep s]). h_size s p < n) \<and> malloc_loop sbrk n q (hd (ws @ [freep s])) s =
       (case morecore sbrk n s of None \<Rightarrow> None | Some (q, s) \<Rightarrow> if q = 0 then Some (0, s) else malloc_loop sbrk n q (h_ptr s q) s)"
  using assms
proof (induction ws arbitrary: q)
  case Nil
  then show ?case by (subst (1 2) malloc_loop.simps) (auto simp: not_le)
next
  case (Cons w ws)
  show ?case
  proof (cases "n \<le> h_size s w")
    case True
    then show ?thesis using Cons.prems by (subst malloc_loop.simps) auto
  next
    case False
    have step: "malloc_loop sbrk n q (hd ((w # ws) @ [freep s])) s = malloc_loop sbrk n w (hd (ws @ [freep s])) s"
      using False Cons.prems by (subst malloc_loop.simps) auto
    show ?thesis unfolding step using Cons.IH [of w] Cons.prems False by auto
  qed
qed

lemma take_block_run:
  assumes ok: "heap_ok base xs s" and r: "r \<in> set (base # xs)" and p: "h_ptr s r = p" and n: "0 < n" "n \<le> h_size s p"
  obtains a t xs' where "take_block n r p s = (a + 8, t)" "heap_ok base xs' t" "h_size t a = n" "block a n \<subseteq> cells s xs"
    "cells t xs' = cells s xs - block a n" "brk t = brk s" "base < a" "\<And>c. c \<notin> cells s xs \<Longrightarrow> h_size t c = h_size s c"
proof -
  have h: "linked (h_ptr s) (base # xs) base" "laid (h_size s) (base # xs)" "h_size s base = 0" "0 < base"
    "\<forall>x \<in> set xs. 0 < h_size s x \<and> x + 8 * h_size s x \<le> 2 ^ 32" using ok by (simp_all add: heap_ok_def)
  have pb: "p \<noteq> base" using n h(3) by auto
  obtain us vs where L: "base # xs = us @ r # p # vs"
  proof -
    obtain us ws where e: "base # xs = us @ r # ws" using split_list [OF r] by blast
    have "hd (ws @ [base]) = p" using h(1) p unfolding e by (simp add: linked_append)
    then show thesis using that e pb by (cases ws) auto
  qed
  have lk: "linked (h_ptr s) (us @ r # p # vs) base" and ly: "laid (h_size s) (us @ r # p # vs)" using h(1,2) L by simp_all
  have px: "p \<in> set xs" "hd (us @ [r]) = base" using L pb by (cases us; auto)+
  have d: "r \<noteq> p" "r \<notin> set us" "p \<notin> set us" "r \<notin> set vs" "p \<notin> set vs" using ly by (auto simp: laid_append laid_Cons)
  have old: "0 < h_size s x \<and> x + 8 * h_size s x \<le> 2 ^ 32" if "x \<in> set (us @ r # p # vs)" "x \<noteq> base" for x
    using that h(5) unfolding L [symmetric] by simp
  have cl: "cells s xs = cells s (us @ r # p # vs)" unfolding L [symmetric] using h(3) by (simp add: cells_def block_def)
  have bp: "base < p" using h(2) px(1) by (auto simp: laid_def)
  have bs: "block p (h_size s p) \<inter> block x (h_size s x) = {}" if "x \<in> set (us @ r # vs)" for x
    using ly that by (auto simp: laid_append laid_Cons block_def)
  show thesis
  proof (cases "h_size s p = n")
    case True
    let ?t = "(set_ptr r (h_ptr s p) s)\<lparr>freep := r\<rparr>" and ?L = "us @ r # vs"
    have "linked ((h_ptr s)(r := h_ptr s p)) us r" "linked ((h_ptr s)(r := h_ptr s p)) vs base"
      using lk d by (simp_all add: linked_append)
    then have "linked (h_ptr ?t) ?L base" using lk by (simp add: linked_append set_ptr_def)
    moreover have "laid (h_size ?t) ?L" using ly by (simp add: laid_append laid_Cons set_ptr_def)
    moreover have "hd ?L = base" using px(2) by (cases us) simp_all
    ultimately have o: "heap_ok base (tl ?L) ?t" "cells ?t (tl ?L) = cells ?t ?L"
      using ring_ok [of ?L base ?t] h(3,4) old by (simp_all add: set_ptr_def)
    have "cells ?t ?L = cells s xs - block p n" unfolding cl using bs True by (auto simp: cells_def set_ptr_def)
    moreover have "take_block n r p s = (p + 8, ?t)" using True by (simp add: take_block_def)
    moreover have "block p n \<subseteq> cells s xs" unfolding cl True [symmetric] by (auto simp: cells_def)
    ultimately show thesis using that [of p ?t "tl ?L"] o True bp by (simp add: set_ptr_def)
  next
    case False
    let ?m = "h_size s p - n"
    let ?a = "p + 8 * ?m" and ?L = "us @ r # p # vs"
    let ?t = "(set_size (p + 8 * ?m) n (set_size p ?m s))\<lparr>freep := r\<rparr>"
    have m: "0 < ?m" "?a + 8 * n = p + 8 * h_size s p" using False n(2) by auto
    have na: "?a \<notin> set ?L" "?a \<noteq> p"
    proof -
      have "?a \<in> block p (h_size s p)" using m n(1) by (auto simp: block_def)
      moreover have "x \<in> block x (h_size s x) \<or> x = base" if "x \<in> set ?L" for x using old [OF that] by (auto simp: block_def)
      ultimately show "?a \<notin> set ?L" using bs m(1) bp by (auto simp: d)
    qed (use m(1) in simp)
    have sz: "h_size ?t x = h_size s x" if "x \<in> set (us @ r # vs)" for x using that na d by (auto simp: set_size_def)
    have sp: "h_size ?t p = ?m" "h_size ?t ?a = n" "h_ptr ?t = h_ptr s" using na(2) by (simp_all add: set_size_def)
    have "laid (h_size ?t) us" "laid (h_size ?t) vs" using ly sz by (auto simp: laid_append laid_Cons intro: laid_cong [of "h_size s"])
    then have "laid (h_size ?t) ?L" using ly sz sp(1) by (auto simp: laid_append laid_Cons)
    moreover have "hd ?L = base" using px(2) by (cases us) simp_all
    moreover have "h_size ?t base = 0" using h(3) sz [of base] px(2) by (cases us) auto
    moreover have "0 < h_size ?t x \<and> x + 8 * h_size ?t x \<le> 2 ^ 32" if x: "x \<in> set ?L" "x \<noteq> base" for x
    proof (cases "x = p")
      case True
      then show ?thesis using old [OF x] sp(1) m(1) by simp
    next
      case False
      then show ?thesis using old [OF x] sz [of x] x(1) by simp
    qed
    moreover have "freep ?t \<in> set ?L" by simp
    ultimately have o: "heap_ok base (tl ?L) ?t" "cells ?t (tl ?L) = cells ?t ?L"
      using ring_ok [of ?L base ?t] h(4) lk sp(3) by simp_all
    have bk: "block p ?m = block p (h_size s p) - block ?a n" "block ?a n \<subseteq> block p (h_size s p)" using m by (auto simp: block_def)
    have g: "cells u ?L = cells u (us @ r # vs) \<union> block p (h_size u p)" for u by (auto simp: cells_def)
    have ct: "cells ?t (us @ r # vs) = cells s (us @ r # vs)" by (rule cells_cong) (rule sz)
    have "cells s (us @ r # vs) \<inter> block p (h_size s p) = {}" using bs by (auto simp: cells_def)
    then have c: "cells ?t ?L = cells s xs - block ?a n" "block ?a n \<subseteq> cells s xs" unfolding cl g [of s] using g [of ?t] ct sp(1) bk by auto
    moreover have "take_block n r p s = (?a + 8, ?t)" using False by (simp add: take_block_def Let_def)
    moreover have "h_size ?t b = h_size s b" if "b \<notin> cells s xs" for b
    proof -
      have "?a \<in> block ?a n" "p \<in> block p (h_size s p)" using n by (simp_all add: block_def)
      then have "p \<in> cells s xs" "?a \<in> cells s xs" using px(1) c(2) by (auto simp: cells_def)
      then show ?thesis using that by (auto simp: set_size_def)
    qed
    moreover have "brk ?t = brk s" "base < ?a" using bp by (simp_all add: set_size_def)
    ultimately show thesis using that [of ?a ?t "tl ?L"] o sp(2) by simp
  qed
qed

section \<open>The contract\<close>

text \<open>
  What the allocator relies on of \<^verbatim>\<open>sbrk\<close>: a request for more memory is refused or answered with the old end of the
  memory of the process, which then reaches that much further, below \<^verbatim>\<open>KERNBASE\<close>.
\<close>

definition sbrk_grows :: "sbrk \<Rightarrow> bool" where
  "sbrk_grows sbrk \<longleftrightarrow> (\<forall>n b a b'. 0 \<le> n \<longrightarrow> sbrk n b = Some (a, b') \<longrightarrow> a = b \<and> b' = b + nat n \<and> b' \<le> 2 ^ 31)"

text \<open>The free blocks \<open>xs\<close> of a heap; before the first call there are none and no ring yet.\<close>

definition ready_heap :: "nat \<Rightarrow> nat list \<Rightarrow> heap \<Rightarrow> bool" where
  "ready_heap base xs s \<longleftrightarrow> 0 < base \<and> base < brk s \<and> cells s xs \<subseteq> {..<brk s} \<and> (if freep s = 0 then xs = [] else heap_ok base xs s)"

lemma int32_small: "n < 2 ^ 31 \<Longrightarrow> int32 n = int n"
  by (simp add: int32_def)

lemma morecore_run [consumes 5]:
  assumes ok: "heap_ok base xs s" and b: "base < brk s" and c: "cells s xs \<subseteq> {..<brk s}" and g: "sbrk_grows sbrk" and n: "n < 2 ^ 28"
  obtains (refused) "morecore sbrk n s = Some (0, s)" "sbrk (8 * int (max 4096 n)) (brk s) = None"
    | (grown) t xs' where "morecore sbrk n s = Some (freep t, t)" "heap_ok base xs' t" "cells t xs' = cells s xs \<union> {brk s..<brk t}" "brk s \<le> brk t"
        "\<exists>x \<in> set xs'. n \<le> h_size t x" "\<And>a. a \<notin> cells s xs \<Longrightarrow> a < brk s \<Longrightarrow> h_size t a = h_size s a"
proof -
  define nu where "nu = (if n < 4096 then 4096 else n)"
  have nu: "n \<le> nu" "0 < nu" "nu < 2 ^ 28" using n by (auto simp: nu_def)
  have i: "int32 (nu * 8 mod 2 ^ 32) = int (nu * 8)" using nu(3) by (subst int32_small) simp_all
  show thesis
  proof (cases "sbrk (int (nu * 8)) (brk s)")
    case None
    moreover have "int (nu * 8) = 8 * int (max 4096 n)" by (auto simp: nu_def)
    ultimately show thesis using refused i by (simp add: morecore_def nu_def [symmetric] Let_def mult.commute)
  next
    case (Some ab)
    have "\<forall>a b'. sbrk (int (nu * 8)) (brk s) = Some (a, b') \<longrightarrow> a = brk s \<and> b' = brk s + nu * 8 \<and> b' \<le> 2 ^ 31"
      using g unfolding sbrk_grows_def by (metis nat_int of_nat_0_le_iff)
    then have e: "sbrk (int (nu * 8)) (brk s) = Some (brk s, brk s + nu * 8)" "brk s + nu * 8 \<le> 2 ^ 31" using Some by (cases ab, simp)+
    let ?s = "set_size (brk s) nu (s\<lparr>brk := brk s + nu * 8\<rparr>)"
    have hs: "h_size ?s (brk s) = nu" "brk ?s = brk s + nu * 8" "h_ptr ?s = h_ptr s" "freep ?s = freep s" by (simp_all add: set_size_def)
    have nx: "brk s \<notin> set xs" using c ok by (fastforce simp: cells_def block_def heap_ok_def)
    have cs: "cells ?s xs = cells s xs" by (rule cells_cong) (use nx in \<open>auto simp: set_size_def\<close>)
    have "laid (h_size ?s) (base # xs)" by (rule laid_cong [of "h_size s"]) (use ok nx b in \<open>auto simp: heap_ok_def set_size_def\<close>)
    then have ok': "heap_ok base xs ?s" using ok nx b hs by (auto simp: heap_ok_def set_size_def)
    have dis: "block (brk s) (h_size ?s (brk s)) \<inter> cells ?s xs = {}" unfolding cs using c by (auto simp: block_def)
    have sz: "0 < h_size ?s (brk s)" "brk s + 8 * h_size ?s (brk s) \<le> 2 ^ 32" unfolding hs(1) using nu(2) e(2) by simp_all
    obtain xs' t where t: "free (brk s + 8) ?s = Some t" "heap_ok base xs' t" "cells t xs' = cells ?s xs \<union> block (brk s) (h_size ?s (brk s))" "brk t = brk ?s"
        "\<exists>x \<in> set xs'. h_size ?s (brk s) \<le> h_size t x" "\<And>a. a \<notin> cells ?s xs \<Longrightarrow> a \<noteq> brk s \<Longrightarrow> h_size t a = h_size ?s a"
      by (rule free_run [OF ok' sz b dis]) blast
    show thesis
    proof (rule grown)
      show "morecore sbrk n s = Some (freep t, t)" using e(1) t(1) i by (simp add: morecore_def nu_def [symmetric] Let_def)
      show "cells t xs' = cells s xs \<union> {brk s..<brk t}" using t(3,4) cs hs by (simp add: block_def mult.commute)
      show "\<exists>x \<in> set xs'. n \<le> h_size t x" using t(5) hs(1) nu(1) by (metis order_trans)
      show "h_size t a = h_size s a" if "a \<notin> cells s xs" "a < brk s" for a using t(6) [of a] that cs by (simp add: set_size_def)
    qed (use t(2,4) hs(2) in simp_all)
  qed
qed

lemma malloc_found [consumes 2]:
  assumes ok: "heap_ok base xs s" and n: "0 < n"
  obtains (found) a t xs' where "malloc_loop sbrk n (freep s) (h_ptr s (freep s)) s = Some (a + 8, t)" "heap_ok base xs' t" "h_size t a = n"
      "block a n \<subseteq> cells s xs" "cells t xs' = cells s xs - block a n" "brk t = brk s" "base < a" "\<And>c. c \<notin> cells s xs \<Longrightarrow> h_size t c = h_size s c"
    | (none) "\<forall>x \<in> set xs. h_size s x < n" "malloc_loop sbrk n (freep s) (h_ptr s (freep s)) s =
        (case morecore sbrk n s of None \<Rightarrow> None | Some (q, s) \<Rightarrow> if q = 0 then Some (0, s) else malloc_loop sbrk n q (h_ptr s q) s)"
proof -
  obtain ws where w: "linked (h_ptr s) (freep s # ws) (freep s)" "set (freep s # ws) = set (base # xs)" "freep s \<notin> set ws"
    by (rule ring_from [OF ok])
  have hp: "h_ptr s (freep s) = hd (ws @ [freep s])" using w(1) by simp
  from malloc_walk [OF w(1,3), of n sbrk] show thesis
  proof (elim disjE exE conjE)
    fix r p assume r: "r \<in> set (freep s # ws)" "h_ptr s r = p" "n \<le> h_size s p" "malloc_loop sbrk n (freep s) (hd (ws @ [freep s])) s = Some (take_block n r p s)"
    have "r \<in> set (base # xs)" using r(1) unfolding w(2) .
    from take_block_run [OF ok this r(2) n r(3)] show thesis using found r(4) hp by metis
  next
    assume a: "\<forall>p \<in> set (ws @ [freep s]). h_size s p < n" "malloc_loop sbrk n (freep s) (hd (ws @ [freep s])) s =
       (case morecore sbrk n s of None \<Rightarrow> None | Some (q, s) \<Rightarrow> if q = 0 then Some (0, s) else malloc_loop sbrk n q (h_ptr s q) s)"
    have "set (ws @ [freep s]) = set (base # xs)" using w(2) by simp
    then have "\<forall>x \<in> set xs. h_size s x < n" using a(1) by auto
    then show thesis using none a(2) hp by simp
  qed
qed

lemma units_enough: "nbytes < 2 ^ 32 - 7 \<Longrightarrow> nbytes \<le> 8 * (units nbytes - 1) \<and> 0 < units nbytes"
  by (simp add: units_def)

lemma units_small: "nbytes < 2 ^ 31 - 64 \<Longrightarrow> units nbytes < 2 ^ 28"
  by (simp add: units_def)

text \<open>The heap at the first call.\<close>

lemma first_call:
  assumes "ready_heap base xs s"
  obtains s' where "heap_ok base xs s'" "cells s' xs = cells s xs" "brk s' = brk s"
    "malloc base sbrk n s = malloc_loop sbrk (units n) (freep s') (h_ptr s' (freep s')) s'" "\<And>c. c \<noteq> base \<Longrightarrow> h_size s' c = h_size s c"
proof (cases "freep s = 0")
  case True
  let ?s = "set_size base 0 (set_ptr base base (s\<lparr>freep := base\<rparr>))"
  have "heap_ok base xs ?s" "cells ?s xs = cells s xs" using assms True
    by (simp_all add: ready_heap_def heap_ok_def set_size_def set_ptr_def laid_def cells_def)
  then show thesis using that [of ?s] True by (simp add: malloc_def set_size_def set_ptr_def)
next
  case False
  then show thesis using that [of s] assms by (simp add: ready_heap_def malloc_def)
qed

text \<open>A block that has been taken can be given back.\<close>

lemma free_taken:
  assumes "heap_ok base ys t" and "h_size t a = n" and "0 < n" and "base < a" and "cells t ys = C - block a n" and "block a n \<subseteq> C"
    and "C \<subseteq> {..<brk t}" and "base < brk t" and "0 < base" and "C \<subseteq> {..<2 ^ 32}"
  shows "\<exists>u zs. free (a + 8) t = Some u \<and> ready_heap base zs u \<and> cells u zs = C"
proof -
  have "a + 8 * n - 1 \<in> block a n" using assms(3) by (simp add: block_def)
  then have "a + 8 * n - 1 < 2 ^ 32" using assms(6,10) by auto
  then have "a + 8 * h_size t a \<le> 2 ^ 32" using assms(2,3) by simp
  moreover have "block a (h_size t a) \<inter> cells t ys = {}" using assms(2,5) by auto
  ultimately obtain zs u where u: "free (a + 8) t = Some u" "heap_ok base zs u" "cells u zs = cells t ys \<union> block a (h_size t a)" "brk u = brk t"
    using free_run [OF assms(1), of a] assms(2-4) by metis
  have "cells u zs = C" using u(3) assms(2,5,6) by auto
  moreover have "freep u \<noteq> 0" using u(2) assms(9) by (auto simp: heap_ok_def laid_def)
  ultimately show ?thesis using u assms(7-9) by (auto simp: ready_heap_def)
qed

lemma cells_bound: "heap_ok base xs s \<Longrightarrow> cells s xs \<subseteq> {..<2 ^ 32}"
  by (fastforce simp: heap_ok_def cells_def block_def)

text \<open>
  C19. \<^verbatim>\<open>malloc\<close> always returns: a null pointer if the kernel refuses memory, and otherwise a block of its own with
  room for the bytes asked for, cut out of the free memory or of the memory the kernel has added. \<^verbatim>\<open>free\<close> of the block adds it
  to the free memory again. The list of free blocks stays a ring in the order of addresses without overlaps, and the sizes in the
  headers of all other blocks are untouched.
\<close>

theorem malloc_free:
  assumes "ready_heap base xs s" and "sbrk_grows sbrk" and "nbytes < 2 ^ 31 - 64"
  shows "\<exists>r t ys. malloc base sbrk nbytes s = Some (r, t) \<and> ready_heap base ys t
    \<and> (if r = 0 then cells t ys = cells s xs \<and> brk t = brk s \<and> sbrk (8 * int (max 4096 (units nbytes))) (brk s) = None
       else h_size t (r - 8) = units nbytes \<and> nbytes \<le> 8 * (units nbytes - 1) \<and> brk s \<le> brk t
         \<and> block (r - 8) (units nbytes) \<subseteq> cells s xs \<union> {brk s..<brk t}
         \<and> cells t ys = (cells s xs \<union> {brk s..<brk t}) - block (r - 8) (units nbytes)
         \<and> (\<exists>u zs. free r t = Some u \<and> ready_heap base zs u \<and> cells u zs = cells s xs \<union> {brk s..<brk t}))
    \<and> (\<forall>c. c \<noteq> base \<longrightarrow> c < brk s \<longrightarrow> c \<notin> cells s xs \<longrightarrow> h_size t c = h_size s c)"
proof -
  note n = units_enough [of nbytes] units_small [OF assms(3)]
  have n0: "nbytes \<le> 8 * (units nbytes - 1)" "0 < units nbytes" using n(1) assms(3) by auto
  obtain s' where s: "heap_ok base xs s'" "cells s' xs = cells s xs" "brk s' = brk s"
      "malloc base sbrk nbytes s = malloc_loop sbrk (units nbytes) (freep s') (h_ptr s' (freep s')) s'" "\<And>c. c \<noteq> base \<Longrightarrow> h_size s' c = h_size s c"
    by (rule first_call [OF assms(1), where sbrk = sbrk and n = nbytes]) blast
  have rd: "0 < base" "base < brk s" "cells s xs \<subseteq> {..<brk s}" using assms(1) by (simp_all add: ready_heap_def)
  have fp: "freep t \<noteq> 0" if "heap_ok base ys t" for ys t using that rd(1) by (auto simp: heap_ok_def laid_def)
  from s(1) n0(2) show ?thesis
  proof (cases rule: malloc_found [where sbrk = sbrk])
    case (found a t ys)
    have c: "block a (units nbytes) \<subseteq> cells s xs" "cells t ys = cells s xs - block a (units nbytes)" using found(4,5) s(2) by simp_all
    have "\<exists>u zs. free (a + 8) t = Some u \<and> ready_heap base zs u \<and> cells u zs = cells s xs"
      by (rule free_taken [OF found(2,3) n0(2) found(7) c(2,1)]) (use rd found(6) s(2,3) cells_bound [OF s(1)] in simp_all)
    moreover have "ready_heap base ys t" using found(2,6) s(3) rd c(2) fp [OF found(2)] by (auto simp: ready_heap_def)
    ultimately show ?thesis using found(1,3,6) s(3-5) c n0(1) found(8) s(2)
      by (intro exI [of _ "a + 8"] exI [of _ t] exI [of _ ys]) auto
  next
    case none
    have mc: "base < brk s'" "cells s' xs \<subseteq> {..<brk s'}" using rd s(2,3) by simp_all
    from s(1) mc assms(2) n(2) show ?thesis
    proof (cases rule: morecore_run)
      case refused
      have "ready_heap base xs s'" using s(1-3) rd fp [OF s(1)] by (simp add: ready_heap_def)
      then show ?thesis using none(2) refused s by (intro exI [of _ 0] exI [of _ s'] exI [of _ xs]) simp
    next
      case (grown t ys)
      have l: "malloc base sbrk nbytes s = malloc_loop sbrk (units nbytes) (freep t) (h_ptr t (freep t)) t"
        using s(4) none(2) grown(1) fp [OF grown(2)] by simp
      from grown(2) n0(2) show ?thesis
      proof (cases rule: malloc_found [where sbrk = sbrk])
        case (found a u zs)
        let ?C = "cells s xs \<union> {brk s..<brk t}"
        have C: "cells t ys = ?C" using grown(3) s(2,3) by simp
        have c: "block a (units nbytes) \<subseteq> ?C" "cells u zs = ?C - block a (units nbytes)" using found(4,5) C by simp_all
        have bt: "brk s \<le> brk t" using grown(4) s(3) by simp
        have "\<exists>v ws. free (a + 8) u = Some v \<and> ready_heap base ws v \<and> cells v ws = ?C"
          by (rule free_taken [OF found(2,3) n0(2) found(7) c(2,1)]) (use rd found(6) bt C cells_bound [OF grown(2)] in auto)
        moreover have "ready_heap base zs u" using found(2,6) bt rd c(2) fp [OF found(2)] by (auto simp: ready_heap_def)
        moreover have "h_size u c = h_size s c" if "c \<noteq> base" "c < brk s" "c \<notin> cells s xs" for c
          using found(8) [of c] grown(6) [of c] s(2,3,5) that C by auto
        ultimately show ?thesis using l found(1,3,6) c n0(1) bt
          by (intro exI [of _ "a + 8"] exI [of _ u] exI [of _ zs]) auto
      next
        case none
        then show ?thesis using grown(5) by (auto simp: not_le [symmetric])
      qed
    qed
  qed
qed

definition grant :: sbrk where
  "grant n b = (if 0 \<le> n \<and> b + nat n \<le> 2 ^ 31 then Some (b, b + nat n) else None)"

definition fresh_heap :: heap where
  "fresh_heap = \<lparr>h_ptr = (\<lambda>_. 0), h_size = (\<lambda>_. 0), freep = 0, brk = 4096\<rparr>"

theorem malloc_free_witness:
  "\<exists>r t u zs. malloc 16 grant 100 fresh_heap = Some (r, t) \<and> r \<noteq> 0 \<and> h_size t (r - 8) = 14 \<and> free r t = Some u \<and> cells u zs = {4096..<brk t}"
proof -
  have "ready_heap 16 [] fresh_heap" by (simp add: ready_heap_def fresh_heap_def cells_def)
  moreover have "sbrk_grows grant" by (auto simp: sbrk_grows_def grant_def split: if_splits)
  moreover have "units 100 = 14" by (simp add: units_def)
  moreover have "grant (8 * int (max 4096 14)) (brk fresh_heap) \<noteq> None" by (simp add: grant_def fresh_heap_def)
  moreover have "cells fresh_heap [] = {}" "brk fresh_heap = 4096" by (simp_all add: cells_def fresh_heap_def)
  ultimately show ?thesis using malloc_free [of 16 "[]" fresh_heap grant 100] by (auto split: if_splits)
qed

text \<open>The count of headers is computed in 32 bits: a request of almost all of memory gets a block without room for a single byte.\<close>

lemma units_wrap: "units (2 ^ 32 - 1) = 1"
  by (simp add: units_def)

end
