(* ===== verification/Spec2Isabelle.thy ===== *)
theory Spec2Isabelle
  imports Mlfq_Sched Multilevel Exec Pipe_Fifo Account_Spec Shell_Run Grep Fs_File Printf Umalloc
begin

text \<open>
  A verification library for the operating system under \<^verbatim>\<open>src/xv6-public\<close>: the xv6 kernel with a multi-level feedback
  queue and a multi-level scheduler, threads, user accounts and permissions, together with its shell, \<^verbatim>\<open>grep\<close> and the
  user library.

  \<^bold>\<open>Parts and their interplay\<close>. Processes (\<^verbatim>\<open>proc.c\<close> or one of the two variants \<^verbatim>\<open>proc_MLFQ.c\<close>, \<^verbatim>\<open>proc_multiLevel.c\<close>) run on the
  page allocator (\<^verbatim>\<open>kalloc.c\<close>) and the page tables (\<^verbatim>\<open>vm.c\<close>), are protected by spin locks (\<^verbatim>\<open>spinlock.c\<close>) and wait for each other
  by sleep and wakeup. Sleep locks (\<^verbatim>\<open>sleeplock.c\<close>), the buffer cache (\<^verbatim>\<open>bio.c\<close>), the log (\<^verbatim>\<open>log.c\<close>) and the file
  system (\<^verbatim>\<open>fs.c\<close>) stand on them in this order; open files and pipes (\<^verbatim>\<open>file.c\<close>, \<^verbatim>\<open>pipe.c\<close>), the system calls on files and
  the accounts (\<^verbatim>\<open>sysfile.c\<close>) and \<^verbatim>\<open>exec.c\<close> come on top. The shell (\<^verbatim>\<open>sh.c\<close>) and \<^verbatim>\<open>grep.c\<close> are user programs.

  \<^bold>\<open>The machine\<close>. A kernel routine is a value of the type \<^verbatim>\<open>kernel\<close> of \<^verbatim>\<open>Prelude\<close>: a function of the state whose
  outcome is a result, a panic with its message, a fault (an access outside an array or through a null pointer), \<^verbatim>\<open>Stuck\<close> (a
  loop that does not go on) or \<^verbatim>\<open>Wait\<close>, the point where \<^verbatim>\<open>swtch\<close> hands the processor to somebody else, with what the routine does
  when it gets the processor back with an arbitrary new state. A routine that sleeps is therefore cut exactly where the
  code is, and the interleavings are all ways of running other routines at these points. The state is a record that grows
  by one extension per layer: locks, memory, process table, sleep locks and wake-ups, buffers and disk, log, accounts, inodes,
  pipes, files. Pointers to entries of a table are indices, null is \<^verbatim>\<open>None\<close> (0 for addresses), 32-bit values are words
  or numbers reduced explicitly. A lock taken by another processor gives \<^verbatim>\<open>Stuck\<close>, the spinning of \<^verbatim>\<open>acquire\<close>.

  \<^bold>\<open>Theories and what they model\<close>.
  \<^item> \<^verbatim>\<open>Prelude\<close>: the kernel monad, rules for its outcomes (\<^verbatim>\<open>wp\<close>), for steps and interleavings (\<^verbatim>\<open>kframe\<close>, \<^verbatim>\<open>rg\<close>, \<^verbatim>\<open>kstable\<close>),
    lemmas on lists and words. \<^verbatim>\<open>Stable\<close> adds rules for invariants under interleaving, \<^verbatim>\<open>Ring\<close> rings with wrapping counters.
  \<^item> \<^verbatim>\<open>Locks\<close> (\<^verbatim>\<open>spinlock.c\<close>): \<^verbatim>\<open>acquire\<close>, \<^verbatim>\<open>release\<close>, \<^verbatim>\<open>pushcli\<close>, \<^verbatim>\<open>popcli\<close>, \<^verbatim>\<open>holding\<close>. \<^verbatim>\<open>Sleeplock\<close> (\<^verbatim>\<open>sleeplock.c\<close>).
  \<^item> \<^verbatim>\<open>Memory\<close>, \<^verbatim>\<open>CString\<close> (\<^verbatim>\<open>string.c\<close>, string part of \<^verbatim>\<open>ulib.c\<close>): memory as a function from addresses to bytes; a string is the
    list of the bytes from the pointer to the end of its object, and reading beyond the end is \<^verbatim>\<open>None\<close>.
  \<^item> \<^verbatim>\<open>Kalloc\<close> (\<^verbatim>\<open>kalloc.c\<close>), \<^verbatim>\<open>Vm\<close> (\<^verbatim>\<open>vm.c\<close>, \<^verbatim>\<open>mmu.h\<close>, \<^verbatim>\<open>memlayout.h\<close>): the free list and the page tables live in the byte memory.
  \<^item> \<^verbatim>\<open>Ptable\<close>, \<^verbatim>\<open>Proc\<close> (\<^verbatim>\<open>proc.c\<close>, \<^verbatim>\<open>proc.h\<close>): the process table, \<^verbatim>\<open>sched\<close>, \<^verbatim>\<open>sleep\<close>, \<^verbatim>\<open>wakeup\<close>, \<^verbatim>\<open>kill\<close>, \<^verbatim>\<open>scheduler\<close>, and what the
    variants of the file share. \<^verbatim>\<open>Threads\<close>: \<^verbatim>\<open>userinit\<close>, \<^verbatim>\<open>fork\<close>, \<^verbatim>\<open>exit\<close>, \<^verbatim>\<open>wait\<close>, \<^verbatim>\<open>thread_create\<close>, \<^verbatim>\<open>thread_exit\<close>,
    \<^verbatim>\<open>thread_join\<close> and the clearing of threads.
  \<^item> \<^verbatim>\<open>Mlfq\<close>, \<^verbatim>\<open>Mlfq_Inv\<close>, \<^verbatim>\<open>Mlfq_Sched\<close> (\<^verbatim>\<open>proc_MLFQ.c\<close>, timer part of \<^verbatim>\<open>trap.c\<close>): every operation that touches the queues, prefixed
    \<^verbatim>\<open>mlfq_\<close> where \<^verbatim>\<open>proc.c\<close> has the same name; \<^verbatim>\<open>sch_loop\<close> is the search with its two jumps, by level and slot. \<^verbatim>\<open>Multilevel\<close>: the
    scheduler of \<^verbatim>\<open>proc_multiLevel.c\<close>.
  \<^item> \<^verbatim>\<open>Bio\<close>, \<^verbatim>\<open>Bcache\<close> (\<^verbatim>\<open>bio.c\<close>, \<^verbatim>\<open>memide.c\<close>): buffers, the recently-used list, the disk as a list of blocks. \<^verbatim>\<open>Layout\<close> (\<^verbatim>\<open>fs.h\<close>,
    \<^verbatim>\<open>stat.h\<close>): the structures on disk as bytes. \<^verbatim>\<open>Wal\<close>, \<^verbatim>\<open>Wal_Crash\<close>, \<^verbatim>\<open>Wal_Txn\<close> (\<^verbatim>\<open>log.c\<close>).
  \<^item> \<^verbatim>\<open>Fs\<close> (\<^verbatim>\<open>fs.c\<close>), with \<^verbatim>\<open>Fs_Block\<close>, \<^verbatim>\<open>Fs_Data\<close> and \<^verbatim>\<open>Fs_File\<close> for its properties. \<^verbatim>\<open>Perm\<close>: \<^verbatim>\<open>ltable\<close>, \<^verbatim>\<open>whoami\<close> and \<^verbatim>\<open>checkmod\<close>
    of \<^verbatim>\<open>sysfile.c\<close>. \<^verbatim>\<open>Uaccess\<close> (\<^verbatim>\<open>syscall.c\<close>): arguments of system calls. \<^verbatim>\<open>Pipe\<close>, \<^verbatim>\<open>Pipe_Fifo\<close> (\<^verbatim>\<open>pipe.c\<close>), \<^verbatim>\<open>File\<close> (\<^verbatim>\<open>file.c\<close>),
    \<^verbatim>\<open>Sysfile\<close> (system calls on files), \<^verbatim>\<open>Account\<close>, \<^verbatim>\<open>Account_Spec\<close> (user accounts), \<^verbatim>\<open>Exec\<close> (\<^verbatim>\<open>exec.c\<close>, \<^verbatim>\<open>elf.h\<close>).
  \<^item> \<^verbatim>\<open>Shell\<close>, \<^verbatim>\<open>Shell_Parse\<close>, \<^verbatim>\<open>Shell_Grammar\<close> (the parser of \<^verbatim>\<open>sh.c\<close>), \<^verbatim>\<open>Shell_Run\<close> (\<^verbatim>\<open>runcmd\<close> as a program over system calls),
    \<^verbatim>\<open>Grep\<close> (\<^verbatim>\<open>grep.c\<close>), \<^verbatim>\<open>Printf\<close> (\<^verbatim>\<open>printf.c\<close>), \<^verbatim>\<open>Umalloc\<close> (\<^verbatim>\<open>umalloc.c\<close>).

  \<^bold>\<open>Interfaces\<close>. \<^verbatim>\<open>frame\<close> (routines that change part of the state only) is interpreted for locks, memory and queues;
  \<^verbatim>\<open>lifo_pool\<close> for the page allocator; \<^verbatim>\<open>block_store\<close>, a disk of blocks behind read, write and release, once for the plain
  cache and once for the cache under the log; \<^verbatim>\<open>fifo\<close> for the ring of a pipe; \<^verbatim>\<open>off_table\<close>, invariants that the process table has
  no part in, for pipes. The properties below rest on these interpretations.

  \<^bold>\<open>What is shown\<close>.
  \<^item> Scheduling: in every reachable configuration \<^verbatim>\<open>numproc\<close> is exact; a dispatched process is runnable, on the best level and of
    the best priority; a timer tick charges, demotes, boosts and wakes exactly as written; when the search ends and when it runs
    for ever; an exhausted process runs again; a tick after \<^verbatim>\<open>rst\<close> panics. Round robin and first-come-first-served choose as they
    should, \<^verbatim>\<open>sleep\<close> loses no wake-up, \<^verbatim>\<open>wakeup\<close> and \<^verbatim>\<open>kill\<close> act on the right processes.
  \<^item> Storage: a commit stopped after any write is recovered to all or nothing; the end of the last transaction makes it durable;
    block allocation is first fit; a file is an array of bytes for \<^verbatim>\<open>readi\<close> and \<^verbatim>\<open>writei\<close>, other files keep theirs; an inode
    survives writing and loading.
  \<^item> Pipes are bounded queues, under interleaving too. The account table is a list of users that \<^verbatim>\<open>login\<close> searches and
    \<^verbatim>\<open>/passwd\<close> stores; \<^verbatim>\<open>checkmod\<close> grants by the right bits.
  \<^item> Shell: the parser ends inside its buffer, inverts the layout of every line of the grammar, and a command starts its programs with
    the descriptors it says, also when calls fail. \<^verbatim>\<open>grep\<close> matches the language of the pattern. The allocators hand
    out disjoint memory, \<^verbatim>\<open>printint\<close> stays in its buffer, and spin locks exclude each other.

  \<^bold>\<open>Bounds and fuel\<close>. Loops over page indices carry \<^verbatim>\<open>va_fuel\<close>, one unit per page of the address space, so they stop only after a
  full turn. \<^verbatim>\<open>parse_fuel\<close> is proved sufficient for every line. The waiting loops (\<^verbatim>\<open>acquiresleep\<close>, \<^verbatim>\<open>begin_op\<close>, \<^verbatim>\<open>wait\<close>,
  \<^verbatim>\<open>thread_join\<close>, pipes) are followed through \<^verbatim>\<open>wakes\<close> wake-ups, a component of the state on which no property depends: it is
  arbitrary. The schedulers run for a number of rounds that is an argument; properties hold for every number, or name one that is
  enough. The list of buffers is followed through all of them once. \<^verbatim>\<open>puts_at\<close> of \<^verbatim>\<open>Printf\<close> reads at most the 2^32 bytes there are. Process
  and thread numbers, \<^verbatim>\<open>nextpid\<close>, \<^verbatim>\<open>ncli\<close> and \<^verbatim>\<open>p_extime\<close> are integers that do not wrap around: they count processes created, locks
  nested and ticks within one quantum.

  \<^bold>\<open>Parameters\<close>. The device table \<^verbatim>\<open>devsw\<close> is an argument of reading and writing inodes; the initial program of \<^verbatim>\<open>userinit\<close>
  likewise. The MLFQ kernel takes the file operations of \<^verbatim>\<open>fork\<close> and \<^verbatim>\<open>exit\<close> as an argument that is required to leave the queues alone
  (\<^verbatim>\<open>flayer_ok\<close>). \<^verbatim>\<open>malloc\<close> takes \<^verbatim>\<open>sbrk\<close>, and \<^verbatim>\<open>runcmd\<close> the results of its system calls.

  \<^bold>\<open>Not modelled\<close>: the console, keyboard, serial line, IDE disk and interrupt controllers, boot and assembly code (registers and
  input and output); the dispatch of system calls and \<^verbatim>\<open>sysproc.c\<close>, which only pass arguments on; the debugging output of
  \<^verbatim>\<open>procdump\<close>, \<^verbatim>\<open>printstat\<close> and \<^verbatim>\<open>cprintf\<close>; \<^verbatim>\<open>mkfs.c\<close>; the small user programs and the tests.
\<close>

end
